(* ===== verification/Prelude.thy ===== *)
theory Prelude imports Main "HOL-Library.Word" begin

text \<open>
  Shared vocabulary of the development: the machine types, the outcomes a C++ operation
  can have besides returning (a thrown exception, undefined behaviour, program
  termination), byte order, and raw buffers with bounds-checked \<open>memcpy\<close>.
\<close>

unbundle bit_operations_syntax

section \<open>Machine types\<close>

type_synonym byte = "8 word"
type_synonym u16 = "16 word"
type_synonym u32 = "32 word"
type_synonym u64 = "64 word"

named_theorems buf_simps

section \<open>Outcomes\<close>

text \<open>What the C++ abstract machine leaves undefined, one constructor per reason.\<close>

datatype fault =
    NullString        \<comment> \<open>\<open>std::string(NULL)\<close>\<close>
  | UninitRead        \<comment> \<open>a member read before anything was stored in it\<close>
  | OutOfBounds       \<comment> \<open>a copy that leaves its source or its destination\<close>
  | DoubleFree        \<comment> \<open>\<open>delete\<close> of a pointer that is not live\<close>
  | EndDeref          \<comment> \<open>dereference of a container's \<open>end()\<close>\<close>
  | DivByZero         \<comment> \<open>division of integers by zero\<close>
  | SignedOverflow    \<comment> \<open>overflow of a signed \<open>int\<close>\<close>
  | EmptyPointer      \<comment> \<open>dereference of a null or dead pointer\<close>
  | DoubleLink        \<comment> \<open>an object linked into an intrusive list it is already linked in\<close>

text \<open>An exception in flight: the message a handler would see and the stored code.\<close>

datatype exn = GException (exn_msg: string) (exn_code: int) | OtherException string

datatype stop = UB fault | Throw exn | Terminate

type_synonym 'a result = "stop + 'a"

definition and_then :: "'a result \<Rightarrow> ('a \<Rightarrow> 'b result) \<Rightarrow> 'b result" where
  "and_then r f = (case r of Inl e \<Rightarrow> Inl e | Inr a \<Rightarrow> f a)"

lemma and_then_simps [simp]: "and_then (Inl e) f = Inl e" "and_then (Inr a) f = f a"
  by (simp_all add: and_then_def)

lemma and_then_Inr: "and_then x f = Inr b \<longleftrightarrow> (\<exists>a. x = Inr a \<and> f a = Inr b)"
  by (cases x) simp_all

text \<open>The \<open>errno\<close> values the code names (Linux).\<close>

definition ENOENT :: int where "ENOENT = 2"
definition ENOMEM :: int where "ENOMEM = 12"
definition EFAULT :: int where "EFAULT = 14"
definition EINVAL :: int where "EINVAL = 22"
definition EALREADY :: int where "EALREADY = 114"

section \<open>Byte order\<close>

datatype endian = LittleEndian | BigEndian

definition be32 :: "u32 \<Rightarrow> byte list" where
  "be32 w = [ucast (drop_bit 24 w), ucast (drop_bit 16 w), ucast (drop_bit 8 w), ucast w]"

fun from_be32 :: "byte list \<Rightarrow> u32" where
  "from_be32 [a, b, c, d] =
     push_bit 24 (ucast a) OR push_bit 16 (ucast b) OR push_bit 8 (ucast c) OR ucast d"
| "from_be32 _ = 0"

text \<open>The four bytes of a \<open>uint32_t\<close> in memory, and the value of four bytes in memory.\<close>

definition mem32 :: "endian \<Rightarrow> u32 \<Rightarrow> byte list" where
  "mem32 e w = (case e of BigEndian \<Rightarrow> be32 w | LittleEndian \<Rightarrow> rev (be32 w))"

definition load32 :: "endian \<Rightarrow> byte list \<Rightarrow> u32" where
  "load32 e bs = (case e of BigEndian \<Rightarrow> from_be32 bs | LittleEndian \<Rightarrow> from_be32 (rev bs))"

text \<open>\<open>htonl\<close> and \<open>ntohl\<close>: reinterpretation between the host's order and network order.\<close>

definition htonl :: "endian \<Rightarrow> u32 \<Rightarrow> u32" where
  "htonl e w = load32 e (be32 w)"

definition ntohl :: "endian \<Rightarrow> u32 \<Rightarrow> u32" where
  "ntohl e w = from_be32 (mem32 e w)"

lemma length_be32 [simp]: "length (be32 w) = 4"
  by (simp add: be32_def)

lemma length_mem32 [simp]: "length (mem32 e w) = 4"
  by (simp add: mem32_def split: endian.split)

lemma from_be32_be32 [simp]: "from_be32 (be32 w) = w"
proof (rule bit_word_eqI)
  fix n :: nat
  assume n: "n < LENGTH(32)"
  consider "n < 8" | "8 \<le> n" "n < 16" | "16 \<le> n" "n < 24" | "24 \<le> n" by linarith
  then show "bit (from_be32 (be32 w)) n = bit w n"
    using n by cases (auto simp: be32_def bit_simps)
qed

lemma length4E:
  assumes "length xs = 4"
  obtains a b c d where "xs = [a, b, c, d]"
  using assms by (auto simp: eval_nat_numeral length_Suc_conv)

lemma not_bit_byte [simp]: "8 \<le> n \<Longrightarrow> \<not> bit (b :: byte) n"
  using bit_imp_le_length [of b n] by auto

lemma not_bit_u32 [simp]: "32 \<le> n \<Longrightarrow> \<not> bit (w :: u32) n"
  using bit_imp_le_length [of w n] by auto

lemma unat_byte_less [simp]: "unat (b :: byte) < 256"
  using unsigned_less [of b, where 'a = nat] by simp

lemma be32_from_be32 [simp]:
  assumes "length bs = 4"
  shows "be32 (from_be32 bs) = bs"
proof -
  obtain a b c d where bs: "bs = [a, b, c, d]"
    using assms by (rule length4E)
  show ?thesis
    unfolding bs be32_def from_be32.simps
    by (auto intro!: bit_word_eqI simp: bit_simps)
qed

lemma load32_mem32 [simp]: "load32 e (mem32 e w) = w"
  by (cases e) (simp_all add: load32_def mem32_def)

lemma mem32_load32 [simp]: "length bs = 4 \<Longrightarrow> mem32 e (load32 e bs) = bs"
  by (cases e) (simp_all add: load32_def mem32_def)

lemma mem32_htonl [simp]: "mem32 e (htonl e w) = be32 w"
  by (simp add: htonl_def)

lemma ntohl_load32_be32 [simp]: "ntohl e (load32 e (be32 w)) = w"
  by (simp add: ntohl_def)

lemma ntohl_htonl [simp]: "ntohl e (htonl e w) = w"
  by (simp add: htonl_def)

section \<open>Raw buffers\<close>

text \<open>
  \<open>blit\<close> is the effect of \<open>memcpy(buf + off, bs, length bs)\<close>; \<open>mem_write\<close> and
  \<open>mem_read\<close> are the copies with their bounds: \<open>None\<close> when the copy leaves the buffer.
\<close>

definition blit :: "'a list \<Rightarrow> nat \<Rightarrow> 'a list \<Rightarrow> 'a list" where
  "blit buf off bs = take off buf @ bs @ drop (off + length bs) buf"

definition mem_write :: "'a list \<Rightarrow> nat \<Rightarrow> 'a list \<Rightarrow> 'a list option" where
  "mem_write buf off bs = (if off + length bs \<le> length buf then Some (blit buf off bs) else None)"

definition mem_read :: "'a list \<Rightarrow> nat \<Rightarrow> nat \<Rightarrow> 'a list option" where
  "mem_read buf off n = (if off + n \<le> length buf then Some (take n (drop off buf)) else None)"

lemma length_blit [simp]: "off + length bs \<le> length buf \<Longrightarrow> length (blit buf off bs) = length buf"
  by (simp add: blit_def)

lemma take_blit [buf_simps]:
  "off + length bs \<le> length buf \<Longrightarrow> take (off + length bs) (blit buf off bs) = take off buf @ bs"
  by (simp add: blit_def)

lemma take_blit_prefix [buf_simps]:
  "n \<le> off \<Longrightarrow> off \<le> length buf \<Longrightarrow> take n (blit buf off bs) = take n buf"
  by (simp add: blit_def min_def)

lemma drop_blit_suffix [buf_simps]:
  "off + length bs \<le> n \<Longrightarrow> off + length bs \<le> length buf \<Longrightarrow> drop n (blit buf off bs) = drop n buf"
  by (simp add: blit_def)

lemma mem_read_blit [buf_simps]:
  "off + length bs \<le> length buf \<Longrightarrow> mem_read (blit buf off bs) off (length bs) = Some bs"
  by (simp add: mem_read_def blit_def)

end
