(* ===== verification/Uuid.thy ===== *)
theory Uuid imports Prelude "HOL-Library.List_Lexorder" "HOL-Library.Char_ord" begin

text \<open>
  The UUIDs that identify hosts and nodes (\<open>boost/uuid\<close>, as the repository carries it):
  the sixteen bytes, their order, variant and version, the nil and the random generator,
  and the textual form that \<open>lexical_cast\<close> prints and reads.
\<close>

section \<open>The type\<close>

text \<open>
  \<open>data[16]\<close>; \<open>operator==\<close> is \<open>std::equal\<close> over the bytes, so it is equality of lists,
  and \<open>operator<\<close> is the lexicographic order of the bytes, which is the order of lists.
\<close>

type_synonym uuid = "byte list"

definition wf_uuid :: "uuid \<Rightarrow> bool" where
  "wf_uuid u \<longleftrightarrow> length u = 16"

datatype variant_type = variant_ncs | variant_rfc_4122 | variant_microsoft | variant_future

datatype version_type = version_unknown | version_time_based | version_dce_security
  | version_name_based_md5 | version_random_number_based | version_name_based_sha1

definition is_nil :: "uuid \<Rightarrow> bool" where
  "is_nil u \<longleftrightarrow> list_all (\<lambda>b. b = 0) u"

definition variant :: "uuid \<Rightarrow> variant_type" where
  "variant u = (let octet7 = u ! 8 in
     if octet7 AND 0x80 = 0x00 then variant_ncs
     else if octet7 AND 0xC0 = 0x80 then variant_rfc_4122
     else if octet7 AND 0xE0 = 0xC0 then variant_microsoft
     else variant_future)"

definition version :: "uuid \<Rightarrow> version_type" where
  "version u = (let octet9 = u ! 6 in
     if octet9 AND 0xF0 = 0x10 then version_time_based
     else if octet9 AND 0xF0 = 0x20 then version_dce_security
     else if octet9 AND 0xF0 = 0x30 then version_name_based_md5
     else if octet9 AND 0xF0 = 0x40 then version_random_number_based
     else if octet9 AND 0xF0 = 0x50 then version_name_based_sha1
     else version_unknown)"

fun uuid_less :: "uuid \<Rightarrow> uuid \<Rightarrow> bool" where
  "uuid_less [] [] = False"
| "uuid_less [] (_ # _) = True"
| "uuid_less (_ # _) [] = False"
| "uuid_less (x # xs) (y # ys) = (if x < y then True else if y < x then False else uuid_less xs ys)"

lemma uuid_less_eq_less: "uuid_less u v \<longleftrightarrow> u < v"
  by (induction u v rule: uuid_less.induct) (auto simp: Cons_less_Cons)

section \<open>Generators\<close>

definition nil_uuid :: uuid where
  "nil_uuid = replicate 16 0"

text \<open>The two read-modify-write steps that stamp the variant and the version.\<close>

definition stamp_variant :: "uuid \<Rightarrow> uuid" where
  "stamp_variant u = u[8 := (u ! 8 AND 0xBF) OR 0x80]"

definition stamp_version :: "byte \<Rightarrow> byte \<Rightarrow> uuid \<Rightarrow> uuid" where
  "stamp_version msk v u = u[6 := (u ! 6 AND msk) OR v]"

text \<open>
  The generator's loop: \<open>n\<close> bytes are still to be written, \<open>i\<close> bytes of the current random
  word have been used (\<open>sizeof(unsigned long)\<close> is 8), \<open>g k\<close> is the \<open>k\<close>-th number drawn.
\<close>

fun random_bytes :: "(nat \<Rightarrow> u64) \<Rightarrow> nat \<Rightarrow> nat \<Rightarrow> u64 \<Rightarrow> nat \<Rightarrow> byte list" where
  "random_bytes g k i rv 0 = []"
| "random_bytes g k i rv (Suc n) =
     (if i = 8 then ucast (g k AND 0xFF) # random_bytes g (Suc k) 1 (g k) n
      else ucast (drop_bit (i * 8) rv AND 0xFF) # random_bytes g k (Suc i) rv n)"

definition random_uuid :: "(nat \<Rightarrow> u64) \<Rightarrow> uuid" where
  "random_uuid g = stamp_version 0x4F 0x40 (stamp_variant (random_bytes g 1 0 (g 0) 16))"

lemma length_random_bytes [simp]: "length (random_bytes g k i rv n) = n"
  by (induction g k i rv n rule: random_bytes.induct) auto

lemma length_stamp [simp]:
  "length (stamp_variant u) = length u" "length (stamp_version msk v u) = length u"
  by (simp_all add: stamp_variant_def stamp_version_def)

lemma wf_nil_uuid [simp]: "wf_uuid nil_uuid"
  by (simp add: wf_uuid_def nil_uuid_def)

lemma wf_random_uuid [simp]: "wf_uuid (random_uuid g)"
  by (simp add: wf_uuid_def random_uuid_def)

lemma is_nil_iff: "wf_uuid u \<Longrightarrow> is_nil u \<longleftrightarrow> u = nil_uuid"
  by (auto simp: is_nil_def wf_uuid_def nil_uuid_def list_all_iff intro: replicate_eqI)

lemma stamped_octets:
  fixes x :: byte
  shows "((x AND 0xBF) OR 0x80) AND 0x80 = 0x80"
    and "((x AND 0xBF) OR 0x80) AND 0xC0 = 0x80"
    and "((x AND 0x4F) OR 0x40) AND 0xF0 = 0x40"
    and "((x AND 0x5F) OR 0x50) AND 0xF0 = 0x50"
  by (simp_all add: bit.conj_disj_distrib2 and.assoc word_ao_absorbs)

text \<open>
  Every generated uuid is an RFC 4122 uuid of version 4, whatever the random numbers are.
\<close>

lemma variant_stamped:
  "length u = 16 \<Longrightarrow> variant (stamp_version msk v (stamp_variant u)) = variant_rfc_4122"
  by (simp add: variant_def stamp_version_def stamp_variant_def Let_def stamped_octets)

lemma version_stamp_random:
  "length u = 16 \<Longrightarrow> version (stamp_version 0x4F 0x40 u) = version_random_number_based"
  by (simp add: version_def stamp_version_def Let_def stamped_octets)

lemma version_stamp_sha1:
  "length u = 16 \<Longrightarrow> version (stamp_version 0x5F 0x50 u) = version_name_based_sha1"
  by (simp add: version_def stamp_version_def Let_def stamped_octets)

section \<open>Text form\<close>

subsection \<open>Printing\<close>

text \<open>What an \<open>ostream\<close> in \<open>hex\<close> mode prints for an unsigned number, padded with 0 to width 2.\<close>

fun hex_digits :: "nat \<Rightarrow> string" where
  "hex_digits n = (if n < 16 then [''0123456789abcdef'' ! n]
                   else hex_digits (n div 16) @ [''0123456789abcdef'' ! (n mod 16)])"

declare hex_digits.simps [simp del]

definition put_hex2 :: "nat \<Rightarrow> string" where
  "put_hex2 n = (let s = hex_digits n in replicate (2 - length s) CHR ''0'' @ s)"

datatype adjust = adj_none | adj_left | adj_right | adj_internal

record ostream_fmt =
  os_width :: nat
  os_adjust :: adjust
  os_fill :: char

definition dash_after :: "nat \<Rightarrow> bool" where
  "dash_after i \<longleftrightarrow> i = 3 \<or> i = 5 \<or> i = 7 \<or> i = 9"

fun out_bytes :: "nat \<Rightarrow> byte list \<Rightarrow> string" where
  "out_bytes i [] = []"
| "out_bytes i (b # bs) =
     put_hex2 (unat b) @ (if dash_after i then ''-'' else []) @ out_bytes (Suc i) bs"

definition uuid_insert :: "ostream_fmt \<Rightarrow> uuid \<Rightarrow> string" where
  "uuid_insert f u =
     (let pad = replicate (os_width f - 36) (os_fill f) in
      (if os_adjust f = adj_right \<or> os_adjust f = adj_internal then pad else []) @
      out_bytes 0 u @
      (if os_adjust f = adj_left then pad else []))"

text \<open>The stream \<open>lexical_cast\<close> and a fresh \<open>stringstream\<close> use: no width, no adjustment flag.\<close>

definition default_fmt :: ostream_fmt where
  "default_fmt = \<lparr>os_width = 0, os_adjust = adj_none, os_fill = CHR '' ''\<rparr>"

definition to_char :: "nat \<Rightarrow> char" where
  "to_char i = (if i \<le> 9 then char_of (48 + i) else char_of (97 + (i - 10)))"

fun to_string_from :: "nat \<Rightarrow> byte list \<Rightarrow> string" where
  "to_string_from i [] = []"
| "to_string_from i (b # bs) =
     (let hi = unat (drop_bit 4 b AND 0x0F); lo = unat (b AND 0x0F) in
      [to_char hi, to_char lo] @ (if dash_after i then ''-'' else []) @ to_string_from (Suc i) bs)"

definition to_string :: "uuid \<Rightarrow> string" where
  "to_string u = to_string_from 0 u"

subsection \<open>Reading\<close>

definition isspace :: "char \<Rightarrow> bool" where
  "isspace c \<longleftrightarrow> (let n = of_char c :: nat in n = 32 \<or> (9 \<le> n \<and> n \<le> 13))"

definition toupper :: "char \<Rightarrow> char" where
  "toupper c = (let n = of_char c :: nat in if 97 \<le> n \<and> n \<le> 122 then char_of (n - 32) else c)"

text \<open>\<open>is >> c\<close>: leading white space is skipped, the end of the input sets the fail state.\<close>

definition get_char :: "string \<Rightarrow> (char \<times> string) option" where
  "get_char s = (case dropWhile isspace s of [] \<Rightarrow> None | c # cs \<Rightarrow> Some (c, cs))"

fun find_index :: "char list \<Rightarrow> char \<Rightarrow> nat option" where
  "find_index [] c = None"
| "find_index (d # ds) c = (if d = c then Some 0 else map_option Suc (find_index ds c))"

definition get_xdigit :: "string \<Rightarrow> (nat \<times> string) option" where
  "get_xdigit s = Option.bind (get_char s) (\<lambda>(c, s').
     map_option (\<lambda>d. (d, s')) (find_index ''0123456789ABCDEF'' (toupper c)))"

definition get_dash :: "nat \<Rightarrow> string \<Rightarrow> string option" where
  "get_dash i s = (if dash_after i
     then Option.bind (get_char s) (\<lambda>(c, s'). if c = CHR ''-'' then Some s' else None)
     else Some s)"

fun in_bytes :: "nat \<Rightarrow> nat \<Rightarrow> string \<Rightarrow> (byte list \<times> string) option" where
  "in_bytes i 0 s = Some ([], s)"
| "in_bytes i (Suc n) s =
     Option.bind (get_xdigit s) (\<lambda>(hi, s1).
     Option.bind (get_xdigit s1) (\<lambda>(lo, s2).
     Option.bind (get_dash i s2) (\<lambda>s3.
     map_option (\<lambda>(bs, s4). ((push_bit 4 (of_nat hi) OR of_nat lo) # bs, s4))
       (in_bytes (Suc i) n s3))))"

text \<open>\<open>operator>>\<close>: the uuid is written only when all sixteen bytes were read.\<close>

definition uuid_extract :: "string \<Rightarrow> (uuid \<times> string) option" where
  "uuid_extract s = in_bytes 0 16 s"

subsection \<open>The two printers agree and reading undoes printing\<close>

lemma byte_div_16: "unat (b :: byte) div 16 < 16"
  using unat_byte_less [of b] by (simp add: less_mult_imp_div_less)

lemma and_15: "(b AND 0x0F :: byte) = take_bit 4 b"
proof -
  have "(0x0F :: byte) = mask 4" by (simp add: mask_eq_exp_minus_1)
  then show ?thesis by (simp only: take_bit_eq_mask)
qed

lemma nibble_lo: "unat (b AND 0x0F :: byte) = unat b mod 16"
  unfolding and_15 unsigned_take_bit_eq by (simp add: take_bit_eq_mod)

lemma nibble_hi: "unat (drop_bit 4 b AND 0x0F :: byte) = unat b div 16"
  unfolding nibble_lo unat_drop_bit_eq using byte_div_16 [of b] by (simp add: drop_bit_eq_div)

lemma byte_of_nibbles: "push_bit 4 (of_nat (unat b div 16)) OR of_nat (unat b mod 16) = (b :: byte)"
proof -
  have hi: "(of_nat (unat b div 16) :: byte) = drop_bit 4 b"
    using byte_div_16 [of b]
    by (intro word_unat_eq_iff [THEN iffD2])
      (simp only: unat_drop_bit_eq, simp add: drop_bit_eq_div unat_of_nat del: of_nat_div)
  have lo: "(of_nat (unat b mod 16) :: byte) = take_bit 4 b"
    by (rule word_unat_eq_iff [THEN iffD2])
      (simp only: unsigned_take_bit_eq, simp add: unat_of_nat take_bit_eq_mod del: of_nat_mod)
  show ?thesis
    unfolding hi lo by (rule bit_word_eqI) (auto simp: bit_simps)
qed

lemma nibble_cases:
  assumes "n < (16 :: nat)"
  shows "n \<in> set [0, 1, 2, 3, 4, 5, 6, 7, 8, 9, 10, 11, 12, 13, 14, 15]"
  using assms by (simp only: list.set insert_iff empty_iff) presburger

lemma to_char_nibble: "n < 16 \<Longrightarrow> to_char n = ''0123456789abcdef'' ! n"
  by (drule nibble_cases) (auto simp: to_char_def char_of_eq_iff)

lemma toupper_hex:
  "toupper CHR ''0'' = CHR ''0''" "toupper CHR ''1'' = CHR ''1''" "toupper CHR ''2'' = CHR ''2''"
  "toupper CHR ''3'' = CHR ''3''" "toupper CHR ''4'' = CHR ''4''" "toupper CHR ''5'' = CHR ''5''"
  "toupper CHR ''6'' = CHR ''6''" "toupper CHR ''7'' = CHR ''7''" "toupper CHR ''8'' = CHR ''8''"
  "toupper CHR ''9'' = CHR ''9''" "toupper CHR ''a'' = CHR ''A''" "toupper CHR ''b'' = CHR ''B''"
  "toupper CHR ''c'' = CHR ''C''" "toupper CHR ''d'' = CHR ''D''" "toupper CHR ''e'' = CHR ''E''"
  "toupper CHR ''f'' = CHR ''F''"
  by (simp_all add: toupper_def char_of_eq_iff take_bit_eq_mod)

lemma isspace_hex: "n < 16 \<Longrightarrow> \<not> isspace (''0123456789abcdef'' ! n)"
proof -
  have "list_all (\<lambda>c. \<not> isspace c) ''0123456789abcdef''"
    by (simp add: isspace_def)
  then show "n < 16 \<Longrightarrow> ?thesis" unfolding list_all_length by simp
qed

lemma find_index_hex:
  assumes "n < 16"
  shows "find_index ''0123456789ABCDEF'' (toupper (''0123456789abcdef'' ! n)) = Some n"
  using nibble_cases [OF assms]
  by (simp only: list.set insert_iff empty_iff, elim disjE) (simp_all add: toupper_hex)

lemma to_char_reads:
  "n < 16 \<Longrightarrow> \<not> isspace (to_char n) \<and> find_index ''0123456789ABCDEF'' (toupper (to_char n)) = Some n"
  by (simp only: to_char_nibble isspace_hex find_index_hex simp_thms)

lemma put_hex2_byte:
  assumes "n < 256"
  shows "put_hex2 n = [to_char (n div 16), to_char (n mod 16)]"
proof (cases "n < 16")
  case True
  then show ?thesis
    by (simp add: put_hex2_def hex_digits.simps [of n] to_char_nibble)
next
  case False
  have "n div 16 < 16" using assms by (simp add: less_mult_imp_div_less)
  then show ?thesis
    using False by (simp add: put_hex2_def hex_digits.simps [of n] hex_digits.simps [of "n div 16"]
        to_char_nibble)
qed

lemma put_hex2_unat:
  "put_hex2 (unat (b :: byte)) = [to_char (unat b div 16), to_char (unat b mod 16)]"
  by (intro put_hex2_byte) simp

lemma out_bytes_to_string: "to_string_from i bs = out_bytes i bs"
  by (induction i bs rule: out_bytes.induct)
    (simp_all only: to_string_from.simps out_bytes.simps put_hex2_unat nibble_hi Let_def,
      simp only: nibble_lo)

lemma get_xdigit_to_char: "n < 16 \<Longrightarrow> get_xdigit (to_char n # s) = Some (n, s)"
  using to_char_reads [of n] by (simp add: get_xdigit_def get_char_def)

lemma get_dash_out: "get_dash i ((if dash_after i then ''-'' else []) @ s) = Some s"
  by (simp add: get_dash_def get_char_def isspace_def)

lemma in_bytes_out: "in_bytes i (length bs) (out_bytes i bs @ s) = Some (bs, s)"
proof (induction bs arbitrary: i)
  case Nil
  then show ?case by simp
next
  case (Cons b bs)
  have "unat b mod 16 < 16" by simp
  with Cons show ?case
    by (simp only: out_bytes.simps append.assoc put_hex2_unat append.simps length_Cons in_bytes.simps
        get_xdigit_to_char [OF byte_div_16] get_xdigit_to_char bind.simps prod.case get_dash_out
        option.map byte_of_nibbles)
qed

lemma length_out_bytes:
  "length (out_bytes i bs) = 2 * length bs + length (filter dash_after [i..<i + length bs])"
proof (induction i bs rule: out_bytes.induct)
  case (2 i b bs)
  have "[i..<i + length (b # bs)] = i # [Suc i..<Suc i + length bs]"
    by (simp add: upt_conv_Cons del: upt_Suc)
  with 2 show ?case by (simp add: put_hex2_unat del: upt_Suc)
qed simp

lemma uuid_insert_default: "uuid_insert default_fmt u = to_string u"
  by (simp add: uuid_insert_def default_fmt_def to_string_def out_bytes_to_string)

text \<open>
  C40: The two ways the code turns a uuid into text, \<open>operator<<\<close> on a default stream (what
  \<open>lexical_cast\<close> uses for aliases and messages) and \<open>to_string\<close>, give the same text, and
  reading that text back with \<open>operator>>\<close> gives the uuid, whatever follows it in the stream.
\<close>

theorem uuid_text_roundtrip:
  "wf_uuid u \<Longrightarrow> uuid_insert default_fmt u = to_string u \<and> length (to_string u) = 36 \<and>
     uuid_extract (to_string u @ rest) = Some (u, rest)"
  using in_bytes_out [of 0 u rest] length_out_bytes [of 0 u]
  by (simp add: uuid_insert_def default_fmt_def to_string_def out_bytes_to_string
      uuid_extract_def wf_uuid_def upt_rec [of _ 16] dash_after_def)

theorem uuid_text_roundtrip_witness:
  "uuid_extract (to_string nil_uuid @ ''!'') = Some (nil_uuid, ''!'')"
  using uuid_text_roundtrip [of nil_uuid "''!''"] by simp

end
