(* ===== verification/Sha1.thy ===== *)
theory Sha1 imports Uuid begin

text \<open>
  The SHA-1 state machine behind \<open>boost::uuids::name_generator\<close> (\<open>uuid/sha1.hpp\<close>,
  \<open>uuid/name_generator.hpp\<close>), which turns a node alias into a node uuid, with a
  functional specification of the digest (padding and block chaining as in FIPS 180) that
  the byte-at-a-time code is proved to implement.
\<close>

section \<open>The code\<close>

type_synonym digest = "u32 \<times> u32 \<times> u32 \<times> u32 \<times> u32"

record sha1 =
  sha_h :: digest
  sha_block :: "byte list"
  block_byte_index :: nat
  bit_count_low :: u64
  bit_count_high :: u64

definition left_rotate :: "u32 \<Rightarrow> nat \<Rightarrow> u32" where
  "left_rotate x n = push_bit n x XOR drop_bit (32 - n) x"

definition sha1_h0 :: digest where
  "sha1_h0 = (0x67452301, 0xEFCDAB89, 0x98BADCFE, 0x10325476, 0xC3D2E1F0)"

definition sha1_reset :: "sha1 \<Rightarrow> sha1" where
  "sha1_reset s = s\<lparr>sha_h := sha1_h0, block_byte_index := 0, bit_count_low := 0, bit_count_high := 0\<rparr>"

text \<open>The message schedule \<open>w[80]\<close>: sixteen big-endian words of the block, then the recurrence.\<close>

definition block_word :: "byte list \<Rightarrow> nat \<Rightarrow> u32" where
  "block_word blk i = push_bit 24 (ucast (blk ! (i * 4 + 0))) OR push_bit 16 (ucast (blk ! (i * 4 + 1)))
     OR push_bit 8 (ucast (blk ! (i * 4 + 2))) OR ucast (blk ! (i * 4 + 3))"

definition schedule_step :: "u32 list \<Rightarrow> nat \<Rightarrow> u32 list" where
  "schedule_step w i =
     w @ [left_rotate (w ! (i - 3) XOR w ! (i - 8) XOR w ! (i - 14) XOR w ! (i - 16)) 1]"

definition schedule :: "byte list \<Rightarrow> u32 list" where
  "schedule blk = foldl schedule_step (map (block_word blk) [0..<16]) [16..<80]"

definition round_step :: "u32 list \<Rightarrow> digest \<Rightarrow> nat \<Rightarrow> digest" where
  "round_step w st i = (case st of (a, b, c, d, e) \<Rightarrow>
     let (f, k) =
       (if i < 20 then ((b AND c) OR (NOT b AND d), 0x5A827999)
        else if i < 40 then (b XOR c XOR d, 0x6ED9EBA1)
        else if i < 60 then ((b AND c) OR (b AND d) OR (c AND d), 0x8F1BBCDC)
        else (b XOR c XOR d, 0xCA62C1D6));
       temp = left_rotate a 5 + f + e + k + w ! i
     in (temp, a, left_rotate b 30, c, d))"

definition digest_add :: "digest \<Rightarrow> digest \<Rightarrow> digest" where
  "digest_add x y = (case x of (x0, x1, x2, x3, x4) \<Rightarrow> case y of (y0, y1, y2, y3, y4) \<Rightarrow>
     (x0 + y0, x1 + y1, x2 + y2, x3 + y3, x4 + y4))"

definition process_block :: "sha1 \<Rightarrow> sha1" where
  "process_block s =
     s\<lparr>sha_h := digest_add (sha_h s) (foldl (round_step (schedule (sha_block s))) (sha_h s) [0..<80])\<rparr>"

definition process_byte_impl :: "sha1 \<Rightarrow> byte \<Rightarrow> sha1" where
  "process_byte_impl s b =
     (let s' = s\<lparr>sha_block := (sha_block s)[block_byte_index s := b],
                 block_byte_index := block_byte_index s + 1\<rparr>
      in if block_byte_index s' = 64 then process_block (s'\<lparr>block_byte_index := 0\<rparr>) else s')"

definition process_byte :: "sha1 \<Rightarrow> byte \<Rightarrow> sha1 result" where
  "process_byte s b =
     (let s' = process_byte_impl s b in
      if bit_count_low s' < 0xFFFFFFF8 then Inr (s'\<lparr>bit_count_low := bit_count_low s' + 8\<rparr>)
      else if bit_count_high s' \<le> 0xFFFFFFFE
      then Inr (s'\<lparr>bit_count_low := 0, bit_count_high := bit_count_high s' + 1\<rparr>)
      else Inl (Throw (OtherException ''sha1 too many bytes'')))"

fun process_bytes :: "sha1 \<Rightarrow> byte list \<Rightarrow> sha1 result" where
  "process_bytes s [] = Inr s"
| "process_bytes s (b # bs) =
     (case process_byte s b of Inl e \<Rightarrow> Inl e | Inr s' \<Rightarrow> process_bytes s' bs)"

text \<open>
  The two padding loops of \<open>get_digest\<close>; \<open>None\<close> stands for a loop that does not end.
\<close>

partial_function (option) pad_while_nonzero :: "sha1 \<Rightarrow> sha1 option" where
  "pad_while_nonzero s =
     (if block_byte_index s \<noteq> 0 then pad_while_nonzero (process_byte_impl s 0) else Some s)"

declare pad_while_nonzero.simps [code]

partial_function (option) pad_while_below_56 :: "sha1 \<Rightarrow> sha1 option" where
  "pad_while_below_56 s =
     (if block_byte_index s < 56 then pad_while_below_56 (process_byte_impl s 0) else Some s)"

declare pad_while_below_56.simps [code]

definition count_byte :: "u64 \<Rightarrow> nat \<Rightarrow> byte" where
  "count_byte n k = ucast (drop_bit k n AND 0xFF)"

definition count_bytes :: "sha1 \<Rightarrow> byte list" where
  "count_bytes s =
     [count_byte (bit_count_high s) 24, count_byte (bit_count_high s) 16,
      count_byte (bit_count_high s) 8, count_byte (bit_count_high s) 0,
      count_byte (bit_count_low s) 24, count_byte (bit_count_low s) 16,
      count_byte (bit_count_low s) 8, count_byte (bit_count_low s) 0]"

definition get_digest :: "sha1 \<Rightarrow> (digest \<times> sha1) option" where
  "get_digest s0 =
     (let s = process_byte_impl s0 0x80 in
      Option.bind
        (if block_byte_index s > 56 then Option.bind (pad_while_nonzero s) pad_while_below_56
         else pad_while_below_56 s)
        (\<lambda>s'. let s'' = foldl process_byte_impl s' (count_bytes s') in Some (sha_h s'', s'')))"

section \<open>The specification\<close>

text \<open>FIPS 180: functions, constants, message schedule and rounds indexed by the round number.\<close>

definition rotl :: "nat \<Rightarrow> u32 \<Rightarrow> u32" where
  "rotl n x = push_bit n x OR drop_bit (32 - n) x"

definition fips_f :: "nat \<Rightarrow> u32 \<Rightarrow> u32 \<Rightarrow> u32 \<Rightarrow> u32" where
  "fips_f t x y z =
     (if t \<le> 19 then (x AND y) XOR (NOT x AND z)
      else if t \<le> 39 then x XOR y XOR z
      else if t \<le> 59 then (x AND y) XOR (x AND z) XOR (y AND z)
      else x XOR y XOR z)"

definition fips_K :: "nat \<Rightarrow> u32" where
  "fips_K t = (if t \<le> 19 then 0x5A827999 else if t \<le> 39 then 0x6ED9EBA1
     else if t \<le> 59 then 0x8F1BBCDC else 0xCA62C1D6)"

fun fips_W :: "byte list \<Rightarrow> nat \<Rightarrow> u32" where
  "fips_W m t = (if t < 16 then from_be32 (take 4 (drop (4 * t) m))
     else rotl 1 (fips_W m (t - 3) XOR fips_W m (t - 8) XOR fips_W m (t - 14) XOR fips_W m (t - 16)))"

declare fips_W.simps [simp del]

fun fips_rounds :: "byte list \<Rightarrow> nat \<Rightarrow> digest \<Rightarrow> digest" where
  "fips_rounds m 0 st = st"
| "fips_rounds m (Suc t) st = (case fips_rounds m t st of (a, b, c, d, e) \<Rightarrow>
     (rotl 5 a + fips_f t b c d + e + fips_K t + fips_W m t, a, rotl 30 b, c, d))"

definition fips_compress :: "digest \<Rightarrow> byte list \<Rightarrow> digest" where
  "fips_compress h m = digest_add h (fips_rounds m 80 h)"

text \<open>Chaining over the complete 64-byte blocks of a message; an incomplete tail is left out.\<close>

function hash_blocks :: "digest \<Rightarrow> byte list \<Rightarrow> digest" where
  "hash_blocks h m = (if length m < 64 then h else hash_blocks (fips_compress h (take 64 m)) (drop 64 m))"
  by pat_completeness auto
termination
  by (relation "measure (\<lambda>(h, m). length m)") auto

declare hash_blocks.simps [simp del]

text \<open>One 1 bit, the least number of zero bytes, and the bit length as 64 bits, big-endian.\<close>

definition be64 :: "nat \<Rightarrow> byte list" where
  "be64 n = map (\<lambda>k. of_nat (n div 256 ^ k)) [7, 6, 5, 4, 3, 2, 1, 0]"

definition fips_pad :: "byte list \<Rightarrow> byte list" where
  "fips_pad m = m @ [0x80] @ replicate ((119 - length m mod 64) mod 64) 0 @ be64 (8 * length m)"

definition fips_sha1 :: "byte list \<Rightarrow> digest" where
  "fips_sha1 m = hash_blocks sha1_h0 (fips_pad m)"

section \<open>The block function implements the specification\<close>

lemma left_rotate_rotl: "left_rotate x n = rotl n x" if "0 < n" "n < 32"
  unfolding left_rotate_def rotl_def using that
  by (intro bit_word_eqI) (auto simp: bit_simps)

lemma choose_xor: "((b :: u32) AND c) OR (NOT b AND d) = (b AND c) XOR (NOT b AND d)"
  by (rule bit_word_eqI) (auto simp: bit_simps)

lemma majority_xor:
  "((b :: u32) AND c) OR (b AND d) OR (c AND d) = (b AND c) XOR (b AND d) XOR (c AND d)"
  by (rule bit_word_eqI) (auto simp: bit_simps)

lemma take4_drop: "j + 4 \<le> length xs \<Longrightarrow> take 4 (drop j xs) = [xs ! j, xs ! (j + 1), xs ! (j + 2), xs ! (j + 3)]"
  by (rule nth_equalityI) (auto simp: nth_Cons eval_nat_numeral split: nat.split)

lemma block_word_fips:
  assumes "length m = 64" "i < 16"
  shows "block_word m i = fips_W m i"
proof -
  have "4 * i + 4 \<le> length m" using assms by simp
  then show ?thesis
    using assms by (simp add: block_word_def fips_W.simps [of m i] take4_drop mult.commute)
qed

lemma schedule_prefix:
  assumes "length m = 64"
  shows "foldl schedule_step (map (block_word m) [0..<16]) [16..<16 + k] = map (fips_W m) [0..<16 + k]"
proof (induction k)
  case 0
  show ?case using assms by (simp add: block_word_fips)
next
  case (Suc k)
  have "fips_W m (16 + k) = left_rotate (fips_W m (13 + k) XOR fips_W m (8 + k) XOR
      fips_W m (2 + k) XOR fips_W m k) 1"
    by (subst fips_W.simps) (simp add: left_rotate_rotl)
  then have "schedule_step (map (fips_W m) [0..<16 + k]) (16 + k) = map (fips_W m) ([0..<16 + k] @ [16 + k])"
    by (simp add: schedule_step_def del: upt_Suc)
  moreover have "[16..<16 + Suc k] = [16..<16 + k] @ [16 + k]" "[0..<16 + Suc k] = [0..<16 + k] @ [16 + k]"
    by (simp_all only: add_Suc_right upt_Suc if_True le_add1 zero_le)
  ultimately show ?case
    using Suc by (simp only: foldl_append foldl.simps)
qed

lemma schedule_fips:
  assumes "length m = 64" "i < 80"
  shows "schedule m ! i = fips_W m i"
  using schedule_prefix [OF assms(1), of 64] assms(2) by (simp add: schedule_def)

lemma round_step_fips:
  assumes "length m = 64" "i < 80"
  shows "round_step (schedule m) (a, b, c, d, e) i =
    (rotl 5 a + fips_f i b c d + e + fips_K i + fips_W m i, a, rotl 30 b, c, d)"
  by (simp add: round_step_def schedule_fips [OF assms] left_rotate_rotl fips_f_def fips_K_def
      choose_xor majority_xor Let_def)

lemma rounds_fips:
  assumes "length m = 64" "n \<le> 80"
  shows "foldl (round_step (schedule m)) st [0..<n] = fips_rounds m n st"
  using assms(2)
proof (induction n)
  case (Suc n)
  obtain a b c d e where "fips_rounds m n st = (a, b, c, d, e)"
    by (cases "fips_rounds m n st") auto
  with Suc show ?case
    using round_step_fips [OF assms(1), of n] by simp
qed simp

lemma process_block_fips:
  "length (sha_block s) = 64 \<Longrightarrow>
     process_block s = s\<lparr>sha_h := fips_compress (sha_h s) (sha_block s)\<rparr>"
  by (simp add: process_block_def fips_compress_def rounds_fips)

section \<open>The byte-at-a-time state machine implements the specification\<close>

lemma hash_blocks_append:
  "length xs mod 64 = 0 \<Longrightarrow> hash_blocks h (xs @ ys) = hash_blocks (hash_blocks h xs) ys"
proof (induction h xs rule: hash_blocks.induct)
  case (1 h m)
  show ?case
  proof (cases "length m < 64")
    case True
    with 1(2) have "m = []" by auto
    then show ?thesis by (simp add: hash_blocks.simps [of h "[]"])
  next
    case False
    with 1(2) have "length (drop 64 m) mod 64 = 0" by (simp add: le_mod_geq)
    from 1(1) [OF False this] False show ?thesis
      by (simp add: hash_blocks.simps [of h "m @ ys"] hash_blocks.simps [of h m])
  qed
qed

lemma hash_blocks_short [simp]: "length m < 64 \<Longrightarrow> hash_blocks h m = h"
  by (simp add: hash_blocks.simps)

lemma hash_blocks_one: "length m = 64 \<Longrightarrow> hash_blocks h m = fips_compress h m"
  by (simp add: hash_blocks.simps [of h m])

text \<open>
  The abstraction: after the bytes \<open>m\<close> the chaining value is that of the complete blocks of
  \<open>m\<close>, and the buffer holds its tail.
\<close>

definition absorbed :: "sha1 \<Rightarrow> byte list \<Rightarrow> bool" where
  "absorbed s m \<longleftrightarrow> length (sha_block s) = 64 \<and> block_byte_index s = length m mod 64 \<and>
     take (length m mod 64) (sha_block s) = drop (length m - length m mod 64) m \<and>
     sha_h s = hash_blocks sha1_h0 m"

text \<open>The two counters hold the bit length of \<open>n\<close> bytes, \<open>2 ^ 29\<close> bytes to a carry.\<close>

definition bits_counted :: "sha1 \<Rightarrow> nat \<Rightarrow> bool" where
  "bits_counted s n \<longleftrightarrow> unat (bit_count_low s) = 8 * (n mod 2 ^ 29) \<and>
     unat (bit_count_high s) = n div 2 ^ 29"

lemma absorbed_reset: "length (sha_block s) = 64 \<Longrightarrow> absorbed (sha1_reset s) []"
  by (simp add: absorbed_def sha1_reset_def)

lemma block_byte_index_less: "absorbed s m \<Longrightarrow> block_byte_index s < 64"
  by (simp add: absorbed_def)

text \<open>\<open>tail64 m\<close> is the incomplete last block of \<open>m\<close>; more bytes continue from it.\<close>

abbreviation tail64 :: "byte list \<Rightarrow> byte list" where
  "tail64 m \<equiv> drop (length m - length m mod 64) m"

lemma length_tail64: "length (tail64 m) = length m mod 64"
  by simp

lemma hash_blocks_more: "hash_blocks h (m @ ys) = hash_blocks (hash_blocks h m) (tail64 m @ ys)"
proof -
  let ?p = "take (length m - length m mod 64) m"
  have "length ?p mod 64 = 0" by (simp add: minus_mod_eq_mult_div)
  then have split: "hash_blocks h (?p @ zs) = hash_blocks (hash_blocks h ?p) zs" for zs
    by (rule hash_blocks_append)
  have "hash_blocks h m = hash_blocks h ?p"
    using split [of "tail64 m"] by simp
  then show ?thesis
    using split [of "tail64 m @ ys"] by (simp add: append.assoc [symmetric] del: append.assoc)
qed

lemma process_byte_impl_absorbed:
  assumes "absorbed s m"
  shows "absorbed (process_byte_impl s b) (m @ [b])"
proof -
  define i where "i = length m mod 64"
  have i: "i < 64" "block_byte_index s = i" "length (sha_block s) = 64" "length (tail64 m) = i"
    "take i (sha_block s) = tail64 m" "sha_h s = hash_blocks sha1_h0 m"
    using assms by (auto simp: absorbed_def i_def)
  have upd: "take (Suc i) ((sha_block s)[i := b]) = tail64 m @ [b]"
    using i by (simp add: take_Suc_conv_app_nth)
  have more: "hash_blocks sha1_h0 (m @ [b]) = hash_blocks (hash_blocks sha1_h0 m) (tail64 m @ [b])"
    by (rule hash_blocks_more)
  show ?thesis
  proof (cases "Suc i = 64")
    case True
    then have full: "(sha_block s)[i := b] = tail64 m @ [b]" using upd i by simp
    have "length (m @ [b]) mod 64 = 0"
      using True by (simp add: i_def) presburger
    moreover have "hash_blocks (hash_blocks sha1_h0 m) (tail64 m @ [b]) =
        fips_compress (hash_blocks sha1_h0 m) (tail64 m @ [b])"
      using True i(4) by (intro hash_blocks_one) simp
    ultimately show ?thesis
      using True i full more
      by (simp add: absorbed_def process_byte_impl_def process_block_fips Let_def)
  next
    case False
    then have len: "length (m @ [b]) mod 64 = Suc i"
      using i(1) by (simp add: i_def mod_Suc)
    have "hash_blocks (hash_blocks sha1_h0 m) (tail64 m @ [b]) = hash_blocks sha1_h0 m"
      using False i(1,4) by (intro hash_blocks_short) simp
    with more have h: "hash_blocks sha1_h0 (m @ [b]) = sha_h s" using i(6) by simp
    have tl: "drop (length (m @ [b]) - Suc i) (m @ [b]) = tail64 m @ [b]"
      by (simp add: i_def)
    have s': "process_byte_impl s b =
        s\<lparr>sha_block := (sha_block s)[i := b], block_byte_index := Suc i\<rparr>"
      using False i(2) by (simp add: process_byte_impl_def Let_def)
    show ?thesis
      unfolding absorbed_def s' len tl h using upd i(3) by simp
  qed
qed

lemma foldl_process_byte_impl_absorbed:
  "absorbed s m \<Longrightarrow> absorbed (foldl process_byte_impl s bs) (m @ bs)"
proof (induction bs arbitrary: s m)
  case (Cons b bs)
  from Cons.IH [OF process_byte_impl_absorbed [OF Cons.prems, of b]] show ?case by simp
qed simp

lemma process_byte_impl_counts [simp]:
  "bit_count_low (process_byte_impl s b) = bit_count_low s"
  "bit_count_high (process_byte_impl s b) = bit_count_high s"
  by (simp_all add: process_byte_impl_def process_block_def Let_def)

lemma absorbed_counts [simp]:
  "absorbed (s\<lparr>bit_count_low := l\<rparr>) m = absorbed s m"
  "absorbed (s\<lparr>bit_count_low := l, bit_count_high := g\<rparr>) m = absorbed s m"
  by (simp_all add: absorbed_def)

subsection \<open>Counting bits\<close>

lemma bits_counted_reset: "bits_counted (sha1_reset s) 0"
  by (simp add: bits_counted_def sha1_reset_def)

lemma process_byte_spec:
  assumes "absorbed s m" and "bits_counted s (length m)" and "length m + 1 < 2 ^ 61"
  shows "\<exists>s'. process_byte s b = Inr s' \<and> absorbed s' (m @ [b]) \<and> bits_counted s' (length (m @ [b]))"
proof -
  define n q where "n = length m" and "q = n mod 536870912"
  let ?s = "process_byte_impl s b"
  have c: "unat (bit_count_low s) = 8 * q" "unat (bit_count_high s) = n div 536870912"
    using assms(2) by (simp_all add: bits_counted_def n_def q_def)
  have abs: "absorbed ?s (m @ [b])"
    using assms(1) by (rule process_byte_impl_absorbed)
  have q: "q < 536870912" by (simp add: q_def)
  show ?thesis
  proof (cases "Suc q = 536870912")
    case False
    let ?s' = "?s\<lparr>bit_count_low := bit_count_low s + 8\<rparr>"
    have "unat (bit_count_low s + 8) = 8 * Suc q" using c(1) q by (simp add: unat_word_ariths)
    moreover have "Suc n mod 536870912 = Suc q" "Suc n div 536870912 = n div 536870912"
      using False by (simp_all add: q_def mod_Suc div_Suc)
    ultimately have "bits_counted ?s' (Suc n)" using c(2) by (simp add: bits_counted_def)
    moreover have "process_byte s b = Inr ?s'"
      using False q c(1) by (simp add: process_byte_def word_less_nat_alt Let_def)
    ultimately show ?thesis using abs by (intro exI [of _ ?s']) (simp add: n_def)
  next
    case True
    let ?s' = "?s\<lparr>bit_count_low := 0, bit_count_high := bit_count_high s + 1\<rparr>"
    have carry: "Suc n mod 536870912 = 0" "Suc n div 536870912 = Suc (n div 536870912)"
      using True by (simp_all add: q_def mod_Suc div_Suc)
    have "Suc n < 2305843009213693952" using assms(3) by (simp add: n_def)
    then have g: "Suc (n div 536870912) < 4294967296"
      unfolding carry(2) [symmetric] by (simp add: div_less_iff_less_mult)
    then have "unat (bit_count_high s + 1) = Suc (n div 536870912)"
      using c(2) by (simp add: unat_word_ariths)
    then have "bits_counted ?s' (Suc n)" using carry by (simp add: bits_counted_def)
    moreover have "process_byte s b = Inr ?s'"
      using True g c by (simp add: process_byte_def word_less_nat_alt word_le_nat_alt Let_def)
    ultimately show ?thesis using abs by (intro exI [of _ ?s']) (simp add: n_def)
  qed
qed

lemma process_bytes_spec:
  assumes "absorbed s m" and "bits_counted s (length m)" and "length (m @ bs) < 2 ^ 61"
  shows "\<exists>s'. process_bytes s bs = Inr s' \<and> absorbed s' (m @ bs) \<and> bits_counted s' (length (m @ bs))"
  using assms
proof (induction bs arbitrary: s m)
  case (Cons b bs)
  have "length m + 1 < 2 ^ 61" using Cons.prems(3) by simp
  from process_byte_spec [OF Cons.prems(1,2) this, of b] obtain s1 where s1: "process_byte s b = Inr s1"
    "absorbed s1 (m @ [b])" "bits_counted s1 (length (m @ [b]))" by blast
  from Cons.IH [OF s1(2,3)] Cons.prems(3) s1(1) show ?case by simp
qed simp

lemma count_byte_nat: "count_byte w k = of_nat (unat w div 2 ^ k)"
proof -
  have m: "(0xFF :: u64) = mask 8" by (simp add: mask_eq_exp_minus_1)
  have "count_byte w k = ucast (drop_bit k w)"
    unfolding count_byte_def m by (rule bit_word_eqI) (auto simp: bit_simps)
  then show ?thesis
    by (metis drop_bit_eq_div of_nat_unat unat_drop_bit_eq)
qed

lemma of_nat_byte_carry:
  fixes g l :: nat
  shows "(of_nat ((g * 2 ^ 32 + l) div 2 ^ 24) :: byte) = of_nat (l div 2 ^ 24)"
    and "(of_nat ((g * 2 ^ 32 + l) div 2 ^ 16) :: byte) = of_nat (l div 2 ^ 16)"
    and "(of_nat ((g * 2 ^ 32 + l) div 2 ^ 8) :: byte) = of_nat (l div 2 ^ 8)"
    and "(of_nat (g * 2 ^ 32 + l) :: byte) = of_nat l"
proof -
  have "(g * 2 ^ 32 + l) div 2 ^ 24 = g * 256 + l div 2 ^ 24"
    "(g * 2 ^ 32 + l) div 2 ^ 16 = g * 65536 + l div 2 ^ 16"
    "(g * 2 ^ 32 + l) div 2 ^ 8 = g * 16777216 + l div 2 ^ 8"
    using div_mult_self3 [of "2 ^ 24" "g * 256" l] div_mult_self3 [of "2 ^ 16" "g * 65536" l]
      div_mult_self3 [of "2 ^ 8" "g * 16777216" l]
    by (simp_all add: algebra_simps)
  moreover have zero: "(256 :: byte) = 0" "(65536 :: byte) = 0" "(16777216 :: byte) = 0"
    "(4294967296 :: byte) = 0"
    by simp_all
  ultimately show "(of_nat ((g * 2 ^ 32 + l) div 2 ^ 24) :: byte) = of_nat (l div 2 ^ 24)"
    "(of_nat ((g * 2 ^ 32 + l) div 2 ^ 16) :: byte) = of_nat (l div 2 ^ 16)"
    "(of_nat ((g * 2 ^ 32 + l) div 2 ^ 8) :: byte) = of_nat (l div 2 ^ 8)"
    "(of_nat (g * 2 ^ 32 + l) :: byte) = of_nat l"
    by (simp_all add: zero del: of_nat_div)
qed

lemma count_bytes_be64:
  assumes "bits_counted s n"
  shows "count_bytes s = be64 (8 * n)"
proof -
  define g l where "g = n div 2 ^ 29" and "l = 8 * (n mod 2 ^ 29)"
  have c: "unat (bit_count_high s) = g" "unat (bit_count_low s) = l"
    using assms by (simp_all add: bits_counted_def g_def l_def)
  have "n = g * 536870912 + n mod 536870912"
    by (simp add: g_def)
  then have n: "8 * n = g * 2 ^ 32 + l" unfolding l_def by simp
  have "l < 2 ^ 32" by (simp add: l_def)
  then have hi: "(g * 2 ^ 32 + l) div (2 ^ 32 * d) = g div d" for d
    by (simp add: div_mult2_eq)
  have pw: "(256 :: nat) ^ 7 = 2 ^ 32 * 2 ^ 24" "(256 :: nat) ^ 6 = 2 ^ 32 * 2 ^ 16"
    "(256 :: nat) ^ 5 = 2 ^ 32 * 2 ^ 8" "(256 :: nat) ^ 4 = 2 ^ 32 * 1"
    "(256 :: nat) ^ 3 = 2 ^ 24" "(256 :: nat) ^ 2 = 2 ^ 16" "(256 :: nat) ^ 1 = 2 ^ 8"
    by simp_all
  show ?thesis
    unfolding be64_def n list.map pw hi power_0 div_by_1 of_nat_byte_carry
      count_bytes_def count_byte_nat c by simp
qed

subsection \<open>Padding\<close>

lemma pad_while_nonzero_spec:
  assumes "absorbed s m" and "bits_counted s n" and "(length m + k) mod 64 = 0" and "k < 64"
  shows "\<exists>s'. pad_while_nonzero s = Some s' \<and> absorbed s' (m @ replicate k 0) \<and> bits_counted s' n"
  using assms
proof (induction k arbitrary: s m)
  case 0
  then show ?case by (simp add: pad_while_nonzero.simps absorbed_def)
next
  case (Suc k)
  have "block_byte_index s \<noteq> 0"
    using Suc.prems(1,3,4) by (simp add: absorbed_def) presburger
  moreover have "absorbed (process_byte_impl s 0) (m @ [0])"
    using Suc.prems(1) by (rule process_byte_impl_absorbed)
  moreover have "bits_counted (process_byte_impl s 0) n"
    using Suc.prems(2) by (simp add: bits_counted_def)
  ultimately show ?case
    using Suc.IH [of "process_byte_impl s 0" "m @ [0]"] Suc.prems(3,4)
    by (simp add: pad_while_nonzero.simps [of s])
qed

lemma pad_while_below_56_spec:
  assumes "absorbed s m" and "bits_counted s n" and "length m mod 64 + k = 56"
  shows "\<exists>s'. pad_while_below_56 s = Some s' \<and> absorbed s' (m @ replicate k 0) \<and> bits_counted s' n"
  using assms
proof (induction k arbitrary: s m)
  case 0
  then show ?case by (simp add: pad_while_below_56.simps absorbed_def)
next
  case (Suc k)
  have "block_byte_index s < 56"
    using Suc.prems(1,3) by (simp add: absorbed_def)
  moreover have "absorbed (process_byte_impl s 0) (m @ [0])"
    using Suc.prems(1) by (rule process_byte_impl_absorbed)
  moreover have "bits_counted (process_byte_impl s 0) n"
    using Suc.prems(2) by (simp add: bits_counted_def)
  moreover have "length (m @ [0]) mod 64 + k = 56"
    using Suc.prems(3) by (simp add: mod_Suc)
  ultimately show ?case
    using Suc.IH [of "process_byte_impl s 0" "m @ [0]"]
    by (simp add: pad_while_below_56.simps [of s])
qed

lemma get_digest_spec:
  assumes "absorbed s m" and "bits_counted s (length m)"
  shows "\<exists>s'. get_digest s = Some (fips_sha1 m, s')"
proof -
  define i where "i = length m mod 64"
  let ?s = "process_byte_impl s 0x80" and ?m = "m @ [0x80]" and ?z = "(119 - i) mod 64"
  have i: "i < 64" by (simp add: i_def)
  have s: "absorbed ?s ?m" "bits_counted ?s (length m)"
    using assms by (simp_all add: process_byte_impl_absorbed bits_counted_def)
  have idx: "block_byte_index ?s = length ?m mod 64" using s(1) by (simp add: absorbed_def)
  have pad: "\<exists>s'. (if block_byte_index ?s > 56 then Option.bind (pad_while_nonzero ?s) pad_while_below_56
       else pad_while_below_56 ?s) = Some s' \<and> absorbed s' (?m @ replicate ?z 0) \<and> bits_counted s' (length m)"
  proof (cases "length ?m mod 64 > 56")
    case True
    then have k1: "length ?m mod 64 = Suc i"
      by (auto simp: i_def mod_Suc split: if_splits)
    have "64 * (length m div 64) + i = length m" by (simp add: i_def)
    then have "length ?m + (63 - i) = 64 * (length m div 64 + 1)" using i by simp
    then have k: "(length ?m + (63 - i)) mod 64 = 0" "63 - i < 64" by simp_all
    obtain s1 where s1: "pad_while_nonzero ?s = Some s1"
      "absorbed s1 (?m @ replicate (63 - i) 0)" "bits_counted s1 (length m)"
      using pad_while_nonzero_spec [OF s k] by blast
    have "length (?m @ replicate (63 - i) 0) mod 64 + 56 = 56" using k(1) by simp
    from pad_while_below_56_spec [OF s1(2,3) this] True idx s1(1)
    obtain s2 where "pad_while_below_56 s1 = Some s2"
      "absorbed s2 (?m @ replicate (63 - i + 56) 0)" "bits_counted s2 (length m)"
      by (auto simp: replicate_add)
    moreover have "?z = 63 - i + 56" using True k1 i by simp
    ultimately show ?thesis using True idx s1(1) by simp
  next
    case False
    then have "length ?m mod 64 = 0 \<and> i = 63 \<or> length ?m mod 64 = Suc i \<and> i \<le> 55"
      using i by (auto simp: i_def mod_Suc split: if_splits)
    then have "length ?m mod 64 + ?z = 56"
    proof (elim disjE conjE)
      assume "length ?m mod 64 = Suc i" "i \<le> 55"
      moreover from this have "119 - i = 64 + (55 - i)" by simp
      ultimately show ?thesis by (simp only: mod_add_self1) simp
    qed (simp only:, simp)
    from pad_while_below_56_spec [OF s this] False idx show ?thesis by simp
  qed
  then obtain s' where s': "(if block_byte_index ?s > 56
       then Option.bind (pad_while_nonzero ?s) pad_while_below_56
       else pad_while_below_56 ?s) = Some s'"
      "absorbed s' (?m @ replicate ?z 0)" "bits_counted s' (length m)" by blast
  have "absorbed (foldl process_byte_impl s' (count_bytes s')) (fips_pad m)"
    using foldl_process_byte_impl_absorbed [OF s'(2), of "count_bytes s'"] count_bytes_be64 [OF s'(3)]
    by (simp add: fips_pad_def i_def)
  then have "sha_h (foldl process_byte_impl s' (count_bytes s')) = fips_sha1 m"
    by (simp add: absorbed_def fips_sha1_def)
  then show ?thesis
    using s'(1) by (simp only: get_digest_def Let_def bind.simps) simp
qed

section \<open>Name-based uuids\<close>

definition digest_byte :: "u32 \<Rightarrow> nat \<Rightarrow> byte" where
  "digest_byte w k = ucast (drop_bit k w AND 0xFF)"

definition sha_to_uuid :: "digest \<Rightarrow> uuid" where
  "sha_to_uuid d = (case d of (d0, d1, d2, d3, _) \<Rightarrow>
     stamp_version 0x5F 0x50 (stamp_variant
       (concat (map (\<lambda>w. [digest_byte w 24, digest_byte w 16, digest_byte w 8, digest_byte w 0])
         [d0, d1, d2, d3]))))"

definition bytes_of_string :: "string \<Rightarrow> byte list" where
  "bytes_of_string = map of_char"

text \<open>
  \<open>name_generator(ns)(name)\<close>. The constructor of \<open>sha1\<close> does not initialise the block, so
  its first contents \<open>blk0\<close> are arbitrary; \<open>None\<close> would be a padding loop that never ends.
\<close>

definition sha1_new :: "byte list \<Rightarrow> sha1" where
  "sha1_new blk0 = sha1_reset
     \<lparr>sha_h = sha1_h0, sha_block = blk0, block_byte_index = 0, bit_count_low = 0, bit_count_high = 0\<rparr>"

definition name_generator :: "byte list \<Rightarrow> uuid \<Rightarrow> string \<Rightarrow> uuid result option" where
  "name_generator blk0 ns name =
     (case process_bytes (sha1_reset (sha1_new blk0)) ns of
        Inl e \<Rightarrow> Some (Inl e)
      | Inr s \<Rightarrow>
         (case process_bytes s (bytes_of_string name) of
            Inl e \<Rightarrow> Some (Inl e)
          | Inr s' \<Rightarrow> map_option (\<lambda>r. Inr (sha_to_uuid (fst r))) (get_digest s')))"

lemma digest_byte_be32: "[digest_byte w 24, digest_byte w 16, digest_byte w 8, digest_byte w 0] = be32 w"
proof -
  have m: "(0xFF :: u32) = mask 8" by (simp add: mask_eq_exp_minus_1)
  have "digest_byte w k = ucast (drop_bit k w)" for k
    unfolding digest_byte_def m by (rule bit_word_eqI) (auto simp: bit_simps)
  then show ?thesis by (simp add: be32_def)
qed

lemma length_bytes_of_string [simp]: "length (bytes_of_string name) = length name"
  by (simp add: bytes_of_string_def)

lemma sha_to_uuid_stamped:
  "wf_uuid (sha_to_uuid d)" "variant (sha_to_uuid d) = variant_rfc_4122"
  "version (sha_to_uuid d) = version_name_based_sha1"
  by (cases d; simp add: sha_to_uuid_def wf_uuid_def variant_stamped version_stamp_sha1)+

lemma name_generator_spec:
  assumes "length blk0 = 64" "length ns + length name < 2 ^ 61"
  shows "name_generator blk0 ns name = Some (Inr (sha_to_uuid (fips_sha1 (ns @ bytes_of_string name))))"
proof -
  let ?s = "sha1_reset (sha1_new blk0)"
  have s: "absorbed ?s []" "bits_counted ?s (length [])"
    using assms(1) by (simp_all add: sha1_new_def sha1_reset_def absorbed_def bits_counted_def)
  obtain s1 where s1: "process_bytes ?s ns = Inr s1" "absorbed s1 ns" "bits_counted s1 (length ns)"
    using process_bytes_spec [OF s, of ns] assms(2) by auto
  obtain s2 where s2: "process_bytes s1 (bytes_of_string name) = Inr s2"
    "absorbed s2 (ns @ bytes_of_string name)" "bits_counted s2 (length (ns @ bytes_of_string name))"
    using process_bytes_spec [OF s1(2,3), of "bytes_of_string name"] assms(2) by auto
  obtain s3 where "get_digest s2 = Some (fips_sha1 (ns @ bytes_of_string name), s3)"
    using get_digest_spec [OF s2(2,3)] by blast
  then show ?thesis
    by (simp only: name_generator_def s1(1) s2(1) sum.case option.map fst_conv)
qed

text \<open>
  C5: The node uuid made from a name is exactly the FIPS 180 SHA-1 digest of the namespace
  uuid's bytes followed by the name's bytes, truncated to 128 bits with variant and version
  stamped: the streaming state machine (block buffer, bit counter, padding loops) ends, never
  throws below \<open>2 ^ 61\<close> bytes, and does not depend on the uninitialised block buffer.
\<close>

theorem name_generator_is_sha1:
  "wf_uuid ns \<Longrightarrow> length blk0 = 64 \<Longrightarrow> length name < 2 ^ 61 - 16 \<Longrightarrow>
     name_generator blk0 ns name = Some (Inr (sha_to_uuid (fips_sha1 (ns @ bytes_of_string name))))"
  by (rule name_generator_spec) (simp_all add: wf_uuid_def)

theorem name_generator_is_sha1_witness:
  "name_generator (replicate 64 7) nil_uuid ''Carol'' =
     Some (Inr (sha_to_uuid (fips_sha1 (nil_uuid @ bytes_of_string ''Carol''))))"
  using name_generator_is_sha1 [of nil_uuid "replicate 64 7" "''Carol''"] by simp

end
