(* ===== verification/INode.thy ===== *)
theory INode imports Sha1 begin

text \<open>
  The process-wide \<open>Core\<close> singleton and the node identity \<open>INode\<close> (\<open>core.cpp\<close>,
  \<open>inode.hpp\<close>, \<open>inode.cpp\<close>): constructors, accessors, equality and the archive form.
\<close>

section \<open>Core\<close>

record core =
  core_hostuuid :: uuid

text \<open>\<open>Core::Core() : hostuuid(boost::uuids::uuid())\<close> value-initialises a POD: sixteen zero bytes.\<close>

definition Core_new :: core where
  "Core_new = \<lparr>core_hostuuid = replicate 16 0\<rparr>"

text \<open>The static pointer \<open>Core::inst\<close> is the state.\<close>

definition getInstance :: "core option \<Rightarrow> core \<times> core option" where
  "getInstance inst = (let inst' = (if inst = None then Some Core_new else inst) in (the inst', inst'))"

definition getHostUUID_core :: "core \<Rightarrow> uuid" where
  "getHostUUID_core c = core_hostuuid c"

lemma getInstance_same:
  "getInstance (snd (getInstance inst)) = getInstance inst"
  by (simp add: getInstance_def Let_def)

lemma getInstance_nil: "getHostUUID_core (fst (getInstance None)) = nil_uuid"
  by (simp add: getInstance_def getHostUUID_core_def Core_new_def nil_uuid_def)

section \<open>Nodes\<close>

record inode =
  hostuuid :: uuid
  nodeuuid :: uuid
  node_alias :: string

text \<open>
  \<open>INode(std::string alias)\<close>: a name-based uuid when an alias is given, a random one
  otherwise. \<open>blk0\<close> and \<open>g\<close> are the uninitialised hash block and the random numbers.
\<close>

definition INode_alias :: "core \<Rightarrow> byte list \<Rightarrow> (nat \<Rightarrow> u64) \<Rightarrow> string \<Rightarrow> inode result option" where
  "INode_alias c blk0 g a =
     (if length a > 0
      then map_option (\<lambda>r. case r of Inl e \<Rightarrow> Inl e
             | Inr u \<Rightarrow> Inr \<lparr>hostuuid = getHostUUID_core c, nodeuuid = u, node_alias = a\<rparr>)
             (name_generator blk0 (getHostUUID_core c) a)
      else Some (Inr \<lparr>hostuuid = getHostUUID_core c, nodeuuid = random_uuid g, node_alias = a\<rparr>))"

definition INode_uuid :: "core \<Rightarrow> uuid \<Rightarrow> inode" where
  "INode_uuid c u = \<lparr>hostuuid = getHostUUID_core c, nodeuuid = u, node_alias = []\<rparr>"

definition INode_uuid_alias :: "core \<Rightarrow> uuid \<Rightarrow> string \<Rightarrow> inode" where
  "INode_uuid_alias c u a = \<lparr>hostuuid = getHostUUID_core c, nodeuuid = u, node_alias = a\<rparr>"

definition INode_host_uuid :: "uuid \<Rightarrow> uuid \<Rightarrow> inode" where
  "INode_host_uuid h u = \<lparr>hostuuid = h, nodeuuid = u, node_alias = []\<rparr>"

definition INode_copy :: "inode \<Rightarrow> inode" where
  "INode_copy n = \<lparr>hostuuid = hostuuid n, nodeuuid = nodeuuid n, node_alias = node_alias n\<rparr>"

definition getNilNode :: inode where
  "getNilNode = INode_host_uuid nil_uuid nil_uuid"

definition isLocal :: "core \<Rightarrow> inode \<Rightarrow> bool" where
  "isLocal c n \<longleftrightarrow> hostuuid n = getHostUUID_core c"

definition getNodeUUID :: "inode \<Rightarrow> uuid" where
  "getNodeUUID n = nodeuuid n"

definition getHostUUID :: "inode \<Rightarrow> uuid" where
  "getHostUUID n = hostuuid n"

definition getAlias :: "inode \<Rightarrow> string" where
  "getAlias n = (if length (node_alias n) \<le> 0 then uuid_insert default_fmt (nodeuuid n) else node_alias n)"

definition inode_eq :: "inode \<Rightarrow> inode \<Rightarrow> bool" where
  "inode_eq a b \<longleftrightarrow> nodeuuid b = nodeuuid a"

section \<open>Archive form\<close>

text \<open>
  \<open>saveUUID\<close> copies the bytes and applies \<open>htonl\<close> to each aligned \<open>uint32_t\<close> in place.
  \<open>loadUUID\<close> applies \<open>ntohl\<close> to the source and then copies \<^emph>\<open>from\<close> the result \<^emph>\<open>into\<close> the
  source (\<open>memcpy(source, &result, 16)\<close>); both arrays after the call are returned.
\<close>

definition word_at :: "byte list \<Rightarrow> nat \<Rightarrow> byte list" where
  "word_at bs i = take 4 (drop (4 * i) bs)"

definition saveUUID :: "endian \<Rightarrow> uuid \<Rightarrow> byte list" where
  "saveUUID e u = concat (map (\<lambda>i. mem32 e (htonl e (load32 e (word_at u i)))) [0..<4])"

definition loadUUID :: "endian \<Rightarrow> uuid \<Rightarrow> byte list \<Rightarrow> uuid \<times> byte list" where
  "loadUUID e result source =
     (let source' = concat (map (\<lambda>i. mem32 e (ntohl e (load32 e (word_at source i)))) [0..<4])
      in (result, blit source' 0 (take 16 result)))"

text \<open>
  What \<open>ar & x\<close> appends to or takes from a boost archive, item by item; \<open>None\<close> is the
  archive exception of a load that meets another item or the end.
\<close>

datatype ar_item = ArBytes "byte list" | ArString string | ArInt int

fun ar_get_bytes :: "ar_item list \<Rightarrow> (byte list \<times> ar_item list) option" where
  "ar_get_bytes (ArBytes b # ts) = Some (b, ts)"
| "ar_get_bytes _ = None"

fun ar_get_string :: "ar_item list \<Rightarrow> (string \<times> ar_item list) option" where
  "ar_get_string (ArString s # ts) = Some (s, ts)"
| "ar_get_string _ = None"

fun ar_get_int :: "ar_item list \<Rightarrow> (int \<times> ar_item list) option" where
  "ar_get_int (ArInt i # ts) = Some (i, ts)"
| "ar_get_int _ = None"

definition INode_save :: "endian \<Rightarrow> inode \<Rightarrow> ar_item list" where
  "INode_save e n = [ArBytes (saveUUID e (hostuuid n)), ArBytes (saveUUID e (nodeuuid n)), ArString (node_alias n)]"

definition INode_load :: "endian \<Rightarrow> inode \<Rightarrow> ar_item list \<Rightarrow> (inode \<times> ar_item list) option" where
  "INode_load e n ts =
     Option.bind (ar_get_bytes ts) (\<lambda>(u1, ts1).
     let n1 = n\<lparr>hostuuid := fst (loadUUID e (hostuuid n) u1)\<rparr> in
     Option.bind (ar_get_bytes ts1) (\<lambda>(u2, ts2).
     let n2 = n1\<lparr>nodeuuid := fst (loadUUID e (nodeuuid n1) u2)\<rparr> in
     map_option (\<lambda>(a, ts3). (n2\<lparr>node_alias := a\<rparr>, ts3)) (ar_get_string ts2)))"

section \<open>Lemmas\<close>

definition wf_inode :: "inode \<Rightarrow> bool" where
  "wf_inode n \<longleftrightarrow> wf_uuid (hostuuid n) \<and> wf_uuid (nodeuuid n)"

lemma INode_copy_id [simp]: "INode_copy n = n"
  by (simp add: INode_copy_def)

lemma upt_4: "[0..<4] = [0, 1, 2, 3 :: nat]"
  by (simp add: upt_rec)

lemma length_word_at: "length u = 16 \<Longrightarrow> i < 4 \<Longrightarrow> length (word_at u i) = 4"
  by (simp add: word_at_def)

lemma concat_word_at:
  assumes "length u = 16"
  shows "concat (map (word_at u) [0..<4]) = u"
proof -
  have "u = take 4 u @ take 4 (drop 4 u) @ take 4 (drop 8 u) @ take 4 (drop 12 u)"
    using assms by (intro nth_equalityI) (auto simp: nth_append)
  then show ?thesis by (simp add: upt_4 word_at_def)
qed

lemma save_word: "length w = 4 \<Longrightarrow> be32 (load32 e w) = (case e of BigEndian \<Rightarrow> w | LittleEndian \<Rightarrow> rev w)"
  by (cases e) (simp_all add: load32_def)

lemma saveUUID_words:
  "length u = 16 \<Longrightarrow> saveUUID e u =
     concat (map (\<lambda>i. case e of BigEndian \<Rightarrow> word_at u i | LittleEndian \<Rightarrow> rev (word_at u i)) [0..<4])"
  by (simp add: saveUUID_def upt_4 save_word length_word_at)

lemma length_saveUUID: "length (saveUUID e u) = 16"
  by (simp add: saveUUID_def upt_4)

lemma word_at_concat:
  assumes "\<And>j. j < 4 \<Longrightarrow> length (f j) = 4" and "i < 4"
  shows "word_at (concat (map f [0..<4])) i = f i"
proof -
  have "length (f 0) = 4" "length (f (Suc 0)) = 4" "length (f 2) = 4" "length (f 3) = 4"
    using assms(1) by simp_all
  moreover have "i \<in> {0, 1, 2, 3}" using assms(2) by auto
  ultimately show ?thesis
    unfolding word_at_def upt_4 by auto
qed

lemma word_at_save:
  assumes "length u = 16" "i < 4"
  shows "word_at (saveUUID e u) i = (case e of BigEndian \<Rightarrow> word_at u i | LittleEndian \<Rightarrow> rev (word_at u i))"
  unfolding saveUUID_words [OF assms(1)]
  using assms by (intro word_at_concat) (auto simp: length_word_at split: endian.split)

lemma saveUUID_involution:
  assumes "length u = 16"
  shows "saveUUID e (saveUUID e u) = u"
proof -
  have "saveUUID e (saveUUID e u) = concat (map (word_at u) [0..<4])"
    unfolding saveUUID_words [OF length_saveUUID]
    by (rule arg_cong [where f = concat], rule map_cong) (auto simp: word_at_save [OF assms] split: endian.split)
  then show ?thesis by (simp add: concat_word_at assms)
qed

lemma saveUUID_big: "length u = 16 \<Longrightarrow> saveUUID BigEndian u = u"
  by (simp add: saveUUID_words concat_word_at)

lemma loadUUID_result [simp]: "fst (loadUUID e r s) = r"
  by (simp add: loadUUID_def Let_def)

lemma INode_load_save:
  "INode_load e m (INode_save e n @ ts) = Some (m\<lparr>node_alias := node_alias n\<rparr>, ts)"
  by (simp add: INode_load_def INode_save_def Let_def)

section \<open>Properties\<close>

text \<open>
  Constructing a node from a non-empty alias always succeeds (below \<open>2 ^ 61\<close> bytes),
  gives the same node uuid whatever the random numbers and the uninitialised memory are, and
  that uuid never collides with the uuid of a node constructed without an alias, because the
  two carry different uuid versions.
\<close>

theorem alias_node_uuid_stable:
  assumes "wf_uuid (getHostUUID_core c)" "a \<noteq> []" "length a < 2 ^ 61 - 16"
  shows "\<exists>n. wf_inode n \<and> isLocal c n \<and> getAlias n = a \<and>
    (\<forall>blk0 g. length blk0 = 64 \<longrightarrow> INode_alias c blk0 g a = Some (Inr n)) \<and>
    (\<forall>blk0 g m. INode_alias c blk0 g [] = Some (Inr m) \<longrightarrow> wf_inode m \<and> isLocal c m \<and> \<not> inode_eq n m)"
proof -
  let ?u = "sha_to_uuid (fips_sha1 (getHostUUID_core c @ bytes_of_string a))"
  let ?n = "\<lparr>hostuuid = getHostUUID_core c, nodeuuid = ?u, node_alias = a\<rparr>"
  have "length (getHostUUID_core c) + length a < 2 ^ 61"
    using assms(1,3) by (simp add: wf_uuid_def)
  then have gen: "name_generator blk0 (getHostUUID_core c) a = Some (Inr ?u)" if "length blk0 = 64" for blk0
    using that by (rule name_generator_spec [rotated])
  have "length (stamp_variant (random_bytes g 1 0 (g 0) 16)) = 16" for g
    by simp
  then have "version (random_uuid g) = version_random_number_based" for g
    unfolding random_uuid_def by (rule version_stamp_random)
  then have "?u \<noteq> random_uuid g" for g
    using sha_to_uuid_stamped(3) [of "fips_sha1 (getHostUUID_core c @ bytes_of_string a)"] by (metis version_type.distinct)
  then have "random_uuid g \<noteq> ?u" for g by metis
  then show ?thesis
    using assms(1,2) gen
    by (intro exI [of _ ?n])
      (auto simp: INode_alias_def wf_inode_def sha_to_uuid_stamped isLocal_def getAlias_def inode_eq_def)
qed

theorem alias_node_uuid_stable_witness:
  "\<exists>n. INode_alias Core_new (replicate 64 0) (\<lambda>_. 0) ''Carol'' = Some (Inr n) \<and>
     INode_alias Core_new (replicate 64 1) (\<lambda>_. 1) ''Carol'' = Some (Inr n)"
  using alias_node_uuid_stable [of Core_new "''Carol''"]
  by (auto simp: Core_new_def getHostUUID_core_def wf_uuid_def)

text \<open>
  What is stored in an archive for a uuid: on every host the stored bytes determine the uuid
  (applying the conversion twice restores it), a big-endian host stores the uuid as it is and a
  little-endian host reverses each group of four bytes, so the two forms agree only on uuids
  whose groups are palindromes: the byte-order conversion makes the archive depend on the host.
\<close>

theorem saveUUID_host_dependent:
  assumes "wf_uuid u"
  shows "saveUUID e (saveUUID e u) = u \<and> saveUUID BigEndian u = u \<and>
    (saveUUID LittleEndian u = saveUUID BigEndian u \<longleftrightarrow> (\<forall>i < 4. rev (word_at u i) = word_at u i))"
proof -
  have u: "length u = 16" using assms by (simp add: wf_uuid_def)
  have "saveUUID LittleEndian u = u \<longleftrightarrow> (\<forall>i < 4. rev (word_at u i) = word_at u i)"
  proof
    assume "saveUUID LittleEndian u = u"
    then show "\<forall>i < 4. rev (word_at u i) = word_at u i"
      using word_at_save [OF u, of _ LittleEndian] by simp
  next
    assume pal: "\<forall>i < 4. rev (word_at u i) = word_at u i"
    have "saveUUID LittleEndian u = concat (map (word_at u) [0..<4])"
      unfolding saveUUID_words [OF u] using pal by (auto intro!: arg_cong [where f = concat])
    then show "saveUUID LittleEndian u = u" by (simp add: concat_word_at u)
  qed
  then show ?thesis using saveUUID_involution [OF u, of e] saveUUID_big [OF u] by simp
qed

theorem saveUUID_host_dependent_witness:
  "saveUUID LittleEndian [0,1,2,3,4,5,6,7,8,9,10,11,12,13,14,15] \<noteq> saveUUID BigEndian [0,1,2,3,4,5,6,7,8,9,10,11,12,13,14,15]"
  using saveUUID_host_dependent [of "[0,1,2,3,4,5,6,7,8,9,10,11,12,13,14,15]" LittleEndian]
  by (auto simp: wf_uuid_def word_at_def dest!: spec [of _ "0::nat"])

end
