(* ===== verification/Packet.thy ===== *)
theory Packet imports INode begin

text \<open>
  Packets (\<open>packet.hpp\<close>, \<open>packet.cpp\<close>): sender and receiver, a message type, the payload,
  and the archive form of the header. The payload travels outside the archive.
\<close>

section \<open>The code\<close>

text \<open>
  \<open>enum METATYPE\<close>. A member of enum type is kept as its integer, because \<open>load\<close> casts an
  integer of the archive to the enum without looking at it.
\<close>

definition META_MIN :: int where "META_MIN = 0"
definition META_NODEAVAIL :: int where "META_NODEAVAIL = 1"
definition META_NODEUNAVAIL :: int where "META_NODEUNAVAIL = 2"
definition META_DATA :: int where "META_DATA = 3"
definition META_MAX :: int where "META_MAX = 4"

record packet =
  sender :: inode
  receiver :: inode
  pk_payload :: string
  pk_type :: int

definition Packet_new :: "inode \<Rightarrow> inode \<Rightarrow> packet" where
  "Packet_new s r = \<lparr>sender = INode_copy s, receiver = INode_copy r, pk_payload = [], pk_type = META_MIN\<rparr>"

text \<open>\<open>Packet()\<close>: both default arguments are the nil node.\<close>

definition Packet_default :: packet where
  "Packet_default = Packet_new getNilNode getNilNode"

definition getSender :: "packet \<Rightarrow> inode" where
  "getSender p = sender p"

definition getReceiver :: "packet \<Rightarrow> inode" where
  "getReceiver p = receiver p"

definition payload_set :: "string \<Rightarrow> packet \<Rightarrow> packet \<times> string" where
  "payload_set s p = (let p' = p\<lparr>pk_payload := s\<rparr> in (p', pk_payload p'))"

definition payload :: "packet \<Rightarrow> string" where
  "payload p = pk_payload p"

text \<open>\<open>unsigned int size()\<close> narrows \<open>std::string::size()\<close> to 32 bits.\<close>

definition Packet_size :: "packet \<Rightarrow> u32" where
  "Packet_size p = of_nat (length (pk_payload p))"

text \<open>\<open>type(t)\<close>: the setter and, with its default argument \<open>MIN\<close>, the getter.\<close>

definition Packet_type :: "int \<Rightarrow> packet \<Rightarrow> packet \<times> int" where
  "Packet_type t p =
     (let p' = (if t > META_MIN \<and> t < META_MAX then p\<lparr>pk_type := t\<rparr> else p) in (p', pk_type p'))"

definition Packet_save :: "endian \<Rightarrow> packet \<Rightarrow> ar_item list" where
  "Packet_save e p = INode_save e (sender p) @ INode_save e (receiver p) @ [ArInt (pk_type p)]"

definition Packet_load :: "endian \<Rightarrow> packet \<Rightarrow> ar_item list \<Rightarrow> (packet \<times> ar_item list) option" where
  "Packet_load e p ts =
     Option.bind (INode_load e (sender p) ts) (\<lambda>(s, ts1).
     Option.bind (INode_load e (receiver p) ts1) (\<lambda>(r, ts2).
     map_option (\<lambda>(t, ts3). (p\<lparr>sender := s, receiver := r, pk_type := t\<rparr>, ts3)) (ar_get_int ts2)))"

section \<open>Lemmas\<close>

definition wf_packet :: "packet \<Rightarrow> bool" where
  "wf_packet p \<longleftrightarrow> META_MIN \<le> pk_type p \<and> pk_type p < META_MAX"

lemmas meta_defs = META_MIN_def META_NODEAVAIL_def META_NODEUNAVAIL_def META_DATA_def META_MAX_def

lemma wf_packet_new [simp]: "wf_packet (Packet_new s r)"
  by (simp add: wf_packet_def Packet_new_def meta_defs)

lemma wf_packet_type [simp]: "wf_packet p \<Longrightarrow> wf_packet (fst (Packet_type t p))"
  by (simp add: wf_packet_def Packet_type_def Let_def)

lemma wf_packet_payload [simp]: "wf_packet (fst (payload_set s p)) \<longleftrightarrow> wf_packet p"
  by (simp add: wf_packet_def payload_set_def Let_def)

lemma Packet_load_save:
  "Packet_load e q (Packet_save e p @ ts) =
     Some (q\<lparr>sender := (sender q)\<lparr>node_alias := node_alias (sender p)\<rparr>,
             receiver := (receiver q)\<lparr>node_alias := node_alias (receiver p)\<rparr>, pk_type := pk_type p\<rparr>, ts)"
  by (simp add: Packet_load_def Packet_save_def INode_load_save)

section \<open>Properties\<close>

text \<open>
  C39: A packet header written to an archive and read into another packet object arrives with
  the type and both aliases, leaves the payload alone and consumes exactly its own items; but
  the sender and the receiver are the ones the object had before, so the identity of a node
  survives the transfer only where it was already there. Read into a default packet, as the
  TCP protocol does, sender and receiver are the nil node whatever was sent.
\<close>

theorem packet_archive_roundtrip:
  "\<exists>q'. Packet_load e q (Packet_save e p @ ts) = Some (q', ts) \<and>
     pk_type q' = pk_type p \<and> payload q' = payload q \<and>
     node_alias (getSender q') = node_alias (getSender p) \<and>
     node_alias (getReceiver q') = node_alias (getReceiver p) \<and>
     getNodeUUID (getSender q') = getNodeUUID (getSender q) \<and>
     getNodeUUID (getReceiver q') = getNodeUUID (getReceiver q) \<and>
     (inode_eq (getSender p) (getSender q') \<longleftrightarrow> inode_eq (getSender p) (getSender q)) \<and>
     (q = Packet_default \<longrightarrow> inode_eq getNilNode (getSender q') \<and> inode_eq getNilNode (getReceiver q'))"
  by (simp add: Packet_load_save getSender_def getReceiver_def payload_def getNodeUUID_def inode_eq_def
      Packet_default_def Packet_new_def)

theorem packet_archive_roundtrip_witness:
  "\<exists>q'. Packet_load LittleEndian Packet_default
      (Packet_save LittleEndian (Packet_new (INode_host_uuid nil_uuid (replicate 16 1)) getNilNode) @ []) = Some (q', []) \<and>
     inode_eq getNilNode (getSender q')"
  using packet_archive_roundtrip [of LittleEndian Packet_default
      "Packet_new (INode_host_uuid nil_uuid (replicate 16 1)) getNilNode" "[]"] by blast

end
