(* ===== verification/MultiIndex.thy ===== *)
theory MultiIndex imports Main begin

text \<open>
  The container behind the group's tables, \<open>boost::multi_index_container\<close>, as a list of
  rows in order of insertion: what \<open>insert\<close>, \<open>find\<close>, \<open>replace\<close> and \<open>erase\<close> of a
  range document. A row clashes with another when a unique index has the same key for both;
  an insertion or a replacement that would clash is refused and changes nothing. The order
  of a non-unique index is the stable order of its keys.

  \<open>keyed_table\<close> is the interface the group code relies on: one unique index of one table.
\<close>

section \<open>The container\<close>

definition mi_find :: "('r \<Rightarrow> 'k) \<Rightarrow> 'k \<Rightarrow> 'r list \<Rightarrow> 'r option" where
  "mi_find key k rs = List.find (\<lambda>r. key r = k) rs"

definition mi_insert :: "('r \<Rightarrow> 'r \<Rightarrow> bool) \<Rightarrow> 'r \<Rightarrow> 'r list \<Rightarrow> 'r list" where
  "mi_insert clash r rs = (if list_ex (clash r) rs then rs else rs @ [r])"

definition mi_replace :: "('r \<Rightarrow> 'r \<Rightarrow> bool) \<Rightarrow> 'r \<Rightarrow> 'r \<Rightarrow> 'r list \<Rightarrow> 'r list" where
  "mi_replace clash r r' rs =
     (if list_ex (\<lambda>x. x \<noteq> r \<and> clash r' x) rs then rs else map (\<lambda>x. if x = r then r' else x) rs)"

definition mi_erase :: "('r \<Rightarrow> bool) \<Rightarrow> 'r list \<Rightarrow> 'r list" where
  "mi_erase P rs = filter (\<lambda>r. \<not> P r) rs"

definition mi_unique :: "('r \<Rightarrow> 'r \<Rightarrow> bool) \<Rightarrow> 'r list \<Rightarrow> bool" where
  "mi_unique clash rs \<longleftrightarrow> sorted_wrt (\<lambda>x y. \<not> clash x y) rs"

lemma option_ext: "(\<And>x. a = Some x \<longleftrightarrow> b = Some x) \<Longrightarrow> a = b"
  by (cases a; cases b) auto

section \<open>The interface\<close>

locale keyed_table =
  fixes key :: "'r \<Rightarrow> 'k"
    and fresh :: "'r \<Rightarrow> 't \<Rightarrow> bool"
    and rows :: "'t \<Rightarrow> 'r set"
    and find_row :: "'k \<Rightarrow> 't \<Rightarrow> 'r option"
    and insert_row :: "'r \<Rightarrow> 't \<Rightarrow> 't"
    and replace_row :: "'r \<Rightarrow> 'r \<Rightarrow> 't \<Rightarrow> 't"
    and erase_rows :: "('r \<Rightarrow> bool) \<Rightarrow> 't \<Rightarrow> 't"
    and same_keys :: "'r \<Rightarrow> 'r \<Rightarrow> bool"
    and valid :: "'t \<Rightarrow> bool"
  assumes find_iff: "valid t \<Longrightarrow> find_row k t = Some r \<longleftrightarrow> r \<in> rows t \<and> key r = k"
    and rows_insert: "rows (insert_row r t) = (if fresh r t then insert r (rows t) else rows t)"
    and rows_replace: "valid t \<Longrightarrow> r \<in> rows t \<Longrightarrow> same_keys r r' \<Longrightarrow>
          rows (replace_row r r' t) = insert r' (rows t - {r})"
    and rows_erase: "rows (erase_rows P t) = {r \<in> rows t. \<not> P r}"
    and same_keys_key: "same_keys r r' \<Longrightarrow> key r' = key r"
    and valid_insert: "valid t \<Longrightarrow> valid (insert_row r t)"
    and valid_replace: "valid t \<Longrightarrow> r \<in> rows t \<Longrightarrow> same_keys r r' \<Longrightarrow> valid (replace_row r r' t)"
    and valid_erase: "valid t \<Longrightarrow> valid (erase_rows P t)"
begin

lemma find_None_iff: "valid t \<Longrightarrow> find_row k t = None \<longleftrightarrow> (\<forall>r \<in> rows t. key r \<noteq> k)"
  using find_iff by (metis not_None_eq)

lemma find_insert_fresh: "valid t \<Longrightarrow> fresh r t \<Longrightarrow> find_row (key r) (insert_row r t) = Some r"
  by (simp add: find_iff valid_insert rows_insert)

lemma find_insert_other:
  "valid t \<Longrightarrow> k \<noteq> key r \<Longrightarrow> find_row k (insert_row r t) = find_row k t"
  by (rule option_ext) (auto simp: find_iff valid_insert rows_insert)

lemma insert_known: "\<not> fresh r t \<Longrightarrow> rows (insert_row r t) = rows t"
  by (simp add: rows_insert)

lemma find_replace_same:
  assumes "valid t" "find_row k t = Some r" "same_keys r r'"
  shows "find_row k (replace_row r r' t) = Some r'"
proof -
  have r: "r \<in> rows t" "key r = k" using assms by (simp_all add: find_iff)
  then show ?thesis
    using assms by (simp add: find_iff valid_replace rows_replace same_keys_key)
qed

lemma find_replace_other:
  "valid t \<Longrightarrow> r \<in> rows t \<Longrightarrow> same_keys r r' \<Longrightarrow> k \<noteq> key r \<Longrightarrow>
     find_row k (replace_row r r' t) = find_row k t"
  by (rule option_ext) (auto simp: find_iff valid_replace rows_replace dest: same_keys_key)

lemma find_erase:
  assumes "valid t"
  shows "find_row k (erase_rows P t) = (case find_row k t of None \<Rightarrow> None | Some r \<Rightarrow> if P r then None else Some r)"
proof (rule option_ext)
  fix x
  have "find_row k (erase_rows P t) = Some x \<longleftrightarrow> find_row k t = Some x \<and> \<not> P x"
    using assms by (auto simp: find_iff valid_erase rows_erase)
  then show "find_row k (erase_rows P t) = Some x \<longleftrightarrow>
      (case find_row k t of None \<Rightarrow> None | Some r \<Rightarrow> if P r then None else Some r) = Some x"
    by (auto split: option.split)
qed

end

section \<open>The container provides the interface\<close>

lemma mi_find_Some: "mi_find key k rs = Some r \<Longrightarrow> r \<in> set rs \<and> key r = k"
  by (auto simp: mi_find_def find_Some_iff)

lemma mi_unique_append1 [simp]:
  "mi_unique clash (rs @ [r]) \<longleftrightarrow> mi_unique clash rs \<and> (\<forall>x \<in> set rs. \<not> clash x r)"
  by (auto simp: mi_unique_def sorted_wrt_append)

lemma mi_unique_filter: "mi_unique clash rs \<Longrightarrow> mi_unique clash (filter P rs)"
  by (simp add: mi_unique_def sorted_wrt_filter)

lemma mi_unique_Nil [simp]: "mi_unique clash []"
  by (simp add: mi_unique_def)

lemma mi_unique_same:
  assumes "mi_unique clash rs" and "x \<in> set rs" "y \<in> set rs" "clash x y" and "\<And>x y. clash x y \<Longrightarrow> clash y x"
  shows "x = y"
  using assms by (induction rs) (auto simp: mi_unique_def)

text \<open>
  An index on \<open>key\<close> of a table whose uniqueness is \<open>clash\<close>: rows with equal keys clash,
  \<open>clash\<close> is symmetric, and it depends on a row only through what \<open>same_keys\<close> compares.
\<close>

locale unique_index =
  fixes key :: "'r \<Rightarrow> 'k" and clash :: "'r \<Rightarrow> 'r \<Rightarrow> bool" and same_keys :: "'r \<Rightarrow> 'r \<Rightarrow> bool"
  assumes clash_key: "key x = key y \<Longrightarrow> clash x y"
    and clash_sym: "clash x y \<Longrightarrow> clash y x"
    and keys_key: "same_keys x y \<Longrightarrow> key y = key x"
    and same_keys_clash: "same_keys x y \<Longrightarrow> clash y z \<longleftrightarrow> clash x z"
begin

lemma find_set:
  assumes "mi_unique clash rs"
  shows "mi_find key k rs = Some r \<longleftrightarrow> r \<in> set rs \<and> key r = k"
proof
  assume "r \<in> set rs \<and> key r = k"
  then obtain r' where r': "mi_find key k rs = Some r'"
    by (cases "mi_find key k rs") (auto simp: mi_find_def find_None_iff)
  with mi_find_Some [OF r'] \<open>r \<in> set rs \<and> key r = k\<close> have "r' = r"
    using mi_unique_same [OF assms, of r' r] clash_key clash_sym by metis
  with r' show "mi_find key k rs = Some r" by simp
qed (rule mi_find_Some)

lemma replace_map:
  assumes "mi_unique clash rs" "r \<in> set rs" "same_keys r r'"
  shows "mi_replace clash r r' rs = map (\<lambda>x. if x = r then r' else x) rs"
proof -
  have "x = r" if "x \<in> set rs" "clash r' x" for x
    using mi_unique_same [OF assms(1) assms(2) that(1)] that(2) same_keys_clash [OF assms(3)] clash_sym by metis
  then show ?thesis by (auto simp: mi_replace_def list_ex_iff)
qed

lemma unique_replace:
  assumes "mi_unique clash rs" "r \<in> set rs" "same_keys r r'"
  shows "mi_unique clash (mi_replace clash r r' rs)"
proof -
  have "clash (if x = r then r' else x) (if y = r then r' else y) = clash x y" for x y
    using same_keys_clash [OF assms(3)] clash_sym by (metis (full_types))
  then show ?thesis
    using assms(1) unfolding replace_map [OF assms] by (simp add: mi_unique_def sorted_wrt_map)
qed

end

sublocale unique_index \<subseteq> keyed_table key "\<lambda>r rs. \<not> list_ex (clash r) rs" set "mi_find key"
  "mi_insert clash" "mi_replace clash" mi_erase same_keys "mi_unique clash"
proof
  fix t r
  assume "mi_unique clash t"
  then show "mi_unique clash (mi_insert clash r t)"
    by (auto simp: mi_insert_def list_ex_iff dest: clash_sym)
next
  fix t r r'
  assume "mi_unique clash t" "r \<in> set t" "same_keys r r'"
  then show "mi_unique clash (mi_replace clash r r' t)" by (rule unique_replace)
qed (auto simp: find_set mi_insert_def mi_erase_def replace_map keys_key mi_unique_filter)

end
