(* ===== verification/GroupTables.thy ===== *)
theory GroupTables imports Packet MultiIndex begin

text \<open>
  Local nodes (\<open>localnode.hpp\<close>, \<open>localnode.cpp\<close>), the handlers a group's \<open>io_service\<close>
  queues, and the rows and tables of \<open>util/groupcore.hpp\<close>, with the container interface
  interpreted on each unique index.
\<close>

section \<open>Local nodes\<close>

text \<open>
  \<open>LocalNode\<close> is an \<open>INode\<close> with a reference to the user's callbacks (numbered here) and the
  \<open>io_service\<close> it was constructed with, which is always its group's.
\<close>

record localnode =
  ln_node :: inode
  ln_cbs :: nat

text \<open>A bound call of a user callback: the object and the node arguments after the group.\<close>

datatype cb_call = CbRead nat packet | CbNodeAvailable nat "inode list" | CbNodeUnavailable nat "inode list"

datatype handler =
    HWorker nat
  | HNodeAvailable nat localnode
  | HNodeUnavailable nat localnode
  | HWrite nat packet
  | HCallback cb_call
  | HStop

definition LocalNode_new :: "core \<Rightarrow> byte list \<Rightarrow> (nat \<Rightarrow> u64) \<Rightarrow> string \<Rightarrow> nat \<Rightarrow> localnode result option" where
  "LocalNode_new c blk0 g a cbs =
     map_option (\<lambda>r. case r of Inl e \<Rightarrow> Inl e | Inr n \<Rightarrow> Inr \<lparr>ln_node = n, ln_cbs = cbs\<rparr>)
       (INode_alias c blk0 g a)"

definition LocalNode_copy :: "localnode \<Rightarrow> localnode" where
  "LocalNode_copy l = \<lparr>ln_node = INode_copy (ln_node l), ln_cbs = ln_cbs l\<rparr>"

definition getCallback :: "localnode \<Rightarrow> nat" where
  "getCallback l = ln_cbs l"

text \<open>\<open>this->io_service.post(boost::bind(...))\<close>: the handlers as they are queued.\<close>

definition LocalNode_OnRead :: "localnode \<Rightarrow> packet \<Rightarrow> handler list \<Rightarrow> handler list" where
  "LocalNode_OnRead l p io = io @ [HCallback (CbRead (ln_cbs l) p)]"

definition LocalNode_OnNodeAvailable :: "localnode \<Rightarrow> inode \<Rightarrow> inode \<Rightarrow> handler list \<Rightarrow> handler list" where
  "LocalNode_OnNodeAvailable l src dst io = io @ [HCallback (CbNodeAvailable (ln_cbs l) [dst])]"

definition LocalNode_OnNodeUnavailable :: "localnode \<Rightarrow> inode \<Rightarrow> inode \<Rightarrow> handler list \<Rightarrow> handler list" where
  "LocalNode_OnNodeUnavailable l src dst io = io @ [HCallback (CbNodeUnavailable (ln_cbs l) [src, dst])]"

section \<open>Rows\<close>

record packet_row =
  pr_packet :: packet
  pr_backendref :: "string set"

definition PacketRow :: "packet \<Rightarrow> packet_row" where
  "PacketRow p = \<lparr>pr_packet = p, pr_backendref = {}\<rparr>"

definition PacketRow_count :: "packet_row \<Rightarrow> u16" where
  "PacketRow_count r = of_nat (card (pr_backendref r))"

definition PacketRow_bytes :: "packet_row \<Rightarrow> u32" where
  "PacketRow_bytes r = Packet_size (pr_packet r)"

text \<open>\<open>ptime\<close>: microseconds of a clock reading; \<open>None\<close> is \<open>not_a_date_time\<close>, the default.\<close>

record localnode_row =
  lr_id :: u64
  lr_node :: localnode
  time_connect :: int
  time_disconnect :: "int option"
  backendrefcount :: u16

definition LocalNodeRow :: "u64 \<Rightarrow> localnode \<Rightarrow> int \<Rightarrow> localnode_row" where
  "LocalNodeRow i l t = \<lparr>lr_id = i, lr_node = LocalNode_copy l, time_connect = t,
     time_disconnect = None, backendrefcount = 0\<rparr>"

definition LocalNodeRow_nodeuuid :: "localnode_row \<Rightarrow> uuid" where
  "LocalNodeRow_nodeuuid r = getNodeUUID (ln_node (lr_node r))"

record backend_row =
  br_backend :: nat
  br_type :: string
  br_enabled :: bool
  br_sendqueue :: "packet list"

definition BackendRow :: "nat \<Rightarrow> string \<Rightarrow> backend_row" where
  "BackendRow b t = \<lparr>br_backend = b, br_type = t, br_enabled = False, br_sendqueue = []\<rparr>"

definition BackendRow_enable :: "backend_row \<Rightarrow> backend_row" where
  "BackendRow_enable r = r\<lparr>br_enabled := True\<rparr>"

definition BackendRow_disable :: "backend_row \<Rightarrow> backend_row" where
  "BackendRow_disable r = r\<lparr>br_enabled := False\<rparr>"

definition BackendRow_bytes :: "backend_row \<Rightarrow> u64" where
  "BackendRow_bytes r = foldl (\<lambda>b p. b + ucast (Packet_size p)) 0 (br_sendqueue r)"

section \<open>Tables\<close>

text \<open>\<open>LocalNodeSet\<close> is unique by id and by node uuid, \<open>BackendSet\<close> by type.\<close>

definition node_clash :: "localnode_row \<Rightarrow> localnode_row \<Rightarrow> bool" where
  "node_clash r s \<longleftrightarrow> lr_id r = lr_id s \<or> LocalNodeRow_nodeuuid r = LocalNodeRow_nodeuuid s"

definition backend_clash :: "backend_row \<Rightarrow> backend_row \<Rightarrow> bool" where
  "backend_clash r s \<longleftrightarrow> br_type r = br_type s"

definition same_node_keys :: "localnode_row \<Rightarrow> localnode_row \<Rightarrow> bool" where
  "same_node_keys r s \<longleftrightarrow> lr_id r = lr_id s \<and> LocalNodeRow_nodeuuid r = LocalNodeRow_nodeuuid s"

lemmas node_key_defs = node_clash_def same_node_keys_def

interpretation by_id: unique_index lr_id node_clash same_node_keys
  by unfold_locales (auto simp: node_key_defs)

interpretation by_uuid: unique_index LocalNodeRow_nodeuuid node_clash same_node_keys
  by unfold_locales (auto simp: node_key_defs)

interpretation by_type: unique_index br_type backend_clash backend_clash
  by unfold_locales (auto simp: backend_clash_def)

section \<open>Lemmas\<close>

lemma LocalNode_new_alias:
  assumes "wf_uuid (getHostUUID_core c)" "a \<noteq> []" "length a < 2 ^ 61 - 16" "length blk0 = 64"
  shows "LocalNode_new c blk0 g a cbs = Some (Inr \<lparr>ln_node = \<lparr>hostuuid = getHostUUID_core c,
     nodeuuid = sha_to_uuid (fips_sha1 (getHostUUID_core c @ bytes_of_string a)), node_alias = a\<rparr>, ln_cbs = cbs\<rparr>)"
proof -
  have "length (getHostUUID_core c) + length a < 2 ^ 61"
    using assms(1,3) by (simp add: wf_uuid_def)
  with assms(4) have "name_generator blk0 (getHostUUID_core c) a =
      Some (Inr (sha_to_uuid (fips_sha1 (getHostUUID_core c @ bytes_of_string a))))"
    by (rule name_generator_spec)
  then show ?thesis using assms(2) by (simp add: LocalNode_new_def INode_alias_def)
qed

lemma LocalNode_copy_id [simp]: "LocalNode_copy l = l"
  by (simp add: LocalNode_copy_def)

lemma same_node_keys_update [simp]:
  "same_node_keys r (r\<lparr>time_disconnect := d\<rparr>)"
  "same_node_keys r (r\<lparr>backendrefcount := n\<rparr>)"
  by (simp_all add: same_node_keys_def LocalNodeRow_nodeuuid_def)

lemma backend_clash_disable [simp]: "backend_clash r (BackendRow_disable r)"
  by (simp add: backend_clash_def BackendRow_disable_def)

lemma ucast_of_nat_u32: "(ucast (of_nat n :: u32) :: u64) = of_nat (take_bit 32 n)"
  by (simp add: unsigned_of_nat)

lemma foldl_ucast_sum:
  "foldl (\<lambda>b p. b + ucast (Packet_size p)) (of_nat n) ps =
     (of_nat (n + sum_list (map (\<lambda>p. take_bit 32 (length (pk_payload p))) ps)) :: u64)"
proof (induction ps arbitrary: n)
  case (Cons p ps)
  have "of_nat n + (ucast (Packet_size p) :: u64) = of_nat (n + take_bit 32 (length (pk_payload p)))"
    by (simp add: Packet_size_def ucast_of_nat_u32)
  with Cons [of "n + take_bit 32 (length (pk_payload p))"] show ?case
    by (simp add: ac_simps)
qed simp

lemma BackendRow_bytes_sum:
  "BackendRow_bytes r = of_nat (sum_list (map (\<lambda>p. take_bit 32 (length (pk_payload p))) (br_sendqueue r)))"
  using foldl_ucast_sum [of 0] by (simp add: BackendRow_bytes_def)

end
