(* ===== verification/GroupCore.thy ===== *)
theory GroupCore imports GroupTables begin

text \<open>
  The group itself (\<open>groupcore.hpp\<close>, \<open>groupcore.cpp\<close>): its tables, its \<open>io_service\<close>, the
  operations of the group, the worker, and the view of the nodes that backends get. Every
  operation acts on a record that extends \<open>gcore\<close>, so a backend's own state can ride along.
  The last sections state what every operation keeps and the step relation of a group.
\<close>

section \<open>State\<close>

text \<open>
  The three tables, the counter, the name, the queue of posted handlers, and whether
  \<open>io_service::stopped()\<close> holds.
\<close>

record gcore =
  localnodes :: "localnode_row list"
  backends :: "backend_row list"
  sendqueue :: "packet_row list"
  connectcount :: int
  gname :: string
  io_queue :: "handler list"
  io_stopped :: bool

text \<open>An exception leaves a function declared \<open>throw()\<close> by terminating the program.\<close>

definition GroupCore_new :: "string \<Rightarrow> gcore result" where
  "GroupCore_new nm = (if length nm \<le> 0 then Inl Terminate
     else Inr \<lparr>localnodes = [], backends = [], sendqueue = [], connectcount = 0, gname = nm,
               io_queue = [], io_stopped = False\<rparr>)"

definition post :: "handler \<Rightarrow> 'z gcore_scheme \<Rightarrow> 'z gcore_scheme" where
  "post h s = s\<lparr>io_queue := io_queue s @ [h]\<rparr>"

text \<open>The range \<open>(false, true]\<close> of the index on \<open>enabled\<close>, in the order of that index.\<close>

definition enabled_backends :: "'z gcore_scheme \<Rightarrow> backend_row list" where
  "enabled_backends s = filter (\<lambda>r. False < br_enabled r \<and> br_enabled r \<le> True) (backends s)"

definition post_all :: "(backend_row \<Rightarrow> handler) \<Rightarrow> 'z gcore_scheme \<Rightarrow> 'z gcore_scheme" where
  "post_all f s = fold (\<lambda>r. post (f r)) (enabled_backends s) s"

section \<open>Operations\<close>

text \<open>
  \<open>init\<close> is the backend's \<open>initialize\<close>, \<open>en\<close> the value of \<open>errno\<close> in the handler. An
  exception of any type becomes the same \<open>GScale::Exception\<close>.
\<close>

definition GroupCore_attachBackend :: "('z gcore_scheme \<Rightarrow> unit result \<times> 'z gcore_scheme) \<Rightarrow> int \<Rightarrow>
    string \<Rightarrow> nat \<Rightarrow> 'z gcore_scheme \<Rightarrow> unit result \<times> 'z gcore_scheme" where
  "GroupCore_attachBackend init en ty b s =
     (if mi_find br_type ty (backends s) = None
      then case init s of
          (Inl (Throw e), s') \<Rightarrow> (Inl (Throw (GException ''Couldn't insert new backend'' en)), s')
        | (Inl e, s') \<Rightarrow> (Inl e, s')
        | (Inr _, s') \<Rightarrow>
            (Inr (), s'\<lparr>backends := mi_insert backend_clash (BackendRow_enable (BackendRow b ty)) (backends s')\<rparr>)
      else (Inl (Throw (GException ''Backend already attached'' EALREADY)), s))"

definition GroupCore_detachBackend :: "string \<Rightarrow> 'z gcore_scheme \<Rightarrow> 'z gcore_scheme" where
  "GroupCore_detachBackend ty s =
     (case mi_find br_type ty (backends s) of
        None \<Rightarrow> s
      | Some r \<Rightarrow> s\<lparr>backends := mi_replace backend_clash r (BackendRow_disable r) (backends s)\<rparr>)"

text \<open>
  \<open>connectcount\<close> is a signed \<open>int\<close>; the row's id is its conversion to \<open>uint64_t\<close>. The
  insertion's result is not looked at. \<open>t\<close> is the clock, \<open>blk0\<close> and \<open>g\<close> the uninitialised
  hash block and the random numbers of the node's uuid.
\<close>

definition GroupCore_connect :: "core \<Rightarrow> byte list \<Rightarrow> (nat \<Rightarrow> u64) \<Rightarrow> int \<Rightarrow> string \<Rightarrow> nat \<Rightarrow>
    'z gcore_scheme \<Rightarrow> (localnode result \<times> 'z gcore_scheme) option" where
  "GroupCore_connect c blk0 g t a cbs s =
     (if connectcount s \<ge> 2 ^ 31 - 1 then Some (Inl (UB SignedOverflow), s)
      else let s1 = s\<lparr>connectcount := connectcount s + 1\<rparr> in
        map_option (\<lambda>res. case res of
            Inl e \<Rightarrow> (Inl e, s1)
          | Inr l \<Rightarrow>
              let row = LocalNodeRow (of_int (connectcount s1)) l t;
                  s2 = s1\<lparr>localnodes := mi_insert node_clash row (localnodes s1)\<rparr>
              in (Inr (lr_node row), post_all (\<lambda>b. HNodeAvailable (br_backend b) (lr_node row)) s2))
          (LocalNode_new c blk0 g a cbs))"

definition GroupCore_connect_nameless :: "core \<Rightarrow> byte list \<Rightarrow> (nat \<Rightarrow> u64) \<Rightarrow> int \<Rightarrow> nat \<Rightarrow>
    'z gcore_scheme \<Rightarrow> (localnode result \<times> 'z gcore_scheme) option" where
  "GroupCore_connect_nameless c blk0 g t cbs s = GroupCore_connect c blk0 g t [] cbs s"

definition GroupCore_disconnect :: "int \<Rightarrow> localnode \<Rightarrow> 'z gcore_scheme \<Rightarrow> 'z gcore_scheme" where
  "GroupCore_disconnect t n s =
     (let s1 = (case mi_find LocalNodeRow_nodeuuid (getNodeUUID (ln_node n)) (localnodes s) of
                  None \<Rightarrow> s
                | Some r \<Rightarrow> s\<lparr>localnodes := mi_replace node_clash r (r\<lparr>time_disconnect := Some t\<rparr>) (localnodes s)\<rparr>)
      in post_all (\<lambda>b. HNodeUnavailable (br_backend b) n) s1)"

text \<open>
  An iterator of the send queue is its position, \<open>end()\<close> the position after the last row. \<open>it--\<close> has the old
  value of the iterator and leaves it one position earlier; here the iterator is a temporary, so only the value
  counts. Only a position of a row can be dereferenced.
\<close>

definition post_decrement :: "nat \<Rightarrow> nat \<times> nat" where
  "post_decrement it = (it, it - 1)"

definition deref :: "nat \<Rightarrow> 'a list \<Rightarrow> 'a result" where
  "deref it xs = (if it < length xs then Inr (xs ! it) else Inl (UB EndDeref))"

text \<open>The loop that posts \<open>last->packet\<close> to the backends of a range.\<close>

fun write_loop :: "nat \<Rightarrow> backend_row list \<Rightarrow> 'z gcore_scheme \<Rightarrow> unit result \<times> 'z gcore_scheme" where
  "write_loop last_row [] s = (Inr (), s)"
| "write_loop last_row (b # bs) s =
     (case deref last_row (sendqueue s) of
        Inl e \<Rightarrow> (Inl e, s)
      | Inr r \<Rightarrow> write_loop last_row bs (post (HWrite (br_backend b) (pr_packet r)) s))"

definition GroupCore_write :: "packet \<Rightarrow> 'z gcore_scheme \<Rightarrow> unit result \<times> 'z gcore_scheme" where
  "GroupCore_write p s =
     (let pr = foldl (\<lambda>r b. r\<lparr>pr_backendref := insert (br_type b) (pr_backendref r)\<rparr>) (PacketRow p)
                 (enabled_backends s);
          s1 = s\<lparr>sendqueue := sendqueue s @ [pr]\<rparr>;
          last_row = fst (post_decrement (length (sendqueue s1)))
      in write_loop last_row (enabled_backends s1) s1)"

definition GroupCore_getEventDescriptor :: "'z gcore_scheme \<Rightarrow> int" where
  "GroupCore_getEventDescriptor s = 0"

definition GroupCore_getName :: "'z gcore_scheme \<Rightarrow> string" where
  "GroupCore_getName s = gname s"

section \<open>The worker\<close>

text \<open>
  \<open>io_service::run\<close> over the handlers \<open>exec\<close>. \<open>tm = Some n\<close>: a timer is pending that
  expires when \<open>n\<close> more handlers have run; its handler stops the service. The result has the
  timer that is still pending; \<open>None\<close> is a run that never returns. A service that runs out of
  work is stopped, and an exception leaves \<open>run\<close> at once.
\<close>

definition tick :: "nat option \<Rightarrow> nat option" where
  "tick tm = map_option (\<lambda>n. n - 1) tm"

partial_function (option) io_run ::
  "(handler \<Rightarrow> 'z gcore_scheme \<Rightarrow> (unit result \<times> 'z gcore_scheme) option) \<Rightarrow> nat option \<Rightarrow>
     'z gcore_scheme \<Rightarrow> (unit result \<times> nat option \<times> 'z gcore_scheme) option" where
  "io_run exec tm s =
     (if io_stopped s then Some (Inr (), tm, s)
      else if tm = Some 0 then Some (Inr (), None, s\<lparr>io_stopped := True\<rparr>)
      else case io_queue s of
          [] \<Rightarrow> Some (Inr (), None, s\<lparr>io_stopped := True\<rparr>)
        | h # hs \<Rightarrow>
            if h = HStop then Some (Inr (), tick tm, s\<lparr>io_queue := hs, io_stopped := True\<rparr>)
            else Option.bind (exec h (s\<lparr>io_queue := hs\<rparr>)) (\<lambda>res.
              case fst res of
                Inr _ \<Rightarrow> io_run exec (tick tm) (snd res)
              | Inl e \<Rightarrow> Some (Inl e, tick tm,
                  if tick tm = None \<and> io_queue (snd res) = [] then (snd res)\<lparr>io_stopped := True\<rparr> else snd res)))"

declare io_run.simps [code]

text \<open>The rows without references and the disabled backends are dropped after the run.\<close>

definition drop_unreferenced :: "'z gcore_scheme \<Rightarrow> 'z gcore_scheme" where
  "drop_unreferenced s =
     s\<lparr>localnodes := mi_erase (\<lambda>r. 0 \<le> backendrefcount r \<and> backendrefcount r < 1) (localnodes s)\<rparr>"

definition drop_disabled :: "'z gcore_scheme \<Rightarrow> 'z gcore_scheme" where
  "drop_disabled s =
     s\<lparr>backends := mi_erase (\<lambda>r. False \<le> br_enabled r \<and> br_enabled r < True) (backends s)\<rparr>"

text \<open>
  \<open>dispatch\<close> outside \<open>run\<close> posts. The timer is a local of the block around \<open>run\<close>: destroying it
  while it is pending cancels the wait, which queues its handler, \<open>stop\<close>.
\<close>

definition GroupCore_runWorker ::
  "(handler \<Rightarrow> 'z gcore_scheme \<Rightarrow> (unit result \<times> 'z gcore_scheme) option) \<Rightarrow> nat option \<Rightarrow>
     'z gcore_scheme \<Rightarrow> (unit result \<times> 'z gcore_scheme) option" where
  "GroupCore_runWorker exec tm s =
     (let s1 = (post_all (\<lambda>b. HWorker (br_backend b)) s)\<lparr>io_stopped := False\<rparr> in
      map_option (\<lambda>(res, tm', s2).
          let s3 = (if tm' = None then s2 else post HStop s2) in
          case res of
            Inl e \<Rightarrow> (Inl e, s3)
          | Inr _ \<Rightarrow> (Inr (), drop_disabled (drop_unreferenced s3)))
        (io_run exec tm s1))"

section \<open>The view for backends\<close>

definition dao_begin_uuid :: "'z gcore_scheme \<Rightarrow> localnode_row list" where
  "dao_begin_uuid s = sort_key LocalNodeRow_nodeuuid (localnodes s)"

text \<open>The range of the index on \<open>time_connect\<close>; \<open>None\<close> is \<open>not_a_date_time\<close>.\<close>

definition dao_rangeByCreated :: "int option \<Rightarrow> int option \<Rightarrow> 'z gcore_scheme \<Rightarrow> localnode_row list" where
  "dao_rangeByCreated min0 max0 s =
     (let (mn, mx) = (case (min0, max0) of
            (Some a, Some b) \<Rightarrow> if a > b then (Some b, Some a) else (Some a, Some b)
          | _ \<Rightarrow> (min0, max0));
          idx = sort_key time_connect (localnodes s)
      in case (mn, mx) of
           (None, None) \<Rightarrow> idx
         | (None, Some b) \<Rightarrow> filter (\<lambda>r. time_connect r \<le> b) idx
         | (Some a, None) \<Rightarrow> filter (\<lambda>r. a < time_connect r) idx
         | (Some a, Some b) \<Rightarrow> filter (\<lambda>r. a \<le> time_connect r \<and> time_connect r \<le> b) idx)"

definition dao_findByUUID :: "uuid \<Rightarrow> 'z gcore_scheme \<Rightarrow> localnode_row result" where
  "dao_findByUUID u s = (case mi_find LocalNodeRow_nodeuuid u (localnodes s) of
     None \<Rightarrow> Inl (Throw (GException (''node uuid not found:'' @ uuid_insert default_fmt u) ENOENT))
   | Some r \<Rightarrow> Inr r)"

definition increaseLocalNodeBackendRefCount :: "u64 \<Rightarrow> 'z gcore_scheme \<Rightarrow> 'z gcore_scheme" where
  "increaseLocalNodeBackendRefCount i s = (case mi_find lr_id i (localnodes s) of
     None \<Rightarrow> s
   | Some r \<Rightarrow> s\<lparr>localnodes := mi_replace node_clash r (r\<lparr>backendrefcount := backendrefcount r + 1\<rparr>) (localnodes s)\<rparr>)"

definition decreaseLocalNodeBackendRefCount :: "u64 \<Rightarrow> 'z gcore_scheme \<Rightarrow> 'z gcore_scheme" where
  "decreaseLocalNodeBackendRefCount i s = (case mi_find lr_id i (localnodes s) of
     None \<Rightarrow> s
   | Some r \<Rightarrow> s\<lparr>localnodes := mi_replace node_clash r (r\<lparr>backendrefcount := backendrefcount r - 1\<rparr>) (localnodes s)\<rparr>)"

section \<open>What the operations do\<close>

named_theorems group_simps

lemma enabled_backends_filter [group_simps]: "enabled_backends s = filter br_enabled (backends s)"
  by (simp add: enabled_backends_def less_bool_def)

lemma fold_post: "fold (\<lambda>r. post (f r)) rs s = s\<lparr>io_queue := io_queue s @ map f rs\<rparr>"
  by (induction rs arbitrary: s) (simp_all add: post_def)

lemma post_all_eq [group_simps]:
  "post_all f s = s\<lparr>io_queue := io_queue s @ map f (filter br_enabled (backends s))\<rparr>"
  by (simp add: post_all_def fold_post enabled_backends_filter)

lemma drop_unreferenced_eq [group_simps]:
  "drop_unreferenced s = s\<lparr>localnodes := filter (\<lambda>r. backendrefcount r \<noteq> 0) (localnodes s)\<rparr>"
proof -
  have "\<not> (0 \<le> n \<and> n < 1) \<longleftrightarrow> n \<noteq> 0" for n :: u16
    by (simp add: word_less_1)
  then show ?thesis by (simp only: drop_unreferenced_def mi_erase_def)
qed

lemma drop_disabled_eq [group_simps]:
  "drop_disabled s = s\<lparr>backends := filter br_enabled (backends s)\<rparr>"
  by (simp add: drop_disabled_def mi_erase_def less_bool_def)

lemma connect_eq:
  assumes "connectcount s < 2 ^ 31 - 1" "LocalNode_new c blk0 g a cbs = Some (Inr l)"
  shows "GroupCore_connect c blk0 g t a cbs s =
    Some (Inr l, s\<lparr>connectcount := connectcount s + 1,
      localnodes := mi_insert node_clash (LocalNodeRow (of_int (connectcount s + 1)) l t) (localnodes s),
      io_queue := io_queue s @ map (\<lambda>b. HNodeAvailable (br_backend b) l) (filter br_enabled (backends s))\<rparr>)"
  using assms by (simp add: GroupCore_connect_def Let_def post_all_eq LocalNodeRow_def)

lemma disconnect_eq:
  "GroupCore_disconnect t n s =
    s\<lparr>localnodes := (case mi_find LocalNodeRow_nodeuuid (getNodeUUID (ln_node n)) (localnodes s) of
         None \<Rightarrow> localnodes s
       | Some r \<Rightarrow> mi_replace node_clash r (r\<lparr>time_disconnect := Some t\<rparr>) (localnodes s)),
      io_queue := io_queue s @ map (\<lambda>b. HNodeUnavailable (br_backend b) n) (filter br_enabled (backends s))\<rparr>"
  by (simp add: GroupCore_disconnect_def Let_def post_all_eq split: option.split)

lemma foldl_backendref:
  "foldl (\<lambda>r b. r\<lparr>pr_backendref := insert (br_type b) (pr_backendref r)\<rparr>) r bs =
     r\<lparr>pr_backendref := pr_backendref r \<union> br_type ` set bs\<rparr>"
  by (induction bs arbitrary: r) auto

lemma write_loop_row:
  "i < length (sendqueue s) \<Longrightarrow>
     write_loop i bs s = (Inr (), s\<lparr>io_queue := io_queue s @ map (\<lambda>b. HWrite (br_backend b) (pr_packet (sendqueue s ! i))) bs\<rparr>)"
  by (induction bs arbitrary: s) (simp_all add: deref_def post_def)

lemma write_loop_end:
  "length (sendqueue s) \<le> i \<Longrightarrow> write_loop i bs s = (if bs = [] then Inr () else Inl (UB EndDeref), s)"
  by (cases bs) (simp_all add: deref_def)

lemma write_eq:
  "GroupCore_write p s =
    (if filter br_enabled (backends s) = [] then Inr () else Inl (UB EndDeref),
     s\<lparr>sendqueue := sendqueue s @ [\<lparr>pr_packet = p, pr_backendref = br_type ` {b \<in> set (backends s). br_enabled b}\<rparr>]\<rparr>)"
  by (simp add: GroupCore_write_def Let_def foldl_backendref PacketRow_def enabled_backends_filter
      post_decrement_def write_loop_end)

section \<open>The invariant\<close>

definition group_inv :: "'z gcore_scheme \<Rightarrow> bool" where
  "group_inv s \<longleftrightarrow> mi_unique node_clash (localnodes s) \<and> mi_unique backend_clash (backends s) \<and>
     0 \<le> connectcount s \<and> connectcount s < 2 ^ 31 \<and> gname s \<noteq> [] \<and>
     (\<forall>r \<in> set (localnodes s). 1 \<le> uint (lr_id r) \<and> uint (lr_id r) \<le> connectcount s)"

lemma group_invD:
  assumes "group_inv s"
  shows "mi_unique node_clash (localnodes s)" "mi_unique backend_clash (backends s)"
    "0 \<le> connectcount s" "connectcount s < 2 ^ 31" "gname s \<noteq> []"
    "r \<in> set (localnodes s) \<Longrightarrow> uint (lr_id r) \<le> connectcount s"
  using assms by (auto simp: group_inv_def)

lemma group_inv_new: "GroupCore_new nm = Inr s \<Longrightarrow> group_inv s"
  by (auto simp: GroupCore_new_def group_inv_def split: if_splits)

lemma group_inv_queue [simp]:
  "group_inv (s\<lparr>io_queue := q\<rparr>) = group_inv s"
  "group_inv (s\<lparr>io_stopped := b\<rparr>) = group_inv s"
  "group_inv (s\<lparr>sendqueue := pq\<rparr>) = group_inv s"
  by (simp_all add: group_inv_def)

lemma group_inv_backends:
  "group_inv s \<Longrightarrow> mi_unique backend_clash bs \<Longrightarrow> group_inv (s\<lparr>backends := bs\<rparr>)"
  by (simp add: group_inv_def)

lemma next_id:
  assumes "0 \<le> n" "n < 2 ^ 31 - 1"
  shows "uint (of_int (n + 1) :: u64) = n + 1"
proof -
  define m where "m = n + 1"
  have "0 \<le> m" "m < 2 ^ 64" using assms by (simp_all add: m_def)
  then show ?thesis unfolding m_def [symmetric] by (simp add: uint_word_of_int)
qed

text \<open>Ids only grow, so a new row clashes with an old one only through its uuid.\<close>

lemma fresh_row:
  assumes "group_inv s" "connectcount s < 2 ^ 31 - 1"
  shows "list_ex (node_clash (LocalNodeRow (of_int (connectcount s + 1)) l t)) (localnodes s) \<longleftrightarrow>
    (\<exists>r \<in> set (localnodes s). LocalNodeRow_nodeuuid r = getNodeUUID (ln_node l))"
proof -
  define i :: u64 where "i = of_int (connectcount s + 1)"
  have id: "lr_id r \<noteq> i" if "r \<in> set (localnodes s)" for r
    using group_invD(6) [OF assms(1) that] next_id [OF group_invD(3) [OF assms(1)] assms(2)]
    by (auto simp del: of_int_add simp flip: i_def)
  show ?thesis
    unfolding i_def [symmetric] list_ex_iff node_clash_def
    using id by (force simp: LocalNodeRow_def LocalNodeRow_nodeuuid_def)
qed

lemma group_inv_connect:
  assumes "group_inv s" "GroupCore_connect c blk0 g t a cbs s = Some (res, s')"
  shows "group_inv s'"
proof (cases "connectcount s < 2 ^ 31 - 1")
  case True
  then obtain r where r: "LocalNode_new c blk0 g a cbs = Some r"
    using assms(2) by (auto simp: GroupCore_connect_def Let_def)
  have id: "uint (of_int (connectcount s + 1) :: u64) = connectcount s + 1"
    using True group_invD(3) [OF assms(1)] by (rule next_id [rotated])
  show ?thesis
  proof (cases r)
    case (Inl e)
    then show ?thesis
      using assms True r by (force simp: GroupCore_connect_def Let_def group_inv_def)
  next
    case (Inr l)
    let ?row = "LocalNodeRow (of_int (connectcount s + 1)) l t"
    have eq: "s' = s\<lparr>connectcount := connectcount s + 1, localnodes := mi_insert node_clash ?row (localnodes s),
        io_queue := io_queue s @ map (\<lambda>b. HNodeAvailable (br_backend b) l) (filter br_enabled (backends s))\<rparr>"
      using assms(2) connect_eq [OF True r [unfolded Inr], of t] by simp
    have "1 \<le> uint (lr_id x) \<and> uint (lr_id x) \<le> connectcount s + 1"
      if "x \<in> set (mi_insert node_clash ?row (localnodes s))" for x
    proof -
      from that have "x \<in> set (localnodes s) \<or> x = ?row" by (auto simp: mi_insert_def split: if_splits)
      then show ?thesis using assms(1) id by (auto simp: group_inv_def LocalNodeRow_def)
    qed
    then show ?thesis
      using assms(1) True unfolding eq group_inv_def
      by (auto intro: by_uuid.valid_insert)
  qed
next
  case False
  then show ?thesis using assms by (simp add: GroupCore_connect_def)
qed

lemma group_inv_replace:
  assumes "group_inv s" "r \<in> set (localnodes s)" "same_node_keys r r'"
  shows "group_inv (s\<lparr>localnodes := mi_replace node_clash r r' (localnodes s)\<rparr>)"
proof -
  have u: "mi_unique node_clash (localnodes s)" using assms(1) by (rule group_invD)
  have "set (mi_replace node_clash r r' (localnodes s)) = insert r' (set (localnodes s) - {r})"
    using u assms(2,3) by (rule by_id.rows_replace)
  moreover have "lr_id r' = lr_id r" using assms(3) by (simp add: same_node_keys_def)
  ultimately show ?thesis
    using assms(1,2) by_id.valid_replace [OF u assms(2,3)] by (auto simp: group_inv_def)
qed

lemma group_inv_disconnect: "group_inv s \<Longrightarrow> group_inv (GroupCore_disconnect t n s)"
  using group_inv_replace [of s]
  by (auto simp: GroupCore_disconnect_def Let_def post_all_eq dest: mi_find_Some split: option.split)

lemma group_inv_write: "group_inv s \<Longrightarrow> group_inv (snd (GroupCore_write p s))"
  by (simp add: write_eq)

lemma group_inv_refcount:
  "group_inv s \<Longrightarrow> group_inv (increaseLocalNodeBackendRefCount i s)"
  "group_inv s \<Longrightarrow> group_inv (decreaseLocalNodeBackendRefCount i s)"
  by (auto simp: increaseLocalNodeBackendRefCount_def decreaseLocalNodeBackendRefCount_def
      dest: mi_find_Some intro!: group_inv_replace split: option.split)

lemma group_inv_detach: "group_inv s \<Longrightarrow> group_inv (GroupCore_detachBackend ty s)"
  by (auto simp: GroupCore_detachBackend_def dest!: mi_find_Some split: option.split
      intro!: group_inv_backends by_type.valid_replace dest: group_invD)

lemma group_inv_attach:
  assumes "group_inv s" "\<And>res s'. init s = (res, s') \<Longrightarrow> group_inv s'"
  shows "group_inv (snd (GroupCore_attachBackend init en ty b s))"
  using assms
  by (auto simp: GroupCore_attachBackend_def split: prod.split sum.split stop.split
      intro!: group_inv_backends by_type.valid_insert dest: group_invD)

lemma group_inv_drop: "group_inv s \<Longrightarrow> group_inv (drop_disabled (drop_unreferenced s))"
  by (auto simp: drop_unreferenced_eq drop_disabled_eq group_inv_def mi_unique_filter)

lemmas group_inv_intros =
  group_inv_connect group_inv_disconnect group_inv_write group_inv_detach group_inv_attach group_inv_drop

section \<open>Properties\<close>

lemma LocalNode_new_nameless:
  "LocalNode_new c blk0 g [] cbs =
     Some (Inr \<lparr>ln_node = INode_host_uuid (getHostUUID_core c) (random_uuid g), ln_cbs = cbs\<rparr>)"
  by (simp add: LocalNode_new_def INode_alias_def INode_host_uuid_def)

lemma group_inv_ex: "\<exists>s. GroupCore_new ''chat'' = Inr s \<and> group_inv s \<and> connectcount s = 0 \<and> localnodes s = [] \<and> backends s = []"
  by (simp add: GroupCore_new_def group_inv_def)

lemma findByUUID_iff:
  assumes "group_inv s"
  shows "dao_findByUUID u s = Inr r \<longleftrightarrow> r \<in> set (localnodes s) \<and> LocalNodeRow_nodeuuid r = u"
  using by_uuid.find_iff [OF group_invD(1) [OF assms], of u r]
  by (auto simp: dao_findByUUID_def split: option.split_asm)

lemma findByUUID_cong:
  "mi_find LocalNodeRow_nodeuuid u (localnodes s) = mi_find LocalNodeRow_nodeuuid u (localnodes s') \<Longrightarrow>
     dao_findByUUID u s = dao_findByUUID u s'"
  by (simp add: dao_findByUUID_def)

text \<open>
  C1: Connecting a node that could be constructed returns it and queues one announcement per
  enabled backend, in the order they were attached. If no node with its uuid is in the group, it
  becomes findable under that uuid with a new id and a reference count of zero, and every other
  lookup is unchanged. If one is (a second connect with the same alias), the table stays as it
  was, and the caller and the backends are told of a node the group does not hold.
\<close>

theorem connect_registers:
  assumes inv: "group_inv s" and cc: "connectcount s < 2 ^ 31 - 1"
    and new: "LocalNode_new c blk0 g a cbs = Some (Inr l)"
  shows "\<exists>s'. GroupCore_connect c blk0 g t a cbs s = Some (Inr l, s') \<and> group_inv s' \<and>
    io_queue s' = io_queue s @ map (\<lambda>b. HNodeAvailable (br_backend b) l) (filter br_enabled (backends s)) \<and>
    (if \<exists>r \<in> set (localnodes s). LocalNodeRow_nodeuuid r = getNodeUUID (ln_node l)
     then localnodes s' = localnodes s
     else \<exists>row. dao_findByUUID (getNodeUUID (ln_node l)) s' = Inr row \<and> lr_node row = l \<and>
            time_connect row = t \<and> time_disconnect row = None \<and> backendrefcount row = 0 \<and>
            (\<forall>r \<in> set (localnodes s). uint (lr_id r) < uint (lr_id row)) \<and>
            (\<forall>u. u \<noteq> getNodeUUID (ln_node l) \<longrightarrow> dao_findByUUID u s' = dao_findByUUID u s))"
proof -
  let ?row = "LocalNodeRow (of_int (connectcount s + 1)) l t"
  obtain s' where s': "GroupCore_connect c blk0 g t a cbs s = Some (Inr l, s')"
      "localnodes s' = mi_insert node_clash ?row (localnodes s)"
      "io_queue s' = io_queue s @ map (\<lambda>b. HNodeAvailable (br_backend b) l) (filter br_enabled (backends s))"
    using connect_eq [OF cc new, of t] by simp
  have inv': "group_inv s'" using inv s'(1) by (rule group_inv_connect)
  have key: "LocalNodeRow_nodeuuid ?row = getNodeUUID (ln_node l)"
    by (simp add: LocalNodeRow_nodeuuid_def LocalNodeRow_def)
  have u: "mi_unique node_clash (localnodes s)" using inv by (rule group_invD)
  have "uint (lr_id ?row) = connectcount s + 1"
    using next_id [OF group_invD(3) [OF inv] cc] by (simp add: LocalNodeRow_def del: of_int_add)
  then have id: "uint (lr_id r) < uint (lr_id ?row)" if "r \<in> set (localnodes s)" for r
    using group_invD(6) [OF inv that] by simp
  show ?thesis
  proof (cases "\<exists>r \<in> set (localnodes s). LocalNodeRow_nodeuuid r = getNodeUUID (ln_node l)")
    case True
    with fresh_row [OF inv cc, of l t] s' inv' show ?thesis by (simp add: mi_insert_def)
  next
    case False
    with fresh_row [OF inv cc, of l t] have fresh: "\<not> list_ex (node_clash ?row) (localnodes s)" by simp
    have "dao_findByUUID (getNodeUUID (ln_node l)) s' = Inr ?row"
      using by_uuid.find_insert_fresh [OF u fresh] unfolding key
      by (simp add: dao_findByUUID_def s'(2) del: of_int_add)
    moreover have "dao_findByUUID v s' = dao_findByUUID v s" if "v \<noteq> getNodeUUID (ln_node l)" for v
      using by_uuid.find_insert_other [OF u, of v ?row] that unfolding key
      by (intro findByUUID_cong) (simp add: s'(2) del: of_int_add)
    ultimately show ?thesis
      using False s' inv' id by (auto simp: LocalNodeRow_def)
  qed
qed

theorem connect_registers_witness:
  "\<exists>s l s'. GroupCore_new ''chat'' = Inr s \<and>
     GroupCore_connect Core_new [] (\<lambda>_. 0) 5 [] 7 s = Some (Inr l, s') \<and> group_inv s' \<and>
     (\<exists>row. dao_findByUUID (getNodeUUID (ln_node l)) s' = Inr row \<and> lr_node row = l)"
proof -
  obtain s :: gcore where s: "GroupCore_new ''chat'' = Inr s" "group_inv s" "connectcount s = 0" "localnodes s = []"
    using group_inv_ex by auto
  have "connectcount s < 2 ^ 31 - 1" by (simp add: s)
  from connect_registers [OF s(2) this LocalNode_new_nameless, of Core_new "[]" "\<lambda>_. 0" 5 7] s
  show ?thesis by auto
qed

text \<open>
  Disconnecting removes nothing: the node with the uuid, if the group has it, keeps its row
  with the time of the disconnect stored in it, every other lookup and the number of rows are
  unchanged, and one announcement per enabled backend is queued whether the group knew the node
  or not.
\<close>

theorem disconnect_marks:
  assumes inv: "group_inv s"
  shows "group_inv (GroupCore_disconnect t n s) \<and>
    length (localnodes (GroupCore_disconnect t n s)) = length (localnodes s) \<and>
    dao_findByUUID (getNodeUUID (ln_node n)) (GroupCore_disconnect t n s) =
      (case dao_findByUUID (getNodeUUID (ln_node n)) s of Inl e \<Rightarrow> Inl e | Inr r \<Rightarrow> Inr (r\<lparr>time_disconnect := Some t\<rparr>)) \<and>
    (\<forall>u. u \<noteq> getNodeUUID (ln_node n) \<longrightarrow>
       dao_findByUUID u (GroupCore_disconnect t n s) = dao_findByUUID u s) \<and>
    io_queue (GroupCore_disconnect t n s) =
      io_queue s @ map (\<lambda>b. HNodeUnavailable (br_backend b) n) (filter br_enabled (backends s))"
proof (cases "mi_find LocalNodeRow_nodeuuid (getNodeUUID (ln_node n)) (localnodes s)")
  case None
  then show ?thesis
    using inv by (simp add: disconnect_eq dao_findByUUID_def)
next
  case (Some r)
  let ?r = "r\<lparr>time_disconnect := Some t\<rparr>"
  have u: "mi_unique node_clash (localnodes s)" using inv by (rule group_invD)
  have r: "r \<in> set (localnodes s)" "LocalNodeRow_nodeuuid r = getNodeUUID (ln_node n)"
    using mi_find_Some [OF Some] by auto
  have len: "length (mi_replace node_clash r ?r (localnodes s)) = length (localnodes s)"
    by (simp add: mi_replace_def)
  have "dao_findByUUID v (GroupCore_disconnect t n s) = dao_findByUUID v s" if "v \<noteq> getNodeUUID (ln_node n)" for v
    using by_uuid.find_replace_other [OF u r(1) same_node_keys_update(1), of v] that r(2)
    by (intro findByUUID_cong) (simp add: disconnect_eq Some)
  with by_uuid.find_replace_same [OF u Some same_node_keys_update(1), of "Some t"] group_inv_disconnect [OF inv, of t n] len
  show ?thesis
    by (simp add: disconnect_eq Some dao_findByUUID_def)
qed

theorem disconnect_marks_witness:
  "\<exists>s. GroupCore_new ''chat'' = Inr s \<and>
     dao_findByUUID nil_uuid (GroupCore_disconnect 5 \<lparr>ln_node = getNilNode, ln_cbs = 0\<rparr> s) = dao_findByUUID nil_uuid s \<and>
     length (localnodes (GroupCore_disconnect 5 \<lparr>ln_node = getNilNode, ln_cbs = 0\<rparr> s)) = 0"
proof -
  obtain s :: gcore where s: "GroupCore_new ''chat'' = Inr s" "group_inv s" "localnodes s = []"
    using group_inv_ex by auto
  from disconnect_marks [OF s(2), of 5 "\<lparr>ln_node = getNilNode, ln_cbs = 0\<rparr>"] s(1,3)
  show ?thesis
    by (intro exI [of _ s])
      (simp add: dao_findByUUID_def mi_find_def getNilNode_def INode_host_uuid_def getNodeUUID_def)
qed

lemma rangeByCreated_filter:
  obtains P where "dao_rangeByCreated mn mx s = filter (\<lambda>r. P (time_connect r)) (sort_key time_connect (localnodes s))"
proof (cases mn)
  case None
  then show ?thesis
    using that [of "\<lambda>x. case mx of None \<Rightarrow> True | Some b \<Rightarrow> x \<le> b"]
    by (cases mx) (simp_all add: dao_rangeByCreated_def)
next
  case (Some a)
  then show ?thesis
    using that [of "\<lambda>x. case mx of None \<Rightarrow> a < x | Some b \<Rightarrow> min a b \<le> x \<and> x \<le> max a b"]
    by (cases mx) (simp_all add: dao_rangeByCreated_def min_def max_def)
qed

text \<open>
  The nodes between two times of creation: with both bounds the two are inclusive and their
  order does not matter, with only an upper bound it is inclusive, with only a lower bound it is
  exclusive, so that a bound given alone loses the nodes created exactly then. The result is
  sorted by creation, nodes of the same time in the order they were connected.
\<close>

theorem rangeByCreated_range:
  "set (dao_rangeByCreated (Some a) (Some b) s) =
     {r \<in> set (localnodes s). min a b \<le> time_connect r \<and> time_connect r \<le> max a b} \<and>
   dao_rangeByCreated (Some b) (Some a) s = dao_rangeByCreated (Some a) (Some b) s \<and>
   set (dao_rangeByCreated None (Some b) s) = {r \<in> set (localnodes s). time_connect r \<le> b} \<and>
   set (dao_rangeByCreated (Some a) None s) = {r \<in> set (localnodes s). a < time_connect r} \<and>
   set (dao_rangeByCreated None None s) = set (localnodes s) \<and>
   sorted (map time_connect (dao_rangeByCreated mn mx s)) \<and>
   filter (\<lambda>r. time_connect r = k) (dao_rangeByCreated mn mx s) \<in>
     {[], filter (\<lambda>r. time_connect r = k) (localnodes s)}"
proof -
  have sort: "sorted (map time_connect (filter P (sort_key time_connect (localnodes s))))" for P
    by (simp add: sorted_filter)
  have stable: "filter (\<lambda>r. time_connect r = k) (filter (\<lambda>r. P (time_connect r)) (sort_key time_connect (localnodes s))) \<in>
      {[], filter (\<lambda>r. time_connect r = k) (localnodes s)}" for P
  proof -
    have "filter (\<lambda>r. time_connect r = k) (filter (\<lambda>r. P (time_connect r)) (sort_key time_connect (localnodes s))) =
        (if P k then filter (\<lambda>r. time_connect r = k) (sort_key time_connect (localnodes s)) else [])"
      by (auto simp: filter_empty_conv intro: filter_cong)
    then show ?thesis using sort_key_stable [of time_connect k "localnodes s"] by simp
  qed
  obtain P where "dao_rangeByCreated mn mx s = filter (\<lambda>r. P (time_connect r)) (sort_key time_connect (localnodes s))"
    by (rule rangeByCreated_filter)
  with sort stable have "sorted (map time_connect (dao_rangeByCreated mn mx s)) \<and>
      filter (\<lambda>r. time_connect r = k) (dao_rangeByCreated mn mx s) \<in> {[], filter (\<lambda>r. time_connect r = k) (localnodes s)}"
    by simp
  then show ?thesis
    by (auto simp: dao_rangeByCreated_def)
qed

text \<open>
  The reference counts a backend may keep on a node: increasing and then decreasing restores
  the table, and one increase changes exactly the count of the row with that id; but the count has
  sixteen bits, so at 65535 an increase leaves zero, the count of a node nobody uses.
\<close>

theorem refcount_updates:
  assumes inv: "group_inv s" and r: "r \<in> set (localnodes s)"
  shows "set (localnodes (increaseLocalNodeBackendRefCount (lr_id r) s)) =
      insert (r\<lparr>backendrefcount := backendrefcount r + 1\<rparr>) (set (localnodes s) - {r}) \<and>
    set (localnodes (decreaseLocalNodeBackendRefCount (lr_id r) (increaseLocalNodeBackendRefCount (lr_id r) s))) =
      set (localnodes s) \<and>
    (backendrefcount r = 65535 \<longrightarrow>
      r\<lparr>backendrefcount := 0\<rparr> \<in> set (localnodes (increaseLocalNodeBackendRefCount (lr_id r) s)))"
proof -
  let ?r = "r\<lparr>backendrefcount := backendrefcount r + 1\<rparr>"
  let ?s = "increaseLocalNodeBackendRefCount (lr_id r) s"
  have u: "mi_unique node_clash (localnodes s)" using inv by (rule group_invD)
  have find: "mi_find lr_id (lr_id r) (localnodes s) = Some r"
    using by_id.find_iff [OF u] r by simp
  have inc: "set (localnodes ?s) = insert ?r (set (localnodes s) - {r})"
    using by_id.rows_replace [OF u r same_node_keys_update(2)]
    by (simp add: increaseLocalNodeBackendRefCount_def find)
  have u': "mi_unique node_clash (localnodes ?s)"
    using inv by (intro group_invD group_inv_refcount)
  have r': "?r \<in> set (localnodes ?s)" using inc by simp
  have find': "mi_find lr_id (lr_id r) (localnodes ?s) = Some ?r"
    using by_id.find_iff [OF u'] r' by simp
  have "set (localnodes (decreaseLocalNodeBackendRefCount (lr_id r) ?s)) = insert r (set (localnodes ?s) - {?r})"
    using by_id.rows_replace [OF u' r' same_node_keys_update(2), of "backendrefcount r"]
    by (simp add: decreaseLocalNodeBackendRefCount_def find')
  moreover have "?r \<notin> set (localnodes s) - {r}"
    using by_id.find_iff [OF u, of "lr_id r" ?r] find by auto
  ultimately show ?thesis using inc r by auto
qed

theorem refcount_updates_witness:
  "let row = LocalNodeRow 1 \<lparr>ln_node = getNilNode, ln_cbs = 0\<rparr> 5;
       s = \<lparr>localnodes = [row\<lparr>backendrefcount := 65535\<rparr>], backends = [], sendqueue = [], connectcount = 1,
             gname = ''chat'', io_queue = [], io_stopped = False\<rparr>
   in row \<in> set (localnodes (increaseLocalNodeBackendRefCount 1 s))"
proof -
  let ?row = "LocalNodeRow 1 \<lparr>ln_node = getNilNode, ln_cbs = 0\<rparr> 5"
  let ?s = "\<lparr>localnodes = [?row\<lparr>backendrefcount := 65535\<rparr>], backends = [], sendqueue = [], connectcount = 1,
      gname = ''chat'', io_queue = [], io_stopped = False\<rparr>"
  have "group_inv ?s" by (simp add: group_inv_def mi_unique_def LocalNodeRow_def)
  from refcount_updates [OF this, of "?row\<lparr>backendrefcount := 65535\<rparr>"] show ?thesis
    by (simp add: LocalNodeRow_def)
qed

end
