(* ===== verification/GroupWorker.thy ===== *)
theory GroupWorker imports GroupCore begin

text \<open>
  What \<open>GroupCore::runWorker\<close> guarantees for arbitrary handlers: the outcome of a run, the
  timer, the cleanup, and the histories of a group as a step relation. \<open>handler_runtime\<close> is the
  contract between the group and the handlers its backends post, \<open>terminating_runtime\<close> the
  condition under which a run returns; the backends' theories interpret both.
\<close>

section \<open>Runs\<close>

lemma io_run_stopped: "io_stopped s \<Longrightarrow> io_run exec tm s = Some (Inr (), tm, s)"
  by (simp add: io_run.simps)

lemma io_run_expired: "\<not> io_stopped s \<Longrightarrow> io_run exec (Some 0) s = Some (Inr (), None, s\<lparr>io_stopped := True\<rparr>)"
  by (simp add: io_run.simps)

lemma io_run_empty: "\<not> io_stopped s \<Longrightarrow> io_queue s = [] \<Longrightarrow>
    io_run exec tm s = Some (Inr (), None, s\<lparr>io_stopped := True\<rparr>)"
  by (simp add: io_run.simps)

lemma io_run_stop_handler:
  "\<not> io_stopped s \<Longrightarrow> tm \<noteq> Some 0 \<Longrightarrow> io_queue s = HStop # hs \<Longrightarrow>
    io_run exec tm s = Some (Inr (), tick tm, s\<lparr>io_queue := hs, io_stopped := True\<rparr>)"
  by (simp add: io_run.simps)

lemma io_run_handler:
  "\<not> io_stopped s \<Longrightarrow> tm \<noteq> Some 0 \<Longrightarrow> io_queue s = h # hs \<Longrightarrow> h \<noteq> HStop \<Longrightarrow>
    io_run exec tm s = Option.bind (exec h (s\<lparr>io_queue := hs\<rparr>)) (\<lambda>res.
      case fst res of
        Inr _ \<Rightarrow> io_run exec (tick tm) (snd res)
      | Inl e \<Rightarrow> Some (Inl e, tick tm,
          if tick tm = None \<and> io_queue (snd res) = [] then (snd res)\<lparr>io_stopped := True\<rparr> else snd res))"
  by (subst io_run.simps) simp

lemmas io_run_cases = io_run_stopped io_run_expired io_run_empty io_run_stop_handler io_run_handler

lemma io_run_preserves_aux:
  "io_run exec tm s = Some x \<Longrightarrow> P s \<Longrightarrow>
     (\<And>h s res s'. P s \<Longrightarrow> exec h s = Some (res, s') \<Longrightarrow> P s') \<Longrightarrow>
     (\<And>s h hs. P s \<Longrightarrow> io_queue s = h # hs \<Longrightarrow> P (s\<lparr>io_queue := hs\<rparr>)) \<Longrightarrow> (\<And>s b. P s \<Longrightarrow> P (s\<lparr>io_stopped := b\<rparr>)) \<Longrightarrow>
     P (snd (snd x))"
proof (induction exec tm s x rule: io_run.raw_induct [rotated, consumes 1, case_names step])
  case (step run exec tm s x)
  note IH = step(1) and body = step(2) and P = step(3) and exec = step(4) and queue = step(5) and stopped = step(6)
  have step: "P t" if "io_queue s = h # hs" "exec h (s\<lparr>io_queue := hs\<rparr>) = Some (r, t)" for h hs r t
    using queue [OF P that(1)] that(2) by (rule exec)
  have rec: "P (snd (snd y))" if "run exec n t = Some y" "P t" for n t y
    using IH [OF that] exec queue stopped by blast
  show ?case
    using body P step rec queue stopped
    by (cases x) (auto simp: bind_eq_Some_conv split: if_splits list.splits sum.splits)
qed

lemma io_run_preserves:
  assumes "io_run exec tm s = Some (res, tm', s')" "P s"
    and "\<And>h s res s'. P s \<Longrightarrow> exec h s = Some (res, s') \<Longrightarrow> P s'"
    and "\<And>s h hs. P s \<Longrightarrow> io_queue s = h # hs \<Longrightarrow> P (s\<lparr>io_queue := hs\<rparr>)" and "\<And>s b. P s \<Longrightarrow> P (s\<lparr>io_stopped := b\<rparr>)"
  shows "P s'"
  using io_run_preserves_aux [of exec tm s _ P, OF assms] by simp

lemma runWorker_cases:
  assumes "GroupCore_runWorker exec tm s = Some (res, s')"
  obtains tm' t where
    "io_run exec tm ((post_all (\<lambda>b. HWorker (br_backend b)) s)\<lparr>io_stopped := False\<rparr>) = Some (res, tm', t)"
    and "s' = (let u = (if tm' = None then t else post HStop t) in
               case res of Inl e \<Rightarrow> u | Inr _ \<Rightarrow> drop_disabled (drop_unreferenced u))"
proof -
  from assms obtain r tm' t where run: "io_run exec tm ((post_all (\<lambda>b. HWorker (br_backend b)) s)\<lparr>io_stopped := False\<rparr>) = Some (r, tm', t)"
    by (auto simp: GroupCore_runWorker_def Let_def)
  with assms have "res = r \<and> s' = (let u = (if tm' = None then t else post HStop t) in
      case r of Inl e \<Rightarrow> u | Inr _ \<Rightarrow> drop_disabled (drop_unreferenced u))"
    by (cases r) (auto simp: GroupCore_runWorker_def Let_def)
  with run that show ?thesis by blast
qed

section \<open>The contract of the handlers\<close>

text \<open>
  No code of the library calls the operations that count references, so every count stays at the
  zero its row was created with.
\<close>

definition nodes_idle :: "'z gcore_scheme \<Rightarrow> bool" where
  "nodes_idle s \<longleftrightarrow> (\<forall>r \<in> set (localnodes s). backendrefcount r = 0)"

definition library_inv :: "'z gcore_scheme \<Rightarrow> bool" where
  "library_inv s \<longleftrightarrow> group_inv s \<and> nodes_idle s"

lemma library_inv_queue [simp]:
  "library_inv (s\<lparr>io_queue := q\<rparr>) = library_inv s"
  "library_inv (s\<lparr>io_stopped := b\<rparr>) = library_inv s"
  "library_inv (s\<lparr>sendqueue := pq\<rparr>) = library_inv s"
  by (simp_all add: library_inv_def nodes_idle_def)

lemma library_inv_post [simp]: "library_inv (post h s) = library_inv s"
  by (simp add: post_def)

lemma connect_localnodes:
  assumes "GroupCore_connect c blk0 g t a cbs s = Some (res, s')"
  obtains "localnodes s' = localnodes s"
  | l where "localnodes s' = mi_insert node_clash (LocalNodeRow (of_int (connectcount s + 1)) l t) (localnodes s)"
proof (cases "connectcount s < 2 ^ 31 - 1")
  case True
  then obtain r where r: "LocalNode_new c blk0 g a cbs = Some r"
    using assms by (auto simp: GroupCore_connect_def Let_def)
  show ?thesis
  proof (cases r)
    case (Inl e)
    with assms True r have "localnodes s' = localnodes s"
      by (auto simp: GroupCore_connect_def Let_def)
    then show ?thesis by (rule that(1))
  next
    case (Inr l)
    from connect_eq [OF True r [unfolded Inr], of t] assms
    have "localnodes s' = mi_insert node_clash (LocalNodeRow (of_int (connectcount s + 1)) l t) (localnodes s)"
      by auto
    then show ?thesis by (rule that(2))
  qed
next
  case False
  with assms have "localnodes s' = localnodes s" by (auto simp: GroupCore_connect_def)
  then show ?thesis by (rule that(1))
qed

lemma library_inv_connect:
  assumes "library_inv s" "GroupCore_connect c blk0 g t a cbs s = Some (res, s')"
  shows "library_inv s'"
proof -
  have "nodes_idle s'"
    using assms(2)
  proof (cases rule: connect_localnodes)
    case 1
    then show ?thesis using assms(1) by (simp add: library_inv_def nodes_idle_def)
  next
    case (2 l)
    then show ?thesis using assms(1) by (auto simp: library_inv_def nodes_idle_def mi_insert_def LocalNodeRow_def)
  qed
  then show ?thesis using group_inv_connect assms by (auto simp: library_inv_def)
qed

lemma library_inv_disconnect:
  assumes "library_inv s"
  shows "library_inv (GroupCore_disconnect t n s)"
proof -
  have "backendrefcount r' = 0" if r': "r' \<in> set (localnodes (GroupCore_disconnect t n s))" for r'
  proof (cases "mi_find LocalNodeRow_nodeuuid (getNodeUUID (ln_node n)) (localnodes s)")
    case None
    then show ?thesis using assms r' by (simp add: disconnect_eq library_inv_def nodes_idle_def)
  next
    case (Some r)
    have "r' \<in> set (localnodes s) \<or> (r \<in> set (localnodes s) \<and> r' = r\<lparr>time_disconnect := Some t\<rparr>)"
      using r' mi_find_Some [OF Some] by (auto simp: disconnect_eq Some mi_replace_def split: if_splits)
    then show ?thesis using assms by (auto simp: library_inv_def nodes_idle_def)
  qed
  then show ?thesis
    using group_inv_disconnect assms by (auto simp: library_inv_def nodes_idle_def)
qed

lemma library_inv_write: "library_inv s \<Longrightarrow> library_inv (snd (GroupCore_write p s))"
  by (simp add: write_eq)

lemma library_inv_detach: "library_inv s \<Longrightarrow> library_inv (GroupCore_detachBackend ty s)"
  using group_inv_detach [of s ty]
  by (auto simp: library_inv_def nodes_idle_def GroupCore_detachBackend_def split: option.splits)

lemma library_inv_attach:
  assumes "library_inv s" "\<And>res s'. init s = (res, s') \<Longrightarrow> library_inv s'"
  shows "library_inv (snd (GroupCore_attachBackend init en ty b s))"
proof -
  have "group_inv (snd (GroupCore_attachBackend init en ty b s))"
    using assms by (intro group_inv_attach) (auto simp: library_inv_def)
  moreover have "nodes_idle (snd (GroupCore_attachBackend init en ty b s))"
    using assms by (auto simp: library_inv_def nodes_idle_def GroupCore_attachBackend_def
        split: prod.split sum.split stop.split)
  ultimately show ?thesis by (simp add: library_inv_def)
qed

lemma library_inv_drop: "library_inv s \<Longrightarrow> library_inv (drop_disabled (drop_unreferenced s))"
  using group_inv_drop [of s]
  by (auto simp: library_inv_def nodes_idle_def drop_unreferenced_eq drop_disabled_eq)

lemmas library_inv_intros = library_inv_connect library_inv_disconnect library_inv_write
  library_inv_detach library_inv_attach library_inv_drop

text \<open>
  The steps of a program that uses a group: the group's operations with any arguments. A write
  that is undefined has no successor; an exception leaves the state it left.
\<close>

inductive group_step ::
  "(handler \<Rightarrow> 'z gcore_scheme \<Rightarrow> (unit result \<times> 'z gcore_scheme) option) \<Rightarrow>
   ('z gcore_scheme \<Rightarrow> unit result \<times> 'z gcore_scheme) set \<Rightarrow> 'z gcore_scheme \<Rightarrow> 'z gcore_scheme \<Rightarrow> bool"
  for exec inits where
  connected: "GroupCore_connect c blk0 g t a cbs s = Some (res, s') \<Longrightarrow> group_step exec inits s s'"
| disconnected: "group_step exec inits s (GroupCore_disconnect t n s)"
| written: "GroupCore_write p s = (Inr (), s') \<Longrightarrow> group_step exec inits s s'"
| attached: "init \<in> inits \<Longrightarrow> group_step exec inits s (snd (GroupCore_attachBackend init en ty b s))"
| detached: "group_step exec inits s (GroupCore_detachBackend ty s)"
| ran: "GroupCore_runWorker exec tm s = Some (res, s') \<Longrightarrow> group_step exec inits s s'"

inductive group_reachable ::
  "(handler \<Rightarrow> 'z gcore_scheme \<Rightarrow> (unit result \<times> 'z gcore_scheme) option) \<Rightarrow>
   ('z gcore_scheme \<Rightarrow> unit result \<times> 'z gcore_scheme) set \<Rightarrow> 'z gcore_scheme set \<Rightarrow> 'z gcore_scheme \<Rightarrow> bool"
  for exec inits starts where
  start: "s \<in> starts \<Longrightarrow> group_reachable exec inits starts s"
| step: "group_reachable exec inits starts s \<Longrightarrow> group_step exec inits s s' \<Longrightarrow> group_reachable exec inits starts s'"

inductive_cases group_stepE: "group_step exec inits s s'"

locale handler_runtime =
  fixes exec :: "handler \<Rightarrow> 'z gcore_scheme \<Rightarrow> (unit result \<times> 'z gcore_scheme) option"
    and inits :: "('z gcore_scheme \<Rightarrow> unit result \<times> 'z gcore_scheme) set"
  assumes exec_inv: "library_inv s \<Longrightarrow> exec h s = Some (res, s') \<Longrightarrow> library_inv s'"
    and init_inv: "init \<in> inits \<Longrightarrow> library_inv s \<Longrightarrow> init s = (res, s') \<Longrightarrow> library_inv s'"
begin

lemma run_inv:
  assumes "library_inv s" "io_run exec tm s = Some (res, tm', s')"
  shows "library_inv s'"
  using assms(2,1) exec_inv by (rule io_run_preserves) simp_all

lemma worker_inv:
  assumes "library_inv s" "GroupCore_runWorker exec tm s = Some (res, s')"
  shows "library_inv s'"
  using assms(2)
proof (cases rule: runWorker_cases)
  case (1 tm' t)
  have "library_inv t"
    using assms(1) by (intro run_inv [OF _ 1(1)]) (simp add: post_all_eq)
  then show ?thesis
    using 1(2) library_inv_drop by (auto simp: Let_def split: sum.split)
qed

lemma step_inv: "group_step exec inits s s' \<Longrightarrow> library_inv s \<Longrightarrow> library_inv s'"
proof (induction rule: group_step.induct)
  case (attached init s en ty b)
  then show ?case by (auto intro!: library_inv_attach dest: init_inv)
next
  case (written p s s')
  then show ?case using library_inv_write [of s p] by simp
qed (auto intro: library_inv_intros worker_inv)

lemma reachable_inv:
  "group_reachable exec inits starts s \<Longrightarrow> \<forall>s \<in> starts. library_inv s \<Longrightarrow> library_inv s"
  by (induction rule: group_reachable.induct) (auto intro: step_inv)

lemma worker_empties:
  assumes "library_inv s" "GroupCore_runWorker exec tm s = Some (Inr (), s')"
  shows "localnodes s' = []"
  using assms(2)
proof (cases rule: runWorker_cases)
  case (1 tm' t)
  have "library_inv t"
    using assms(1) by (intro run_inv [OF _ 1(1)]) (simp add: post_all_eq)
  then show ?thesis
    using 1(2) by (auto simp: Let_def library_inv_def nodes_idle_def drop_unreferenced_eq drop_disabled_eq
        post_def filter_empty_conv)
qed

end

text \<open>A run ends when every handler, in the states a run can meet, ends and lowers a measure.\<close>

locale terminating_runtime =
  fixes exec :: "handler \<Rightarrow> 'z gcore_scheme \<Rightarrow> (unit result \<times> 'z gcore_scheme) option"
    and ok :: "'z gcore_scheme \<Rightarrow> bool"
    and work :: "'z gcore_scheme \<Rightarrow> nat"
  assumes exec_work: "ok s \<Longrightarrow> io_queue s = h # hs \<Longrightarrow> h \<noteq> HStop \<Longrightarrow>
      \<exists>res s'. exec h (s\<lparr>io_queue := hs\<rparr>) = Some (res, s') \<and> ok s' \<and> work s' < work s"
    and ok_workers: "ok s \<Longrightarrow> ok ((post_all (\<lambda>b. HWorker (br_backend b)) s)\<lparr>io_stopped := False\<rparr>)"
begin

lemma run_returns: "ok s \<Longrightarrow> \<exists>x. io_run exec tm s = Some x"
proof (induction "work s" arbitrary: s tm rule: less_induct)
  case less
  show ?case
  proof (cases "io_stopped s \<or> tm = Some 0 \<or> io_queue s = [] \<or> hd (io_queue s) = HStop")
    case True
    then show ?thesis by (subst io_run.simps) (auto split: list.split)
  next
    case False
    then obtain h hs where q: "io_queue s = h # hs" "h \<noteq> HStop" by (cases "io_queue s") auto
    from exec_work [OF less.prems q] obtain res s' where
      s': "exec h (s\<lparr>io_queue := hs\<rparr>) = Some (res, s')" "ok s'" "work s' < work s" by blast
    show ?thesis
      using False q s'(1) less.hyps [OF s'(3,2)]
      by (simp add: io_run_handler split: sum.split)
  qed
qed

lemma worker_returns: "ok s \<Longrightarrow> \<exists>x. GroupCore_runWorker exec tm s = Some x"
  using run_returns [OF ok_workers, of s tm] by (auto simp: GroupCore_runWorker_def simp del: split_paired_Ex)

end

section \<open>Properties\<close>

text \<open>
  C13: What a call of the worker leaves behind. If it returns normally, exactly the nodes with a
  non-zero reference count and the enabled backends of the end of the run remain, everything
  else is as the run left it, and if it leaves through an exception nothing is dropped; in both
  cases a timer that has not expired turns into a queued stop.
\<close>

theorem runWorker_cleanup:
  assumes "GroupCore_runWorker exec tm s = Some (res, s')"
  shows "\<exists>tm' t. io_run exec tm
      (s\<lparr>io_queue := io_queue s @ map (\<lambda>b. HWorker (br_backend b)) (filter br_enabled (backends s)),
         io_stopped := False\<rparr>) = Some (res, tm', t) \<and>
    io_queue s' = io_queue t @ (if tm' = None then [] else [HStop]) \<and>
    sendqueue s' = sendqueue t \<and> connectcount s' = connectcount t \<and>
    (case res of
       Inr _ \<Rightarrow> set (localnodes s') = {r \<in> set (localnodes t). backendrefcount r \<noteq> 0} \<and>
         set (backends s') = {b \<in> set (backends t). br_enabled b}
     | Inl _ \<Rightarrow> localnodes s' = localnodes t \<and> backends s' = backends t)"
  using assms
proof (cases rule: runWorker_cases)
  case (1 tm' t)
  then show ?thesis
    by (intro exI [of _ tm'] exI [of _ t])
      (auto simp: post_all_eq Let_def drop_unreferenced_eq drop_disabled_eq post_def split: sum.split)
qed

theorem runWorker_cleanup_witness:
  "\<exists>s s'. GroupCore_new ''chat'' = Inr s \<and> GroupCore_runWorker (\<lambda>h s. None) None s = Some (Inr (), s') \<and>
     io_queue s' = [] \<and> localnodes s' = []"
proof -
  obtain s :: gcore where s: "GroupCore_new ''chat'' = Inr s" "localnodes s = []" "backends s = []" "io_queue s = []"
    by (simp add: GroupCore_new_def)
  have "\<exists>s'. GroupCore_runWorker (\<lambda>h s. None) None s = Some (Inr (), s')"
    by (simp add: GroupCore_runWorker_def Let_def post_all_eq s io_run_empty)
  then obtain s' where s': "GroupCore_runWorker (\<lambda>h s. None) None s = Some (Inr (), s')" by blast
  from runWorker_cleanup [OF s'] s s' show ?thesis
    by (auto simp: io_run_empty)
qed

lemma find_backend_disable:
  assumes "group_inv s" "mi_find br_type ty (backends s) = Some r"
  shows "mi_find br_type ty (backends (GroupCore_detachBackend ty s)) = Some (BackendRow_disable r)"
  using by_type.find_replace_same [OF group_invD(2) [OF assms(1)] assms(2) backend_clash_disable]
  by (simp add: GroupCore_detachBackend_def assms(2))

text \<open>
  C12: The life of a backend: once attached, a second backend of its type is refused with
  \<open>EALREADY\<close> and nothing changes; a detach keeps the row but announces nothing to it any more,
  and the type stays refused; only after a worker call that returns normally (with handlers that
  leave the table alone) is the type free again, and then a backend that initialises is enabled.
\<close>

theorem backend_lifecycle:
  assumes inv: "group_inv s" and fresh: "mi_find br_type ty (backends s) = None"
    and init: "init s = (Inr (), s1)" "backends s1 = backends s"
    and exec: "\<And>h t res t'. exec h t = Some (res, t') \<Longrightarrow> backends t' = backends t"
    and run: "GroupCore_runWorker exec tm
        (GroupCore_detachBackend ty (snd (GroupCore_attachBackend init en ty b s))) = Some (Inr (), s')"
  shows "\<exists>s2. GroupCore_attachBackend init en ty b s = (Inr (), s2) \<and>
    br_enabled (the (mi_find br_type ty (backends s2))) \<and> br_backend (the (mi_find br_type ty (backends s2))) = b \<and>
    GroupCore_attachBackend init' en' ty b' s2 = (Inl (Throw (GException ''Backend already attached'' EALREADY)), s2) \<and>
    (let s3 = GroupCore_detachBackend ty s2 in
       (\<forall>x \<in> set (enabled_backends s3). br_type x \<noteq> ty) \<and>
       GroupCore_attachBackend init' en' ty b' s3 = (Inl (Throw (GException ''Backend already attached'' EALREADY)), s3)) \<and>
    mi_find br_type ty (backends s') = None"
proof -
  let ?row = "BackendRow_enable (BackendRow b ty)"
  let ?s2 = "s1\<lparr>backends := mi_insert backend_clash ?row (backends s)\<rparr>"
  let ?s3 = "GroupCore_detachBackend ty ?s2"
  have att: "GroupCore_attachBackend init en ty b s = (Inr (), ?s2)"
    by (simp add: GroupCore_attachBackend_def fresh init)
  have u: "mi_unique backend_clash (backends s)" using inv by (rule group_invD)
  have key: "br_type ?row = ty" by (simp add: BackendRow_enable_def BackendRow_def)
  have "\<not> list_ex (backend_clash ?row) (backends s)"
    using by_type.find_None_iff [OF u, of ty] fresh key by (auto simp: list_ex_iff backend_clash_def)
  from by_type.find_insert_fresh [OF u this] have find2: "mi_find br_type ty (backends ?s2) = Some ?row"
    unfolding key by simp
  have u2: "mi_unique backend_clash (backends ?s2)"
    using by_type.valid_insert [OF u] by simp
  have find3: "mi_find br_type ty (backends ?s3) = Some (BackendRow_disable ?row)"
    using by_type.find_replace_same [OF u2 find2 backend_clash_disable]
    by (simp add: GroupCore_detachBackend_def find2 [simplified])
  have u3: "mi_unique backend_clash (backends ?s3)"
    using by_type.valid_replace [OF u2 _ backend_clash_disable] mi_find_Some [OF find2]
    by (auto simp: GroupCore_detachBackend_def find2 [simplified])
  have off: "\<not> br_enabled x" if "x \<in> set (backends ?s3)" "br_type x = ty" for x
    using by_type.find_iff [OF u3, of ty x] find3 that by (auto simp: BackendRow_disable_def)
  have run': "GroupCore_runWorker exec tm ?s3 = Some (Inr (), s')" using run by (simp only: att snd_conv)
  from runWorker_cleanup [OF run'] obtain tm' t where
    t: "io_run exec tm (?s3\<lparr>io_queue := io_queue ?s3 @ map (\<lambda>b. HWorker (br_backend b)) (filter br_enabled (backends ?s3)),
         io_stopped := False\<rparr>) = Some (Inr (), tm', t)"
       "set (backends s') = {b \<in> set (backends t). br_enabled b}" by auto
  have "backends t = backends ?s3"
    by (rule io_run_preserves [OF t(1), of "\<lambda>x. backends x = backends ?s3"]) (simp_all add: exec)
  then have "mi_find br_type ty (backends s') = None"
    using off t(2) by (auto simp: mi_find_def find_None_iff)
  moreover have "\<forall>x \<in> set (enabled_backends ?s3). br_type x \<noteq> ty"
    using off by (auto simp: enabled_backends_filter)
  ultimately show ?thesis
    using att find2 find3
    by (intro exI [of _ ?s2])
      (auto simp: GroupCore_attachBackend_def Let_def BackendRow_enable_def BackendRow_def)
qed

theorem backend_lifecycle_witness:
  "\<exists>s s'. GroupCore_new ''chat'' = Inr s \<and>
     GroupCore_runWorker (\<lambda>h t. Some (Inr (), t)) None
       (GroupCore_detachBackend ''T'' (snd (GroupCore_attachBackend (Pair (Inr ())) 0 ''T'' 1 s))) = Some (Inr (), s') \<and>
     mi_find br_type ''T'' (backends s') = None"
proof -
  obtain s :: gcore where s: "GroupCore_new ''chat'' = Inr s" "group_inv s" "backends s = []" "io_queue s = []"
    by (simp add: GroupCore_new_def group_inv_def)
  have none: "mi_find br_type ''T'' (backends s) = None" by (simp add: s mi_find_def)
  have "\<exists>s'. GroupCore_runWorker (\<lambda>h t. Some (Inr (), t)) None
      (GroupCore_detachBackend ''T'' (snd (GroupCore_attachBackend (Pair (Inr ())) 0 ''T'' 1 s))) = Some (Inr (), s')"
    by (simp add: GroupCore_attachBackend_def s mi_find_def mi_insert_def GroupCore_detachBackend_def BackendRow_def
        BackendRow_enable_def BackendRow_disable_def mi_replace_def GroupCore_runWorker_def Let_def post_all_eq io_run_empty)
  then obtain s' where s': "GroupCore_runWorker (\<lambda>h t. Some (Inr (), t)) None
      (GroupCore_detachBackend ''T'' (snd (GroupCore_attachBackend (Pair (Inr ())) 0 ''T'' 1 s))) = Some (Inr (), s')" by blast
  from backend_lifecycle [OF s(2) none _ refl _ s', of "Pair (Inr ())" 0 1] s(1) s' show ?thesis by auto
qed

text \<open>
  A worker call that leaves through a handler's exception while its timer is pending poisons
  the next one: the cancelled timer's handler is queued, and when it is at the head of the queue
  the next call returns at once without running a single handler, the ones it queued itself
  included; with a timer of its own it leaves the same poison behind.
\<close>

theorem stale_stop_skips_work:
  assumes exc: "exec h (s\<lparr>io_stopped := False, io_queue := []\<rparr>) = Some (Inl (Throw e), t)" "h \<noteq> HStop"
    and q: "io_queue s = [h]" "\<not> (\<exists>b \<in> set (backends s). br_enabled b)" "io_queue t = []" "0 < n"
  shows "\<exists>s1. GroupCore_runWorker exec (Some n) s = Some (Inl (Throw e), s1) \<and> io_queue s1 = [HStop] \<and>
    localnodes s1 = localnodes t \<and> backends s1 = backends t \<and>
    (\<forall>exec' tm. \<exists>s2. GroupCore_runWorker exec' tm (s1\<lparr>io_queue := io_queue s1 @ pending\<rparr>) = Some (Inr (), s2) \<and>
       (tm \<noteq> Some 0 \<longrightarrow> io_queue s2 =
          pending @ map (\<lambda>b. HWorker (br_backend b)) (filter br_enabled (backends s1)) @ (if tm = None then [] else [HStop])))"
proof -
  have none: "filter br_enabled (backends s) = []" using q(2) by (auto simp: filter_empty_conv)
  have first: "GroupCore_runWorker exec (Some n) s = Some (Inl (Throw e), post HStop t)"
    using exc q none by (cases n) (auto simp add: GroupCore_runWorker_def Let_def post_all_eq io_run_handler tick_def)
  have "\<exists>s2. GroupCore_runWorker exec' tm ((post HStop t)\<lparr>io_queue := io_queue (post HStop t) @ pending\<rparr>) = Some (Inr (), s2) \<and>
      (tm \<noteq> Some 0 \<longrightarrow> io_queue s2 =
        pending @ map (\<lambda>b. HWorker (br_backend b)) (filter br_enabled (backends t)) @ (if tm = None then [] else [HStop]))"
    for exec' tm
  proof (cases "tm = Some 0")
    case True
    then show ?thesis by (simp add: GroupCore_runWorker_def Let_def post_all_eq post_def io_run_expired)
  next
    case False
    then show ?thesis using q(3)
      by (simp add: GroupCore_runWorker_def Let_def post_all_eq post_def io_run_stop_handler tick_def
          drop_unreferenced_eq drop_disabled_eq)
  qed
  then show ?thesis
    using first q(3) by (intro exI [of _ "post HStop t"]) (auto simp: post_def)
qed

theorem stale_stop_skips_work_witness:
  "\<exists>s s1 s2. GroupCore_new ''chat'' = Inr s \<and>
     GroupCore_runWorker (\<lambda>h t. Some (Inl (Throw (OtherException [])), t)) (Some 5) (post (HWorker 0) s) =
       Some (Inl (Throw (OtherException [])), s1) \<and>
     GroupCore_runWorker (\<lambda>h t. None) None (s1\<lparr>io_queue := io_queue s1 @ [HWorker 1]\<rparr>) = Some (Inr (), s2) \<and>
     io_queue s2 = [HWorker 1]"
proof -
  obtain s :: gcore where s: "GroupCore_new ''chat'' = Inr s" "backends s = []" "io_queue s = []"
    by (simp add: GroupCore_new_def)
  let ?exec = "\<lambda>h t. Some (Inl (Throw (OtherException [])), t :: gcore)"
  let ?s = "post (HWorker 0) s"
  let ?t = "?s\<lparr>io_stopped := False, io_queue := []\<rparr>"
  from stale_stop_skips_work [of ?exec "HWorker 0" ?s "OtherException []" ?t 5 "[HWorker 1]"] s(2,3)
  obtain s1 where s1: "GroupCore_runWorker ?exec (Some 5) ?s = Some (Inl (Throw (OtherException [])), s1)"
      "backends s1 = []"
      "\<forall>exec' tm. \<exists>s2. GroupCore_runWorker exec' tm (s1\<lparr>io_queue := io_queue s1 @ [HWorker 1]\<rparr>) = Some (Inr (), s2) \<and>
        (tm \<noteq> Some 0 \<longrightarrow> io_queue s2 =
          [HWorker 1] @ map (\<lambda>b. HWorker (br_backend b)) (filter br_enabled (backends s1)) @ (if tm = None then [] else [HStop]))"
    by (auto simp: post_def)
  from spec [OF spec [OF s1(3), of "\<lambda>h t. None"], of None] obtain s2 where
    "GroupCore_runWorker (\<lambda>h t. None) None (s1\<lparr>io_queue := io_queue s1 @ [HWorker 1]\<rparr>) = Some (Inr (), s2)"
    "io_queue s2 = [HWorker 1]"
    using s1(2) by auto
  with s(1) s1(1) show ?thesis by blast
qed

end
