(* ===== verification/Exceptions.thy ===== *)
theory Exceptions imports Prelude begin

text \<open>
  The exception class of the library (\<open>exception.hpp\<close>, \<open>exception.cpp\<close>). An object owns a
  \<open>std::stringstream\<close> through a raw pointer, so the model has a heap of live streams.
\<close>

section \<open>The code\<close>

text \<open>The pointer member; nothing stores \<open>NULL\<close> in it, but the code tests for it.\<close>

datatype stream_ptr = SUninit | SNull | SAddr nat

type_synonym streams = "nat \<Rightarrow> string option"

record exn_obj =
  ex_line :: int
  ex_file :: string
  ex_code :: int
  ex_errn :: int
  smessage :: stream_ptr
  message :: string

text \<open>The object before the constructor body runs.\<close>

definition exn_raw :: exn_obj where
  "exn_raw = \<lparr>ex_line = 0, ex_file = [], ex_code = 0, ex_errn = 0, smessage = SUninit, message = []\<rparr>"

definition Exception_line :: "int \<Rightarrow> exn_obj \<Rightarrow> exn_obj" where
  "Exception_line l x = x\<lparr>ex_line := l\<rparr>"

definition Exception_file :: "string \<Rightarrow> exn_obj \<Rightarrow> exn_obj" where
  "Exception_file f x = x\<lparr>ex_file := f\<rparr>"

definition Exception_code :: "int \<Rightarrow> exn_obj \<Rightarrow> exn_obj" where
  "Exception_code c x = x\<lparr>ex_code := c\<rparr>"

definition get_native_error :: "exn_obj \<Rightarrow> int" where
  "get_native_error x = ex_errn x"

definition get_error_code :: "exn_obj \<Rightarrow> int" where
  "get_error_code x = ex_code x"

text \<open>Text appended to the stream if there is one, to the member string otherwise.\<close>

definition exn_append :: "string \<Rightarrow> exn_obj \<Rightarrow> streams \<Rightarrow> (exn_obj \<times> streams) result" where
  "exn_append txt x h = (case smessage x of
     SUninit \<Rightarrow> Inl (UB UninitRead)
   | SNull \<Rightarrow> Inr (x\<lparr>message := message x @ txt\<rparr>, h)
   | SAddr a \<Rightarrow> (case h a of None \<Rightarrow> Inl (UB DoubleFree) | Some s \<Rightarrow> Inr (x, h(a \<mapsto> s @ txt))))"

text \<open>
  \<open>init\<close>: \<open>alloc\<close> is the address \<open>new\<close> returns, \<open>None\<close> when it throws (which is swallowed);
  \<open>strerr\<close> is the text \<open>strerror_r\<close> leaves in the buffer.
\<close>

definition exn_init :: "(int \<Rightarrow> string) \<Rightarrow> nat option \<Rightarrow> string \<Rightarrow> int \<Rightarrow> string \<Rightarrow> int \<Rightarrow>
    exn_obj \<Rightarrow> streams \<Rightarrow> (exn_obj \<times> streams) result" where
  "exn_init strerr alloc msg c f l x h =
     (let (x1, h1) = (case alloc of None \<Rightarrow> (x, h) | Some a \<Rightarrow> (x\<lparr>smessage := SAddr a\<rparr>, h(a \<mapsto> [])));
          txt = (if length msg > 0 then msg else strerr (ex_errn x1))
      in case exn_append txt x1 h1 of
           Inl e \<Rightarrow> Inl e
         | Inr (x2, h2) \<Rightarrow> Inr (Exception_line l (Exception_file f (Exception_code c x2)), h2))"

text \<open>\<open>std::string(const char*)\<close>; \<open>None\<close> is the null pointer.\<close>

definition string_of_cstr :: "string option \<Rightarrow> string result" where
  "string_of_cstr p = (case p of None \<Rightarrow> Inl (UB NullString) | Some s \<Rightarrow> Inr s)"

text \<open>The three constructors, with \<open>errno\<close> as \<open>en\<close>.\<close>

definition Exception_int :: "(int \<Rightarrow> string) \<Rightarrow> nat option \<Rightarrow> int \<Rightarrow> int \<Rightarrow> string option \<Rightarrow> int \<Rightarrow>
    streams \<Rightarrow> (exn_obj \<times> streams) result" where
  "Exception_int strerr alloc en c f l h =
     (case string_of_cstr f of Inl e \<Rightarrow> Inl e
      | Inr fs \<Rightarrow> exn_init strerr alloc [] c fs l (exn_raw\<lparr>ex_errn := en\<rparr>) h)"

definition Exception_cstr :: "(int \<Rightarrow> string) \<Rightarrow> nat option \<Rightarrow> int \<Rightarrow> string option \<Rightarrow> int \<Rightarrow> string option \<Rightarrow> int \<Rightarrow>
    streams \<Rightarrow> (exn_obj \<times> streams) result" where
  "Exception_cstr strerr alloc en m c f l h =
     (case string_of_cstr m of Inl e \<Rightarrow> Inl e
      | Inr ms \<Rightarrow> (case string_of_cstr f of Inl e \<Rightarrow> Inl e
         | Inr fs \<Rightarrow> exn_init strerr alloc ms c fs l (exn_raw\<lparr>ex_errn := en\<rparr>) h))"

definition Exception_string :: "(int \<Rightarrow> string) \<Rightarrow> nat option \<Rightarrow> int \<Rightarrow> string \<Rightarrow> int \<Rightarrow> string \<Rightarrow> int \<Rightarrow>
    streams \<Rightarrow> (exn_obj \<times> streams) result" where
  "Exception_string strerr alloc en m c f l h =
     exn_init strerr alloc m c f l (exn_raw\<lparr>ex_errn := en\<rparr>) h"

definition exn_destroy :: "exn_obj \<Rightarrow> streams \<Rightarrow> streams result" where
  "exn_destroy x h = (case smessage x of
     SUninit \<Rightarrow> Inl (UB UninitRead)
   | SNull \<Rightarrow> Inr h
   | SAddr a \<Rightarrow> (case h a of None \<Rightarrow> Inl (UB DoubleFree) | Some _ \<Rightarrow> Inr (h(a := None))))"

text \<open>
  What \<open>what()\<close> returns: a pointer to live characters, or \<open>c_str()\<close> of a temporary string
  that is destroyed by the \<open>return\<close>. \<open>oom\<close>: building the string throws.
\<close>

datatype cstr = LiveText string | DanglingText string

definition exn_what :: "bool \<Rightarrow> exn_obj \<Rightarrow> streams \<Rightarrow> cstr result" where
  "exn_what oom x h = (case smessage x of
     SUninit \<Rightarrow> Inl (UB UninitRead)
   | SNull \<Rightarrow> Inr (LiveText (message x))
   | SAddr a \<Rightarrow> (case h a of None \<Rightarrow> Inl (UB DoubleFree)
       | Some s \<Rightarrow> Inr (if oom
            then LiveText ''internal what() error - unable to generate excetion message string''
            else DanglingText (s @ '' [ '' @ message x @ '' ] ''))))"

text \<open>The class declares no copy constructor: a copy shares the pointer.\<close>

definition exn_copy :: "exn_obj \<Rightarrow> exn_obj" where
  "exn_copy x = x"

section \<open>Lemmas\<close>

lemma exn_init_alloc:
  "exn_init strerr (Some a) msg c f l x h =
     Inr (x\<lparr>smessage := SAddr a, ex_code := c, ex_file := f, ex_line := l\<rparr>,
          h(a \<mapsto> if msg = [] then strerr (ex_errn x) else msg))"
  by (simp add: exn_init_def exn_append_def Exception_line_def Exception_file_def Exception_code_def)

lemma exn_init_no_alloc: "smessage x = SUninit \<Longrightarrow> exn_init strerr None msg c f l x h = Inl (UB UninitRead)"
  by (simp add: exn_init_def exn_append_def)

lemma exn_append_stream:
  "smessage x = SAddr a \<Longrightarrow> h a = Some s \<Longrightarrow> exn_append txt x h = Inr (x, h(a \<mapsto> s @ txt))"
  by (simp add: exn_append_def)

section \<open>Properties\<close>

text \<open>
  An exception built from a message, a code, a file and a line reports exactly these and
  the \<open>errno\<close> of its construction; its text is the message (or the text of \<open>errno\<close> when the
  message is empty) followed by everything streamed into it, then \<open>" [  ] "\<close>; and the
  pointer \<open>what()\<close> hands out is dangling.
\<close>

theorem exception_reports:
  "\<exists>x h'. Exception_string strerr (Some a) en m c f l h = Inr (x, h') \<and>
     get_error_code x = c \<and> get_native_error x = en \<and> ex_file x = f \<and> ex_line x = l \<and>
     (\<exists>h''. exn_append t x h' = Inr (x, h'') \<and>
        exn_what False x h'' =
          Inr (DanglingText ((if m = [] then strerr en else m) @ t @ '' [  ] '')) \<and>
        exn_destroy x h'' = Inr (h(a := None)))"
  by (simp add: Exception_string_def exn_init_alloc exn_raw_def get_error_code_def get_native_error_def
      exn_append_stream exn_what_def exn_destroy_def)

text \<open>
  The constructors that take the file name as a C string, which is what every use with
  defaulted arguments resolves to, have undefined behaviour whenever the file name is left
  out (its default is \<open>NULL\<close>); with a file name they build the object unless the stream
  cannot be allocated, and then the uninitialised pointer is read.
\<close>

theorem exception_cstr_outcome:
  "Exception_int strerr alloc en c f l h =
     (case f of None \<Rightarrow> Inl (UB NullString)
      | Some fs \<Rightarrow> (case alloc of None \<Rightarrow> Inl (UB UninitRead)
         | Some a \<Rightarrow> Exception_string strerr (Some a) en [] c fs l h)) \<and>
   Exception_cstr strerr alloc en (Some m) c f l h =
     (case f of None \<Rightarrow> Inl (UB NullString)
      | Some fs \<Rightarrow> (case alloc of None \<Rightarrow> Inl (UB UninitRead)
         | Some a \<Rightarrow> Exception_string strerr (Some a) en m c fs l h))"
  by (cases f; cases alloc)
    (simp_all add: Exception_int_def Exception_cstr_def Exception_string_def string_of_cstr_def
      exn_init_no_alloc exn_raw_def)

text \<open>
  Catching an exception by reference and throwing the caught object again, as
  \<open>Group::attachBackend\<close> does, copies it; destroying the copy and the original frees the one
  stream twice, in either order.
\<close>

theorem exception_copy_double_free:
  assumes "Exception_string strerr (Some a) en m c f l h = Inr (x, h')"
  shows "\<exists>h1. exn_destroy x h' = Inr h1 \<and> exn_destroy (exn_copy x) h1 = Inl (UB DoubleFree) \<and>
     exn_what oom (exn_copy x) h1 = Inl (UB DoubleFree)"
  using assms
  by (auto simp: Exception_string_def exn_init_alloc exn_raw_def exn_destroy_def exn_copy_def exn_what_def)

theorem exception_copy_double_free_witness:
  "\<exists>x h' h1. Exception_string (\<lambda>_. ''err'') (Some 0) 0 ''no'' 22 [] 0 (\<lambda>_. None) = Inr (x, h') \<and>
     exn_destroy x h' = Inr h1 \<and> exn_destroy (exn_copy x) h1 = Inl (UB DoubleFree)"
proof -
  obtain x h' where x: "Exception_string (\<lambda>_. ''err'') (Some 0) 0 ''no'' 22 [] 0 (\<lambda>_. None) = Inr (x, h')"
    by (simp add: Exception_string_def exn_init_alloc)
  from exception_copy_double_free [OF x] x show ?thesis by blast
qed

end
