(* ===== verification/Group.thy ===== *)
theory Group imports GroupWorker Exceptions begin

text \<open>
  The public class \<open>Group\<close> (\<open>group.hpp\<close>, \<open>group.cpp\<close>): a shell around \<open>GroupCore\<close> that owns the
  backends it attaches and passes their exceptions on. The exception objects are those of
  \<open>Exceptions\<close>, with their heap of streams.
\<close>

section \<open>The code\<close>

definition Group_new :: "string \<Rightarrow> gcore result" where
  "Group_new nm = (if length nm \<le> 0 then Inl Terminate else GroupCore_new nm)"

definition Group_runWorker ::
  "(handler \<Rightarrow> 'z gcore_scheme \<Rightarrow> (unit result \<times> 'z gcore_scheme) option) \<Rightarrow> nat option \<Rightarrow>
     'z gcore_scheme \<Rightarrow> (unit result \<times> 'z gcore_scheme) option" where
  "Group_runWorker exec tm s = GroupCore_runWorker exec tm s"

definition Group_connect :: "core \<Rightarrow> byte list \<Rightarrow> (nat \<Rightarrow> u64) \<Rightarrow> int \<Rightarrow> string \<Rightarrow> nat \<Rightarrow>
    'z gcore_scheme \<Rightarrow> (localnode result \<times> 'z gcore_scheme) option" where
  "Group_connect c blk0 g t a cbs s = GroupCore_connect c blk0 g t a cbs s"

definition Group_connect_nameless :: "core \<Rightarrow> byte list \<Rightarrow> (nat \<Rightarrow> u64) \<Rightarrow> int \<Rightarrow> nat \<Rightarrow>
    'z gcore_scheme \<Rightarrow> (localnode result \<times> 'z gcore_scheme) option" where
  "Group_connect_nameless c blk0 g t cbs s = Group_connect c blk0 g t [] cbs s"

definition Group_disconnect :: "int \<Rightarrow> localnode \<Rightarrow> 'z gcore_scheme \<Rightarrow> 'z gcore_scheme" where
  "Group_disconnect t n s = GroupCore_disconnect t n s"

definition Group_write :: "packet \<Rightarrow> 'z gcore_scheme \<Rightarrow> unit result \<times> 'z gcore_scheme" where
  "Group_write p s = GroupCore_write p s"

definition Group_getEventDescriptor :: "'z gcore_scheme \<Rightarrow> int" where
  "Group_getEventDescriptor s = GroupCore_getEventDescriptor s"

definition Group_getName :: "'z gcore_scheme \<Rightarrow> string" where
  "Group_getName s = GroupCore_getName s"

definition Group_detachBackend :: "string \<Rightarrow> 'z gcore_scheme \<Rightarrow> 'z gcore_scheme" where
  "Group_detachBackend ty s = GroupCore_detachBackend ty s"

text \<open>
  What the template \<open>attachBackend\<close> depends on: \<open>strerror\<close>, \<open>errno\<close>, the address a stream is
  allocated at, and the values of \<open>__FILE__\<close> and \<open>__LINE__\<close>.
\<close>

record cenv =
  ce_strerr :: "int \<Rightarrow> string"
  ce_errno :: int
  ce_alloc :: "nat option"
  ce_file :: string
  ce_line :: int

text \<open>
  How the template ends: normally, or with an exception object in flight and the heap of
  streams. \<open>new\<close> is the address of the new backend object or what its allocation or constructor throws,
  \<open>init\<close> its \<open>initialize\<close>, \<open>del\<close> the effect of \<open>delete\<close>.

  The first handler, \<open>throw g\<close>, copies the caught object, and leaving the handler destroys the original. The
  last one calls \<open>Exception(__FILE__, __LINE__)\<close>, a message and a code without a file name.
\<close>

datatype attach_outcome = Attached | InFlight exn_obj streams

definition catch_gscale :: "cenv \<Rightarrow> string \<Rightarrow> int \<Rightarrow> streams \<Rightarrow> attach_outcome result" where
  "catch_gscale ce m c h =
     and_then (Exception_cstr (ce_strerr ce) (ce_alloc ce) (ce_errno ce) (Some m) c (Some (ce_file ce)) (ce_line ce) h)
       (\<lambda>(g, h1). and_then (exn_destroy g h1) (\<lambda>h2. Inr (InFlight (exn_copy g) h2)))"

definition catch_any :: "cenv \<Rightarrow> streams \<Rightarrow> attach_outcome result" where
  "catch_any ce h =
     and_then (Exception_cstr (ce_strerr ce) (ce_alloc ce) (ce_errno ce) (Some (ce_file ce)) (ce_line ce) None 0 h)
       (\<lambda>(g, h1). Inr (InFlight g h1))"

definition Group_attachBackend :: "cenv \<Rightarrow> nat result \<Rightarrow>
    (nat \<Rightarrow> 'z gcore_scheme \<Rightarrow> unit result \<times> 'z gcore_scheme) \<Rightarrow> (nat \<Rightarrow> 'z gcore_scheme \<Rightarrow> 'z gcore_scheme) \<Rightarrow>
    string \<Rightarrow> streams \<Rightarrow> 'z gcore_scheme \<Rightarrow> attach_outcome result \<times> 'z gcore_scheme" where
  "Group_attachBackend ce new init del ty h s =
     (case new of
        Inl (Throw (GException m c)) \<Rightarrow> (catch_gscale ce m c h, s)
      | Inl (Throw (OtherException _)) \<Rightarrow> (catch_any ce h, s)
      | Inl e \<Rightarrow> (Inl e, s)
      | Inr b \<Rightarrow>
          (case GroupCore_attachBackend (init b) (ce_errno ce) ty b s of
             (Inr _, s1) \<Rightarrow> (Inr Attached, s1)
           | (Inl (Throw (GException m c)), s1) \<Rightarrow> (catch_gscale ce m c h, del b s1)
           | (Inl (Throw (OtherException _)), s1) \<Rightarrow> (catch_any ce h, del b s1)
           | (Inl e, s1) \<Rightarrow> (Inl e, s1)))"

section \<open>Properties\<close>

text \<open>
  C38: Attaching through the public class: success is exactly success of the core. When the core
  refuses or the backend's \<open>initialize\<close> throws, the new object is deleted and an exception that
  carries the right code arrives, but its text is gone: reading it and destroying it are both
  undefined. The same holds for a \<open>GScale::Exception\<close> of the backend's constructor; when the object cannot be
  built for any other reason, building the exception is undefined.
\<close>

theorem Group_attach_outcome:
  assumes alloc: "ce_alloc ce = Some a"
  shows "(\<forall>b s1. GroupCore_attachBackend (init b) (ce_errno ce) ty b s = (Inr (), s1) \<longrightarrow>
      Group_attachBackend ce (Inr b) init del ty h s = (Inr Attached, s1)) \<and>
    (\<forall>b m c s1. GroupCore_attachBackend (init b) (ce_errno ce) ty b s = (Inl (Throw (GException m c)), s1) \<longrightarrow>
      (\<exists>x h2. Group_attachBackend ce (Inr b) init del ty h s = (Inr (InFlight x h2), del b s1) \<and>
        get_error_code x = c \<and> exn_what oom x h2 = Inl (UB DoubleFree) \<and> exn_destroy x h2 = Inl (UB DoubleFree))) \<and>
    (\<forall>m c. \<exists>x h2. Group_attachBackend ce (Inl (Throw (GException m c))) init del ty h s = (Inr (InFlight x h2), s) \<and>
        get_error_code x = c \<and> exn_what oom x h2 = Inl (UB DoubleFree) \<and> exn_destroy x h2 = Inl (UB DoubleFree)) \<and>
    (\<forall>m. Group_attachBackend ce (Inl (Throw (OtherException m))) init del ty h s = (Inl (UB NullString), s))"
proof -
  have c: "\<exists>x h2. catch_gscale ce m c h = Inr (InFlight x h2) \<and>
      get_error_code x = c \<and> exn_what oom x h2 = Inl (UB DoubleFree) \<and> exn_destroy x h2 = Inl (UB DoubleFree)" for m c
    using alloc
    by (auto simp: catch_gscale_def Exception_cstr_def string_of_cstr_def exn_init_alloc exn_destroy_def
        exn_copy_def exn_what_def get_error_code_def)
  have "\<exists>x h2. Group_attachBackend ce (Inr b) init del ty h s = (Inr (InFlight x h2), del b s1) \<and>
      get_error_code x = c \<and> exn_what oom x h2 = Inl (UB DoubleFree) \<and> exn_destroy x h2 = Inl (UB DoubleFree)"
    if "GroupCore_attachBackend (init b) (ce_errno ce) ty b s = (Inl (Throw (GException m c)), s1)" for b m c s1
    using that c [of m c] by (auto simp: Group_attachBackend_def)
  then show ?thesis
    using c by (auto simp: Group_attachBackend_def catch_any_def Exception_cstr_def string_of_cstr_def)
qed

theorem Group_attach_outcome_witness:
  "let ce = \<lparr>ce_strerr = (\<lambda>_. ''no''), ce_errno = 0, ce_alloc = Some 3, ce_file = ''group.hpp'', ce_line = 60\<rparr>;
       s = \<lparr>localnodes = [], backends = [BackendRow 1 ''T''], sendqueue = [], connectcount = 0, gname = ''g'',
             io_queue = [], io_stopped = False\<rparr>
   in \<exists>x h2. Group_attachBackend ce (Inr 7) (\<lambda>_. Pair (Inr ())) (\<lambda>_ s. s) ''T'' (\<lambda>_. None) s = (Inr (InFlight x h2), s) \<and>
        get_error_code x = EALREADY \<and> exn_destroy x h2 = Inl (UB DoubleFree)"
proof -
  let ?ce = "\<lparr>ce_strerr = (\<lambda>_. ''no''), ce_errno = 0, ce_alloc = Some 3, ce_file = ''group.hpp'', ce_line = 60\<rparr>"
  let ?s = "\<lparr>localnodes = [], backends = [BackendRow 1 ''T''], sendqueue = [], connectcount = 0, gname = ''g'',
      io_queue = [], io_stopped = False\<rparr>"
  have att: "GroupCore_attachBackend ((\<lambda>_. Pair (Inr ())) 7) (ce_errno ?ce) ''T'' 7 ?s =
      (Inl (Throw (GException ''Backend already attached'' EALREADY)), ?s)"
    by (simp add: GroupCore_attachBackend_def mi_find_def BackendRow_def)
  have "ce_alloc ?ce = Some 3" by simp
  note out = Group_attach_outcome [OF this, THEN conjunct2, THEN conjunct1, rule_format, OF att,
      where oom = False and del = "\<lambda>_ s. s" and h = "\<lambda>_. None"]
  then show ?thesis unfolding Let_def by blast
qed

end
