(* ===== verification/TcpProtocol.thy ===== *)
theory TcpProtocol imports Packet begin

text \<open>
  The framing protocol of the TCP backend (\<open>backend/tcp/protocol.hpp\<close>): the send side with its
  output buffer, the receive side with its input buffer, as functions of the completion handlers.
  The two buffers are raw memory behind pointers that may never have been set. The archive
  library is a parameter: \<open>enc\<close> gives the bytes \<open>binary_oarchive\<close> writes for a packet, \<open>dec\<close>
  reads such bytes into a packet object and fails with an archive exception.
\<close>

section \<open>State\<close>

datatype transfer = TMIN | FREE | HEADER | PAYLOAD | TMAX

text \<open>
  \<open>BUFFSIZE\<close> is declared \<open>int\<close>, but every expression it occurs in mixes it with an unsigned
  32-bit operand. A buffer is \<open>None\<close> while its pointer holds no address.
\<close>

record proto =
  BUFFSIZE :: u32
  instate :: transfer
  outstate :: transfer
  alreadysent :: u32
  alreadyread :: u32
  proto_input :: packet
  inbuffer :: "byte list option"
  payloadsize :: u32
  readoffset :: u32
  outbuffer :: "byte list option"
  writeoffset :: u32

text \<open>What a step asks of the subscriber and of the socket.\<close>

datatype proto_act =
    SubReadError
  | SubSendError packet
  | SubSendFinished packet
  | SubRead packet
  | AsyncRead nat u32
  | AsyncWrite "byte list"

section \<open>Receiving\<close>

definition read_payload :: "u64 \<Rightarrow> proto \<Rightarrow> proto_act list \<Rightarrow> (u64 \<times> proto \<times> proto_act list) result" where
  "read_payload n st acts =
     (let todo = payloadsize st;
          plength = (if todo \<le> readoffset st then todo else readoffset st) in
      case inbuffer st of
        None \<Rightarrow> Inl (UB UninitRead)
      | Some ib \<Rightarrow>
          case (mem_read ib 0 (unat plength), mem_read ib (unat plength) (unat (BUFFSIZE st - plength))) of
            (Some pl, Some rest) \<Rightarrow>
              let p = fst (payload_set (map (\<lambda>b. char_of (unat b)) pl) (proto_input st));
                  size' = payloadsize st - plength
              in Inr (n - ucast plength,
                      st\<lparr>proto_input := p, inbuffer := Some (blit ib 0 rest), readoffset := 0,
                         payloadsize := size', instate := (if size' \<le> 0 then FREE else instate st)\<rparr>,
                      acts @ [SubRead p])
          | _ \<Rightarrow> Inl (UB OutOfBounds))"

text \<open>
  The header: the header's length is read from the bytes 1 to 4, converted, and then overwritten
  with the bytes 5 to 8 as they are; the payload's length is the conversion of zero.
\<close>

definition read_header :: "(byte list \<Rightarrow> packet \<Rightarrow> packet option) \<Rightarrow> endian \<Rightarrow> u64 \<Rightarrow> proto \<Rightarrow>
    proto_act list \<Rightarrow> (u64 \<times> proto \<times> proto_act list) result" where
  "read_header dec e n st acts =
     (if readoffset st < 5 then Inr (0, st, acts)
      else case inbuffer st of
        None \<Rightarrow> Inl (UB UninitRead)
      | Some ib \<Rightarrow>
          case (mem_read ib 1 4, mem_read ib 5 4) of
            (Some w1, Some w2) \<Rightarrow>
              let headersize = load32 e w2;
                  st1 = st\<lparr>payloadsize := ntohl e 0\<rparr>
              in if ib ! 0 \<noteq> 0 \<and> readoffset st1 \<ge> 1 + 4 + 4 + headersize then
                   case (mem_read ib 9 (unat headersize),
                         mem_read ib (9 + unat headersize) (unat (BUFFSIZE st1 - 9 - headersize))) of
                     (Some header, Some rest) \<Rightarrow>
                       (case dec header (proto_input st1) of
                          None \<Rightarrow> Inl (Throw (OtherException ''archive_exception''))
                        | Some p \<Rightarrow> read_payload (n - ucast (9 + headersize))
                            (st1\<lparr>proto_input := p, inbuffer := Some (blit ib 0 rest), readoffset := 0,
                                 instate := PAYLOAD\<rparr>) acts)
                   | _ \<Rightarrow> Inl (UB OutOfBounds)
                 else if ib ! 0 = 0 \<and> readoffset st1 \<ge> 1 + 4 + headersize then
                   case (mem_read ib 5 (unat headersize),
                         mem_read ib (5 + unat headersize) (unat (BUFFSIZE st1 - 5 - headersize))) of
                     (Some header, Some rest) \<Rightarrow>
                       (case dec header (proto_input st1) of
                          None \<Rightarrow> Inl (Throw (OtherException ''archive_exception''))
                        | Some p \<Rightarrow> Inr (n - ucast (5 + headersize),
                            st1\<lparr>proto_input := p, inbuffer := Some (blit ib 0 rest), readoffset := 0,
                                instate := FREE\<rparr>, acts @ [SubRead p]))
                   | _ \<Rightarrow> Inl (UB OutOfBounds)
                 else Inr (0, st1, acts)
          | _ \<Rightarrow> Inl (UB OutOfBounds))"

definition read_step :: "(byte list \<Rightarrow> packet \<Rightarrow> packet option) \<Rightarrow> endian \<Rightarrow> u64 \<Rightarrow> proto \<Rightarrow>
    proto_act list \<Rightarrow> (u64 \<times> proto \<times> proto_act list) result" where
  "read_step dec e n st acts = (case instate st of
     TMIN \<Rightarrow> Inr (n, st, acts)
   | TMAX \<Rightarrow> Inr (n, st, acts)
   | FREE \<Rightarrow> read_header dec e n (st\<lparr>instate := HEADER, alreadyread := 0, readoffset := 0\<rparr>) acts
   | HEADER \<Rightarrow> read_header dec e n st acts
   | PAYLOAD \<Rightarrow> read_payload n st acts)"

text \<open>\<open>while(bytes_transferred > 0)\<close>; \<open>None\<close> is a loop that does not end.\<close>

partial_function (option) read_loop :: "(byte list \<Rightarrow> packet \<Rightarrow> packet option) \<Rightarrow> endian \<Rightarrow> u64 \<Rightarrow> proto \<Rightarrow>
    proto_act list \<Rightarrow> (proto_act list \<times> proto) result option" where
  "read_loop dec e n st acts =
     (if n = 0 then Some (Inr (acts, st))
      else case read_step dec e n st acts of
          Inl x \<Rightarrow> Some (Inl x)
        | Inr r \<Rightarrow> read_loop dec e (fst r) (fst (snd r)) (snd (snd r)))"

declare read_loop.simps [code]

definition processReadBuffer :: "(byte list \<Rightarrow> packet \<Rightarrow> packet option) \<Rightarrow> endian \<Rightarrow> u64 \<Rightarrow> proto \<Rightarrow>
    (proto_act list \<times> proto) result option" where
  "processReadBuffer dec e n st =
     read_loop dec e n (if n > 0 then st\<lparr>readoffset := readoffset st + ucast n\<rparr> else st) []"

text \<open>\<open>opn\<close>: the socket is open after the subscriber was called.\<close>

definition proto_onRead :: "(byte list \<Rightarrow> packet \<Rightarrow> packet option) \<Rightarrow> endian \<Rightarrow> bool \<Rightarrow> bool \<Rightarrow> u64 \<Rightarrow> proto \<Rightarrow>
    (proto_act list \<times> proto) result option" where
  "proto_onRead dec e error opn n st =
     map_option (\<lambda>r. case r of
         Inl x \<Rightarrow> Inl x
       | Inr (acts, st1) \<Rightarrow>
           if opn then (if inbuffer st1 = None then Inl (UB UninitRead)
             else Inr (acts @ [AsyncRead (unat (readoffset st1)) (BUFFSIZE st1 - readoffset st1)], st1))
           else Inr (acts, st1))
       (if error then Some (Inr ([SubReadError], st)) else processReadBuffer dec e n st)"

section \<open>Sending\<close>

text \<open>A \<open>memcpy\<close> to \<open>outbuffer + writeoffset\<close> that advances \<open>writeoffset\<close>.\<close>

definition put :: "byte list \<Rightarrow> proto \<Rightarrow> proto result" where
  "put bs st = (case outbuffer st of
     None \<Rightarrow> Inl (UB UninitRead)
   | Some ob \<Rightarrow> (case mem_write ob (unat (writeoffset st)) bs of
        None \<Rightarrow> Inl (UB OutOfBounds)
      | Some ob' \<Rightarrow> Inr (st\<lparr>outbuffer := Some ob', writeoffset := writeoffset st + of_nat (length bs)\<rparr>)))"

text \<open>\<open>True\<close> is the error \<open>value_too_large\<close>.\<close>

definition writeHeader :: "(packet \<Rightarrow> byte list) \<Rightarrow> endian \<Rightarrow> packet \<Rightarrow> proto \<Rightarrow> (bool \<times> proto) result" where
  "writeHeader enc e p st =
     (let freespace = BUFFSIZE st - writeoffset st;
          oldoffset = writeoffset st;
          packetheader = enc p
      in if unat freespace < 5 + length packetheader \<or>
            (Packet_size p > 0 \<and> unat freespace < 9 + length packetheader) then Inr (True, st)
         else and_then (put [if Packet_size p > 0 then 1 else 0] st) (\<lambda>st1.
              and_then (put (mem32 e (htonl e (of_nat (length packetheader)))) st1) (\<lambda>st2.
              and_then (if Packet_size p > 0 then put (mem32 e (htonl e (Packet_size p))) st2 else Inr st2) (\<lambda>st3.
              if length packetheader \<ge> unat (BUFFSIZE st3 - writeoffset st3)
              then Inr (True, st3\<lparr>writeoffset := oldoffset\<rparr>)
              else and_then (put packetheader st3) (\<lambda>st4. Inr (False, st4))))))"

text \<open>The case \<open>PAYLOAD\<close> of \<open>onSend\<close>; the flag says whether the function returned there.\<close>

definition send_payload :: "packet \<Rightarrow> proto \<Rightarrow> (bool \<times> proto_act list \<times> proto) result" where
  "send_payload p st =
     (let todo = Packet_size p - alreadysent st;
          space = BUFFSIZE st - writeoffset st;
          fillsize = (if space > todo then todo else space)
      in if todo > 0 \<and> fillsize > 0 then
           (case mem_read (bytes_of_string (payload p)) (unat (alreadysent st)) (unat fillsize) of
              None \<Rightarrow> Inl (UB OutOfBounds)
            | Some bs \<Rightarrow> and_then (put bs st) (\<lambda>st1. Inr (False, [], st1\<lparr>alreadysent := alreadysent st1 + fillsize\<rparr>)))
         else if writeoffset st \<le> 0 then Inr (True, [SubSendFinished p], st\<lparr>outstate := FREE\<rparr>)
         else Inr (False, [], st))"

definition send_header :: "(packet \<Rightarrow> byte list) \<Rightarrow> endian \<Rightarrow> packet \<Rightarrow> proto \<Rightarrow> (bool \<times> proto_act list \<times> proto) result" where
  "send_header enc e p st =
     and_then (writeHeader enc e p st) (\<lambda>(error, st1).
       if error then Inr (False, [SubSendError p], st1\<lparr>outstate := FREE, writeoffset := 0\<rparr>)
       else send_payload p (st1\<lparr>alreadysent := 0, outstate := PAYLOAD\<rparr>))"

definition send_state :: "(packet \<Rightarrow> byte list) \<Rightarrow> endian \<Rightarrow> packet \<Rightarrow> proto \<Rightarrow> (bool \<times> proto_act list \<times> proto) result" where
  "send_state enc e p st = (case outstate st of
     TMIN \<Rightarrow> Inr (False, [], st)
   | TMAX \<Rightarrow> Inr (False, [], st)
   | FREE \<Rightarrow> send_header enc e p (st\<lparr>writeoffset := 0, alreadysent := 0, outstate := HEADER\<rparr>)
   | HEADER \<Rightarrow> send_header enc e p st
   | PAYLOAD \<Rightarrow> send_payload p st)"

definition start_write :: "bool \<Rightarrow> proto \<Rightarrow> (proto_act list \<times> proto) result" where
  "start_write opn st =
     (if opn \<and> writeoffset st > 0 then
        (case outbuffer st of
           None \<Rightarrow> Inl (UB UninitRead)
         | Some ob \<Rightarrow> Inr ([AsyncWrite (take (unat (writeoffset st)) ob)], st\<lparr>writeoffset := 0\<rparr>))
      else Inr ([], st))"

definition onSend :: "(packet \<Rightarrow> byte list) \<Rightarrow> endian \<Rightarrow> packet \<Rightarrow> bool \<Rightarrow> bool \<Rightarrow> nat \<Rightarrow> proto \<Rightarrow>
    (proto_act list \<times> proto) result" where
  "onSend enc e p error opn n st =
     and_then (if error then Inr (False, [SubSendError p], st)
               else send_state enc e p (st\<lparr>alreadysent := alreadysent st + of_nat n\<rparr>))
       (\<lambda>(returned, acts, st1).
          if returned then Inr (acts, st1)
          else and_then (start_write opn st1) (\<lambda>(acts', st2). Inr (acts @ acts', st2)))"

definition proto_send :: "(packet \<Rightarrow> byte list) \<Rightarrow> endian \<Rightarrow> packet \<Rightarrow> bool \<Rightarrow> proto \<Rightarrow> (proto_act list \<times> proto) result" where
  "proto_send enc e p opn st =
     (if outstate st \<noteq> FREE then Inl (Throw (GException ''socket is in transmission state'' EFAULT))
      else onSend enc e p False opn 0 st)"

section \<open>Construction and destruction\<close>

text \<open>
  The constructor's buffers are locals with the names of the members; the members stay as the
  memory \<open>raw\<close> was. \<open>new[]\<close> never returns \<open>NULL\<close>, so the two tests after it are dead. The first
  \<open>onRead\<close> is called with zero bytes.
\<close>

definition TCP_Protocol :: "(byte list \<Rightarrow> packet \<Rightarrow> packet option) \<Rightarrow> endian \<Rightarrow> bool \<Rightarrow> u32 \<Rightarrow> proto \<Rightarrow>
    (proto_act list \<times> proto) result option" where
  "TCP_Protocol dec e opn buffsize raw =
     (if buffsize < 64
      then Some (Inl (Throw (GException ''invalid buffer size given, must be greater or equal to 128'' EINVAL)))
      else proto_onRead dec e False opn 0
        (raw\<lparr>BUFFSIZE := buffsize, proto_input := Packet_default, inbuffer := None, outbuffer := None,
             outstate := FREE, instate := FREE\<rparr>))"

definition TCP_Protocol_destroy :: "proto \<Rightarrow> unit result" where
  "TCP_Protocol_destroy st =
     (if inbuffer st = None \<or> outbuffer st = None then Inl (UB UninitRead) else Inr ())"

section \<open>What the send side writes\<close>

text \<open>The bytes of a frame before the payload, as the receiver is meant to read them.\<close>

definition wire_header :: "(packet \<Rightarrow> byte list) \<Rightarrow> packet \<Rightarrow> byte list" where
  "wire_header enc p = (if Packet_size p > 0 then [1] @ be32 (of_nat (length (enc p))) @ be32 (Packet_size p)
     else [0] @ be32 (of_nat (length (enc p)))) @ enc p"

text \<open>\<open>ws\<close> is what the output buffer holds below \<open>writeoffset\<close>.\<close>

definition written :: "proto \<Rightarrow> byte list \<Rightarrow> bool" where
  "written st ws \<longleftrightarrow> (\<exists>ob. outbuffer st = Some ob \<and> length ob = unat (BUFFSIZE st) \<and> length ws \<le> length ob \<and>
     unat (writeoffset st) = length ws \<and> take (length ws) ob = ws)"

lemma unat_add_of_nat:
  assumes "unat (w :: u32) + n \<le> unat (b :: u32)"
  shows "unat (w + of_nat n) = unat w + n"
proof -
  have "unat w + n < 2 ^ LENGTH(32)" using assms unsigned_less [of b, where 'a = nat] by simp
  then have "unat (of_nat (unat w + n) :: u32) = unat w + n" by (simp only: unat_of_nat mod_less)
  then show ?thesis by simp
qed

lemma put_written:
  assumes "written st ws" "length ws + length bs \<le> unat (BUFFSIZE st)"
  shows "\<exists>ob wo. put bs st = Inr (st\<lparr>outbuffer := Some ob, writeoffset := wo\<rparr>) \<and>
    written (st\<lparr>outbuffer := Some ob, writeoffset := wo\<rparr>) (ws @ bs)"
proof -
  from assms(1) obtain ob where ob: "outbuffer st = Some ob" "length ob = unat (BUFFSIZE st)"
      "unat (writeoffset st) = length ws" "take (length ws) ob = ws"
    by (auto simp: written_def)
  have wo: "unat (writeoffset st + of_nat (length bs)) = length ws + length bs"
    using assms(2) ob(3) unat_add_of_nat [of "writeoffset st" "length bs" "BUFFSIZE st"] by simp
  show ?thesis
  proof (intro exI conjI)
    show "put bs st = Inr (st\<lparr>outbuffer := Some (blit ob (length ws) bs), writeoffset := writeoffset st + of_nat (length bs)\<rparr>)"
      using ob assms(2) by (simp add: put_def mem_write_def)
    show "written (st\<lparr>outbuffer := Some (blit ob (length ws) bs), writeoffset := writeoffset st + of_nat (length bs)\<rparr>) (ws @ bs)"
      using ob wo assms(2) by (simp add: written_def take_blit)
  qed
qed

lemma put_more:
  assumes "written (st\<lparr>outbuffer := Some ob1, writeoffset := wo1\<rparr>) ws" "length ws + length bs \<le> unat (BUFFSIZE st)"
  shows "\<exists>ob wo. put bs (st\<lparr>outbuffer := Some ob1, writeoffset := wo1\<rparr>) = Inr (st\<lparr>outbuffer := Some ob, writeoffset := wo\<rparr>) \<and>
    written (st\<lparr>outbuffer := Some ob, writeoffset := wo\<rparr>) (ws @ bs)"
  using put_written [OF assms(1), of bs] assms(2) by simp

lemma written_start: "outbuffer st = Some ob \<Longrightarrow> length ob = unat (BUFFSIZE st) \<Longrightarrow> written (st\<lparr>writeoffset := 0\<rparr>) []"
  by (simp add: written_def)

lemma written_update [simp]:
  "written (st\<lparr>alreadysent := x\<rparr>) ws = written st ws"
  "written (st\<lparr>outstate := y\<rparr>) ws = written st ws"
  by (simp_all add: written_def)

lemma length_wire_header: "length (wire_header enc p) = (if Packet_size p > 0 then 9 else 5) + length (enc p)"
  by (simp add: wire_header_def)

lemma unat_free:
  assumes "written st ws"
  shows "unat (BUFFSIZE st - writeoffset st) = unat (BUFFSIZE st) - length ws"
proof -
  have "writeoffset st \<le> BUFFSIZE st" using assms by (auto simp: written_def word_le_nat_alt)
  then show ?thesis using assms by (auto simp: written_def unat_sub)
qed

text \<open>The header is written exactly when one byte more than it needs is free.\<close>

lemma writeHeader_spec:
  assumes w: "written st []"
  shows "(length (wire_header enc p) < unat (BUFFSIZE st) \<longrightarrow>
      (\<exists>ob wo. writeHeader enc e p st = Inr (False, st\<lparr>outbuffer := Some ob, writeoffset := wo\<rparr>) \<and>
         written (st\<lparr>outbuffer := Some ob, writeoffset := wo\<rparr>) (wire_header enc p))) \<and>
    (unat (BUFFSIZE st) \<le> length (wire_header enc p) \<longrightarrow>
      (\<exists>ob. writeHeader enc e p st = Inr (True, st\<lparr>outbuffer := Some ob\<rparr>) \<and> length ob = unat (BUFFSIZE st)))"
proof -
  let ?B = "unat (BUFFSIZE st)"
  have free: "unat (BUFFSIZE st - writeoffset st) = ?B" using unat_free [OF w] by simp
  obtain ob0 where ob0: "outbuffer st = Some ob0" "length ob0 = ?B" using w by (auto simp: written_def)
  show ?thesis
  proof (cases "?B < (if Packet_size p > 0 then 9 else 5) + length (enc p)")
    case True
    then have "unat (BUFFSIZE st - writeoffset st) < 5 + length (enc p) \<or>
        (Packet_size p > 0 \<and> unat (BUFFSIZE st - writeoffset st) < 9 + length (enc p))"
      using free by (auto split: if_splits)
    then have "writeHeader enc e p st = Inr (True, st)"
      unfolding writeHeader_def Let_def by (rule if_P)
    moreover have "st = st\<lparr>outbuffer := Some ob0\<rparr>" using ob0 by simp
    ultimately have "\<exists>ob. writeHeader enc e p st = Inr (True, st\<lparr>outbuffer := Some ob\<rparr>) \<and> length ob = ?B"
      using ob0(2) by metis
    then show ?thesis using True by (simp add: length_wire_header)
  next
    case False
    let ?n = "of_nat (length (enc p)) :: u32"
    let ?pre = "if Packet_size p > 0 then [1] @ be32 ?n @ be32 (Packet_size p) else [0] @ be32 ?n"
    have first: "\<not> (unat (BUFFSIZE st - writeoffset st) < 5 + length (enc p) \<or>
        (Packet_size p > 0 \<and> unat (BUFFSIZE st - writeoffset st) < 9 + length (enc p)))"
      using False free by (auto split: if_splits)
    have fit: "length [] + length [if Packet_size p > 0 then 1 else 0 :: byte] \<le> ?B"
        "length [if Packet_size p > 0 then 1 else 0 :: byte] + length (be32 ?n) \<le> ?B"
        "Packet_size p > 0 \<Longrightarrow> 9 \<le> ?B"
      using False by (auto split: if_splits)
    obtain ob1 wo1 where 1: "put [if Packet_size p > 0 then 1 else 0] st = Inr (st\<lparr>outbuffer := Some ob1, writeoffset := wo1\<rparr>)"
        "written (st\<lparr>outbuffer := Some ob1, writeoffset := wo1\<rparr>) [if Packet_size p > 0 then 1 else 0]"
      using put_written [OF w fit(1)] by (metis append_Nil)
    obtain ob2 wo2 where 2: "put (mem32 e (htonl e ?n)) (st\<lparr>outbuffer := Some ob1, writeoffset := wo1\<rparr>) =
          Inr (st\<lparr>outbuffer := Some ob2, writeoffset := wo2\<rparr>)"
        "written (st\<lparr>outbuffer := Some ob2, writeoffset := wo2\<rparr>) ([if Packet_size p > 0 then 1 else 0] @ be32 ?n)"
      using put_more [OF 1(2) fit(2)] by (simp only: mem32_htonl) blast
    obtain ob3 wo3 where 3: "(if Packet_size p > 0 then put (mem32 e (htonl e (Packet_size p))) (st\<lparr>outbuffer := Some ob2, writeoffset := wo2\<rparr>)
          else Inr (st\<lparr>outbuffer := Some ob2, writeoffset := wo2\<rparr>)) = Inr (st\<lparr>outbuffer := Some ob3, writeoffset := wo3\<rparr>)"
        "written (st\<lparr>outbuffer := Some ob3, writeoffset := wo3\<rparr>) ?pre"
    proof (cases "Packet_size p > 0")
      case True
      then show ?thesis
        using put_written [OF 2(2), of "be32 (Packet_size p)"] fit(3) that by (auto simp: append.assoc)
    next
      case no: False
      then show ?thesis using 2(2) that by auto
    qed
    have pre: "length (wire_header enc p) = length ?pre + length (enc p)" by (simp add: wire_header_def)
    have free3: "unat (BUFFSIZE (st\<lparr>outbuffer := Some ob3, writeoffset := wo3\<rparr>) -
        writeoffset (st\<lparr>outbuffer := Some ob3, writeoffset := wo3\<rparr>)) = ?B - length ?pre"
      using unat_free [OF 3(2)] by simp
    have len3: "length ob3 = ?B" using 3(2) by (auto simp: written_def)
    show ?thesis
    proof (cases "length (wire_header enc p) < ?B")
      case True
      then have fit4: "length ?pre + length (enc p) \<le> ?B" using pre by simp
      obtain ob4 wo4 where 4: "put (enc p) (st\<lparr>outbuffer := Some ob3, writeoffset := wo3\<rparr>) =
            Inr (st\<lparr>outbuffer := Some ob4, writeoffset := wo4\<rparr>)"
          "written (st\<lparr>outbuffer := Some ob4, writeoffset := wo4\<rparr>) (?pre @ enc p)"
        using put_more [OF 3(2) fit4] by blast
      have "writeHeader enc e p st = Inr (False, st\<lparr>outbuffer := Some ob4, writeoffset := wo4\<rparr>)"
        unfolding writeHeader_def Let_def if_not_P [OF first] and_then_def 1(1) 2(1) sum.case 3(1)
        unfolding free3 using True pre by (simp only: 4(1) sum.case) simp
      moreover have "written (st\<lparr>outbuffer := Some ob4, writeoffset := wo4\<rparr>) (wire_header enc p)"
        using 4(2) by (simp only: wire_header_def)
      ultimately have "\<exists>ob wo. writeHeader enc e p st = Inr (False, st\<lparr>outbuffer := Some ob, writeoffset := wo\<rparr>) \<and>
          written (st\<lparr>outbuffer := Some ob, writeoffset := wo\<rparr>) (wire_header enc p)" by blast
      then show ?thesis using True by (simp only: not_le [symmetric] simp_thms)
    next
      case notfit: False
      then have full: "?B - length ?pre \<le> length (enc p)" using pre by linarith
      have "writeHeader enc e p st = Inr (True, st\<lparr>outbuffer := Some ob3, writeoffset := writeoffset st\<rparr>)"
        unfolding writeHeader_def Let_def if_not_P [OF first] and_then_def 1(1) 2(1) sum.case 3(1)
        unfolding free3 using full by simp
      moreover have "st\<lparr>outbuffer := Some ob3, writeoffset := writeoffset st\<rparr> = st\<lparr>outbuffer := Some ob3\<rparr>" by simp
      ultimately have "\<exists>ob. writeHeader enc e p st = Inr (True, st\<lparr>outbuffer := Some ob\<rparr>) \<and> length ob = ?B"
        using len3 by metis
      then show ?thesis using notfit by (simp only: simp_thms)
    qed
  qed
qed

lemma of_nat_unat_word: "unat (w :: u32) = n \<Longrightarrow> w = of_nat n"
  by auto

lemma send_payload_fill:
  assumes w: "written st ws" "ws \<noteq> [] \<or> 0 < min n (unat (BUFFSIZE st) - length ws)" "length ws \<le> unat (BUFFSIZE st)"
    and sent: "unat (alreadysent st) + n = unat (Packet_size p)" and size: "length (payload p) < 2 ^ 32"
  shows "\<exists>ob wo. let k = min n (unat (BUFFSIZE st) - length ws) in
    send_payload p st = Inr (False, [], st\<lparr>outbuffer := Some ob, writeoffset := wo,
        alreadysent := alreadysent st + of_nat k\<rparr>) \<and>
    written (st\<lparr>outbuffer := Some ob, writeoffset := wo\<rparr>)
      (ws @ take k (drop (unat (alreadysent st)) (bytes_of_string (payload p))))"
proof -
  let ?k = "min n (unat (BUFFSIZE st) - length ws)"
  let ?todo = "Packet_size p - alreadysent st" and ?space = "BUFFSIZE st - writeoffset st"
  let ?fill = "if ?space > ?todo then ?todo else ?space"
  have psize: "unat (Packet_size p) = length (payload p)"
    using size by (simp add: Packet_size_def payload_def unat_of_nat)
  have "alreadysent st \<le> Packet_size p" using sent by (simp add: word_le_nat_alt)
  then have todo: "unat ?todo = n" using sent by (simp add: unat_sub)
  have space: "unat ?space = unat (BUFFSIZE st) - length ws" using w(1) by (rule unat_free)
  have fill: "unat ?fill = ?k" using todo space by (auto simp: word_less_nat_alt)
  then have fillw: "?fill = of_nat ?k" by (rule of_nat_unat_word)
  obtain ob0 where ob0: "outbuffer st = Some ob0" using w(1) by (auto simp: written_def)
  have chunk: "mem_read (bytes_of_string (payload p)) (unat (alreadysent st)) ?k =
      Some (take ?k (drop (unat (alreadysent st)) (bytes_of_string (payload p))))"
    using sent psize by (simp add: mem_read_def)
  show ?thesis
  proof (cases "?k = 0")
    case True
    then have "?todo = 0 \<or> ?fill = 0" using fillw by simp
    moreover have "writeoffset st \<noteq> 0" using w(1,2) True by (auto simp: written_def)
    ultimately have "send_payload p st = Inr (False, [], st)"
      by (auto simp: send_payload_def Let_def)
    moreover have "st = st\<lparr>outbuffer := Some ob0, writeoffset := writeoffset st, alreadysent := alreadysent st + of_nat ?k\<rparr>"
      using True ob0 by simp
    moreover have "written (st\<lparr>outbuffer := Some ob0, writeoffset := writeoffset st\<rparr>)
        (ws @ take ?k (drop (unat (alreadysent st)) (bytes_of_string (payload p))))"
      using w(1) ob0 unfolding True by (auto simp: written_def)
    ultimately show ?thesis unfolding Let_def by metis
  next
    case False
    let ?bs = "take ?k (drop (unat (alreadysent st)) (bytes_of_string (payload p)))"
    have "length ws + length ?bs \<le> unat (BUFFSIZE st)" using w(3) by simp
    from put_written [OF w(1) this] obtain ob wo' where put:
      "put ?bs st = Inr (st\<lparr>outbuffer := Some ob, writeoffset := wo'\<rparr>)"
      "written (st\<lparr>outbuffer := Some ob, writeoffset := wo'\<rparr>) (ws @ ?bs)" by blast
    have "?todo > 0" "?fill > 0" using False todo fill by (auto simp: word_less_nat_alt)
    then have "send_payload p st = Inr (False, [], st\<lparr>outbuffer := Some ob, writeoffset := wo',
        alreadysent := alreadysent st + of_nat ?k\<rparr>)"
      unfolding send_payload_def Let_def fill chunk option.case put(1) and_then_def sum.case
      using fillw by (simp del: of_nat_add)
    with put(2) show ?thesis unfolding Let_def by blast
  qed
qed

section \<open>Sending: properties\<close>

text \<open>A protocol object at rest whose buffers are set, of the size it was told.\<close>

definition buffers_set :: "proto \<Rightarrow> bool" where
  "buffers_set st \<longleftrightarrow> (\<exists>ib ob. inbuffer st = Some ib \<and> outbuffer st = Some ob \<and>
     length ib = unat (BUFFSIZE st) \<and> length ob = unat (BUFFSIZE st))"

lemma start_write_written:
  assumes "written st ws" "ws \<noteq> []"
  shows "start_write True st = Inr ([AsyncWrite ws], st\<lparr>writeoffset := 0\<rparr>)"
  using assms by (auto simp: start_write_def written_def word_less_nat_alt)

lemma psize_length: "length (payload p) < 2 ^ 32 \<Longrightarrow> unat (Packet_size p) = length (payload p)"
  by (simp add: Packet_size_def payload_def unat_of_nat)

lemma send_from_rest:
  assumes buf: "buffers_set st" and free: "outstate st = FREE" and size: "length (payload p) < 2 ^ 32"
  shows "if length (wire_header enc p) < unat (BUFFSIZE st)
     then \<exists>st'. proto_send enc e p True st =
        Inr ([AsyncWrite (wire_header enc p @
            take (unat (BUFFSIZE st) - length (wire_header enc p)) (bytes_of_string (payload p)))], st') \<and>
        buffers_set st' \<and> outstate st' = PAYLOAD \<and> writeoffset st' = 0 \<and> BUFFSIZE st' = BUFFSIZE st \<and>
        unat (alreadysent st') = min (length (payload p)) (unat (BUFFSIZE st) - length (wire_header enc p))
     else \<exists>st'. proto_send enc e p True st = Inr ([SubSendError p], st') \<and> buffers_set st' \<and>
        outstate st' = FREE \<and> writeoffset st' = 0"
proof -
  let ?h = "wire_header enc p" and ?B = "unat (BUFFSIZE st)"
  let ?st = "st\<lparr>writeoffset := 0, alreadysent := 0, outstate := HEADER\<rparr>"
  obtain ib ob where ob: "inbuffer st = Some ib" "outbuffer st = Some ob" "length ib = ?B" "length ob = ?B"
    using buf by (auto simp: buffers_set_def)
  have w: "written ?st []" using ob by (simp add: written_def)
  have send: "proto_send enc e p True st = and_then (send_header enc e p ?st) (\<lambda>(returned, acts, st1).
      if returned then Inr (acts, st1) else and_then (start_write True st1) (\<lambda>(acts', st2). Inr (acts @ acts', st2)))"
    using free by (simp add: proto_send_def onSend_def send_state_def)
  show ?thesis
  proof (cases "length ?h < ?B")
    case True
    obtain ob1 wo1 where h: "writeHeader enc e p ?st = Inr (False, ?st\<lparr>outbuffer := Some ob1, writeoffset := wo1\<rparr>)"
        "written (?st\<lparr>outbuffer := Some ob1, writeoffset := wo1\<rparr>) ?h"
      using writeHeader_spec [OF w, of enc p e] True by auto
    let ?st1 = "?st\<lparr>outbuffer := Some ob1, writeoffset := wo1, alreadysent := 0, outstate := PAYLOAD\<rparr>"
    let ?k = "min (length (payload p)) (?B - length ?h)"
    have w1: "written ?st1 ?h" "?h \<noteq> [] \<or> 0 < min (length (payload p)) (unat (BUFFSIZE ?st1) - length ?h)" "length ?h \<le> unat (BUFFSIZE ?st1)" "unat (alreadysent ?st1) + length (payload p) = unat (Packet_size p)"
      using h(2) True size by (simp_all add: written_def wire_header_def psize_length)
    from send_payload_fill [OF w1 size] obtain ob2 wo2 where
      p: "send_payload p ?st1 = Inr (False, [], ?st1\<lparr>outbuffer := Some ob2, writeoffset := wo2, alreadysent := of_nat ?k\<rparr>)"
        "written (?st1\<lparr>outbuffer := Some ob2, writeoffset := wo2\<rparr>) (?h @ take ?k (bytes_of_string (payload p)))"
      by (auto simp: Let_def simp del: of_nat_min)
    have len2: "length ob2 = ?B" using p(2) by (auto simp: written_def)
    have k: "unat (of_nat ?k :: u32) = ?k" using size by (simp add: unat_of_nat del: of_nat_min)
    have take: "take ?k (bytes_of_string (payload p)) = take (?B - length ?h) (bytes_of_string (payload p))"
      by (simp add: min_def)
    let ?st2 = "?st1\<lparr>outbuffer := Some ob2, writeoffset := wo2, alreadysent := of_nat ?k\<rparr>"
    have "start_write True ?st2 = Inr ([AsyncWrite (?h @ take ?k (bytes_of_string (payload p)))], ?st2\<lparr>writeoffset := 0\<rparr>)"
      using p(2) by (intro start_write_written) (simp_all add: written_def wire_header_def)
    then have "proto_send enc e p True st = Inr ([AsyncWrite (?h @ take ?k (bytes_of_string (payload p)))], ?st2\<lparr>writeoffset := 0\<rparr>)"
      using h(1) p(1) by (simp add: send send_header_def and_then_def del: of_nat_min)
    then show ?thesis
      using True ob len2 k unfolding take by (auto simp: buffers_set_def simp del: of_nat_min)
  next
    case False
    then obtain ob1 where "writeHeader enc e p ?st = Inr (True, ?st\<lparr>outbuffer := Some ob1\<rparr>)" "length ob1 = ?B"
      using writeHeader_spec [OF w, of enc p e] by auto
    then show ?thesis
      using False ob by (auto simp: send send_header_def and_then_def start_write_def buffers_set_def)
  qed
qed


text \<open>The completion of a write: the bytes it reports are added to what was already counted.\<close>

lemma completion:
  assumes buf: "buffers_set st" and st: "outstate st = PAYLOAD" "writeoffset st = 0" "0 < BUFFSIZE st"
    and size: "length (payload p) < 2 ^ 32" and sum: "unat (alreadysent st) + n < 2 ^ 32"
  shows "(length (payload p) < unat (alreadysent st) + n \<longrightarrow> onSend enc e p False True n st = Inl (UB OutOfBounds)) \<and>
    (length (payload p) = unat (alreadysent st) + n \<longrightarrow>
      onSend enc e p False True n st = Inr ([SubSendFinished p], st\<lparr>alreadysent := alreadysent st + of_nat n, outstate := FREE\<rparr>)) \<and>
    (unat (alreadysent st) + n < length (payload p) \<longrightarrow>
      (\<exists>st'. onSend enc e p False True n st =
         Inr ([AsyncWrite (take (unat (BUFFSIZE st)) (drop (unat (alreadysent st) + n) (bytes_of_string (payload p))))], st')))"
proof -
  let ?st = "st\<lparr>alreadysent := alreadysent st + of_nat n\<rparr>" and ?m = "unat (alreadysent st) + n"
  have sent: "unat (alreadysent ?st) = ?m"
  proof -
    have "unat (of_nat ?m :: u32) = ?m" using sum by (simp only: unat_of_nat mod_less len_of_numeral_defs) simp
    then show ?thesis by simp
  qed
  have psize: "unat (Packet_size p) = length (payload p)" using size by (rule psize_length)
  have w: "written ?st []" using buf st(2) by (auto simp: buffers_set_def written_def)
  have send: "onSend enc e p False True n st = and_then (send_payload p ?st) (\<lambda>(returned, acts, st1).
      if returned then Inr (acts, st1) else and_then (start_write True st1) (\<lambda>(acts', st2). Inr (acts @ acts', st2)))"
    using st(1) by (simp add: onSend_def send_state_def)
  have B: "0 < unat (BUFFSIZE st)" using st(3) by (simp add: word_less_nat_alt)
  show ?thesis
  proof (intro conjI impI)
    assume over: "length (payload p) < ?m"
    let ?todo = "Packet_size p - alreadysent ?st"
    let ?fill = "if BUFFSIZE ?st - writeoffset ?st > ?todo then ?todo else BUFFSIZE ?st - writeoffset ?st"
    have "?todo \<noteq> 0" using over sent psize by (metis eq_iff_diff_eq_0 less_irrefl)
    then have todo: "?todo > 0" by (simp add: word_gt_0)
    then have fill: "?fill > 0" using st(2,3) by auto
    then have "mem_read (bytes_of_string (payload p)) (unat (alreadysent ?st)) (unat ?fill) = None"
      using over sent by (simp add: mem_read_def word_less_nat_alt)
    then have "send_payload p ?st = Inl (UB OutOfBounds)"
      unfolding send_payload_def Let_def using todo fill by simp
    then show "onSend enc e p False True n st = Inl (UB OutOfBounds)" by (simp add: send and_then_def)
  next
    assume eq: "length (payload p) = ?m"
    then have "Packet_size p - alreadysent ?st = 0" using sent psize by (metis diff_self word_unat_eq_iff)
    then have "send_payload p ?st = Inr (True, [SubSendFinished p], ?st\<lparr>outstate := FREE\<rparr>)"
      unfolding send_payload_def Let_def using st(2) by simp
    then show "onSend enc e p False True n st = Inr ([SubSendFinished p], st\<lparr>alreadysent := alreadysent st + of_nat n, outstate := FREE\<rparr>)"
      by (simp add: send and_then_def)
  next
    assume more: "?m < length (payload p)"
    let ?k = "min (length (payload p) - ?m) (unat (BUFFSIZE st))"
    have "unat (alreadysent ?st) + (length (payload p) - ?m) = unat (Packet_size p)" using more sent psize by simp
    from send_payload_fill [OF w _ _ this size] obtain ob wo where
      p: "send_payload p ?st = Inr (False, [], ?st\<lparr>outbuffer := Some ob, writeoffset := wo, alreadysent := alreadysent ?st + of_nat ?k\<rparr>)"
        "written (?st\<lparr>outbuffer := Some ob, writeoffset := wo\<rparr>) (take ?k (drop ?m (bytes_of_string (payload p))))"
      using more B sent by (auto simp: Let_def simp del: of_nat_min)
    have take: "take ?k (drop ?m (bytes_of_string (payload p))) = take (unat (BUFFSIZE st)) (drop ?m (bytes_of_string (payload p)))"
      by (simp add: min_def)
    let ?st1 = "?st\<lparr>outbuffer := Some ob, writeoffset := wo, alreadysent := alreadysent ?st + of_nat ?k\<rparr>"
    have "start_write True ?st1 = Inr ([AsyncWrite (take ?k (drop ?m (bytes_of_string (payload p))))], ?st1\<lparr>writeoffset := 0\<rparr>)"
      using p(2) more B by (intro start_write_written) (simp_all add: written_def)
    then have "onSend enc e p False True n st = Inr ([AsyncWrite (take ?k (drop ?m (bytes_of_string (payload p))))], ?st1\<lparr>writeoffset := 0\<rparr>)"
      by (simp add: send and_then_def p(1) del: of_nat_min)
    then show "\<exists>st'. onSend enc e p False True n st =
        Inr ([AsyncWrite (take (unat (BUFFSIZE st)) (drop ?m (bytes_of_string (payload p))))], st')"
      unfolding take by blast
  qed
qed

text \<open>
  C4: Sending a packet over an open socket from rest, with buffers that are set: if the frame's
  header leaves at least one byte of the buffer free, one write is started with the header (the
  flag, the two lengths in network order, the archive) and as much of the payload as fits;
  otherwise, a header of exactly the buffer's size included, the subscriber gets an error,
  nothing is written and the object is at rest again.
\<close>

theorem send_first_write:
  assumes buf: "buffers_set st" and free: "outstate st = FREE" and size: "length (payload p) < 2 ^ 32"
  shows "if length (wire_header enc p) < unat (BUFFSIZE st)
     then \<exists>st'. proto_send enc e p True st =
        Inr ([AsyncWrite (wire_header enc p @
            take (unat (BUFFSIZE st) - length (wire_header enc p)) (bytes_of_string (payload p)))], st') \<and>
        buffers_set st' \<and> outstate st' = PAYLOAD \<and> writeoffset st' = 0 \<and> BUFFSIZE st' = BUFFSIZE st \<and>
        unat (alreadysent st') = min (length (payload p)) (unat (BUFFSIZE st) - length (wire_header enc p))
     else \<exists>st'. proto_send enc e p True st = Inr ([SubSendError p], st') \<and> buffers_set st' \<and>
        outstate st' = FREE \<and> writeoffset st' = 0"
  by (rule send_from_rest [OF assms])

text \<open>A protocol object at rest with buffers of 64 bytes, for the witnesses.\<close>

definition proto64 :: proto where
  "proto64 = \<lparr>BUFFSIZE = 64, instate = FREE, outstate = FREE, alreadysent = 0, alreadyread = 0,
     proto_input = Packet_default, inbuffer = Some (replicate 64 0), payloadsize = 0, readoffset = 0,
     outbuffer = Some (replicate 64 0), writeoffset = 0\<rparr>"

lemma buffers_set_64: "buffers_set proto64" "outstate proto64 = FREE" "BUFFSIZE proto64 = 64"
  by (simp_all add: proto64_def buffers_set_def)

lemma default_payload: "payload Packet_default = []" "Packet_size Packet_default = 0" "payload (Packet_default\<lparr>pk_payload := x\<rparr>) = x"
  by (simp_all add: payload_def Packet_default_def Packet_new_def Packet_size_def)

theorem send_first_write_witness:
  "\<exists>st'. proto_send (\<lambda>_. [9, 9]) LittleEndian Packet_default True proto64 =
     Inr ([AsyncWrite [0, 0, 0, 0, 2, 9, 9]], st') \<and> outstate st' = PAYLOAD"
  using send_first_write [OF buffers_set_64(1,2), of Packet_default "\<lambda>_. [9, 9]" LittleEndian]
  by (auto simp: default_payload buffers_set_64 wire_header_def be32_def bytes_of_string_def)

text \<open>
  C9: When the socket reports such a write as complete, the count of the bytes already sent
  takes the whole write on top of the payload bytes counted before it started. With \<open>k\<close> bytes of
  room behind the header, a packet whose payload is shorter than \<open>k\<close> plus the buffer's size, one
  without a payload included, makes the next copy read past the payload; one of exactly that
  length is reported as sent although its last bytes, a whole buffer of them, never were; and a
  longer one continues with a whole buffer of its payload left out.
\<close>

theorem send_completion:
  assumes buf: "buffers_set st" and free: "outstate st = FREE" and size: "length (payload p) < 2 ^ 32"
    and B: "unat (BUFFSIZE st) < 2 ^ 31" and fits: "length (wire_header enc p) < unat (BUFFSIZE st)"
    and k: "k = unat (BUFFSIZE st) - length (wire_header enc p)"
    and run: "proto_send enc e p True st = Inr ([AsyncWrite bs], st1)"
  shows "(length (payload p) < k + unat (BUFFSIZE st) \<longrightarrow> onSend enc e p False True (length bs) st1 = Inl (UB OutOfBounds)) \<and>
    (length (payload p) = k + unat (BUFFSIZE st) \<longrightarrow>
       (\<exists>st2. onSend enc e p False True (length bs) st1 = Inr ([SubSendFinished p], st2))) \<and>
    (k + unat (BUFFSIZE st) < length (payload p) \<longrightarrow>
       (\<exists>st2. onSend enc e p False True (length bs) st1 =
          Inr ([AsyncWrite (take (unat (BUFFSIZE st)) (drop (k + unat (BUFFSIZE st)) (bytes_of_string (payload p))))], st2)))"
proof -
  let ?B = "unat (BUFFSIZE st)"
  from send_from_rest [OF buf free size, of enc e] fits run
  have st1: "buffers_set st1" "outstate st1 = PAYLOAD" "writeoffset st1 = 0" "BUFFSIZE st1 = BUFFSIZE st"
    and sent: "unat (alreadysent st1) = min (length (payload p)) k"
    and bs: "bs = wire_header enc p @ take k (bytes_of_string (payload p))"
    by (auto simp: k)
  have n: "length bs = length (wire_header enc p) + min (length (payload p)) k" by (simp add: bs)
  have pos: "0 < BUFFSIZE st1" "0 < length (wire_header enc p)"
    using fits by (simp_all add: st1 word_less_nat_alt length_wire_header)
  have hk: "length (wire_header enc p) + k = ?B" using k fits by simp
  have "unat (alreadysent st1) + length bs \<le> k + ?B"
    unfolding sent n using min.cobounded2 [of "length (payload p)" k] hk by linarith
  also have "k + ?B \<le> 2 * ?B" using hk by simp
  also have "\<dots> < 2 ^ 32" using B by simp
  finally have sum: "unat (alreadysent st1) + length bs < 2 ^ 32" .
  have m: "unat (alreadysent st1) + length bs = (if length (payload p) \<le> k then length (wire_header enc p) + 2 * length (payload p) else k + ?B)"
    unfolding sent n using hk by simp
  show ?thesis
  proof (cases "length (payload p) \<le> k")
    case True
    then show ?thesis
      using completion [OF st1(1,2,3) pos(1) size sum, of enc e] m pos(2) hk fits by simp
  next
    case False
    then show ?thesis
      using completion [OF st1(1,2,3) pos(1) size sum, of enc e] unfolding m st1(4) by simp
  qed
qed

theorem send_completion_witness:
  "\<exists>st1. proto_send (\<lambda>_. [9, 9]) LittleEndian Packet_default True proto64 = Inr ([AsyncWrite [0, 0, 0, 0, 2, 9, 9]], st1) \<and>
     onSend (\<lambda>_. [9, 9]) LittleEndian Packet_default False True 7 st1 = Inl (UB OutOfBounds)"
proof -
  obtain st1 where run: "proto_send (\<lambda>_. [9, 9]) LittleEndian Packet_default True proto64 = Inr ([AsyncWrite [0, 0, 0, 0, 2, 9, 9]], st1)"
    using send_from_rest [OF buffers_set_64(1,2), of Packet_default "\<lambda>_. [9, 9]" LittleEndian]
    by (auto simp: default_payload buffers_set_64 wire_header_def be32_def bytes_of_string_def)
  have "length (payload Packet_default) < 2 ^ 32" "unat (BUFFSIZE proto64) < 2 ^ 31"
      "length (wire_header (\<lambda>_. [9, 9]) Packet_default) < unat (BUFFSIZE proto64)"
    by (simp_all add: default_payload buffers_set_64 length_wire_header)
  from send_completion [OF buffers_set_64(1,2) this refl run]
  have "onSend (\<lambda>_. [9, 9]) LittleEndian Packet_default False True (length [0, 0, 0, 0, 2, 9, 9 :: byte]) st1 = Inl (UB OutOfBounds)"
    by (simp add: default_payload buffers_set_64)
  moreover have "length [0, 0, 0, 0, 2, 9, 9 :: byte] = 7" by simp
  ultimately show ?thesis using run by (simp only:) blast
qed

lemma send_unset:
  assumes "outbuffer st = None" "outstate st = FREE" "9 + length (enc p) \<le> unat (BUFFSIZE st)"
  shows "proto_send enc e p opn st = Inl (UB UninitRead)"
  using assms by (simp add: proto_send_def onSend_def send_state_def send_header_def writeHeader_def Let_def
      and_then_def put_def)

text \<open>
  A protocol object as its constructor leaves it: below 64 bytes the constructor throws
  \<open>EINVAL\<close>; otherwise it succeeds on a closed socket without touching anything, but both buffer
  pointers are still unset, so that sending any packet whose header passes the first check,
  completing any read on an open socket and destroying the object are undefined.
\<close>

theorem constructor_leaves_buffers_unset:
  "TCP_Protocol dec e False buffsize raw =
     (if buffsize < 64 then Some (Inl (Throw (GException ''invalid buffer size given, must be greater or equal to 128'' EINVAL)))
      else Some (Inr ([], raw\<lparr>BUFFSIZE := buffsize, proto_input := Packet_default, inbuffer := None, outbuffer := None,
             outstate := FREE, instate := FREE\<rparr>))) \<and>
   (\<forall>acts st. TCP_Protocol dec e False buffsize raw = Some (Inr (acts, st)) \<longrightarrow>
      TCP_Protocol_destroy st = Inl (UB UninitRead) \<and>
      (\<forall>enc p. 9 + length (enc p) \<le> unat buffsize \<longrightarrow> proto_send enc e p True st = Inl (UB UninitRead)) \<and>
      proto_onRead dec e False True 0 st = Some (Inl (UB UninitRead)))"
proof -
  let ?st = "raw\<lparr>BUFFSIZE := buffsize, proto_input := Packet_default, inbuffer := None, outbuffer := None,
      outstate := FREE, instate := FREE\<rparr>"
  have "read_loop dec e 0 x [] = Some (Inr ([], x))" for x by (simp add: read_loop.simps)
  then have read: "proto_onRead dec e False opn 0 x = Some (if opn \<and> inbuffer x = None then Inl (UB UninitRead)
      else if opn then Inr ([AsyncRead (unat (readoffset x)) (BUFFSIZE x - readoffset x)], x) else Inr ([], x))" for opn x
    by (simp add: proto_onRead_def processReadBuffer_def)
  have "proto_send enc e p True ?st = Inl (UB UninitRead)" if "9 + length (enc p) \<le> unat buffsize" for enc p
    using that by (intro send_unset) simp_all
  then show ?thesis
    by (auto simp: TCP_Protocol_def read TCP_Protocol_destroy_def)
qed

theorem constructor_leaves_buffers_unset_witness:
  "\<exists>st. TCP_Protocol (\<lambda>_ _. None) LittleEndian False 8192 proto64 = Some (Inr ([], st)) \<and>
     proto_send (\<lambda>_. [9, 9]) LittleEndian Packet_default True st = Inl (UB UninitRead) \<and>
     TCP_Protocol_destroy st = Inl (UB UninitRead)"
  using constructor_leaves_buffers_unset [of "\<lambda>_ _. None" LittleEndian 8192 proto64] by simp

section \<open>Receiving: lemmas\<close>

text \<open>
  The states a protocol object is in between two completions: a header is awaited, and the input
  buffer has the size it was told.
\<close>

definition receiving :: "proto \<Rightarrow> bool" where
  "receiving st \<longleftrightarrow> instate st \<in> {FREE, HEADER} \<and> (\<exists>ib. inbuffer st = Some ib \<and> length ib = unat (BUFFSIZE st)) \<and>
     64 \<le> BUFFSIZE st"

lemma receivingE:
  assumes "receiving st"
  obtains ib where "inbuffer st = Some ib" "length ib = unat (BUFFSIZE st)" "64 \<le> unat (BUFFSIZE st)" "instate st = FREE \<or> instate st = HEADER"
  using assms by (auto simp: receiving_def word_le_nat_alt)

lemma length_blit_0: "length rest \<le> length ib \<Longrightarrow> length (blit ib 0 rest) = length ib"
  by simp

lemma mem_readD: "mem_read ib off n = Some bs \<Longrightarrow> length bs = n \<and> off + n \<le> length ib"
  by (auto simp: mem_read_def split: if_splits)

lemma mem_read_bound: "off + n \<le> length ib \<Longrightarrow> \<exists>bs. mem_read ib off n = Some bs \<and> length bs = n"
  by (simp add: mem_read_def)

text \<open>A payload of no bytes is all that ever follows a header.\<close>

lemma read_payload_empty:
  assumes "payloadsize st = 0" "inbuffer st = Some ib" "length ib = unat (BUFFSIZE st)"
  shows "\<exists>ib'. read_payload n st acts = Inr (n, st\<lparr>proto_input := (proto_input st)\<lparr>pk_payload := []\<rparr>,
      inbuffer := Some ib', readoffset := 0, payloadsize := 0, instate := FREE\<rparr>,
      acts @ [SubRead ((proto_input st)\<lparr>pk_payload := []\<rparr>)]) \<and> length ib' = length ib"
  using assms by (auto simp: read_payload_def mem_read_def payload_set_def Let_def)

lemma ntohl_0 [simp]: "ntohl e 0 = 0"
  by (cases e) (simp_all add: ntohl_def mem32_def be32_def)

lemma read_loop_0 [simp]: "read_loop dec e 0 st acts = Some (Inr (acts, st))"
  by (simp add: read_loop.simps)

lemma read_loop_step: "n \<noteq> 0 \<Longrightarrow> read_loop dec e n st acts = (case read_step dec e n st acts of
    Inl x \<Rightarrow> Some (Inl x) | Inr r \<Rightarrow> read_loop dec e (fst r) (fst (snd r)) (snd (snd r)))"
  by (simp add: read_loop.simps)

text \<open>Whatever follows a finished header, and whatever arrives first, is dropped.\<close>

lemma read_loop_FREE:
  assumes "instate st = FREE"
  shows "read_loop dec e n st acts =
    Some (Inr (acts, if n = 0 then st else st\<lparr>instate := HEADER, alreadyread := 0, readoffset := 0\<rparr>))"
  using assms by (simp add: read_loop_step read_step_def read_header_def)

definition body_offset :: "byte list \<Rightarrow> nat" where
  "body_offset ib = (if ib ! 0 \<noteq> 0 then 9 else 5)"

lemma read_header_outcome:
  assumes ib: "inbuffer st = Some ib" "length ib = unat (BUFFSIZE st)" "64 \<le> unat (BUFFSIZE st)"
    and ro: "\<not> readoffset st < 5" and hs: "hs = load32 e (take 4 (drop 5 ib))"
  shows "if readoffset st < of_nat (body_offset ib) + hs
     then read_header dec e n st acts = Inr (0, st\<lparr>payloadsize := 0\<rparr>, acts)
     else if length ib < body_offset ib + unat hs then read_header dec e n st acts = Inl (UB OutOfBounds)
     else case dec (take (unat hs) (drop (body_offset ib) ib)) (proto_input st) of
         None \<Rightarrow> read_header dec e n st acts = Inl (Throw (OtherException ''archive_exception''))
       | Some p \<Rightarrow> (\<exists>n' st'. read_header dec e n st acts =
           Inr (n', st', acts @ [SubRead (if ib ! 0 \<noteq> 0 then p\<lparr>pk_payload := []\<rparr> else p)]) \<and>
           receiving st' \<and> instate st' = FREE \<and> readoffset st' = 0)"
proof -
  let ?o = "body_offset ib"
  have r: "mem_read ib (Suc 0) 4 = Some (take 4 (drop 1 ib))" "mem_read ib 5 4 = Some (take 4 (drop 5 ib))"
    using ib by (simp_all add: mem_read_def)
  have B: "64 \<le> BUFFSIZE st" using ib by (simp add: word_le_nat_alt)
  have rest: "unat (BUFFSIZE st - (9 :: u32) - hs) = length ib - (9 + unat hs)" if "9 + unat hs \<le> length ib"
  proof -
    have "(9 :: u32) \<le> BUFFSIZE st" using ib(3) by (simp add: word_le_nat_alt)
    then have "unat (BUFFSIZE st - 9) = length ib - 9" using ib(2) by (simp add: unat_sub)
    moreover from this have "hs \<le> BUFFSIZE st - 9" using that by (simp add: word_le_nat_alt)
    ultimately show ?thesis using ib(2) by (simp add: unat_sub)
  qed
  have rest5: "unat (BUFFSIZE st - (5 :: u32) - hs) = length ib - (5 + unat hs)" if "5 + unat hs \<le> length ib"
  proof -
    have "(5 :: u32) \<le> BUFFSIZE st" using ib(3) by (simp add: word_le_nat_alt)
    then have "unat (BUFFSIZE st - 5) = length ib - 5" using ib(2) by (simp add: unat_sub)
    moreover from this have "hs \<le> BUFFSIZE st - 5" using that by (simp add: word_le_nat_alt)
    ultimately show ?thesis using ib(2) by (simp add: unat_sub)
  qed
  show ?thesis
  proof (cases "readoffset st < of_nat ?o + hs")
    case True
    then show ?thesis using ro
      by (auto simp: read_header_def ib(1) r Let_def body_offset_def hs [symmetric] split: if_splits)
  next
    case enough: False
    show ?thesis
    proof (cases "length ib < ?o + unat hs")
      case True
      then have "mem_read ib ?o (unat hs) = None" by (simp add: mem_read_def)
      then show ?thesis using enough True ro
        by (auto simp: read_header_def ib(1) r Let_def body_offset_def hs [symmetric] split: if_splits)
    next
      case False
      then have h: "mem_read ib ?o (unat hs) = Some (take (unat hs) (drop ?o ib))" by (simp add: mem_read_def)
      obtain more where more: "mem_read ib (?o + unat hs) (length ib - (?o + unat hs)) = Some more"
          "length more \<le> length ib"
        using False by (auto simp: mem_read_def)
      show ?thesis
      proof (cases "dec (take (unat hs) (drop ?o ib)) (proto_input st)")
        case None
        then show ?thesis using enough False ro h more rest rest5
          by (cases "ib ! 0 \<noteq> 0") (simp_all add: read_header_def ib(1) r Let_def body_offset_def hs [symmetric])
      next
        case (Some p)
        show ?thesis
        proof (cases "ib ! 0 \<noteq> 0")
          case True
          let ?st = "st\<lparr>payloadsize := 0, proto_input := p, inbuffer := Some (blit ib 0 more), readoffset := 0, instate := PAYLOAD\<rparr>"
          have "length (blit ib 0 more) = unat (BUFFSIZE ?st)" using more(2) ib(2) by simp
          from read_payload_empty [of ?st, OF _ _ this, of "n - ucast (9 + hs)" acts] obtain ib' where
            "read_payload (n - ucast (9 + hs)) ?st acts = Inr (n - ucast (9 + hs),
               st\<lparr>proto_input := p\<lparr>pk_payload := []\<rparr>, inbuffer := Some ib', readoffset := 0, payloadsize := 0, instate := FREE\<rparr>,
               acts @ [SubRead (p\<lparr>pk_payload := []\<rparr>)])" "length ib' = unat (BUFFSIZE st)"
            using more(2) ib(2) by auto
          with True enough False ro h more rest Some B show ?thesis
            by (simp add: read_header_def ib(1) r Let_def body_offset_def hs [symmetric] receiving_def)
        next
          case z: False
          then show ?thesis using enough False ro h more rest5 Some B ib(2)
            by (simp add: read_header_def ib(1) r Let_def body_offset_def hs [symmetric] receiving_def)
        qed
      qed
    qed
  qed
qed

lemma read_header_short: "readoffset st < 5 \<Longrightarrow> read_header dec e n st acts = Inr (0, st, acts)"
  by (simp add: read_header_def)

lemma header_step:
  assumes "n \<noteq> 0" "instate st = HEADER"
  shows "processReadBuffer dec e n st = (case read_header dec e n (st\<lparr>readoffset := readoffset st + ucast n\<rparr>) [] of
    Inl x \<Rightarrow> Some (Inl x) | Inr r \<Rightarrow> read_loop dec e (fst r) (fst (snd r)) (snd (snd r)))"
  using assms by (simp add: processReadBuffer_def read_loop_step read_step_def word_gt_0)

lemma receiving_update [simp]:
  "receiving (st\<lparr>readoffset := x\<rparr>) = receiving st" "receiving (st\<lparr>payloadsize := x\<rparr>) = receiving st"
  "receiving (st\<lparr>alreadyread := x\<rparr>) = receiving st"
  by (simp_all add: receiving_def)

section \<open>Receiving: properties\<close>

text \<open>
  C10: Whatever the peer sends and however it is cut into chunks, processing a chunk ends: from a
  state of the receive side the loop terminates, an archive exception or an access outside the
  buffer is the only way not to return normally, and a normal return hands at most one packet to
  the subscriber and is again a state of the receive side.
\<close>

theorem processReadBuffer_total:
  assumes "receiving st"
  shows "\<exists>r. processReadBuffer dec e n st = Some r \<and>
    (case r of
       Inr (acts, st') \<Rightarrow> receiving st' \<and> (acts = [] \<or> (\<exists>p. acts = [SubRead p]))
     | Inl x \<Rightarrow> x = UB OutOfBounds \<or> x = Throw (OtherException ''archive_exception''))"
proof (cases "n = 0")
  case True
  then show ?thesis using assms by (simp add: processReadBuffer_def)
next
  case n: False
  obtain ib where ib: "inbuffer st = Some ib" "length ib = unat (BUFFSIZE st)" "64 \<le> unat (BUFFSIZE st)"
    using assms by (rule receivingE)
  let ?st = "st\<lparr>readoffset := readoffset st + ucast n\<rparr>"
  show ?thesis
  proof (cases "instate st = FREE")
    case True
    then show ?thesis using n assms
      by (simp add: processReadBuffer_def read_loop_FREE word_gt_0 receiving_def)
  next
    case False
    then have H: "instate st = HEADER" using assms by (auto simp: receiving_def)
    show ?thesis
    proof (cases "readoffset ?st < 5")
      case True
      then show ?thesis using assms unfolding header_step [OF n H] by (simp add: read_header_short)
    next
      case False
      have "inbuffer ?st = Some ib" "length ib = unat (BUFFSIZE ?st)" "64 \<le> unat (BUFFSIZE ?st)"
        using ib by simp_all
      from read_header_outcome [OF this False refl, of e dec n "[]"]
      consider "read_header dec e n ?st [] = Inr (0, ?st\<lparr>payloadsize := 0\<rparr>, [])"
        | x where "read_header dec e n ?st [] = Inl x" "x = UB OutOfBounds \<or> x = Throw (OtherException ''archive_exception'')"
        | n' st' p where "read_header dec e n ?st [] = Inr (n', st', [SubRead p])" "receiving st'" "instate st' = FREE"
        by (force split: if_splits option.splits)
      then show ?thesis
      proof cases
        case 1
        then show ?thesis unfolding header_step [OF n H] using assms by simp
      next
        case (2 x)
        then show ?thesis unfolding header_step [OF n H] by simp
      next
        case (3 n' st' p)
        then show ?thesis unfolding header_step [OF n H]
          by (simp add: read_loop_FREE receiving_def)
      qed
    qed
  qed
qed

theorem processReadBuffer_total_witness:
  "\<exists>r. processReadBuffer (\<lambda>_ p. Some p) LittleEndian 30 proto64 = Some r \<and>
     (case r of Inr (acts, st') \<Rightarrow> receiving st' \<and> (acts = [] \<or> (\<exists>p. acts = [SubRead p]))
      | Inl x \<Rightarrow> x = UB OutOfBounds \<or> x = Throw (OtherException ''archive_exception''))"
  by (rule processReadBuffer_total) (simp add: proto64_def receiving_def)

text \<open>
  The first chunk that arrives while no packet is being received is lost: whatever its bytes
  are and however many, the object only comes to expect a header, at the start of its buffer.
\<close>

theorem first_chunk_lost:
  "n \<noteq> 0 \<Longrightarrow> instate st = FREE \<Longrightarrow>
    processReadBuffer dec e n st = Some (Inr ([], st\<lparr>instate := HEADER, alreadyread := 0, readoffset := 0\<rparr>))"
  by (simp add: processReadBuffer_def read_loop_FREE word_gt_0)

theorem first_chunk_lost_witness:
  "\<exists>st'. processReadBuffer (\<lambda>_ p. Some p) LittleEndian 30 proto64 = Some (Inr ([], st')) \<and> instate st' = HEADER"
  using first_chunk_lost [of 30 proto64 "\<lambda>_ p. Some p" LittleEndian] by (simp add: proto64_def)

text \<open>
  C11: What a chunk that completes a header does, in full: the length it uses is the four bytes
  \<^emph>\<open>after\<close> the length field, in the host's byte order, so the length the sender wrote plays no
  role; with that length the archive is read, past the end of the buffer if the sum wraps around,
  and the packet handed on has an empty payload whenever the sender announced one.
\<close>

theorem receive_outcome:
  assumes st: "receiving st" "instate st = HEADER" and n: "n \<noteq> 0"
    and ib: "inbuffer st = Some ib" and ro: "ro = readoffset st + ucast n"
    and hs: "hs = load32 e (take 4 (drop 5 ib))"
  shows "map_option (map_sum id fst) (processReadBuffer dec e n st) = Some
    (if ro < 5 \<or> ro < of_nat (body_offset ib) + hs then Inr []
     else if length ib < body_offset ib + unat hs then Inl (UB OutOfBounds)
     else case dec (take (unat hs) (drop (body_offset ib) ib)) (proto_input st) of
         None \<Rightarrow> Inl (Throw (OtherException ''archive_exception''))
       | Some p \<Rightarrow> Inr [SubRead (if ib ! 0 \<noteq> 0 then p\<lparr>pk_payload := []\<rparr> else p)])"
proof -
  let ?st = "st\<lparr>readoffset := ro\<rparr>"
  obtain ib0 where "inbuffer st = Some ib0" "length ib0 = unat (BUFFSIZE st)" "64 \<le> unat (BUFFSIZE st)"
    using st(1) by (rule receivingE)
  with ib have "inbuffer ?st = Some ib" "length ib = unat (BUFFSIZE ?st)" "64 \<le> unat (BUFFSIZE ?st)" by simp_all
  note out = read_header_outcome [OF this _ hs, of dec n "[]"]
  show ?thesis
  proof (cases "ro < 5")
    case True
    then show ?thesis unfolding header_step [OF n st(2)] ro [symmetric] by (simp add: read_header_short)
  next
    case False
    then have "\<not> readoffset ?st < 5" by simp
    from out [OF this] False show ?thesis
      unfolding header_step [OF n st(2)] ro [symmetric]
      by (auto simp: read_loop_FREE split: if_splits option.splits)
  qed
qed

theorem receive_outcome_witness:
  "map_option (map_sum id fst) (processReadBuffer (\<lambda>_ p. Some p) LittleEndian 30 (proto64\<lparr>instate := HEADER\<rparr>)) =
     Some (Inr [SubRead Packet_default])"
proof -
  have st: "receiving (proto64\<lparr>instate := HEADER\<rparr>)" "instate (proto64\<lparr>instate := HEADER\<rparr>) = HEADER" "(30 :: u64) \<noteq> 0"
      "inbuffer (proto64\<lparr>instate := HEADER\<rparr>) = Some (replicate 64 0)"
    by (simp_all add: proto64_def receiving_def)
  have hs: "load32 LittleEndian (take 4 (drop 5 (replicate 64 (0 :: byte)))) = 0"
    by (simp add: load32_def eval_nat_numeral)
  from receive_outcome [OF st refl refl, of "\<lambda>_ p. Some p" LittleEndian] show ?thesis
    unfolding hs by (simp add: proto64_def body_offset_def)
qed

text \<open>
  Nine bytes are enough for a peer to make the receiver read four gigabytes past its buffer.
\<close>

theorem peer_controls_overread:
  assumes st: "receiving st" "instate st = HEADER" "readoffset st = 0" and size: "BUFFSIZE st = 8192"
    and ib: "inbuffer st = Some (frame @ tail)" and frame: "frame = [1, x, y, z, w, 0xFF, 0xFF, 0xFF, 0xFF]"
  shows "processReadBuffer dec e 9 st = Some (Inl (UB OutOfBounds))"
proof -
  obtain ib0 where "inbuffer st = Some ib0" "length ib0 = unat (BUFFSIZE st)" "64 \<le> unat (BUFFSIZE st)"
    using st(1) by (rule receivingE)
  then have len: "length (frame @ tail) = 8192" "length (frame @ tail) = unat (BUFFSIZE st)" "64 \<le> unat (BUFFSIZE st)"
    using ib size by simp_all
  let ?st = "st\<lparr>readoffset := 9\<rparr>"
  have hs: "(0xFFFFFFFF :: u32) = load32 e (take 4 (drop 5 (frame @ tail)))"
    by (cases e) (simp_all add: frame load32_def)
  have "inbuffer ?st = Some (frame @ tail)" "length (frame @ tail) = unat (BUFFSIZE ?st)" "64 \<le> unat (BUFFSIZE ?st)" "\<not> readoffset ?st < 5"
    using ib len by simp_all
  from read_header_outcome [OF this hs, of dec 9 "[]"] len(1)
  have "read_header dec e 9 ?st [] = Inl (UB OutOfBounds)"
    by (simp add: frame body_offset_def)
  then show ?thesis by (simp add: header_step st)
qed

theorem peer_controls_overread_witness:
  "processReadBuffer (\<lambda>_ p. Some p) BigEndian 9
     (proto64\<lparr>instate := HEADER, BUFFSIZE := 8192,
        inbuffer := Some ([1, 0, 0, 0, 7, 0xFF, 0xFF, 0xFF, 0xFF] @ replicate 8183 0)\<rparr>) = Some (Inl (UB OutOfBounds))"
proof -
  let ?st = "proto64\<lparr>instate := HEADER, BUFFSIZE := 8192,
      inbuffer := Some ([1, 0, 0, 0, 7, 0xFF, 0xFF, 0xFF, 0xFF] @ replicate 8183 0)\<rparr>"
  have "receiving ?st" "instate ?st = HEADER" "readoffset ?st = 0" "BUFFSIZE ?st = 8192"
      "inbuffer ?st = Some ([1, 0, 0, 0, 7, 0xFF, 0xFF, 0xFF, 0xFF] @ replicate 8183 0)"
    by (simp_all add: proto64_def receiving_def)
  from peer_controls_overread [OF this refl] show ?thesis by simp
qed

end
