(* ===== verification/TcpSession.thy ===== *)
theory TcpSession imports GroupCore TcpProtocol begin

text \<open>
  One connection of the TCP backend (\<open>backend/tcp/session.cpp\<close>): its socket, its close handler,
  the announcement of the local nodes to the peer and the flag that is to keep announcements
  from being queued twice. The group is read through the view of \<open>GroupCore\<close>.
\<close>

section \<open>The code\<close>

text \<open>
  \<open>onclose\<close> is the registered handler (numbered), \<open>nodesyncctime\<close> the creation time of the node
  announced last (\<open>None\<close>: not a date). A session owns the protocol object of its socket.
\<close>

record session =
  sock_open :: bool
  onclose :: "nat option"
  is_syncnode_enqueued :: bool
  nodesyncctime :: "int option"
  syncpacket :: packet
  session_proto :: proto
  remotehostuuid :: uuid

text \<open>What a session asks of the outside: dispatch of handlers, and what its protocol object asks.\<close>

datatype sess_act = DispatchClose nat | DispatchSync | ProtoAct proto_act

definition TCP_Session_new :: "packet \<Rightarrow> proto \<Rightarrow> uuid \<Rightarrow> session" where
  "TCP_Session_new sp pr u = \<lparr>sock_open = False, onclose = None, is_syncnode_enqueued = False,
     nodesyncctime = None, syncpacket = sp, session_proto = pr, remotehostuuid = u\<rparr>"

definition on_close :: "nat \<Rightarrow> session \<Rightarrow> session" where
  "on_close f s = s\<lparr>onclose := Some f\<rparr>"

definition session_close :: "session \<Rightarrow> sess_act list \<times> session" where
  "session_close s =
     (if \<not> sock_open s then ([], s)
      else let s1 = s\<lparr>sock_open := False\<rparr> in
        (case onclose s1 of
           None \<Rightarrow> ([], s1)
         | Some f \<Rightarrow> ([DispatchClose f], s1\<lparr>onclose := None\<rparr>)))"

definition session_onReadError :: "session \<Rightarrow> sess_act list \<times> session" where
  "session_onReadError s = session_close s"

definition session_onSendError :: "packet \<Rightarrow> session \<Rightarrow> sess_act list \<times> session" where
  "session_onSendError p s = session_close s"

text \<open>Every branch of the \<open>switch\<close> over the packet's type is empty.\<close>

definition session_onRead :: "packet \<Rightarrow> session \<Rightarrow> session" where
  "session_onRead p s = s"

definition session_sendFinished :: "packet \<Rightarrow> session \<Rightarrow> session" where
  "session_sendFinished p s = s"

text \<open>What the protocol object asks of its subscriber, in order.\<close>

fun subscriber_acts :: "proto_act list \<Rightarrow> session \<Rightarrow> sess_act list \<times> session" where
  "subscriber_acts [] s = ([], s)"
| "subscriber_acts (a # as) s =
     (let (out, s1) = (case a of
            SubReadError \<Rightarrow> session_onReadError s
          | SubSendError p \<Rightarrow> session_onSendError p s
          | SubSendFinished p \<Rightarrow> ([], session_sendFinished p s)
          | SubRead p \<Rightarrow> ([], session_onRead p s)
          | _ \<Rightarrow> ([ProtoAct a], s));
          (out', s2) = subscriber_acts as s1
      in (out @ out', s2))"

definition session_send :: "(packet \<Rightarrow> byte list) \<Rightarrow> endian \<Rightarrow> packet \<Rightarrow> session \<Rightarrow> (sess_act list \<times> session) result" where
  "session_send enc e p s = (case proto_send enc e p (sock_open s) (session_proto s) of
     Inl x \<Rightarrow> Inl x
   | Inr (acts, pr) \<Rightarrow> Inr (subscriber_acts acts (s\<lparr>session_proto := pr\<rparr>)))"

text \<open>The rows still to be announced, as \<open>syncNodeList\<close> asks for them.\<close>

definition sync_range :: "int option \<Rightarrow> 'z gcore_scheme \<Rightarrow> localnode_row list" where
  "sync_range ct g = (case ct of
     None \<Rightarrow> dao_rangeByCreated None None g
   | Some t \<Rightarrow> (case dao_rangeByCreated (Some t) None g of
        [] \<Rightarrow> []
      | r # rs \<Rightarrow> if time_connect r = t then rs else r # rs))"

lemma sync_range_filter:
  "sync_range ct g = filter (\<lambda>r. case ct of None \<Rightarrow> True | Some t \<Rightarrow> t < time_connect r) (sort_key time_connect (localnodes g))"
proof (cases ct)
  case None
  then show ?thesis by (simp add: sync_range_def dao_rangeByCreated_def)
next
  case (Some t)
  let ?l = "filter (\<lambda>r. t < time_connect r) (sort_key time_connect (localnodes g))"
  have "time_connect (hd ?l) \<noteq> t" if "?l \<noteq> []"
    using hd_in_set [OF that] by auto
  then show ?thesis
    using Some by (cases ?l) (simp_all add: sync_range_def dao_rangeByCreated_def)
qed

lemma sync_range_shrinks:
  assumes "r \<in> set (sync_range ct g)"
  shows "length (sync_range (Some (time_connect r)) g) < length (sync_range ct g)"
proof -
  let ?L = "sort_key time_connect (localnodes g)"
  let ?P = "\<lambda>r. case ct of None \<Rightarrow> True | Some t \<Rightarrow> t < time_connect r" and ?Q = "\<lambda>x. time_connect r < time_connect x"
  have r: "r \<in> set ?L" "?P r" using assms by (auto simp: sync_range_filter)
  have "filter ?Q ?L = filter ?Q (filter ?P ?L)"
    using r(2) by (auto intro!: filter_cong split: option.splits)
  moreover have "length (filter ?Q (filter ?P ?L)) < length (filter ?P ?L)"
    using r by (intro length_filter_less [of r]) auto
  ultimately show ?thesis by (simp add: sync_range_filter)
qed

text \<open>The loop \<open>do ... while(cont)\<close>; the group does not change while it runs.\<close>

function sync_loop :: "(packet \<Rightarrow> byte list) \<Rightarrow> endian \<Rightarrow> 'z gcore_scheme \<Rightarrow> session \<Rightarrow> (sess_act list \<times> session) result" where
  "sync_loop enc e g s = (case sync_range (nodesyncctime s) g of
     [] \<Rightarrow> Inr ([], s)
   | r # rs \<Rightarrow>
       if time_disconnect r = None then
         let p = fst (Packet_type META_NODEAVAIL (Packet_new (ln_node (lr_node r)) getNilNode)) in
         (case session_send enc e p (s\<lparr>syncpacket := p\<rparr>) of
            Inl x \<Rightarrow> Inl x
          | Inr (acts, s1) \<Rightarrow> Inr (acts, s1\<lparr>nodesyncctime := Some (time_connect r)\<rparr>))
       else sync_loop enc e g (s\<lparr>nodesyncctime := Some (time_connect r)\<rparr>))"
  by pat_completeness auto
termination
proof (relation "measure (\<lambda>(enc, e, g, s). length (sync_range (nodesyncctime s) g))", goal_cases)
  case (2 enc e g s r rs)
  then show ?case using sync_range_shrinks [of r "nodesyncctime s" g] by simp
qed simp

declare sync_loop.simps [simp del]

definition syncNodeList :: "(packet \<Rightarrow> byte list) \<Rightarrow> endian \<Rightarrow> 'z gcore_scheme \<Rightarrow> session \<Rightarrow> (sess_act list \<times> session) result" where
  "syncNodeList enc e g s = sync_loop enc e g (s\<lparr>is_syncnode_enqueued := False\<rparr>)"

text \<open>
  \<open>io_service.dispatch\<close> calls the handler on the spot when the caller runs inside the service
  (\<open>inside\<close>), and queues it otherwise; the flag is set after \<open>dispatch\<close> came back.
\<close>

definition enqueueSyncNodeList :: "(packet \<Rightarrow> byte list) \<Rightarrow> endian \<Rightarrow> bool \<Rightarrow> 'z gcore_scheme \<Rightarrow> session \<Rightarrow>
    (sess_act list \<times> session) result" where
  "enqueueSyncNodeList enc e inside g s =
     (if is_syncnode_enqueued s then Inr ([], s)
      else and_then (if inside then syncNodeList enc e g s else Inr ([DispatchSync], s))
        (\<lambda>(acts, s1). Inr (acts, s1\<lparr>is_syncnode_enqueued := True\<rparr>)))"

definition session_start :: "(packet \<Rightarrow> byte list) \<Rightarrow> endian \<Rightarrow> bool \<Rightarrow> 'z gcore_scheme \<Rightarrow> session \<Rightarrow>
    (sess_act list \<times> session) result" where
  "session_start enc e inside g s = enqueueSyncNodeList enc e inside g s"

section \<open>Properties\<close>

text \<open>The ways a connection comes to be closed.\<close>

datatype close_event = EvClose | EvReadError | EvSendError packet

fun close_step :: "close_event \<Rightarrow> session \<Rightarrow> sess_act list \<times> session" where
  "close_step EvClose s = session_close s"
| "close_step EvReadError s = session_onReadError s"
| "close_step (EvSendError p) s = session_onSendError p s"

fun close_steps :: "close_event list \<Rightarrow> session \<Rightarrow> sess_act list \<times> session" where
  "close_steps [] s = ([], s)"
| "close_steps (ev # evs) s =
     (let (a, s1) = close_step ev s; (b, s2) = close_steps evs s1 in (a @ b, s2))"

lemma close_step_eq: "close_step ev s = session_close s"
  by (cases ev) (simp_all add: session_onReadError_def session_onSendError_def)

lemma close_steps_closed: "\<not> sock_open s \<Longrightarrow> close_steps evs s = ([], s)"
  by (induction evs) (simp_all add: close_step_eq session_close_def)

text \<open>
  However often and for whatever reasons a session is closed, the close handler is called
  exactly once if the socket was open and a handler was registered, and never otherwise; after
  the first close nothing changes any more.
\<close>

theorem session_closes_once:
  "close_steps (ev # evs) s =
     (if \<not> sock_open s then ([], s)
      else (case onclose s of None \<Rightarrow> [] | Some f \<Rightarrow> [DispatchClose f], s\<lparr>sock_open := False, onclose := None\<rparr>))"
proof -
  have "session_close s = (if \<not> sock_open s then ([], s)
      else (case onclose s of None \<Rightarrow> [] | Some f \<Rightarrow> [DispatchClose f], s\<lparr>sock_open := False, onclose := None\<rparr>))"
    by (cases "onclose s") (simp_all add: session_close_def Let_def)
  then show ?thesis
    by (auto simp: close_step_eq close_steps_closed split: option.split)
qed

definition avail_packet :: "localnode_row \<Rightarrow> packet" where
  "avail_packet r = fst (Packet_type META_NODEAVAIL (Packet_new (ln_node (lr_node r)) getNilNode))"

lemma subscriber_acts_time: "nodesyncctime (snd (subscriber_acts as s)) = nodesyncctime s \<and>
    syncpacket (snd (subscriber_acts as s)) = syncpacket s"
  by (induction as s rule: subscriber_acts.induct)
    (auto simp: Let_def session_onReadError_def session_onSendError_def session_close_def session_sendFinished_def
      session_onRead_def split: prod.splits proto_act.splits option.splits if_splits)

lemma session_send_frame:
  assumes "session_send enc e p s = Inr (acts, s')"
  shows "nodesyncctime s' = nodesyncctime s \<and> syncpacket s' = syncpacket s"
proof -
  obtain as pr where "proto_send enc e p (sock_open s) (session_proto s) = Inr (as, pr)"
    using assms by (cases "proto_send enc e p (sock_open s) (session_proto s)") (auto simp: session_send_def)
  with assms have "subscriber_acts as (s\<lparr>session_proto := pr\<rparr>) = (acts, s')" by (simp add: session_send_def)
  then show ?thesis using subscriber_acts_time [of as "s\<lparr>session_proto := pr\<rparr>"] by simp
qed

text \<open>
  C37: A run of \<open>syncNodeList\<close> that returns announces at most one node. Either no node created
  after the last announced one is left and nothing is sent, or the one node announced is in the
  group, is not disconnected, was created strictly later than the last announced one, becomes the
  last announced one, and is sent as a NODEAVAIL packet from it to the nil node. So of several
  nodes created at the same time only one is ever announced to a peer.
\<close>

theorem sync_announces_strictly_later:
  assumes "syncNodeList enc e g s = Inr (acts, s')"
  shows "(acts = [] \<and> sync_range (nodesyncctime s') g = [] \<and> session_proto s' = session_proto s \<and> syncpacket s' = syncpacket s) \<or>
    (\<exists>r s1. r \<in> set (localnodes g) \<and> time_disconnect r = None \<and>
       (\<forall>t. nodesyncctime s = Some t \<longrightarrow> t < time_connect r) \<and> nodesyncctime s' = Some (time_connect r) \<and>
       syncpacket s' = avail_packet r \<and> Packet_type META_MIN (syncpacket s') = (syncpacket s', META_NODEAVAIL) \<and>
       inode_eq (getSender (syncpacket s')) (ln_node (lr_node r)) \<and>
       session_send enc e (avail_packet r) s1 = Inr (acts, s'\<lparr>nodesyncctime := nodesyncctime s1\<rparr>))"
proof -
  have avail: "Packet_type META_MIN (avail_packet r) = (avail_packet r, META_NODEAVAIL)"
      "inode_eq (getSender (avail_packet r)) (ln_node (lr_node r))" for r
    by (simp_all add: avail_packet_def Packet_type_def Packet_new_def meta_defs getSender_def inode_eq_def)
  have loop: "(acts = [] \<and> sync_range (nodesyncctime s') g = [] \<and> session_proto s' = session_proto s \<and> syncpacket s' = syncpacket s) \<or>
      (\<exists>r s1. r \<in> set (localnodes g) \<and> time_disconnect r = None \<and>
         (\<forall>t. nodesyncctime s = Some t \<longrightarrow> t < time_connect r) \<and> nodesyncctime s' = Some (time_connect r) \<and>
         syncpacket s' = avail_packet r \<and> session_send enc e (avail_packet r) s1 = Inr (acts, s'\<lparr>nodesyncctime := nodesyncctime s1\<rparr>))"
    if "sync_loop enc e g s = Inr (acts, s')" for s acts s'
    using that
  proof (induction enc e g s rule: sync_loop.induct)
    case (1 enc e g s)
    show ?case
    proof (cases "sync_range (nodesyncctime s) g")
      case Nil
      then show ?thesis using "1.prems" by (simp add: sync_loop.simps [of enc e g s])
    next
      case (Cons r rs)
      have "r \<in> set (sync_range (nodesyncctime s) g)" by (simp add: Cons)
      then have r: "r \<in> set (localnodes g)" "\<forall>t. nodesyncctime s = Some t \<longrightarrow> t < time_connect r"
        by (auto simp: sync_range_filter)
      show ?thesis
      proof (cases "time_disconnect r = None")
        case True
        let ?s1 = "s\<lparr>syncpacket := avail_packet r\<rparr>"
        obtain s2 where s2: "session_send enc e (avail_packet r) ?s1 = Inr (acts, s2)" "s' = s2\<lparr>nodesyncctime := Some (time_connect r)\<rparr>"
          using "1.prems" True Cons
          by (cases "session_send enc e (avail_packet r) ?s1")
            (auto simp: sync_loop.simps [of enc e g s] Let_def avail_packet_def)
        with session_send_frame [OF s2(1)] have "s'\<lparr>nodesyncctime := nodesyncctime ?s1\<rparr> = s2" "syncpacket s' = avail_packet r" by auto
        with s2 r True show ?thesis by (intro disjI2 exI [of _ r] exI [of _ ?s1]) simp
      next
        case False
        let ?s1 = "s\<lparr>nodesyncctime := Some (time_connect r)\<rparr>"
        have "sync_loop enc e g ?s1 = Inr (acts, s')"
          using "1.prems" False Cons by (simp add: sync_loop.simps [of enc e g s])
        from "1.IH" [OF Cons False this] r(2) show ?thesis by fastforce
      qed
    qed
  qed
  from loop [OF assms [unfolded syncNodeList_def]] avail show ?thesis by fastforce
qed

lemma avail_payload: "payload (avail_packet r) = []"
  by (simp add: avail_packet_def Packet_type_def Packet_new_def Let_def payload_def)

theorem sync_announces_strictly_later_witness:
  "let g = \<lparr>localnodes = [LocalNodeRow 1 \<lparr>ln_node = getNilNode, ln_cbs = 0\<rparr> 5], backends = [], sendqueue = [],
             connectcount = 1, gname = ''chat'', io_queue = [], io_stopped = False\<rparr>;
       s = (TCP_Session_new Packet_default proto64 nil_uuid)\<lparr>sock_open := True\<rparr>
   in \<exists>acts s'. syncNodeList (\<lambda>_. [9, 9]) LittleEndian g s = Inr (acts, s') \<and> acts \<noteq> [] \<and> nodesyncctime s' = Some 5"
proof -
  let ?r = "LocalNodeRow 1 \<lparr>ln_node = getNilNode, ln_cbs = 0\<rparr> 5"
  let ?g = "\<lparr>localnodes = [?r], backends = [], sendqueue = [],
      connectcount = 1, gname = ''chat'', io_queue = [], io_stopped = False\<rparr>"
  let ?s = "(TCP_Session_new Packet_default proto64 nil_uuid)\<lparr>sock_open := True\<rparr>"
  have "length (payload (avail_packet ?r)) < 2 ^ 32" "length (wire_header (\<lambda>_. [9, 9]) (avail_packet ?r)) < unat (BUFFSIZE proto64)"
    by (simp_all add: avail_payload length_wire_header buffers_set_64)
  with send_from_rest [OF buffers_set_64(1,2) this(1), of "\<lambda>_. [9, 9]" LittleEndian] obtain bs pr where
    send: "proto_send (\<lambda>_. [9, 9]) LittleEndian (avail_packet ?r) True proto64 = Inr ([AsyncWrite bs], pr)" by auto
  have range: "sync_range None ?g = [?r]" by (simp add: sync_range_filter)
  have "\<exists>acts s'. syncNodeList (\<lambda>_. [9, 9]) LittleEndian ?g ?s = Inr (acts, s') \<and> acts \<noteq> []"
    using send range
    by (simp add: syncNodeList_def sync_loop.simps TCP_Session_new_def session_send_def avail_packet_def LocalNodeRow_def)
  then obtain acts s' where run: "syncNodeList (\<lambda>_. [9, 9]) LittleEndian ?g ?s = Inr (acts, s')" "acts \<noteq> []" by blast
  with sync_announces_strictly_later [OF run(1)] have "nodesyncctime s' = Some 5"
    by (auto simp: LocalNodeRow_def)
  with run show ?thesis by simp
qed

lemma no_sync_close: "DispatchSync \<notin> set (fst (session_close s))"
  by (simp add: session_close_def Let_def split: option.split)

lemma no_sync_subscriber: "DispatchSync \<notin> set (fst (subscriber_acts as s))"
proof (induction as arbitrary: s)
  case (Cons a as)
  then show ?case
    by (cases a) (simp_all add: Let_def case_prod_unfold session_onReadError_def session_onSendError_def no_sync_close)
qed simp

lemma no_sync_send:
  assumes "session_send enc e p s = Inr (acts, s')"
  shows "DispatchSync \<notin> set acts"
proof -
  obtain as pr where "proto_send enc e p (sock_open s) (session_proto s) = Inr (as, pr)"
    using assms by (cases "proto_send enc e p (sock_open s) (session_proto s)") (auto simp: session_send_def)
  with assms have "subscriber_acts as (s\<lparr>session_proto := pr\<rparr>) = (acts, s')" by (simp add: session_send_def)
  then show ?thesis using no_sync_subscriber [of as "s\<lparr>session_proto := pr\<rparr>"] by simp
qed

lemma no_sync_loop: "sync_loop enc e g s = Inr (acts, s') \<Longrightarrow> DispatchSync \<notin> set acts"
proof (induction enc e g s rule: sync_loop.induct)
  case (1 enc e g s)
  show ?case
  proof (cases "sync_range (nodesyncctime s) g")
    case Nil
    then show ?thesis using "1.prems" by (simp add: sync_loop.simps [of enc e g s])
  next
    case (Cons r rs)
    show ?thesis
    proof (cases "time_disconnect r = None")
      case True
      then obtain p x y where "session_send enc e p x = Inr (acts, y)"
        using "1.prems" Cons by (auto simp: sync_loop.simps [of enc e g s] Let_def split: sum.splits)
      then show ?thesis by (rule no_sync_send)
    next
      case False
      then show ?thesis using "1.prems" "1.IH" [OF Cons False] Cons
        by (simp add: sync_loop.simps [of enc e g s] del: not_None_eq)
    qed
  qed
qed

text \<open>
  A session started from inside the \<open>io_service\<close>, as the backend's completion handlers do,
  announces nodes once and never again: the handler runs on the spot, the flag that is set after
  it stays set with nothing queued, and every later request is dropped.
\<close>

theorem session_sync_flag_stuck:
  assumes "session_start enc e True g s = Inr (acts, s')" "\<not> is_syncnode_enqueued s"
  shows "DispatchSync \<notin> set acts \<and> is_syncnode_enqueued s' \<and>
    (\<forall>inside' (g' :: gcore). enqueueSyncNodeList enc e inside' g' s' = Inr ([], s'))"
proof -
  obtain s1 where "sync_loop enc e g (s\<lparr>is_syncnode_enqueued := False\<rparr>) = Inr (acts, s1)"
      "s' = s1\<lparr>is_syncnode_enqueued := True\<rparr>"
    using assms
    by (cases "sync_loop enc e g (s\<lparr>is_syncnode_enqueued := False\<rparr>)")
      (auto simp: session_start_def enqueueSyncNodeList_def syncNodeList_def and_then_def)
  then show ?thesis
    using no_sync_loop by (simp add: enqueueSyncNodeList_def)
qed

theorem session_sync_flag_stuck_witness:
  "\<exists>s'. session_start (\<lambda>_. [9, 9]) LittleEndian True
       \<lparr>localnodes = [], backends = [], sendqueue = [], connectcount = 0, gname = ''chat'', io_queue = [], io_stopped = False\<rparr>
       (TCP_Session_new Packet_default proto64 nil_uuid) = Inr ([], s') \<and>
     enqueueSyncNodeList (\<lambda>_. [9, 9]) LittleEndian False
       \<lparr>localnodes = [LocalNodeRow 1 \<lparr>ln_node = getNilNode, ln_cbs = 0\<rparr> 5], backends = [], sendqueue = [], connectcount = 1,
          gname = ''chat'', io_queue = [], io_stopped = False\<rparr> s' = Inr ([], s')"
proof -
  let ?g = "\<lparr>localnodes = [], backends = [], sendqueue = [], connectcount = 0, gname = ''chat'', io_queue = [], io_stopped = False\<rparr>"
  let ?s = "TCP_Session_new Packet_default proto64 nil_uuid"
  obtain s' where run: "session_start (\<lambda>_. [9, 9]) LittleEndian True ?g ?s = Inr ([], s')"
    by (simp add: session_start_def enqueueSyncNodeList_def TCP_Session_new_def syncNodeList_def sync_loop.simps
        sync_range_filter and_then_def)
  have "\<not> is_syncnode_enqueued ?s" by (simp add: TCP_Session_new_def)
  from session_sync_flag_stuck [OF run this] run show ?thesis by blast
qed

text \<open>
  A session whose protocol object is as its constructor leaves it cannot announce anything:
  with one connected node due and an archive that fits, the first announcement is undefined.
\<close>

theorem session_sync_undefined:
  assumes pr: "TCP_Protocol dec e False 8192 raw = Some (Inr (acts, pr))"
    and due: "sync_range None g = r # rs" "time_disconnect r = None"
    and fits: "9 + length (enc (avail_packet r)) \<le> 8192"
  shows "syncNodeList enc e g ((TCP_Session_new sp pr u)\<lparr>sock_open := opn\<rparr>) = Inl (UB UninitRead)"
proof -
  have "read_loop dec e 0 x [] = Some (Inr ([], x))" for x by simp
  then have st: "outbuffer pr = None" "outstate pr = FREE" "BUFFSIZE pr = 8192"
    using pr by (auto simp: TCP_Protocol_def proto_onRead_def processReadBuffer_def)
  have "9 + length (enc (avail_packet r)) \<le> unat (BUFFSIZE pr)" using fits st(3) by simp
  note send = send_unset [where p = "avail_packet r" and enc = enc, OF st(1,2) this, of e]
  show ?thesis
    using due by (simp add: syncNodeList_def sync_loop.simps TCP_Session_new_def session_send_def
        send [unfolded avail_packet_def] Let_def)
qed

theorem session_sync_undefined_witness:
  "\<exists>pr. TCP_Protocol (\<lambda>_ _. None) LittleEndian False 8192 proto64 = Some (Inr ([], pr)) \<and>
     syncNodeList (\<lambda>_. [9, 9]) LittleEndian
       \<lparr>localnodes = [LocalNodeRow 1 \<lparr>ln_node = getNilNode, ln_cbs = 0\<rparr> 5], backends = [], sendqueue = [], connectcount = 1,
          gname = ''chat'', io_queue = [], io_stopped = False\<rparr>
       ((TCP_Session_new Packet_default pr nil_uuid)\<lparr>sock_open := True\<rparr>) = Inl (UB UninitRead)"
proof -
  let ?r = "LocalNodeRow 1 \<lparr>ln_node = getNilNode, ln_cbs = 0\<rparr> 5"
  let ?g = "\<lparr>localnodes = [?r], backends = [], sendqueue = [], connectcount = 1,
      gname = ''chat'', io_queue = [], io_stopped = False\<rparr>"
  obtain pr where pr: "TCP_Protocol (\<lambda>_ _. None) LittleEndian False 8192 proto64 = Some (Inr ([], pr))"
    by (simp add: TCP_Protocol_def proto_onRead_def processReadBuffer_def)
  have "sync_range None ?g = [?r]" "time_disconnect ?r = None" "9 + length [9, 9 :: byte] \<le> 8192"
    by (simp_all add: sync_range_filter LocalNodeRow_def)
  from session_sync_undefined [OF pr this, where sp = Packet_default and u = nil_uuid and opn = True] pr show ?thesis by blast
qed

end
