(* ===== verification/Endpoint.thy ===== *)
theory Endpoint imports Prelude "HOL-Library.List_Lexorder" begin

text \<open>
  Addresses and endpoints of sockets as the repository's copy of Asio has them
  (\<open>external/boost/asio/ip\<close>): construction, the IPv4-mapped form the TCP backend binds, and the
  order of endpoints that decides which connection is kept. The types are instances of
  \<open>linorder\<close> by the code's own comparison.
\<close>

section \<open>The code\<close>

text \<open>
  \<open>AddressV4\<close> holds the number whose bytes in network order are \<open>s_addr\<close>. \<open>AddressV6\<close> holds the
  sixteen bytes and the scope. The fields of \<open>address\<close> that its tag does not select are never
  looked at.
\<close>

datatype address_v4 = AddressV4 (to_ulong: u32)

datatype address_v6 = AddressV6 (s6_addr: "byte list") (scope_id: u64)

datatype address = AddrV4 address_v4 | AddrV6 address_v6

datatype endpoint = Endpoint (ep_address: address) (ep_port: u16)

text \<open>The constructor from an \<open>unsigned long\<close> of 64 bits.\<close>

definition address_v4_of_ulong :: "u64 \<Rightarrow> address_v4 result" where
  "address_v4_of_ulong a =
     (if a > 0xFFFFFFFF then Inl (Throw (OtherException ''address_v4 from unsigned long''))
      else Inr (AddressV4 (ucast a)))"

definition v4_to_bytes :: "address_v4 \<Rightarrow> byte list" where
  "v4_to_bytes a = be32 (to_ulong a)"

definition v4_mapped :: "address_v4 \<Rightarrow> address_v6" where
  "v4_mapped a = AddressV6 ([0, 0, 0, 0, 0, 0, 0, 0, 0, 0, 0xFF, 0xFF] @ v4_to_bytes a) 0"

fun memcmp :: "byte list \<Rightarrow> byte list \<Rightarrow> int" where
  "memcmp (x # xs) (y # ys) = (if x < y then -1 else if y < x then 1 else memcmp xs ys)"
| "memcmp [] [] = 0"
| "memcmp [] (_ # _) = -1"
| "memcmp (_ # _) [] = 1"

definition v6_less :: "address_v6 \<Rightarrow> address_v6 \<Rightarrow> bool" where
  "v6_less a b =
     (let r = memcmp (s6_addr a) (s6_addr b) in
      if r < 0 then True else if r > 0 then False else scope_id a < scope_id b)"

definition v4_less :: "address_v4 \<Rightarrow> address_v4 \<Rightarrow> bool" where
  "v4_less a b \<longleftrightarrow> to_ulong a < to_ulong b"

text \<open>The enumerators are \<open>ipv4 < ipv6\<close>.\<close>

fun address_less :: "address \<Rightarrow> address \<Rightarrow> bool" where
  "address_less (AddrV4 _) (AddrV6 _) = True"
| "address_less (AddrV6 _) (AddrV4 _) = False"
| "address_less (AddrV6 a) (AddrV6 b) = v6_less a b"
| "address_less (AddrV4 a) (AddrV4 b) = v4_less a b"

definition endpoint_less :: "endpoint \<Rightarrow> endpoint \<Rightarrow> bool" where
  "endpoint_less a b =
     (if address_less (ep_address a) (ep_address b) then True
      else if ep_address a \<noteq> ep_address b then False
      else ep_port a < ep_port b)"

section \<open>The comparisons are linear orders\<close>

lemma memcmp_less: "memcmp xs ys < 0 \<longleftrightarrow> xs < ys"
  by (induction xs ys rule: memcmp.induct) (auto simp: Cons_less_Cons)

lemma memcmp_greater: "memcmp xs ys > 0 \<longleftrightarrow> ys < xs"
  by (induction xs ys rule: memcmp.induct) (auto simp: Cons_less_Cons)

lemma v6_less_iff: "v6_less a b \<longleftrightarrow> s6_addr a < s6_addr b \<or> s6_addr a = s6_addr b \<and> scope_id a < scope_id b"
  by (auto simp: v6_less_def Let_def memcmp_less memcmp_greater)

instantiation address_v4 :: linorder
begin

definition less_address_v4 :: "address_v4 \<Rightarrow> address_v4 \<Rightarrow> bool" where
  "a < b \<longleftrightarrow> v4_less a b"

definition less_eq_address_v4 :: "address_v4 \<Rightarrow> address_v4 \<Rightarrow> bool" where
  "a \<le> b \<longleftrightarrow> v4_less a b \<or> a = b" for a b :: address_v4

instance
  by standard (auto simp: less_address_v4_def less_eq_address_v4_def v4_less_def intro: address_v4.expand)

end

instantiation address_v6 :: linorder
begin

definition less_address_v6 :: "address_v6 \<Rightarrow> address_v6 \<Rightarrow> bool" where
  "a < b \<longleftrightarrow> v6_less a b"

definition less_eq_address_v6 :: "address_v6 \<Rightarrow> address_v6 \<Rightarrow> bool" where
  "a \<le> b \<longleftrightarrow> v6_less a b \<or> a = b" for a b :: address_v6

instance
  by standard (auto simp: less_address_v6_def less_eq_address_v6_def v6_less_iff intro: address_v6.expand)

end

instantiation address :: linorder
begin

definition less_address :: "address \<Rightarrow> address \<Rightarrow> bool" where
  "a < b \<longleftrightarrow> address_less a b"

definition less_eq_address :: "address \<Rightarrow> address \<Rightarrow> bool" where
  "a \<le> b \<longleftrightarrow> address_less a b \<or> a = b" for a b :: address

instance
proof
  note defs = less_address_def less_eq_address_def
    less_address_v4_def [symmetric] less_address_v6_def [symmetric]
  fix x y z :: address
  show "x < y \<longleftrightarrow> x \<le> y \<and> \<not> y \<le> x" by (cases x; cases y) (auto simp: defs)
  show "x \<le> x" by (simp add: defs)
  show "x \<le> y \<Longrightarrow> y \<le> z \<Longrightarrow> x \<le> z" by (cases x; cases y; cases z) (auto simp: defs)
  show "x \<le> y \<Longrightarrow> y \<le> x \<Longrightarrow> x = y" by (cases x; cases y) (auto simp: defs)
  show "x \<le> y \<or> y \<le> x" by (cases x; cases y) (auto simp: defs)
qed

end

lemma endpoint_less_iff:
  "endpoint_less a b \<longleftrightarrow> ep_address a < ep_address b \<or> ep_address a = ep_address b \<and> ep_port a < ep_port b"
  by (auto simp: endpoint_less_def less_address_def [symmetric])

instantiation endpoint :: linorder
begin

definition less_endpoint :: "endpoint \<Rightarrow> endpoint \<Rightarrow> bool" where
  "a < b \<longleftrightarrow> endpoint_less a b"

definition less_eq_endpoint :: "endpoint \<Rightarrow> endpoint \<Rightarrow> bool" where
  "a \<le> b \<longleftrightarrow> endpoint_less a b \<or> a = b" for a b :: endpoint

instance
  by standard (auto simp: less_endpoint_def less_eq_endpoint_def endpoint_less_iff intro: endpoint.expand)

end

lemma endpoint_less_total: "a \<noteq> b \<Longrightarrow> endpoint_less a b \<longleftrightarrow> \<not> endpoint_less b a"
  by (metis less_endpoint_def less_asym' linorder_neqE)

section \<open>Mapped addresses\<close>

lemma be32_inject: "be32 a = be32 b \<longleftrightarrow> a = b"
  by (metis from_be32_be32)

lemma v4_mapped_inject: "v4_mapped a = v4_mapped b \<longleftrightarrow> a = b"
  by (auto simp: v4_mapped_def v4_to_bytes_def be32_inject intro: address_v4.expand)

lemma v4_before_mapped: "AddrV4 a < AddrV6 (v4_mapped b)"
  by (simp add: less_address_def)

end
