(* ===== verification/TcpBackend.thy ===== *)
theory TcpBackend imports TcpSession Endpoint begin

text \<open>
  The TCP backend (\<open>backend/tcp.hpp\<close>, \<open>backend/tcp.cpp\<close>): the listening sockets, discovery by
  multicast heartbeats, the exchange of host uuids on a new connection and the set of kept
  sessions. Its \<open>io_service\<close> is its own: an asynchronous operation that was started is in
  \<open>ops\<close> until a completion takes it out, and handlers that wait to run are in \<open>tasks\<close>.
\<close>

section \<open>State\<close>

datatype family = V4 | V6

text \<open>\<open>udp::type()\<close> is the socket type, which is \<open>SOCK_DGRAM\<close> for both families.\<close>

definition udp_type :: "family \<Rightarrow> int" where
  "udp_type f = 2"

record multicast_packet =
  mc_hostuuid :: uuid
  mc_ip_port :: int

text \<open>A session object with what the operating system says of its socket while it is connected.\<close>

record conn =
  cn_session :: session
  cn_remote :: "endpoint option"
  cn_local :: "endpoint option"

text \<open>
  Asynchronous operations, with the session they are for: accept on a listening socket, connect,
  the exchange of uuids, a write of the protocol, receive and send of datagrams, the timer.
\<close>

datatype tcp_op =
    OpAccept family nat
  | OpConnect nat endpoint
  | OpWriteUuid nat "byte list"
  | OpReadUuid nat
  | OpWrite nat "byte list"
  | OpReceive family
  | OpSendTo family "byte list"
  | OpWait

text \<open>Handlers queued by \<open>dispatch\<close> from outside the service.\<close>

datatype tcp_task = TSync nat | TLocalClose | TBind

record tcp =
  conns :: "conn list"
  sessions :: "nat list"
  ops :: "tcp_op list"
  tasks :: "tcp_task list"
  sender_v4 :: endpoint
  sender_v6 :: endpoint
  acceptor_v4 :: "endpoint option"
  acceptor_v6 :: "endpoint option"
  local_v4 :: "nat option"
  heartbeat :: "int option"
  listen_port :: u16
  multicast_port :: u16
  initialized :: bool
  service_stopped :: bool
  attempts :: nat

text \<open>
  Outside the code: what the calls of one \<open>bind_or_connect\<close> answer, the calls of \<open>Worker\<close> that
  fail, the archive, the memory sessions are built in, the tree of the session index, the clock.
\<close>

record bind_answer =
  bind4_ok :: bool
  connect_ok :: bool
  bind6_ok :: bool
  own_end :: endpoint

datatype setup_call = SendOpen family | ReadOpen family | ReadReuse family | ReadBind family | ReadJoin family

record tenv =
  te_core :: core
  te_group :: gcore
  te_endian :: endian
  te_enc :: "packet \<Rightarrow> byte list"
  te_dec :: "byte list \<Rightarrow> packet \<Rightarrow> packet option"
  te_mc_enc :: "multicast_packet \<Rightarrow> byte list"
  te_mc_dec :: "byte list \<Rightarrow> multicast_packet option"
  te_raw :: "nat \<Rightarrow> proto \<times> uuid"
  te_visited :: "nat list \<Rightarrow> nat list"
  te_bind :: "nat \<Rightarrow> bind_answer"
  te_fails :: "setup_call \<Rightarrow> bool"
  te_now :: int

type_synonym tcp_run = "(unit result \<times> tcp) option"

definition ok :: "tcp \<Rightarrow> tcp_run" where
  "ok t = Some (Inr (), t)"

definition fail :: "stop \<Rightarrow> tcp \<Rightarrow> tcp_run" where
  "fail e t = Some (Inl e, t)"

text \<open>The statement \<open>r; f\<close>.\<close>

definition seq :: "tcp_run \<Rightarrow> (tcp \<Rightarrow> tcp_run) \<Rightarrow> tcp_run" where
  "seq r f = Option.bind r (\<lambda>(res, t). case res of Inl e \<Rightarrow> fail e t | Inr _ \<Rightarrow> f t)"

definition start_op :: "tcp_op \<Rightarrow> tcp \<Rightarrow> tcp" where
  "start_op a t = t\<lparr>ops := ops t @ [a]\<rparr>"

definition TCP_new :: "endpoint \<Rightarrow> tcp" where
  "TCP_new none = \<lparr>conns = [], sessions = [], ops = [], tasks = [], sender_v4 = none, sender_v6 = none,
     acceptor_v4 = None, acceptor_v6 = None, local_v4 = None, heartbeat = None, listen_port = 8000,
     multicast_port = 8000, initialized = False, service_stopped = False, attempts = 0\<rparr>"

section \<open>Session objects\<close>

text \<open>
  \<open>new TCP_Session\<close>. The protocol object is built while the socket is closed, so its constructor
  reads nothing and starts nothing.
\<close>

definition new_session :: "tenv \<Rightarrow> tcp \<Rightarrow> nat \<times> tcp" where
  "new_session env t =
     (let k = length (conns t);
          (raw, u) = te_raw env k;
          pr = (case TCP_Protocol (te_dec env) (te_endian env) False 8192 raw of
                  Some (Inr (_, pr)) \<Rightarrow> pr | _ \<Rightarrow> raw)
      in (k, t\<lparr>conns := conns t @ [\<lparr>cn_session = TCP_Session_new Packet_default pr u, cn_remote = None, cn_local = None\<rparr>]\<rparr>))"

definition upd_conn :: "nat \<Rightarrow> (conn \<Rightarrow> conn) \<Rightarrow> tcp \<Rightarrow> tcp" where
  "upd_conn k f t = t\<lparr>conns := (conns t)[k := f (conns t ! k)]\<rparr>"

definition set_session :: "nat \<Rightarrow> session \<Rightarrow> tcp \<Rightarrow> tcp" where
  "set_session k s t = upd_conn k (\<lambda>c. c\<lparr>cn_session := s\<rparr>) t"

definition sess :: "tcp \<Rightarrow> nat \<Rightarrow> session" where
  "sess t k = cn_session (conns t ! k)"

text \<open>The operating system connects the socket of a session.\<close>

definition connected :: "nat \<Rightarrow> endpoint \<Rightarrow> endpoint \<Rightarrow> tcp \<Rightarrow> tcp" where
  "connected k r l t = upd_conn k (\<lambda>c. c\<lparr>cn_session := (cn_session c)\<lparr>sock_open := True\<rparr>, cn_remote := Some r, cn_local := Some l\<rparr>) t"

definition remote_endpoint :: "conn \<Rightarrow> endpoint result" where
  "remote_endpoint c = (if \<not> sock_open (cn_session c) then Inl (Throw (OtherException ''Bad file descriptor''))
     else case cn_remote c of None \<Rightarrow> Inl (Throw (OtherException ''Transport endpoint is not connected'')) | Some r \<Rightarrow> Inr r)"

definition local_endpoint :: "conn \<Rightarrow> endpoint result" where
  "local_endpoint c = (if \<not> sock_open (cn_session c) then Inl (Throw (OtherException ''Bad file descriptor''))
     else case cn_local c of None \<Rightarrow> Inl (Throw (OtherException ''Transport endpoint is not connected'')) | Some l \<Rightarrow> Inr l)"

section \<open>The set of sessions\<close>

text \<open>Unique by \<open>remotehostuuid\<close>, a member of the objects the set points to.\<close>

definition conn_uuid :: "conn list \<Rightarrow> nat \<Rightarrow> uuid" where
  "conn_uuid cs k = remotehostuuid (cn_session (cs ! k))"

definition session_clash :: "conn list \<Rightarrow> nat \<Rightarrow> nat \<Rightarrow> bool" where
  "session_clash cs i j \<longleftrightarrow> conn_uuid cs i = conn_uuid cs j"

interpretation by_host: unique_index "conn_uuid cs" "session_clash cs" "session_clash cs" for cs
  by unfold_locales (auto simp: session_clash_def)

definition find_session :: "uuid \<Rightarrow> tcp \<Rightarrow> nat option" where
  "find_session u t = mi_find (conn_uuid (conns t)) u (sessions t)"

text \<open>
  The indexes by endpoint call \<open>remote_endpoint\<close> and \<open>local_endpoint\<close> of the members the search
  visits, which throw when a member's socket is closed; the set is then unchanged.
\<close>

definition insert_session :: "tenv \<Rightarrow> nat \<Rightarrow> tcp \<Rightarrow> tcp_run" where
  "insert_session env k t =
     (case List.find (\<lambda>i. \<not> sock_open (sess t i)) (te_visited env (sessions t)) of
        Some i \<Rightarrow> fail (Throw (OtherException ''Bad file descriptor'')) t
      | None \<Rightarrow> ok (t\<lparr>sessions := mi_insert (session_clash (conns t)) k (sessions t)\<rparr>))"

section \<open>Accepting and connecting\<close>

definition start_accept :: "tenv \<Rightarrow> family \<Rightarrow> tcp \<Rightarrow> tcp" where
  "start_accept env f t = (let (k, t1) = new_session env t in start_op (OpAccept f k) t1)"

definition handle_socket_init :: "tenv \<Rightarrow> family option \<Rightarrow> nat \<Rightarrow> bool \<Rightarrow> tcp \<Rightarrow> tcp" where
  "handle_socket_init env acceptor k error t =
     (let t1 = (if \<not> error
                then start_op (OpReadUuid k) (start_op (OpWriteUuid k (getHostUUID_core (te_core env))) t)
                else t)
      in case acceptor of None \<Rightarrow> t1 | Some f \<Rightarrow> start_accept env f t1)"

definition localhost :: address_v4 where
  "localhost = AddressV4 0x7F000001"

text \<open>The first half of \<open>bind_or_connect\<close>; the flag is \<open>reenqueue\<close>.\<close>

definition bind_v4 :: "tenv \<Rightarrow> bind_answer \<Rightarrow> tcp \<Rightarrow> bool \<times> tcp" where
  "bind_v4 env ans t =
     (if acceptor_v4 t = None \<and> local_v4 t = None then
        let localep = Endpoint (AddrV4 localhost) (listen_port t) in
        if bind4_ok ans then (False, start_accept env V4 (t\<lparr>acceptor_v4 := Some localep\<rparr>))
        else let (k, t1) = new_session env t; t2 = t1\<lparr>local_v4 := Some k\<rparr> in
          if connect_ok ans then
            let t3 = connected k localep (own_end ans) t2;
                t4 = set_session k (on_close 0 (sess t3 k)) t3
            in (False, handle_socket_init env None k False t4)
          else (True, t2\<lparr>local_v4 := None\<rparr>)
      else (False, t))"

definition bind_v6 :: "tenv \<Rightarrow> bind_answer \<Rightarrow> tcp \<Rightarrow> bool \<times> tcp" where
  "bind_v6 env ans t =
     (if acceptor_v4 t \<noteq> None \<and> acceptor_v6 t = None then
        if bind6_ok ans
        then (False, start_accept env V6 (t\<lparr>acceptor_v6 := Some (Endpoint (AddrV6 (v4_mapped localhost)) (listen_port t))\<rparr>))
        else (True, t)
      else (False, t))"

definition bind_attempt :: "tenv \<Rightarrow> tcp \<Rightarrow> bool \<times> tcp" where
  "bind_attempt env t =
     (let ans = te_bind env (attempts t);
          (re4, t1) = bind_v4 env ans (t\<lparr>attempts := attempts t + 1\<rparr>);
          (re6, t2) = bind_v6 env ans t1
      in (re4 \<or> re6, t2))"

text \<open>\<open>inside\<close>: called by a handler of the service, where \<open>dispatch\<close> is a plain call.\<close>

partial_function (option) bind_or_connect :: "tenv \<Rightarrow> bool \<Rightarrow> tcp \<Rightarrow> tcp_run" where
  "bind_or_connect env inside t =
     (case bind_attempt env t of (reenqueue, t1) \<Rightarrow>
        if \<not> reenqueue then ok t1
        else if inside then bind_or_connect env inside t1
        else ok (t1\<lparr>tasks := tasks t1 @ [TBind]\<rparr>))"

declare bind_or_connect.simps [code]

definition on_local_close :: "tenv \<Rightarrow> bool \<Rightarrow> tcp \<Rightarrow> tcp_run" where
  "on_local_close env inside t = bind_or_connect env inside (t\<lparr>local_v4 := None\<rparr>)"

text \<open>What a session asked for.\<close>

fun sess_act :: "tenv \<Rightarrow> bool \<Rightarrow> nat \<Rightarrow> sess_act \<Rightarrow> tcp \<Rightarrow> tcp_run" where
  "sess_act env inside k (DispatchClose f) t =
     (if inside then on_local_close env inside t else ok (t\<lparr>tasks := tasks t @ [TLocalClose]\<rparr>))"
| "sess_act env inside k DispatchSync t = ok (t\<lparr>tasks := tasks t @ [TSync k]\<rparr>)"
| "sess_act env inside k (ProtoAct (AsyncWrite bs)) t = ok (start_op (OpWrite k bs) t)"
| "sess_act env inside k (ProtoAct a) t = ok t"

fun sess_acts :: "tenv \<Rightarrow> bool \<Rightarrow> nat \<Rightarrow> sess_act list \<Rightarrow> tcp \<Rightarrow> tcp_run" where
  "sess_acts env inside k [] t = ok t"
| "sess_acts env inside k (a # as) t = seq (sess_act env inside k a t) (sess_acts env inside k as)"

text \<open>An operation of a session and what it asked for.\<close>

definition with_session :: "tenv \<Rightarrow> bool \<Rightarrow> nat \<Rightarrow> (session \<Rightarrow> (sess_act list \<times> session) result) \<Rightarrow> tcp \<Rightarrow> tcp_run" where
  "with_session env inside k f t = (case f (sess t k) of
     Inl e \<Rightarrow> fail e t
   | Inr (acts, s) \<Rightarrow> sess_acts env inside k acts (set_session k s t))"

definition close_conn :: "tenv \<Rightarrow> bool \<Rightarrow> nat \<Rightarrow> tcp \<Rightarrow> tcp_run" where
  "close_conn env inside k t = with_session env inside k (\<lambda>s. Inr (session_close s)) t"

section \<open>The exchange of host uuids\<close>

definition uuid_write_finished :: "tenv \<Rightarrow> bool \<Rightarrow> nat \<Rightarrow> nat \<Rightarrow> tcp \<Rightarrow> tcp_run" where
  "uuid_write_finished env error n k t =
     (if \<not> error \<and> n = 16 then ok t else close_conn env True k t)"

definition uuid_read_finished :: "tenv \<Rightarrow> bool \<Rightarrow> nat \<Rightarrow> nat \<Rightarrow> tcp \<Rightarrow> tcp_run" where
  "uuid_read_finished env error n k t =
     (if \<not> error \<and> n = 16 then
        if find_session (conn_uuid (conns t) k) t = None then
          (case (remote_endpoint (conns t ! k), local_endpoint (conns t ! k)) of
             (Inr r, Inr l) \<Rightarrow>
               if endpoint_less r l
               then seq (insert_session env k t)
                 (with_session env True k (session_start (te_enc env) (te_endian env) True (te_group env)))
               else close_conn env True k t
           | (Inl e, _) \<Rightarrow> fail e t
           | (_, Inl e) \<Rightarrow> fail e t)
        else close_conn env True k t
      else close_conn env True k t)"

section \<open>Discovery\<close>

text \<open>
  \<open>handle_receive_from\<close>; \<open>bs\<close> are the received bytes. An exception of the archive leaves before
  the next receive is started.
\<close>

definition handle_receive_from :: "tenv \<Rightarrow> bool \<Rightarrow> byte list \<Rightarrow> int \<Rightarrow> tcp \<Rightarrow> tcp_run" where
  "handle_receive_from env error bs ty t =
     seq (if \<not> error \<and> length bs > 0 then
            (case te_mc_dec env bs of
               None \<Rightarrow> fail (Throw (OtherException ''archive_exception'')) t
             | Some p \<Rightarrow>
                 if getHostUUID_core (te_core env) \<noteq> mc_hostuuid p \<and> find_session (mc_hostuuid p) t = None then
                   let ep = (if ty = udp_type V4
                             then Endpoint (ep_address (sender_v4 t)) (of_int (mc_ip_port p))
                             else Endpoint (ep_address (sender_v6 t)) (of_int (mc_ip_port p)));
                       (k, t1) = new_session env t
                   in ok (start_op (OpConnect k ep) t1)
                 else ok t)
          else ok t)
       (\<lambda>t. if ty = udp_type V4 then ok (start_op (OpReceive V4) t) else ok (start_op (OpReceive V6) t))"

definition multicastHeartbeat :: "tenv \<Rightarrow> tcp \<Rightarrow> tcp_run" where
  "multicastHeartbeat env t =
     (case acceptor_v4 t of
        None \<Rightarrow> fail (UB EmptyPointer) t
      | Some ep4 \<Rightarrow>
          let p4 = \<lparr>mc_hostuuid = getHostUUID_core (te_core env), mc_ip_port = uint (ep_port ep4)\<rparr>;
              t1 = start_op (OpSendTo V4 (te_mc_enc env p4)) t
          in case acceptor_v6 t1 of
               None \<Rightarrow> fail (UB EmptyPointer) t1
             | Some ep6 \<Rightarrow>
                 let p6 = \<lparr>mc_hostuuid = getHostUUID_core (te_core env), mc_ip_port = uint (ep_port ep6)\<rparr>;
                     t2 = start_op (OpSendTo V6 (te_mc_enc env p6)) t1
                 in case heartbeat t2 of
                      None \<Rightarrow> fail (UB EmptyPointer) t2
                    | Some x \<Rightarrow> ok (start_op OpWait (t2\<lparr>heartbeat := Some (x + 60)\<rparr>)))"

section \<open>The backend's operations\<close>

definition TCP_OnLocalNodeAvailable :: "tenv \<Rightarrow> localnode \<Rightarrow> tcp \<Rightarrow> tcp_run" where
  "TCP_OnLocalNodeAvailable env n t =
     foldl (\<lambda>r k. seq r (with_session env False k (enqueueSyncNodeList (te_enc env) (te_endian env) False (te_group env))))
       (ok t) (sort_key (\<lambda>k. the (cn_remote (conns t ! k))) (sessions t))"

definition TCP_OnLocalNodeUnavailable :: "localnode \<Rightarrow> tcp \<Rightarrow> tcp" where
  "TCP_OnLocalNodeUnavailable n t = t"

definition TCP_OnLocalNodeWritesToGroup :: "packet \<Rightarrow> tcp \<Rightarrow> tcp" where
  "TCP_OnLocalNodeWritesToGroup p t = t"

definition noop :: "bool \<Rightarrow> tcp \<Rightarrow> tcp" where
  "noop error t = t"

text \<open>The sockets of one family, in the order of the calls, and the first receive.\<close>

fun setup_calls :: "tenv \<Rightarrow> setup_call list \<Rightarrow> tcp \<Rightarrow> tcp_run" where
  "setup_calls env [] t = ok t"
| "setup_calls env (c # cs) t =
     (if te_fails env c then fail (Throw (OtherException ''system_error'')) t else setup_calls env cs t)"

definition setup_reader :: "tenv \<Rightarrow> family \<Rightarrow> tcp \<Rightarrow> tcp_run" where
  "setup_reader env f t =
     seq (setup_calls env [ReadOpen f, ReadReuse f, ReadBind f, ReadJoin f] t)
       (handle_receive_from env False [] (udp_type f))"

definition worker_init :: "tenv \<Rightarrow> tcp \<Rightarrow> tcp_run" where
  "worker_init env t =
     seq (seq (seq (seq (setup_calls env [SendOpen V4, SendOpen V6] t)
       (setup_reader env V4))
       (setup_reader env V6))
       (bind_or_connect env False))
       (\<lambda>t. ok (start_op OpWait (t\<lparr>initialized := True, heartbeat := Some (te_now env + (0 - 1))\<rparr>)))"

section \<open>The service\<close>

text \<open>
  What can be ready: a queued handler, or the completion of an operation, with what the operating
  system answers (\<open>None\<close>: an error).
\<close>

datatype tcp_event =
    EvTask
  | EvAccept family nat "(endpoint \<times> endpoint) option"
  | EvConnect nat endpoint "(endpoint \<times> endpoint) option"
  | EvUuidWritten nat "byte list" bool nat
  | EvUuidRead nat bool "byte list"
  | EvWritten nat "byte list" bool nat
  | EvDatagram family bool "byte list" endpoint
  | EvSent family "byte list" bool
  | EvTimer

fun event_op :: "tcp_event \<Rightarrow> tcp_op option" where
  "event_op EvTask = None"
| "event_op (EvAccept f k r) = Some (OpAccept f k)"
| "event_op (EvConnect k ep r) = Some (OpConnect k ep)"
| "event_op (EvUuidWritten k bs e n) = Some (OpWriteUuid k bs)"
| "event_op (EvUuidRead k e bs) = Some (OpReadUuid k)"
| "event_op (EvWritten k bs e n) = Some (OpWrite k bs)"
| "event_op (EvDatagram f e bs from) = Some (OpReceive f)"
| "event_op (EvSent f bs e) = Some (OpSendTo f bs)"
| "event_op EvTimer = Some OpWait"

fun run_task :: "tenv \<Rightarrow> tcp_task \<Rightarrow> tcp \<Rightarrow> tcp_run" where
  "run_task env (TSync k) t = with_session env True k (syncNodeList (te_enc env) (te_endian env) (te_group env)) t"
| "run_task env TLocalClose t = on_local_close env True t"
| "run_task env TBind t = bind_or_connect env True t"

definition connect_ends :: "nat \<Rightarrow> (endpoint \<times> endpoint) option \<Rightarrow> tcp \<Rightarrow> tcp" where
  "connect_ends k ends t = (case ends of None \<Rightarrow> t | Some (r, l) \<Rightarrow> connected k r l t)"

text \<open>
  The handler bound to each completion. A datagram's sender is stored in the endpoint that the
  receive was given, and the sixteen bytes of a uuid in the session object; both receives were
  bound with the type of the family they were started for, which is the same number.
\<close>

fun handle_event :: "tenv \<Rightarrow> tcp_event \<Rightarrow> tcp \<Rightarrow> tcp_run" where
  "handle_event env EvTask t =
     (case tasks t of [] \<Rightarrow> ok t | k # ks \<Rightarrow> run_task env k (t\<lparr>tasks := ks\<rparr>))"
| "handle_event env (EvAccept f k ends) t = ok (handle_socket_init env (Some f) k (ends = None) (connect_ends k ends t))"
| "handle_event env (EvConnect k ep ends) t = ok (handle_socket_init env None k (ends = None) (connect_ends k ends t))"
| "handle_event env (EvUuidWritten k bs e n) t = uuid_write_finished env e n k t"
| "handle_event env (EvUuidRead k e bs) t =
     uuid_read_finished env e (length bs) k
       (set_session k ((sess t k)\<lparr>remotehostuuid := bs @ drop (length bs) (remotehostuuid (sess t k))\<rparr>) t)"
| "handle_event env (EvWritten k bs e n) t =
     with_session env True k (\<lambda>s.
       and_then (onSend (te_enc env) (te_endian env) (syncpacket s) e (sock_open s) n (session_proto s))
         (\<lambda>(acts, pr). Inr (subscriber_acts acts (s\<lparr>session_proto := pr\<rparr>)))) t"
| "handle_event env (EvDatagram f e bs from) t =
     handle_receive_from env e bs (udp_type f)
       (case f of V4 \<Rightarrow> t\<lparr>sender_v4 := from\<rparr> | V6 \<Rightarrow> t\<lparr>sender_v6 := from\<rparr>)"
| "handle_event env (EvSent f bs e) t = ok (noop e t)"
| "handle_event env EvTimer t = multicastHeartbeat env t"

text \<open>A completion comes only for an operation that is outstanding.\<close>

definition run_event :: "tenv \<Rightarrow> tcp_event \<Rightarrow> tcp \<Rightarrow> tcp_run" where
  "run_event env ev t = (case event_op ev of
     None \<Rightarrow> handle_event env ev t
   | Some a \<Rightarrow> if a \<in> set (ops t) then handle_event env ev (t\<lparr>ops := remove1 a (ops t)\<rparr>) else ok t)"

text \<open>\<open>io_service::poll\<close>: \<open>evs\<close> is the order in which the ready handlers run.\<close>

fun poll :: "tenv \<Rightarrow> tcp_event list \<Rightarrow> tcp \<Rightarrow> tcp_run" where
  "poll env [] t = ok t"
| "poll env (ev # evs) t = seq (run_event env ev t) (poll env evs)"

definition TCP_Worker :: "tenv \<Rightarrow> tcp_event list \<Rightarrow> tcp \<Rightarrow> tcp_run" where
  "TCP_Worker env evs t =
     seq (if \<not> initialized t then worker_init env t else ok t)
       (\<lambda>t. poll env evs (if service_stopped t then t\<lparr>service_stopped := False\<rparr> else t))"

end
