(* ===== verification/TcpPeers.thy ===== *)
theory TcpPeers imports TcpBackend begin

text \<open>
  What the TCP backend keeps and where it goes wrong: the invariant of its sessions over every
  order of completions, the rule which end keeps a connection, discovery, and the listening sockets.
\<close>

section \<open>Running\<close>

definition ends_with :: "(tcp \<Rightarrow> bool) \<Rightarrow> tcp_run \<Rightarrow> bool" where
  "ends_with P r \<longleftrightarrow> (\<forall>res t. r = Some (res, t) \<longrightarrow> P t)"

named_theorems run_intros

lemma ends_ok [simp]: "ends_with P (ok t) \<longleftrightarrow> P t"
  by (simp add: ends_with_def ok_def)

lemma ends_fail [simp]: "ends_with P (fail e t) \<longleftrightarrow> P t"
  by (simp add: ends_with_def fail_def)

lemma ends_None [simp]: "ends_with P None"
  by (simp add: ends_with_def)

lemma ends_seq [run_intros]:
  assumes "ends_with P r" "\<And>t. P t \<Longrightarrow> ends_with Q (f t)" "\<And>t. P t \<Longrightarrow> Q t"
  shows "ends_with Q (seq r f)"
  using assms by (auto simp: ends_with_def seq_def fail_def split: sum.splits bind_splits prod.splits)

lemma ends_mono: "ends_with P r \<Longrightarrow> (\<And>t. P t \<Longrightarrow> Q t) \<Longrightarrow> ends_with Q r"
  by (auto simp: ends_with_def)

lemma seq_ok [simp]: "seq (ok t) f = f t"
  by (simp add: seq_def ok_def)

lemma seq_fail [simp]: "seq (fail e t) f = fail e t"
  by (simp add: seq_def fail_def)

lemma seq_None [simp]: "seq None f = None"
  by (simp add: seq_def)

lemma stopped_reset [simp]: "(if service_stopped t then t\<lparr>service_stopped := False\<rparr> else t) = t\<lparr>service_stopped := False\<rparr>"
  by (cases t) simp

lemma seq_returns: "seq r f = Some (Inr (), t) \<longleftrightarrow> (\<exists>u. r = Some (Inr (), u) \<and> f u = Some (Inr (), t))"
  by (cases r) (auto simp: seq_def fail_def split: sum.splits)

lemma returns_iff [simp]: "ok t = Some (Inr (), u) \<longleftrightarrow> u = t" "fail e t \<noteq> Some (Inr (), u)"
  by (auto simp: ok_def fail_def)

lemma bind_or_connect_ends:
  assumes step: "\<And>t. P t \<Longrightarrow> P (snd (bind_attempt env t))"
    and queue: "\<And>t. P t \<Longrightarrow> P (t\<lparr>tasks := tasks t @ [TBind]\<rparr>)"
    and "P t"
  shows "ends_with P (bind_or_connect env inside t)"
proof -
  have "P t \<Longrightarrow> P (snd y)" if "bind_or_connect env inside t = Some y" for y
    using that step queue
  proof (induction env inside t y rule: bind_or_connect.raw_induct [rotated, consumes 1, case_names step])
    case (step rec e i t y)
    note IH = step(1) and body = step(2) and P = step(3) and keep = step(4) and queue = step(5)
    obtain re t1 where at: "bind_attempt e t = (re, t1)" by (cases "bind_attempt e t")
    have P1: "P t1" using keep [OF P] at by simp
    show ?case
    proof (cases "re \<and> i")
      case True
      then have "rec e i t1 = Some y" using body at by simp
      from IH [OF this P1] keep queue show ?thesis by blast
    next
      case False
      then show ?thesis using body at P1 queue [OF P1] by (auto simp: ok_def split: if_splits)
    qed
  qed
  then show ?thesis using assms(3) by (fastforce simp: ends_with_def)
qed

section \<open>What sessions can do to the backend\<close>

text \<open>
  A predicate that survives what a session can ask for (a write, queued handlers, the loss of the
  local connection with the new attempt to bind) and changes of the session itself other than of
  the peer's uuid survives every operation of a session.
\<close>

locale session_safe =
  fixes env :: tenv and P :: "tcp \<Rightarrow> bool"
  assumes P_bind: "P t \<Longrightarrow> P (snd (bind_attempt env t))"
    and P_tasks: "P t \<Longrightarrow> P (t\<lparr>tasks := ks\<rparr>)"
    and P_local: "P t \<Longrightarrow> P (t\<lparr>local_v4 := None\<rparr>)"
    and P_write: "P t \<Longrightarrow> P (start_op (OpWrite k bs) t)"
    and P_session: "P t \<Longrightarrow> remotehostuuid s = remotehostuuid (sess t k) \<Longrightarrow> P (set_session k s t)"
begin

lemma P_bind_or_connect: "P t \<Longrightarrow> ends_with P (bind_or_connect env inside t)"
  by (rule bind_or_connect_ends) (auto intro: P_bind P_tasks)

lemma P_sess_act: "P t \<Longrightarrow> ends_with P (sess_act env inside k a t)"
proof (cases a)
  case (ProtoAct x)
  then show "P t \<Longrightarrow> ?thesis" by (cases x) (simp_all add: P_write)
qed (auto simp: on_local_close_def P_tasks P_local intro: P_bind_or_connect)

lemma P_sess_acts: "P t \<Longrightarrow> ends_with P (sess_acts env inside k as t)"
proof (induction as arbitrary: t)
  case (Cons a as)
  then show ?case by (auto intro!: ends_seq P_sess_act)
qed simp

lemma P_with_session:
  assumes "P t" and "\<And>s acts s'. f s = Inr (acts, s') \<Longrightarrow> remotehostuuid s' = remotehostuuid s"
  shows "ends_with P (with_session env inside k f t)"
proof (cases "f (sess t k)")
  case (Inr r)
  then show ?thesis
    using assms by (cases r) (auto simp: with_session_def intro!: P_sess_acts P_session)
qed (simp add: with_session_def assms(1))

end

lemma uuid_subscriber_acts: "remotehostuuid (snd (subscriber_acts as s)) = remotehostuuid s"
  by (induction as s rule: subscriber_acts.induct)
    (auto simp: Let_def session_onReadError_def session_onSendError_def session_close_def session_sendFinished_def
      session_onRead_def split: prod.splits proto_act.splits option.splits if_splits)

lemma uuid_session_close: "remotehostuuid (snd (session_close s)) = remotehostuuid s"
  by (simp add: session_close_def Let_def split: option.split)

lemma uuid_session_send:
  assumes "session_send enc e p s = Inr (acts, s')"
  shows "remotehostuuid s' = remotehostuuid s"
proof -
  obtain as pr where "proto_send enc e p (sock_open s) (session_proto s) = Inr (as, pr)"
    using assms by (cases "proto_send enc e p (sock_open s) (session_proto s)") (auto simp: session_send_def)
  with assms have "subscriber_acts as (s\<lparr>session_proto := pr\<rparr>) = (acts, s')" by (simp add: session_send_def)
  then show ?thesis using uuid_subscriber_acts [of as "s\<lparr>session_proto := pr\<rparr>"] by simp
qed

lemma uuid_sync_loop: "sync_loop enc e g s = Inr (acts, s') \<Longrightarrow> remotehostuuid s' = remotehostuuid s"
proof (induction enc e g s rule: sync_loop.induct)
  case (1 enc e g s)
  show ?case
  proof (cases "sync_range (nodesyncctime s) g")
    case Nil
    then show ?thesis using "1.prems" by (simp add: sync_loop.simps [of enc e g s])
  next
    case (Cons r rs)
    let ?p = "fst (Packet_type META_NODEAVAIL (Packet_new (ln_node (lr_node r)) getNilNode))"
    show ?thesis
    proof (cases "time_disconnect r = None")
      case True
      then obtain s1 where "session_send enc e ?p (s\<lparr>syncpacket := ?p\<rparr>) = Inr (acts, s1)"
          "s' = s1\<lparr>nodesyncctime := Some (time_connect r)\<rparr>"
        using "1.prems" Cons
        by (cases "session_send enc e ?p (s\<lparr>syncpacket := ?p\<rparr>)") (auto simp: sync_loop.simps [of enc e g s] Let_def)
      then show ?thesis using uuid_session_send by fastforce
    next
      case False
      then show ?thesis using "1.prems" "1.IH" [OF Cons False] Cons
        by (simp add: sync_loop.simps [of enc e g s] del: not_None_eq)
    qed
  qed
qed

lemma uuid_syncNodeList: "syncNodeList enc e g s = Inr (acts, s') \<Longrightarrow> remotehostuuid s' = remotehostuuid s"
  using uuid_sync_loop by (fastforce simp: syncNodeList_def)

lemma uuid_enqueue:
  assumes "enqueueSyncNodeList enc e i g s = Inr (acts, s')"
  shows "remotehostuuid s' = remotehostuuid s"
  using assms uuid_syncNodeList
  by (cases "syncNodeList enc e g s") (fastforce simp: enqueueSyncNodeList_def and_then_def split: if_splits)+

lemma uuid_start: "session_start enc e i g s = Inr (acts, s') \<Longrightarrow> remotehostuuid s' = remotehostuuid s"
  by (simp add: session_start_def uuid_enqueue)

lemmas uuid_kept = uuid_session_close uuid_syncNodeList uuid_enqueue uuid_start

context session_safe begin

lemma P_close: "P t \<Longrightarrow> ends_with P (close_conn env inside k t)"
  unfolding close_conn_def by (rule P_with_session) (auto simp: uuid_session_close dest!: arg_cong [where f = snd] intro: sym)

lemma P_start: "P t \<Longrightarrow> ends_with P (with_session env True k (session_start enc e True g) t)"
  by (rule P_with_session) (auto dest: uuid_start)

lemma P_available: "P t \<Longrightarrow> ends_with P (TCP_OnLocalNodeAvailable env n t)"
proof -
  have "ends_with P r \<Longrightarrow> ends_with P (foldl (\<lambda>r k. seq r (with_session env False k
      (enqueueSyncNodeList (te_enc env) (te_endian env) False (te_group env)))) r ks)" for r ks
    by (induction ks arbitrary: r) (auto intro!: ends_seq P_with_session uuid_enqueue)
  then show "P t \<Longrightarrow> ?thesis" by (simp add: TCP_OnLocalNodeAvailable_def)
qed

lemma P_task: "P t \<Longrightarrow> ends_with P (run_task env k t)"
  by (cases k) (auto simp: on_local_close_def P_local intro!: P_with_session P_bind_or_connect uuid_syncNodeList)

lemma P_written:
  "P t \<Longrightarrow> ends_with P (with_session env True k (\<lambda>s. and_then (onSend enc e (syncpacket s) err (sock_open s) n (session_proto s))
      (\<lambda>(acts, pr). Inr (subscriber_acts acts (s\<lparr>session_proto := pr\<rparr>)))) t)"
proof (rule P_with_session)
  fix s acts s'
  assume "and_then (onSend enc e (syncpacket s) err (sock_open s) n (session_proto s))
      (\<lambda>(acts, pr). Inr (subscriber_acts acts (s\<lparr>session_proto := pr\<rparr>))) = Inr (acts, s')"
  then obtain as pr where "subscriber_acts as (s\<lparr>session_proto := pr\<rparr>) = (acts, s')"
    by (auto simp: and_then_def split: sum.splits prod.splits)
  then show "remotehostuuid s' = remotehostuuid s"
    using uuid_subscriber_acts [of as "s\<lparr>session_proto := pr\<rparr>"] by simp
qed

end

section \<open>The invariant\<close>

text \<open>The session an accept, a connect or the read of a uuid is for.\<close>

fun setup_of :: "tcp_op \<Rightarrow> nat option" where
  "setup_of (OpAccept f k) = Some k"
| "setup_of (OpConnect k ep) = Some k"
| "setup_of (OpReadUuid k) = Some k"
| "setup_of _ = None"

definition setups :: "tcp \<Rightarrow> nat list" where
  "setups t = List.map_filter setup_of (ops t)"

text \<open>
  Kept sessions are objects that exist, differ in the peer's uuid and were connected from a higher
  to a lower endpoint; no session that is being set up is kept, and none is set up twice.
\<close>

definition tcp_inv :: "tcp \<Rightarrow> bool" where
  "tcp_inv t \<longleftrightarrow> mi_unique (session_clash (conns t)) (sessions t) \<and>
     (\<forall>k \<in> set (sessions t). k < length (conns t) \<and>
        (\<exists>r l. cn_remote (conns t ! k) = Some r \<and> cn_local (conns t ! k) = Some l \<and> endpoint_less r l)) \<and>
     distinct (setups t) \<and> (\<forall>k \<in> set (setups t). k < length (conns t) \<and> k \<notin> set (sessions t))"

text \<open>Kept sessions stay in the set, with their peer and their endpoints.\<close>

definition tcp_keeps :: "tcp \<Rightarrow> tcp \<Rightarrow> bool" where
  "tcp_keeps t0 t \<longleftrightarrow> (\<exists>ks. sessions t = sessions t0 @ ks) \<and>
     (\<forall>k \<in> set (sessions t0). k < length (conns t) \<and> conn_uuid (conns t) k = conn_uuid (conns t0) k \<and>
        cn_remote (conns t ! k) = cn_remote (conns t0 ! k) \<and> cn_local (conns t ! k) = cn_local (conns t0 ! k))"

definition good :: "tcp \<Rightarrow> tcp \<Rightarrow> bool" where
  "good t0 t \<longleftrightarrow> tcp_inv t \<and> tcp_keeps t0 t"

lemma good_refl: "tcp_inv t \<Longrightarrow> good t t"
  by (simp add: good_def tcp_keeps_def tcp_inv_def)

lemma setups_append [simp]: "setups (t\<lparr>ops := ops t @ as\<rparr>) = setups t @ List.map_filter setup_of as"
  by (simp add: setups_def List.map_filter_def)

lemma upd_nth: "xs[k := y] ! j = (if j = k \<and> k < length xs then y else xs ! j)"
  by (cases "k < length xs") (simp_all add: nth_list_update list_update_beyond)

lemma mi_unique_cong:
  "mi_unique c xs \<Longrightarrow> (\<And>x y. x \<in> set xs \<Longrightarrow> y \<in> set xs \<Longrightarrow> c' x y \<longleftrightarrow> c x y) \<Longrightarrow> mi_unique c' xs"
  unfolding mi_unique_def by (rule sorted_wrt_mono_rel) auto

text \<open>Changes that leave the set and the operations alone and, of the kept sessions' objects, what matters.\<close>

lemma good_frame:
  assumes "good t0 t" "sessions t' = sessions t" "setups t' = setups t" "length (conns t) \<le> length (conns t')"
    and "\<And>k. k \<in> set (sessions t) \<Longrightarrow> conn_uuid (conns t') k = conn_uuid (conns t) k \<and>
        cn_remote (conns t' ! k) = cn_remote (conns t ! k) \<and> cn_local (conns t' ! k) = cn_local (conns t ! k)"
  shows "good t0 t'"
proof -
  have inv: "tcp_inv t" and keep: "tcp_keeps t0 t" using assms(1) by (simp_all add: good_def)
  have kept: "k \<in> set (sessions t)" if "k \<in> set (sessions t0)" for k using keep that by (auto simp: tcp_keeps_def)
  have lt: "k < length (conns t')" if "k \<in> set (sessions t) \<union> set (setups t)" for k
    using inv that assms(4) by (auto simp: tcp_inv_def intro: less_le_trans)
  have "mi_unique (session_clash (conns t')) (sessions t)"
    using inv by (auto simp: tcp_inv_def session_clash_def assms(5) intro: mi_unique_cong)
  then have "tcp_inv t'"
    using inv lt by (simp add: tcp_inv_def assms(2,3,5))
  moreover have "tcp_keeps t0 t'"
    using keep lt kept by (simp add: tcp_keeps_def assms(2,5))
  ultimately show ?thesis by (simp add: good_def)
qed

lemma good_new_session:
  assumes "good t0 t"
  shows "good t0 (snd (new_session env t))" "fst (new_session env t) = length (conns t)"
    "fst (new_session env t) \<notin> set (setups (snd (new_session env t))) \<union> set (sessions (snd (new_session env t)))"
    "fst (new_session env t) < length (conns (snd (new_session env t)))"
proof -
  let ?t = "snd (new_session env t)"
  obtain c where c: "?t = t\<lparr>conns := conns t @ [c]\<rparr>" "fst (new_session env t) = length (conns t)"
    by (simp add: new_session_def Let_def case_prod_unfold)
  have lt: "k < length (conns t)" if "k \<in> set (sessions t) \<union> set (setups t)" for k
    using assms that by (auto simp: good_def tcp_inv_def)
  show "good t0 ?t"
    by (rule good_frame [OF assms]) (use c lt in \<open>auto simp: setups_def conn_uuid_def nth_append\<close>)
  show "fst (new_session env t) = length (conns t)" by (rule c(2))
  have "setups ?t = setups t" "sessions ?t = sessions t" using c by (simp_all add: setups_def)
  then show "fst (new_session env t) \<notin> set (setups ?t) \<union> set (sessions ?t)"
    using lt c(2) by auto
  show "fst (new_session env t) < length (conns ?t)" using c by simp
qed

lemma good_start_op:
  assumes "good t0 t"
    and "\<And>k. setup_of a = Some k \<Longrightarrow> k < length (conns t) \<and> k \<notin> set (setups t) \<and> k \<notin> set (sessions t)"
  shows "good t0 (start_op a t)"
  using assms by (cases "setup_of a")
    (auto simp: good_def tcp_inv_def tcp_keeps_def start_op_def List.map_filter_simps)

lemma good_set_session:
  "good t0 t \<Longrightarrow> remotehostuuid s = remotehostuuid (sess t k) \<Longrightarrow> good t0 (set_session k s t)"
  by (rule good_frame) (auto simp: set_session_def upd_conn_def setups_def conn_uuid_def sess_def upd_nth)

lemma good_fields:
  assumes "good t0 t" "conns t' = conns t" "sessions t' = sessions t" "ops t' = ops t"
  shows "good t0 t'"
  using assms(1) by (rule good_frame) (simp_all add: assms setups_def)

lemma good_start_accept: "good t0 t \<Longrightarrow> good t0 (start_accept env f t)"
  using good_new_session [of t0 t env] by (auto simp: start_accept_def case_prod_unfold intro!: good_start_op)

lemma setups_conns [simp]: "setups (t\<lparr>conns := cs\<rparr>) = setups t"
  by (simp add: setups_def)

text \<open>A session in none of the lists may change as it likes.\<close>

lemma good_upd_fresh: "good t0 t \<Longrightarrow> k \<notin> set (sessions t) \<Longrightarrow> good t0 (upd_conn k f t)"
  by (rule good_frame) (auto simp: upd_conn_def conn_uuid_def upd_nth)

lemma fresh_upd [simp]:
  "setups (upd_conn k f t) = setups t" "sessions (upd_conn k f t) = sessions t"
  "length (conns (upd_conn k f t)) = length (conns t)"
  by (simp_all add: upd_conn_def)

lemma good_handle_socket_init:
  assumes "good t0 t" "k < length (conns t)" "k \<notin> set (setups t)" "k \<notin> set (sessions t)"
  shows "good t0 (handle_socket_init env acceptor k error t)"
proof -
  have "good t0 (start_op (OpReadUuid k) (start_op (OpWriteUuid k u) t))" for u
    using assms by (intro good_start_op) (auto simp: start_op_def List.map_filter_simps)
  with assms(1) show ?thesis
    by (auto simp: handle_socket_init_def Let_def split: option.split intro!: good_start_accept)
qed

lemma good_bind_v4: "good t0 t \<Longrightarrow> good t0 (snd (bind_v4 env ans t))"
proof -
  assume t: "good t0 t"
  let ?k = "fst (new_session env t)" and ?t1 = "snd (new_session env t)"
  note new = good_new_session [OF t, of env]
  have acc: "good t0 (start_accept env V4 (t\<lparr>acceptor_v4 := x\<rparr>))" for x
    by (rule good_start_accept) (rule good_fields [OF t], simp_all)
  have loc: "good t0 (?t1\<lparr>local_v4 := x\<rparr>)" for x
    by (rule good_fields [OF new(1)]) simp_all
  have fresh: "?k < length (conns (?t1\<lparr>local_v4 := x\<rparr>))" "?k \<notin> set (setups (?t1\<lparr>local_v4 := x\<rparr>))"
      "?k \<notin> set (sessions (?t1\<lparr>local_v4 := x\<rparr>))" for x
    using new(3,4) by (simp_all add: setups_def)
  have "good t0 (handle_socket_init env None ?k False
      (set_session ?k s (connected ?k r l (?t1\<lparr>local_v4 := x\<rparr>))))" for s r l x
    using fresh [of x] by (intro good_handle_socket_init)
      (auto simp: set_session_def connected_def intro!: good_upd_fresh loc)
  then show ?thesis
    using t acc loc by (simp add: bind_v4_def Let_def case_prod_unfold)
qed

lemma good_bind_v6: "good t0 t \<Longrightarrow> good t0 (snd (bind_v6 env ans t))"
proof -
  assume t: "good t0 t"
  have "good t0 (start_accept env V6 (t\<lparr>acceptor_v6 := x\<rparr>))" for x
    by (rule good_start_accept) (rule good_fields [OF t], simp_all)
  with t show ?thesis by (simp add: bind_v6_def)
qed

lemma good_bind_attempt: "good t0 t \<Longrightarrow> good t0 (snd (bind_attempt env t))"
proof -
  assume t: "good t0 t"
  have "good t0 (t\<lparr>attempts := n\<rparr>)" for n by (rule good_fields [OF t]) simp_all
  then show ?thesis
    by (simp add: bind_attempt_def Let_def case_prod_unfold good_bind_v6 good_bind_v4)
qed

interpretation kept: session_safe env "good t0" for env t0
proof
  fix t ks k bs s
  assume t: "good t0 t"
  show "good t0 (snd (bind_attempt env t))" by (rule good_bind_attempt [OF t])
  show "good t0 (t\<lparr>tasks := ks\<rparr>)" by (rule good_fields [OF t]) simp_all
  show "good t0 (t\<lparr>local_v4 := None\<rparr>)" by (rule good_fields [OF t]) simp_all
  show "good t0 (start_op (OpWrite k bs) t)" by (rule good_start_op [OF t]) simp
  show "remotehostuuid s = remotehostuuid (sess t k) \<Longrightarrow> good t0 (set_session k s t)"
    by (rule good_set_session [OF t])
qed

lemma map_filter_remove1:
  assumes "f a = Some k" "a \<in> set xs" "distinct (List.map_filter f xs)"
  shows "List.map_filter f (remove1 a xs) = remove1 k (List.map_filter f xs)"
  using assms
proof (induction xs)
  case (Cons x xs)
  show ?case
  proof (cases "x = a")
    case False
    then have "a \<in> set xs" using Cons.prems by simp
    then have k: "k \<in> set (List.map_filter f xs)" using Cons.prems(1) by (force simp: List.map_filter_def)
    show ?thesis
      using Cons False k by (cases "f x") (auto simp: List.map_filter_simps)
  qed (use Cons in \<open>simp add: List.map_filter_simps\<close>)
qed simp

lemma map_filter_remove1_None: "f a = None \<Longrightarrow> List.map_filter f (remove1 a xs) = List.map_filter f xs"
  by (induction xs) (auto simp: List.map_filter_simps split: option.split)

lemma good_remove_op:
  assumes "good t0 t" "a \<in> set (ops t)"
  shows "good t0 (t\<lparr>ops := remove1 a (ops t)\<rparr>)"
    and "setup_of a = Some k \<Longrightarrow> k < length (conns t) \<and> k \<notin> set (setups (t\<lparr>ops := remove1 a (ops t)\<rparr>)) \<and> k \<notin> set (sessions t)"
proof -
  have inv: "tcp_inv t" using assms(1) by (simp add: good_def)
  have eq: "setups (t\<lparr>ops := remove1 a (ops t)\<rparr>) = (case setup_of a of None \<Rightarrow> setups t | Some k \<Rightarrow> remove1 k (setups t))"
    using assms(2) inv
    by (auto simp: setups_def tcp_inv_def map_filter_remove1 map_filter_remove1_None split: option.split)
  have sub: "set (setups (t\<lparr>ops := remove1 a (ops t)\<rparr>)) \<subseteq> set (setups t)"
    using set_remove1_subset by (fastforce simp: eq split: option.splits)
  have "distinct (setups (t\<lparr>ops := remove1 a (ops t)\<rparr>))"
    using inv by (auto simp: eq tcp_inv_def split: option.split)
  then have "tcp_inv (t\<lparr>ops := remove1 a (ops t)\<rparr>)"
    using inv sub by (auto simp: tcp_inv_def)
  then show "good t0 (t\<lparr>ops := remove1 a (ops t)\<rparr>)"
    using assms(1) by (simp add: good_def tcp_keeps_def)
  show "k < length (conns t) \<and> k \<notin> set (setups (t\<lparr>ops := remove1 a (ops t)\<rparr>)) \<and> k \<notin> set (sessions t)"
    if "setup_of a = Some k"
  proof -
    have "k \<in> set (setups t)" using assms(2) that by (force simp: setups_def List.map_filter_def)
    then show ?thesis using inv that by (simp add: eq tcp_inv_def)
  qed
qed

lemma good_insert_session:
  assumes t: "good t0 t" and k: "k < length (conns t)" "k \<notin> set (setups t)" "k \<notin> set (sessions t)"
    and new: "find_session (conn_uuid (conns t) k) t = None"
    and ends: "cn_remote (conns t ! k) = Some r" "cn_local (conns t ! k) = Some l" "endpoint_less r l"
  shows "ends_with (good t0) (insert_session env k t)"
proof -
  have uniq: "mi_unique (session_clash (conns t)) (sessions t)" using t by (simp add: good_def tcp_inv_def)
  have no: "\<not> session_clash (conns t) x k" if "x \<in> set (sessions t)" for x
    using new that by_host.find_None_iff [OF uniq, of "conn_uuid (conns t) k"]
    by (simp add: find_session_def session_clash_def)
  then have ins: "mi_insert (session_clash (conns t)) k (sessions t) = sessions t @ [k]"
    by (auto simp: mi_insert_def list_ex_iff dest: by_host.clash_sym)
  have "tcp_inv (t\<lparr>sessions := sessions t @ [k]\<rparr>)"
    using t k ends no by (auto simp: good_def tcp_inv_def setups_def)
  then have "good t0 (t\<lparr>sessions := sessions t @ [k]\<rparr>)"
    using t by (auto simp: good_def tcp_keeps_def)
  then show ?thesis
    using t by (auto simp: insert_session_def ins split: option.split)
qed

lemma endpoint_results:
  "remote_endpoint c = Inr r \<longleftrightarrow> sock_open (cn_session c) \<and> cn_remote c = Some r"
  "local_endpoint c = Inr r \<longleftrightarrow> sock_open (cn_session c) \<and> cn_local c = Some r"
  by (auto simp: remote_endpoint_def local_endpoint_def split: option.split)

lemma good_uuid_read_finished:
  assumes t: "good t0 t" and k: "k < length (conns t)" "k \<notin> set (setups t)" "k \<notin> set (sessions t)"
  shows "ends_with (good t0) (uuid_read_finished env error n k t)"
proof (cases "\<not> error \<and> n = 16 \<and> find_session (conn_uuid (conns t) k) t = None")
  case True
  show ?thesis
  proof (cases "remote_endpoint (conns t ! k)")
    case (Inr r)
    show ?thesis
    proof (cases "local_endpoint (conns t ! k)")
      case inr: (Inr l)
      show ?thesis
      proof (cases "endpoint_less r l")
        case less: True
        have "ends_with (good t0) (insert_session env k t)"
          using t k True Inr inr less by (intro good_insert_session) (auto simp: endpoint_results)
        then show ?thesis
          using True Inr inr less by (auto simp: uuid_read_finished_def intro!: ends_seq kept.P_start)
      next
        case False
        then show ?thesis using True Inr inr t by (simp add: uuid_read_finished_def kept.P_close)
      qed
    qed (use True Inr t in \<open>simp add: uuid_read_finished_def\<close>)
  qed (use True t in \<open>simp add: uuid_read_finished_def split: sum.split\<close>)
next
  case False
  then show ?thesis using t by (auto simp: uuid_read_finished_def intro!: kept.P_close)
qed

lemma good_handle_receive_from:
  assumes t: "good t0 t"
  shows "ends_with (good t0) (handle_receive_from env error bs ty t)"
proof -
  note new = good_new_session [OF t, of env]
  have conn: "good t0 (start_op (OpConnect (fst (new_session env t)) ep) (snd (new_session env t)))" for ep
    using new by (intro good_start_op) auto
  have rcv: "good t0 (start_op (OpReceive f) t)" if "good t0 t" for t f
    using that by (rule good_start_op) simp
  show ?thesis
    unfolding handle_receive_from_def
    by (rule ends_seq [where P = "good t0"])
      (use t conn in \<open>auto simp: Let_def case_prod_unfold intro: rcv split: option.split\<close>)
qed

lemma good_multicastHeartbeat: "good t0 t \<Longrightarrow> ends_with (good t0) (multicastHeartbeat env t)"
proof -
  assume t: "good t0 t"
  have s4: "good t0 (start_op (OpSendTo V4 x) t)" for x by (rule good_start_op [OF t]) simp
  have s6: "good t0 (start_op (OpSendTo V6 y) (start_op (OpSendTo V4 x) t))" for x y
    by (rule good_start_op [OF s4]) simp
  have w: "good t0 (start_op OpWait ((start_op (OpSendTo V6 y) (start_op (OpSendTo V4 x) t))\<lparr>heartbeat := h\<rparr>))" for x y h
    by (rule good_start_op) (rule good_fields [OF s6], simp_all)
  show ?thesis
    using t s4 s6 w by (auto simp: multicastHeartbeat_def Let_def split: option.split)
qed

lemma good_connect_ends:
  assumes "good t0 t" "k < length (conns t)" "k \<notin> set (setups t)" "k \<notin> set (sessions t)"
  shows "good t0 (handle_socket_init env acceptor k error (connect_ends k ends t))"
proof -
  have "good t0 (connect_ends k ends t)" "k < length (conns (connect_ends k ends t))"
      "k \<notin> set (setups (connect_ends k ends t))" "k \<notin> set (sessions (connect_ends k ends t))"
    using assms by (auto simp: connect_ends_def connected_def intro!: good_upd_fresh split: option.split prod.split)
  then show ?thesis by (rule good_handle_socket_init)
qed

lemma good_handle_event:
  assumes t: "good t0 t"
    and fresh: "\<And>a k. event_op ev = Some a \<Longrightarrow> setup_of a = Some k \<Longrightarrow>
       k < length (conns t) \<and> k \<notin> set (setups t) \<and> k \<notin> set (sessions t)"
  shows "ends_with (good t0) (handle_event env ev t)"
proof (cases ev)
  case EvTask
  have "good t0 (t\<lparr>tasks := ks\<rparr>)" for ks by (rule good_fields [OF t]) simp_all
  then show ?thesis using EvTask t by (auto split: list.split intro: kept.P_task)
next
  case (EvAccept f k ends)
  then show ?thesis using fresh t by (auto intro!: good_connect_ends)
next
  case (EvConnect k ep ends)
  then show ?thesis using fresh t by (auto intro!: good_connect_ends)
next
  case (EvUuidWritten k bs e n)
  then show ?thesis using t by (simp add: uuid_write_finished_def kept.P_close)
next
  case (EvUuidRead k e bs)
  with fresh have k: "k < length (conns t)" "k \<notin> set (setups t)" "k \<notin> set (sessions t)" by auto
  have "good t0 (set_session k s t)" for s using t k by (simp add: set_session_def good_upd_fresh)
  then show ?thesis using EvUuidRead k by (auto simp: set_session_def intro!: good_uuid_read_finished)
next
  case (EvWritten k bs e n)
  then show ?thesis using t by (simp add: kept.P_written)
next
  case (EvDatagram f e bs ep)
  have "good t0 (t\<lparr>sender_v4 := x\<rparr>)" "good t0 (t\<lparr>sender_v6 := x\<rparr>)" for x
    by (rule good_fields [OF t]; simp)+
  then show ?thesis using EvDatagram by (cases f) (auto intro!: good_handle_receive_from)
qed (use t in \<open>simp_all add: noop_def good_multicastHeartbeat\<close>)

lemma good_run_event: "good t0 t \<Longrightarrow> ends_with (good t0) (run_event env ev t)"
proof (cases "event_op ev")
  case (Some a)
  assume t: "good t0 t"
  show ?thesis
  proof (cases "a \<in> set (ops t)")
    case True
    then show ?thesis
      using good_remove_op [OF t True] Some by (auto simp: run_event_def intro!: good_handle_event)
  qed (simp add: run_event_def Some t)
qed (auto simp: run_event_def intro: good_handle_event)

lemma good_poll: "good t0 t \<Longrightarrow> ends_with (good t0) (poll env evs t)"
  by (induction evs arbitrary: t) (auto intro!: ends_seq good_run_event)

lemma good_setup_calls: "good t0 t \<Longrightarrow> ends_with (good t0) (setup_calls env cs t)"
  by (induction cs) auto

lemma good_worker_init: "good t0 t \<Longrightarrow> ends_with (good t0) (worker_init env t)"
proof -
  assume t: "good t0 t"
  have w: "good t0 (start_op OpWait (t\<lparr>initialized := True, heartbeat := h\<rparr>))" if "good t0 t" for t h
    by (rule good_start_op) (rule good_fields [OF that], simp_all)
  show ?thesis
    unfolding worker_init_def setup_reader_def
    by (intro ends_seq [where P = "good t0" and Q = "good t0"])
      (auto intro: t w good_setup_calls good_handle_receive_from kept.P_bind_or_connect)
qed

lemma good_Worker: "good t0 t \<Longrightarrow> ends_with (good t0) (TCP_Worker env evs t)"
proof -
  assume t: "good t0 t"
  have "good t0 (t\<lparr>service_stopped := False\<rparr>)" if "good t0 t" for t by (rule good_fields [OF that]) simp_all
  then show ?thesis
    unfolding TCP_Worker_def
    by (intro ends_seq [where P = "good t0" and Q = "good t0"]) (auto intro: t good_worker_init good_poll)
qed

section \<open>Histories of the backend\<close>

inductive tcp_steps :: "tcp \<Rightarrow> tcp \<Rightarrow> bool" where
  start: "tcp_steps t t"
| worker: "tcp_steps t0 t \<Longrightarrow> TCP_Worker env evs t = Some (res, t') \<Longrightarrow> tcp_steps t0 t'"
| available: "tcp_steps t0 t \<Longrightarrow> TCP_OnLocalNodeAvailable env n t = Some (res, t') \<Longrightarrow> tcp_steps t0 t'"

inductive_cases tcp_stepsE: "tcp_steps t0 t"

lemma steps_preserve:
  assumes "tcp_steps t0 t" "P t0" "\<And>env. session_safe env P"
    and "\<And>env evs t. P t \<Longrightarrow> ends_with P (TCP_Worker env evs t)"
  shows "P t"
  using assms(1,2)
proof (induction rule: tcp_steps.induct)
  case (worker t0 t env evs res t')
  then show ?case using assms(4) by (fastforce simp: ends_with_def)
next
  case (available t0 t env n res t')
  then show ?case using session_safe.P_available [OF assms(3)] by (fastforce simp: ends_with_def)
qed

lemma good_steps: "tcp_steps t0 t \<Longrightarrow> tcp_inv t0 \<Longrightarrow> good t0 t"
  by (rule steps_preserve [where P = "good t0"]) (auto intro: good_refl good_Worker kept.session_safe_axioms)

lemma inv_new: "tcp_inv (TCP_new none)"
  by (simp add: tcp_inv_def TCP_new_def setups_def List.map_filter_simps)

lemma distinct_map_wrt: "sorted_wrt (\<lambda>x y. f x \<noteq> f y) xs \<Longrightarrow> distinct (map f xs)"
  by (induction xs) auto

section \<open>Properties\<close>

text \<open>
  C28: On every history of the backend, whatever order the operating system completes operations
  in, the kept sessions have distinct host uuids, and each was connected from a local endpoint
  that is greater than the remote one.
\<close>

theorem tcp_sessions_invariant:
  assumes "tcp_steps (TCP_new none) t"
  shows "distinct (map (conn_uuid (conns t)) (sessions t)) \<and>
    (\<forall>k \<in> set (sessions t). \<exists>r l. cn_remote (conns t ! k) = Some r \<and> cn_local (conns t ! k) = Some l \<and> r < l)"
proof -
  have inv: "tcp_inv t" using good_steps [OF assms inv_new] by (simp add: good_def)
  then have "sorted_wrt (\<lambda>x y. conn_uuid (conns t) x \<noteq> conn_uuid (conns t) y) (sessions t)"
    by (simp add: tcp_inv_def mi_unique_def session_clash_def)
  then have "distinct (map (conn_uuid (conns t)) (sessions t))"
    by (rule distinct_map_wrt)
  with inv show ?thesis by (auto simp: tcp_inv_def less_endpoint_def)
qed

text \<open>An environment in which every call succeeds, for the witnesses.\<close>

definition env0 :: tenv where
  "env0 = \<lparr>te_core = Core_new, te_group = \<lparr>localnodes = [], backends = [], sendqueue = [], connectcount = 0,
       gname = ''chat'', io_queue = [], io_stopped = False\<rparr>, te_endian = LittleEndian,
     te_enc = (\<lambda>_. [9, 9]), te_dec = (\<lambda>_ _. None),
     te_mc_enc = (\<lambda>p. mc_hostuuid p @ [of_int (mc_ip_port p div 256), of_int (mc_ip_port p)]),
     te_mc_dec = (\<lambda>bs. if length bs = 18 then Some \<lparr>mc_hostuuid = take 16 bs,
        mc_ip_port = uint (bs ! 16) * 256 + uint (bs ! 17)\<rparr> else None),
     te_raw = (\<lambda>_. (proto64, replicate 16 1)), te_visited = (\<lambda>ks. ks),
     te_bind = (\<lambda>_. \<lparr>bind4_ok = True, connect_ok = True, bind6_ok = True, own_end = Endpoint (AddrV4 localhost) 5000\<rparr>),
     te_fails = (\<lambda>_. False), te_now = 100\<rparr>"

abbreviation any_ep :: endpoint where
  "any_ep \<equiv> Endpoint (AddrV4 (AddressV4 0)) 0"

lemmas run_defs = run_event_def seq_def ok_def fail_def TCP_Worker_def worker_init_def setup_reader_def
  handle_receive_from_def udp_type_def

lemma bind_or_connect_unfold:
  "bind_attempt env t = (False, t1) \<Longrightarrow> bind_or_connect env inside t = ok t1"
  "bind_attempt env t = (True, t1) \<Longrightarrow> bind_or_connect env True t = bind_or_connect env True t1"
  "bind_attempt env t = (True, t1) \<Longrightarrow> bind_or_connect env False t = ok (t1\<lparr>tasks := tasks t1 @ [TBind]\<rparr>)"
  by (simp_all add: bind_or_connect.simps)

text \<open>What the first call of the worker reaches when no call fails.\<close>

lemma worker_init_eq:
  assumes "\<And>c. \<not> te_fails env c"
  shows "worker_init env t = seq (bind_or_connect env False (start_op (OpReceive V4) (start_op (OpReceive V4) t)))
     (\<lambda>t. ok (start_op OpWait (t\<lparr>initialized := True, heartbeat := Some (te_now env + (0 - 1))\<rparr>)))"
  using assms by (simp add: worker_init_def setup_reader_def handle_receive_from_def udp_type_def)

lemma kept_session:
  "map_option (\<lambda>(r, t). (r, sessions t, map (conn_uuid (conns t)) (sessions t))) (TCP_Worker env0
     [EvAccept V4 0 (Some (Endpoint (AddrV4 (AddressV4 5)) 1, Endpoint (AddrV4 localhost) 8000)),
      EvUuidRead 0 False (replicate 16 7)] (TCP_new any_ep)) = Some (Inr (), [0], [replicate 16 7])"
  by code_simp

lemma kept_history: "\<exists>t. tcp_steps (TCP_new any_ep) t \<and> sessions t = [0]"
proof -
  obtain res t where "TCP_Worker env0 [EvAccept V4 0 (Some (Endpoint (AddrV4 (AddressV4 5)) 1, Endpoint (AddrV4 localhost) 8000)),
      EvUuidRead 0 False (replicate 16 7)] (TCP_new any_ep) = Some (res, t)" "sessions t = [0]"
    using kept_session by auto
  then show ?thesis using tcp_steps.worker [OF tcp_steps.start] by blast
qed

theorem tcp_sessions_invariant_witness:
  "\<exists>t. tcp_steps (TCP_new any_ep) t \<and> sessions t = [0] \<and>
     (\<exists>r l. cn_remote (conns t ! 0) = Some r \<and> cn_local (conns t ! 0) = Some l \<and> r < l)"
proof -
  obtain t where "tcp_steps (TCP_new any_ep) t" "sessions t = [0]"
    using kept_history by blast
  with tcp_sessions_invariant [OF this(1)] show ?thesis by auto
qed

text \<open>
  C34: A host that once had a kept session never gets one again: whatever happens to that session,
  a new connection whose peer reports the same uuid is closed.
\<close>

theorem peer_never_reconnects:
  assumes "tcp_steps (TCP_new none) t" "k \<in> set (sessions t)" "tcp_steps t t'"
    and "conn_uuid (conns t') j = conn_uuid (conns t) k"
  shows "uuid_read_finished env error n j t' = close_conn env True j t'"
proof -
  have inv: "tcp_inv t" using good_steps [OF assms(1) inv_new] by (simp add: good_def)
  with good_steps [OF assms(3)] have t': "tcp_inv t'" "tcp_keeps t t'" by (simp_all add: good_def)
  have "k \<in> set (sessions t')" "conn_uuid (conns t') k = conn_uuid (conns t) k"
    using t'(2) assms(2) by (auto simp: tcp_keeps_def)
  moreover have "mi_unique (session_clash (conns t')) (sessions t')" using t'(1) by (simp add: tcp_inv_def)
  ultimately have "find_session (conn_uuid (conns t') j) t' \<noteq> None"
    unfolding find_session_def using by_host.find_None_iff assms(4) by metis
  then show ?thesis by (simp add: uuid_read_finished_def del: not_None_eq)
qed

theorem peer_never_reconnects_witness:
  "\<exists>t t'. tcp_steps (TCP_new any_ep) t \<and> 0 \<in> set (sessions t) \<and> tcp_steps t t' \<and>
     uuid_read_finished env0 False 16 0 t' = close_conn env0 True 0 t'"
proof -
  obtain t where t: "tcp_steps (TCP_new any_ep) t" "0 \<in> set (sessions t)"
    using kept_history by auto
  from peer_never_reconnects [OF t tcp_steps.start refl] t show ?thesis
    by (blast intro: tcp_steps.start)
qed

lemma conns_bind_attempt:
  assumes "k < length (conns t)"
  shows "k < length (conns (snd (bind_attempt env t))) \<and> conns (snd (bind_attempt env t)) ! k = conns t ! k"
proof -
  have accept: "k < length (conns (start_accept env f u)) \<and> conns (start_accept env f u) ! k = conns u ! k"
    if "k < length (conns u)" for f u
    using that by (simp add: start_accept_def new_session_def start_op_def Let_def case_prod_unfold nth_append)
  have b4: "k < length (conns (snd (bind_v4 env ans u))) \<and> conns (snd (bind_v4 env ans u)) ! k = conns u ! k"
    if "k < length (conns u)" for ans u
    using that accept [of "u\<lparr>acceptor_v4 := x\<rparr>" for x]
    by (simp add: bind_v4_def Let_def case_prod_unfold handle_socket_init_def start_op_def set_session_def
        connected_def upd_conn_def new_session_def nth_append)
  have b6: "k < length (conns (snd (bind_v6 env ans u))) \<and> conns (snd (bind_v6 env ans u)) ! k = conns u ! k"
    if "k < length (conns u)" for ans u
    using that accept [of "u\<lparr>acceptor_v6 := x\<rparr>" for x] by (simp add: bind_v6_def)
  let ?u = "snd (bind_v4 env (te_bind env (attempts t)) (t\<lparr>attempts := attempts t + 1\<rparr>))"
  have u: "k < length (conns ?u) \<and> conns ?u ! k = conns t ! k"
    using b4 [of "t\<lparr>attempts := attempts t + 1\<rparr>"] assms by simp
  then show ?thesis
    using b6 [of ?u] by (simp add: bind_attempt_def Let_def case_prod_unfold)
qed

lemma close_conn_closes:
  assumes "k < length (conns t)"
  shows "ends_with (\<lambda>t'. \<not> sock_open (sess t' k)) (close_conn env inside k t)"
proof -
  let ?P = "\<lambda>t'. k < length (conns t') \<and> \<not> sock_open (cn_session (conns t' ! k))"
  have bind: "ends_with ?P (bind_or_connect env i u)" if "?P u" for i u
    by (rule bind_or_connect_ends [where P = ?P])
      (use that conns_bind_attempt in \<open>auto simp: sess_def\<close>)
  have closed: "\<not> sock_open (snd (session_close s))" for s
    by (simp add: session_close_def Let_def split: option.split)
  have acts: "ends_with ?P (sess_acts env inside k (fst (session_close s)) u)" if "?P u" for s u
    using that by (auto simp: session_close_def Let_def on_local_close_def sess_def split: option.split
        intro!: ends_seq [where P = ?P] bind)
  have "ends_with ?P (close_conn env inside k t)"
    unfolding close_conn_def with_session_def using assms closed
    by (auto simp: case_prod_unfold set_session_def upd_conn_def sess_def intro!: acts)
  then show ?thesis by (rule ends_mono) (simp add: sess_def)
qed

text \<open>
  C29: Of the two ends of a connection between different endpoints, only the end whose remote
  endpoint is the smaller one can keep it, and keeps it when it knows the peer's uuid from no
  other session; the other end closes its socket whatever it read. So no connection of the backend
  ever survives the exchange of uuids on both ends.
\<close>

theorem one_end_keeps:
  assumes a: "i < length (conns ta)" "remote_endpoint (conns ta ! i) = Inr y" "local_endpoint (conns ta ! i) = Inr x"
    and b: "j < length (conns tb)" "remote_endpoint (conns tb ! j) = Inr x" "local_endpoint (conns tb ! j) = Inr y"
    and less: "y < x"
  shows "(find_session (conn_uuid (conns ta) i) ta = None \<longrightarrow>
      uuid_read_finished enva False 16 i ta = seq (insert_session enva i ta)
        (with_session enva True i (session_start (te_enc enva) (te_endian enva) True (te_group enva)))) \<and>
    uuid_read_finished envb error n j tb = close_conn envb True j tb \<and>
    (\<forall>res tb'. uuid_read_finished envb error n j tb = Some (res, tb') \<longrightarrow> \<not> sock_open (sess tb' j))"
proof -
  have ep: "endpoint_less y x" "\<not> endpoint_less x y" using less by (auto simp: less_endpoint_def [symmetric])
  have lose: "uuid_read_finished envb error n j tb = close_conn envb True j tb"
    using b ep by (simp add: uuid_read_finished_def)
  show ?thesis
    using a ep lose close_conn_closes [OF b(1), of envb True] by (simp add: uuid_read_finished_def ends_with_def)
qed

text \<open>One connection as both ends see it.\<close>

definition end_of :: "endpoint \<Rightarrow> endpoint \<Rightarrow> tcp" where
  "end_of r l = connected 0 r l (snd (new_session env0 (TCP_new any_ep)))"

theorem one_end_keeps_witness:
  "let x = Endpoint (AddrV4 localhost) 8000; y = Endpoint (AddrV4 (AddressV4 5)) 1 in
   (\<exists>ta'. uuid_read_finished env0 False 16 0 (end_of y x) = Some (Inr (), ta') \<and> sock_open (sess ta' 0) \<and> sessions ta' = [0]) \<and>
   uuid_read_finished env0 False 16 0 (end_of x y) = close_conn env0 True 0 (end_of x y)"
proof -
  let ?x = "Endpoint (AddrV4 localhost) 8000" and ?y = "Endpoint (AddrV4 (AddressV4 5)) 1"
  have ends: "remote_endpoint (conns (end_of r l) ! 0) = Inr r" "local_endpoint (conns (end_of r l) ! 0) = Inr l"
      "0 < length (conns (end_of r l))" for r l
    by (simp_all add: end_of_def connected_def upd_conn_def new_session_def TCP_new_def env0_def
        remote_endpoint_def local_endpoint_def)
  have "?y < ?x" by (simp add: less_endpoint_def endpoint_less_iff less_address_def v4_less_def localhost_def)
  note keep = one_end_keeps [OF ends(3,1,2) ends(3,1,2) this, where enva = env0 and envb = env0 and error = False and n = 16]
  have "map_option (\<lambda>(r, t). (r, sock_open (sess t 0), sessions t)) (uuid_read_finished env0 False 16 0 (end_of ?y ?x)) =
      Some (Inr (), True, [0])"
    by code_simp
  then show ?thesis using keep by (auto simp: Let_def)
qed

text \<open>
  C31: Discovery never connects two processes of this library: the host uuid of each is the one
  \<open>Core\<close> was constructed with, so every heartbeat that one sends another takes for its own, starts
  nothing but the next receive, and that on the IPv4 socket whatever family it arrived on.
\<close>

theorem heartbeats_never_connect:
  assumes hosts: "te_core enva = fst (getInstance None)" "te_core envb = fst (getInstance None)"
    and archive: "\<And>p. length (mc_hostuuid p) = 16 \<Longrightarrow> 0 \<le> mc_ip_port p \<Longrightarrow> mc_ip_port p < 65536 \<Longrightarrow>
      te_mc_dec envb (te_mc_enc enva p) = Some p"
    and sent: "multicastHeartbeat enva ta = Some (Inr (), ta')" "OpSendTo f bs \<in> set (ops ta')"
      "OpSendTo f bs \<notin> set (ops ta)"
  shows "handle_receive_from envb False bs (udp_type g) tb = ok (start_op (OpReceive V4) tb)"
proof -
  have nil: "getHostUUID_core (te_core enva) = nil_uuid" "getHostUUID_core (te_core envb) = nil_uuid"
    using hosts getInstance_nil by simp_all
  obtain ep4 ep6 x where "acceptor_v4 ta = Some ep4" "acceptor_v6 ta = Some ep6" "heartbeat ta = Some x"
    using sent(1) by (auto simp: multicastHeartbeat_def start_op_def fail_def Let_def split: option.splits)
  with sent obtain w :: u16 where bs: "bs = te_mc_enc enva \<lparr>mc_hostuuid = nil_uuid, mc_ip_port = uint w\<rparr>"
    by (auto simp: multicastHeartbeat_def start_op_def ok_def Let_def nil)
  let ?p = "\<lparr>mc_hostuuid = nil_uuid, mc_ip_port = uint w\<rparr>"
  have "uint w < 65536" using uint_bounded [of w] by simp
  then have "te_mc_dec envb bs = Some ?p" using archive [of ?p] bs by (simp add: nil_uuid_def)
  then show ?thesis
    by (simp add: handle_receive_from_def udp_type_def nil)
qed

text \<open>The first call of the worker, with every call succeeding.\<close>

lemma first_worker:
  "map_option (\<lambda>(r, t). (r, initialized t, length (conns t), ops t)) (TCP_Worker env0 [] (TCP_new any_ep)) =
     Some (Inr (), True, 2, [OpReceive V4, OpReceive V4, OpAccept V4 0, OpAccept V6 1, OpWait])"
  by code_simp

lemma archive0:
  assumes "length (mc_hostuuid p) = 16" "0 \<le> mc_ip_port p" "mc_ip_port p < 65536"
  shows "te_mc_dec env0 (te_mc_enc env0 p) = Some p"
proof -
  have "mc_ip_port p div 256 < 256" "0 \<le> mc_ip_port p div 256" using assms(2,3) by auto
  then have "mc_ip_port p div 256 mod 256 * 256 + mc_ip_port p mod 256 = mc_ip_port p" by simp
  then show ?thesis
    using assms(1) by (simp add: env0_def nth_append uint_word_of_int take_bit_eq_mod)
qed

theorem heartbeats_never_connect_witness:
  "\<exists>ta ta'. multicastHeartbeat env0 ta = Some (Inr (), ta') \<and> OpSendTo V4 (nil_uuid @ [31, 64]) \<in> set (ops ta') \<and>
     handle_receive_from env0 False (nil_uuid @ [31, 64]) (udp_type V6) (TCP_new any_ep) = ok (start_op (OpReceive V4) (TCP_new any_ep))"
proof -
  let ?ta = "snd (the (TCP_Worker env0 [] (TCP_new any_ep)))"
  have hb: "map_option (\<lambda>(r, t). (r, ops t)) (multicastHeartbeat env0 ?ta) = Some (Inr (), [OpReceive V4, OpReceive V4,
      OpAccept V4 0, OpAccept V6 1, OpWait, OpSendTo V4 (nil_uuid @ [31, 64]), OpSendTo V6 (nil_uuid @ [31, 64]), OpWait])"
    by code_simp
  then obtain ta' where ta': "multicastHeartbeat env0 ?ta = Some (Inr (), ta')" "OpSendTo V4 (nil_uuid @ [31, 64]) \<in> set (ops ta')"
    by auto
  have ta: "OpSendTo V4 (nil_uuid @ [31, 64]) \<notin> set (ops ?ta)"
    using first_worker by (cases "TCP_Worker env0 [] (TCP_new any_ep)") auto
  have host: "te_core env0 = fst (getInstance None)" by (simp add: env0_def getInstance_def)
  from heartbeats_never_connect [OF host host archive0 ta' ta] ta' show ?thesis by blast
qed

section \<open>Discovery after malformed datagrams\<close>

fun is_discovery :: "tcp_op \<Rightarrow> bool" where
  "is_discovery (OpReceive f) = True"
| "is_discovery (OpConnect k ep) = True"
| "is_discovery _ = False"

definition discovery :: "tcp \<Rightarrow> tcp_op list" where
  "discovery t = filter is_discovery (ops t)"

definition searching :: "tcp_op list \<Rightarrow> bool \<Rightarrow> tcp \<Rightarrow> bool" where
  "searching as i t \<longleftrightarrow> discovery t = as \<and> initialized t = i"

lemma searching_start [simp]: "\<not> is_discovery a \<Longrightarrow> searching as i (start_op a t) \<longleftrightarrow> searching as i t"
  by (simp add: searching_def discovery_def start_op_def)

lemma searching_fields:
  "ops t' = ops t \<Longrightarrow> initialized t' = initialized t \<Longrightarrow> searching as i t' \<longleftrightarrow> searching as i t"
  by (simp add: searching_def discovery_def)

lemma searching_new_session [simp]: "searching as i (snd (new_session env t)) \<longleftrightarrow> searching as i t"
  by (rule searching_fields) (simp_all add: new_session_def Let_def case_prod_unfold)

lemma searching_upd [simp]:
  "searching as i (upd_conn k f t) \<longleftrightarrow> searching as i t" "searching as i (set_session k s t) \<longleftrightarrow> searching as i t"
  "searching as i (connected k r l t) \<longleftrightarrow> searching as i t" "searching as i (connect_ends k e t) \<longleftrightarrow> searching as i t"
  by (cases e; simp add: upd_conn_def set_session_def connected_def connect_ends_def searching_def discovery_def case_prod_unfold)+

lemma searching_update [simp]:
  "searching as i (t\<lparr>tasks := a\<rparr>) \<longleftrightarrow> searching as i t" "searching as i (t\<lparr>local_v4 := b\<rparr>) \<longleftrightarrow> searching as i t"
  "searching as i (t\<lparr>acceptor_v4 := c\<rparr>) \<longleftrightarrow> searching as i t" "searching as i (t\<lparr>acceptor_v6 := c\<rparr>) \<longleftrightarrow> searching as i t"
  "searching as i (t\<lparr>attempts := d\<rparr>) \<longleftrightarrow> searching as i t" "searching as i (t\<lparr>heartbeat := e\<rparr>) \<longleftrightarrow> searching as i t"
  "searching as i (t\<lparr>sessions := f\<rparr>) \<longleftrightarrow> searching as i t" "searching as i (t\<lparr>service_stopped := g\<rparr>) \<longleftrightarrow> searching as i t"
  "searching as i (t\<lparr>sender_v4 := h\<rparr>) \<longleftrightarrow> searching as i t" "searching as i (t\<lparr>sender_v6 := h\<rparr>) \<longleftrightarrow> searching as i t"
  by (simp_all add: searching_def discovery_def)

lemma searching_accept [simp]: "searching as i (start_accept env f t) \<longleftrightarrow> searching as i t"
  by (simp add: start_accept_def Let_def case_prod_unfold)

lemma searching_init [simp]: "searching as i (handle_socket_init env acc k e t) \<longleftrightarrow> searching as i t"
  by (simp add: handle_socket_init_def Let_def split: option.split)

lemma searching_bind: "searching as i t \<Longrightarrow> searching as i (snd (bind_attempt env t))"
  by (simp add: bind_attempt_def bind_v4_def bind_v6_def Let_def case_prod_unfold)

interpretation disc: session_safe env "searching as i" for env as i
  by unfold_locales (simp_all add: searching_bind)

lemma searching_insert: "searching as i t \<Longrightarrow> ends_with (searching as i) (insert_session env k t)"
  by (simp add: insert_session_def split: option.split)

lemma searching_read: "searching as i t \<Longrightarrow> ends_with (searching as i) (uuid_read_finished env e n k t)"
  by (auto simp: uuid_read_finished_def split: sum.split
      intro!: disc.P_close ends_seq [where P = "searching as i"] disc.P_start searching_insert)

lemma searching_heartbeat: "searching as i t \<Longrightarrow> ends_with (searching as i) (multicastHeartbeat env t)"
  by (simp add: multicastHeartbeat_def Let_def split: option.split)

text \<open>With no receive and no connect outstanding none is ever started again.\<close>

lemma searching_event: "searching [] i t \<Longrightarrow> ends_with (searching [] i) (run_event env ev t)"
proof -
  assume t: "searching [] i t"
  have rm: "searching [] i (t\<lparr>ops := remove1 a (ops t)\<rparr>)" for a
    using t by (simp add: searching_def discovery_def filter_remove1)
  have no: "\<not> is_discovery a" if "a \<in> set (ops t)" for a
    using t that by (auto simp: searching_def discovery_def filter_empty_conv)
  show ?thesis
  proof (cases ev)
    case EvTask
    then show ?thesis using t by (auto simp: run_event_def split: list.split intro!: disc.P_task)
  next
    case (EvConnect k ep ends)
    then show ?thesis using t no [of "OpConnect k ep"] by (auto simp: run_event_def)
  next
    case (EvDatagram f e bs ep)
    then show ?thesis using t no [of "OpReceive f"] by (auto simp: run_event_def)
  next
    case (EvUuidRead k e bs)
    then show ?thesis using t rm by (auto simp: run_event_def intro!: searching_read)
  next
    case (EvWritten k bs e n)
    then show ?thesis using t rm by (auto simp: run_event_def intro!: disc.P_written)
  next
    case (EvUuidWritten k bs e n)
    then show ?thesis using t rm by (auto simp: run_event_def uuid_write_finished_def intro!: disc.P_close)
  qed (use t rm in \<open>auto simp: run_event_def noop_def intro!: searching_heartbeat\<close>)
qed

lemma searching_poll: "searching [] i t \<Longrightarrow> ends_with (searching [] i) (poll env evs t)"
  by (induction evs arbitrary: t) (auto intro!: ends_seq searching_event)

lemma searching_Worker: "searching [] True t \<Longrightarrow> ends_with (searching [] True) (TCP_Worker env evs t)"
proof -
  assume t: "searching [] True t"
  then have "initialized t" by (simp add: searching_def)
  then show ?thesis using t by (simp add: TCP_Worker_def searching_poll)
qed

lemma searching_steps: "tcp_steps t0 t \<Longrightarrow> searching [] True t0 \<Longrightarrow> searching [] True t"
  by (rule steps_preserve [where P = "searching [] True"])
    (auto intro: searching_Worker disc.session_safe_axioms)

lemma searching_first_worker:
  assumes "TCP_Worker env [] (TCP_new none) = Some (Inr (), t)"
  shows "searching [OpReceive V4, OpReceive V4] True t"
proof -
  have calls: "setup_calls env cs t = Some (Inr (), u) \<Longrightarrow> u = t" for cs t u
    by (induction cs) (auto split: if_splits)
  have reader: "setup_reader env f t = Some (Inr (), u) \<Longrightarrow> u = start_op (OpReceive V4) t" for f t u
    by (auto simp only: setup_reader_def handle_receive_from_def udp_type_def seq_returns returns_iff
        list.size nat_less_le simp_thms if_False if_True dest!: calls)
  let ?t2 = "start_op (OpReceive V4) (start_op (OpReceive V4) (TCP_new none))"
  have "initialized (TCP_new none) = False" by (simp add: TCP_new_def)
  then obtain t1 where init: "worker_init env (TCP_new none) = Some (Inr (), t1)" and "discovery t = discovery t1" "initialized t = initialized t1"
    using assms by (auto simp: TCP_Worker_def seq_returns discovery_def)
  moreover obtain t3 where "bind_or_connect env False ?t2 = Some (Inr (), t3)"
      "t1 = start_op OpWait (t3\<lparr>initialized := True, heartbeat := Some (te_now env + (0 - 1))\<rparr>)"
    using init unfolding worker_init_def seq_returns by (auto simp del: setup_calls.simps dest!: calls reader)
  moreover have "searching [OpReceive V4, OpReceive V4] False ?t2"
    by (simp add: searching_def discovery_def start_op_def TCP_new_def)
  ultimately show ?thesis
    using disc.P_bind_or_connect [of "[OpReceive V4, OpReceive V4]" False ?t2 env False]
    by (auto simp: ends_with_def searching_def discovery_def start_op_def)
qed

text \<open>
  C32: Anybody can end discovery with two datagrams that are no archive: each makes a call of the
  worker throw and takes one of the two outstanding receives, none of which is ever started
  again; afterwards no history of the backend receives a datagram or connects to a peer.
\<close>

theorem malformed_datagrams_end_discovery:
  assumes init: "TCP_Worker env [] (TCP_new none) = Some (Inr (), t1)"
    and bad: "te_mc_dec env bs = None" "bs \<noteq> []"
  shows "\<exists>t2 t3. TCP_Worker env [EvDatagram V4 False bs a] t1 = Some (Inl (Throw (OtherException ''archive_exception'')), t2) \<and>
    TCP_Worker env [EvDatagram V4 False bs b] t2 = Some (Inl (Throw (OtherException ''archive_exception'')), t3) \<and>
    (\<forall>t. tcp_steps t3 t \<longrightarrow> (\<forall>f k ep. OpReceive f \<notin> set (ops t) \<and> OpConnect k ep \<notin> set (ops t)))"
proof -
  have one: "\<exists>t'. TCP_Worker env [EvDatagram V4 False bs a] t = Some (Inl (Throw (OtherException ''archive_exception'')), t') \<and>
      searching as True t'"
    if "searching (OpReceive V4 # as) True t" for t as a
  proof -
    let ?t = "if service_stopped t then t\<lparr>service_stopped := False\<rparr> else t"
    let ?t' = "?t\<lparr>ops := remove1 (OpReceive V4) (ops t), sender_v4 := a\<rparr>"
    have in_ops: "OpReceive V4 \<in> set (ops t)" "initialized t"
      using that by (auto simp: searching_def discovery_def dest!: arg_cong [where f = set])
    then have "TCP_Worker env [EvDatagram V4 False bs a] t = fail (Throw (OtherException ''archive_exception'')) ?t'"
      using bad by (simp add: TCP_Worker_def run_event_def handle_receive_from_def)
    moreover have "searching as True ?t'"
      using that by (simp add: searching_def discovery_def filter_remove1)
    ultimately show ?thesis by (auto simp: fail_def)
  qed
  obtain t2 where t2: "TCP_Worker env [EvDatagram V4 False bs a] t1 = Some (Inl (Throw (OtherException ''archive_exception'')), t2)"
      "searching [OpReceive V4] True t2"
    using one [OF searching_first_worker [OF init]] by blast
  obtain t3 where t3: "TCP_Worker env [EvDatagram V4 False bs b] t2 = Some (Inl (Throw (OtherException ''archive_exception'')), t3)"
      "searching [] True t3"
    using one [OF t2(2)] by blast
  have "OpReceive f \<notin> set (ops t) \<and> OpConnect k ep \<notin> set (ops t)" if "tcp_steps t3 t" for t f k ep
    using searching_steps [OF that t3(2)] by (auto simp: searching_def discovery_def filter_empty_conv)
  with t2(1) t3(1) show ?thesis by blast
qed

theorem malformed_datagrams_end_discovery_witness:
  "\<exists>t1 t2. TCP_Worker env0 [] (TCP_new any_ep) = Some (Inr (), t1) \<and>
     TCP_Worker env0 [EvDatagram V4 False [0] any_ep] t1 = Some (Inl (Throw (OtherException ''archive_exception'')), t2)"
proof -
  obtain t1 where t1: "TCP_Worker env0 [] (TCP_new any_ep) = Some (Inr (), t1)"
    using first_worker by auto
  have "te_mc_dec env0 [0] = None" by (simp add: env0_def)
  from malformed_datagrams_end_discovery [OF t1 this] t1 show ?thesis by blast
qed

section \<open>The listening sockets\<close>

lemma worker_init_from_new:
  assumes "\<And>c. \<not> te_fails env c"
  shows "TCP_Worker env evs (TCP_new none) =
    seq (bind_or_connect env False (start_op (OpReceive V4) (start_op (OpReceive V4) (TCP_new none))))
      (\<lambda>t. poll env evs ((start_op OpWait (t\<lparr>initialized := True, heartbeat := Some (te_now env + (0 - 1))\<rparr>))
        \<lparr>service_stopped := False\<rparr>))"
proof -
  have "seq (seq r f) g = seq r (\<lambda>t. seq (f t) g)" for r f g
    by (cases r) (auto simp: seq_def fail_def split: sum.split)
  moreover have "\<not> initialized (TCP_new none)" by (simp add: TCP_new_def)
  ultimately show ?thesis
    using assms by (simp add: TCP_Worker_def worker_init_eq)
qed

text \<open>
  A second process on a host, which finds the port taken and connects to the first one
  instead, has no listening socket: its first heartbeat dereferences a null pointer.
\<close>

theorem second_process_heartbeat_undefined:
  assumes "\<And>c. \<not> te_fails env c" "\<not> bind4_ok (te_bind env 0)" "connect_ok (te_bind env 0)"
  shows "\<exists>t. TCP_Worker env [EvTimer] (TCP_new none) = Some (Inl (UB EmptyPointer), t)"
proof -
  let ?t = "start_op (OpReceive V4) (start_op (OpReceive V4) (TCP_new none))"
  obtain t1 where t1: "bind_attempt env ?t = (False, t1)" "acceptor_v4 t1 = None"
    using assms(2,3)
    by (simp add: bind_attempt_def bind_v4_def bind_v6_def TCP_new_def start_op_def new_session_def Let_def
        case_prod_unfold handle_socket_init_def set_session_def connected_def upd_conn_def)
  then have "bind_or_connect env False ?t = ok t1" by (simp add: bind_or_connect_unfold)
  then show ?thesis
    using t1(2) by (simp add: worker_init_from_new [OF assms(1)] run_event_def multicastHeartbeat_def start_op_def)
      (simp add: seq_def fail_def ok_def)
qed

theorem second_process_heartbeat_undefined_witness:
  "\<exists>t. TCP_Worker (env0\<lparr>te_bind := (\<lambda>_. \<lparr>bind4_ok = False, connect_ok = True, bind6_ok = True, own_end = any_ep\<rparr>)\<rparr>)
     [EvTimer] (TCP_new any_ep) = Some (Inl (UB EmptyPointer), t)"
  by (rule second_process_heartbeat_undefined) (simp_all add: env0_def)

text \<open>The retries for the second listening socket.\<close>

lemma bind_attempt_v6:
  assumes "acceptor_v4 t \<noteq> None" "acceptor_v6 t = None"
  shows "bind6_ok (te_bind env (attempts t)) \<Longrightarrow> \<exists>t1. bind_attempt env t = (False, t1) \<and> acceptor_v6 t1 \<noteq> None"
    and "\<not> bind6_ok (te_bind env (attempts t)) \<Longrightarrow> bind_attempt env t = (True, t\<lparr>attempts := attempts t + 1\<rparr>)"
  using assms by (auto simp: bind_attempt_def bind_v4_def bind_v6_def start_accept_def new_session_def start_op_def Let_def
      case_prod_unfold)

lemma bind_or_connect_returns:
  assumes "acceptor_v4 t \<noteq> None" "acceptor_v6 t = None" "bind6_ok (te_bind env (attempts t + n))"
  shows "\<exists>t'. bind_or_connect env True t = Some (Inr (), t')"
  using assms
proof (induction n arbitrary: t)
  case 0
  then show ?case using bind_attempt_v6(1) [of t env] by (auto simp: bind_or_connect_unfold)
next
  case (Suc n)
  show ?case
  proof (cases "bind6_ok (te_bind env (attempts t))")
    case True
    then show ?thesis using bind_attempt_v6(1) [of t env] Suc.prems by (auto simp: bind_or_connect_unfold)
  next
    case False
    then show ?thesis
      using bind_attempt_v6(2) [OF Suc.prems(1,2)] Suc.IH [of "t\<lparr>attempts := attempts t + 1\<rparr>"] Suc.prems
      by (simp add: bind_or_connect_unfold)
  qed
qed

lemma bind_or_connect_diverges:
  assumes "\<And>n. attempts t \<le> n \<Longrightarrow> \<not> bind6_ok (te_bind env n)" "acceptor_v4 t \<noteq> None" "acceptor_v6 t = None"
  shows "bind_or_connect env True t = None"
proof -
  have False if "bind_or_connect env True t = Some y" for y
    using that assms TrueI
  proof (induction env True t y rule: bind_or_connect.raw_induct [rotated, consumes 1, case_names step])
    case (step rec e t y)
    have "bind_attempt e t = (True, t\<lparr>attempts := attempts t + 1\<rparr>)"
      using step by (intro bind_attempt_v6(2)) auto
    then have "rec e True (t\<lparr>attempts := attempts t + 1\<rparr>) = Some y" using step(2) by simp
    from step(1) [OF this] step show ?case by auto
  qed
  then show ?thesis by (cases "bind_or_connect env True t") auto
qed

text \<open>
  C33: With the IPv4 socket listening and the IPv6 one not, the retry runs as a plain recursive
  call inside the service: it returns exactly when some later attempt succeeds. A worker whose
  IPv6 socket can never be bound returns once with the retry queued, and the next call that runs
  it never returns.
\<close>

theorem ipv6_retry_returns_iff:
  assumes "acceptor_v4 t \<noteq> None" "acceptor_v6 t = None"
  shows "((\<exists>t'. bind_or_connect env True t = Some (Inr (), t')) \<longleftrightarrow> (\<exists>n\<ge>attempts t. bind6_ok (te_bind env n))) \<and>
    ((\<forall>c. \<not> te_fails env c) \<and> bind4_ok (te_bind env 0) \<and> (\<forall>n. \<not> bind6_ok (te_bind env n)) \<longrightarrow>
      (\<exists>t1. TCP_Worker env [] (TCP_new none) = Some (Inr (), t1) \<and> TCP_Worker env [EvTask] t1 = None))"
proof (intro conjI impI)
  show "(\<exists>t'. bind_or_connect env True t = Some (Inr (), t')) \<longleftrightarrow> (\<exists>n\<ge>attempts t. bind6_ok (te_bind env n))"
  proof (cases "\<exists>n\<ge>attempts t. bind6_ok (te_bind env n)")
    case True
    then obtain m where "bind6_ok (te_bind env (attempts t + m))" by (auto simp: le_iff_add)
    with True bind_or_connect_returns [OF assms] show ?thesis by blast
  next
    case False
    then show ?thesis using bind_or_connect_diverges [of t env] assms by auto
  qed
next
  assume "(\<forall>c. \<not> te_fails env c) \<and> bind4_ok (te_bind env 0) \<and> (\<forall>n. \<not> bind6_ok (te_bind env n))"
  then have env: "\<And>c. \<not> te_fails env c" "bind4_ok (te_bind env 0)" "\<And>n. \<not> bind6_ok (te_bind env n)" by blast+
  let ?t = "start_op (OpReceive V4) (start_op (OpReceive V4) (TCP_new none))"
  obtain t1 where t1: "bind_attempt env ?t = (True, t1)" "acceptor_v4 t1 \<noteq> None" "acceptor_v6 t1 = None" "tasks t1 = []"
    using env(2,3)
    by (simp add: bind_attempt_def bind_v4_def bind_v6_def TCP_new_def start_op_def new_session_def Let_def
        case_prod_unfold start_accept_def)
  then have bind: "bind_or_connect env False ?t = ok (t1\<lparr>tasks := [TBind]\<rparr>)" by (simp add: bind_or_connect_unfold)
  let ?t2 = "(start_op OpWait (t1\<lparr>tasks := [TBind], initialized := True, heartbeat := Some (te_now env + (0 - 1))\<rparr>))
      \<lparr>service_stopped := False\<rparr>"
  have first: "TCP_Worker env [] (TCP_new none) = ok ?t2"
    by (simp add: worker_init_from_new [OF env(1)] bind)
  have "bind_or_connect env True (?t2\<lparr>tasks := []\<rparr>) = None"
    by (rule bind_or_connect_diverges) (use env(3) t1(2,3) in \<open>simp_all add: start_op_def\<close>)
  moreover have "tasks ?t2 = [TBind]" "initialized ?t2" "\<not> service_stopped ?t2" by (simp_all add: start_op_def)
  ultimately have "TCP_Worker env [EvTask] ?t2 = None"
    by (simp add: TCP_Worker_def run_event_def)
  with first show "\<exists>t1. TCP_Worker env [] (TCP_new none) = Some (Inr (), t1) \<and> TCP_Worker env [EvTask] t1 = None"
    by (auto simp: ok_def)
qed

theorem ipv6_retry_returns_iff_witness:
  "let env = env0\<lparr>te_bind := (\<lambda>_. \<lparr>bind4_ok = True, connect_ok = True, bind6_ok = False, own_end = any_ep\<rparr>)\<rparr>;
       t = (TCP_new any_ep)\<lparr>acceptor_v4 := Some any_ep\<rparr>
   in (\<nexists>t'. bind_or_connect env True t = Some (Inr (), t')) \<and>
      (\<exists>t1. TCP_Worker env [] (TCP_new any_ep) = Some (Inr (), t1) \<and> TCP_Worker env [EvTask] t1 = None)"
  using ipv6_retry_returns_iff [of "(TCP_new any_ep)\<lparr>acceptor_v4 := Some any_ep\<rparr>"
      "env0\<lparr>te_bind := (\<lambda>_. \<lparr>bind4_ok = True, connect_ok = True, bind6_ok = False, own_end = any_ep\<rparr>)\<rparr>" any_ep]
  by (simp add: TCP_new_def env0_def)

end
