(* ===== verification/NetInterface.thy ===== *)
theory NetInterface imports Exceptions Endpoint "HOL-Library.Char_ord" begin

text \<open>
  The enumeration of the host's network interfaces (\<open>util/netinterface.hpp\<close>, the Linux branch of
  \<open>util/netinterface.cpp\<close>). \<open>struct ifreq\<close> is modelled as its bytes, since the code reads one
  union under several names: sixteen bytes of name, then the union of twenty-four.
\<close>

section \<open>The structures of the kernel\<close>

definition AF_INET :: u16 where "AF_INET = 2"
definition AF_INET6 :: u16 where "AF_INET6 = 10"

definition sizeof_ifreq :: nat where "sizeof_ifreq = 40"

text \<open>\<open>std::string(p, strlen(p))\<close> for the name at an address of the buffer.\<close>

definition ifr_name :: "byte list \<Rightarrow> nat \<Rightarrow> string" where
  "ifr_name buf off = map (\<lambda>b. char_of (unat b)) (takeWhile (\<lambda>b. b \<noteq> 0) (drop off buf))"

definition load16 :: "endian \<Rightarrow> byte list \<Rightarrow> u16" where
  "load16 e bs = (case e of
     LittleEndian \<Rightarrow> push_bit 8 (ucast (bs ! 1)) OR ucast (bs ! 0)
   | BigEndian \<Rightarrow> push_bit 8 (ucast (bs ! 0)) OR ucast (bs ! 1))"

text \<open>
  The members of the union: \<open>ifr_addr\<close>, \<open>ifr_broadaddr\<close>, \<open>ifr_netmask\<close> and \<open>ifr_hwaddr\<close> are all a
  \<open>sockaddr\<close> at its start, \<open>ifr_mtu\<close> an \<open>int\<close> there. A \<open>sockaddr_in6\<close> ends four bytes behind it.
\<close>

definition sa_family :: "endian \<Rightarrow> byte list \<Rightarrow> nat \<Rightarrow> u16" where
  "sa_family e buf off = load16 e (take 2 (drop (off + 16) buf))"

definition sin_addr :: "endian \<Rightarrow> byte list \<Rightarrow> nat \<Rightarrow> u32" where
  "sin_addr e buf off = load32 e (take 4 (drop (off + 20) buf))"

definition sin6_addr :: "byte list \<Rightarrow> nat \<Rightarrow> byte list" where
  "sin6_addr buf off = take 16 (drop (off + 24) buf)"

definition sin6_scope_id :: "endian \<Rightarrow> byte list \<Rightarrow> nat \<Rightarrow> u32" where
  "sin6_scope_id e buf off = load32 e (take 4 (drop (off + 40) buf))"

definition ifr_mtu :: "endian \<Rightarrow> byte list \<Rightarrow> nat \<Rightarrow> int" where
  "ifr_mtu e buf off = sint (load32 e (take 4 (drop (off + 16) buf)))"

definition hw_sa_data :: "byte list \<Rightarrow> nat \<Rightarrow> byte list" where
  "hw_sa_data buf off = take 6 (drop (off + 18) buf)"

text \<open>
  The system: whether a socket can be had, whether \<open>calloc\<close> of a size succeeds, the answer of
  \<open>SIOCGIFCONF\<close> for a buffer of a size (an error code, or the array it writes), the union that
  \<open>SIOCGIFADDR\<close> and \<open>SIOCGIFHWADDR\<close> store for an interface, and what an exception needs.
\<close>

datatype conf_answer = ConfError int | ConfArray "byte list"

record kernel =
  k_endian :: endian
  k_socket :: bool
  k_calloc :: "nat \<Rightarrow> bool"
  k_conf :: "nat \<Rightarrow> conf_answer"
  k_addr :: "string \<Rightarrow> byte list option"
  k_hwaddr :: "string \<Rightarrow> byte list option"
  k_strerr :: "int \<Rightarrow> string"
  k_alloc :: "nat option"
  k_errno :: int

definition EOVERFLOW :: int where "EOVERFLOW = 75"

section \<open>The code\<close>

record netinterface =
  ifname :: string
  ni_addr :: "(address \<times> address \<times> address) list"
  ifmac :: string
  ifmtu :: int

text \<open>\<open>throw GScale::Exception()\<close>, whose defaults are \<open>errno\<close>, a null file and line 0.\<close>

definition throw_default :: "kernel \<Rightarrow> 'a result" where
  "throw_default k = (case Exception_int (k_strerr k) (k_alloc k) (k_errno k) (k_errno k) None 0 (\<lambda>_. None) of
     Inl e \<Rightarrow> Inl e
   | Inr (x, h) \<Rightarrow> Inl (Throw (GException (k_strerr k (k_errno k)) (get_error_code x))))"

text \<open>
  The loop that grows the buffer: its size, the buffer and \<open>ifc_len\<close> at the end, and the number
  of calls it made. The kernel's array is at most the buffer.
\<close>

function conf_loop :: "kernel \<Rightarrow> nat \<Rightarrow> nat \<Rightarrow> (nat \<times> byte list \<times> nat \<times> nat) result" where
  "conf_loop k bufsize calls =
     (let n = bufsize * 2 in
      if \<not> k_calloc k n then throw_default k
      else case k_conf k n of
          ConfError e \<Rightarrow>
            if e \<noteq> EOVERFLOW then throw_default k
            else if n < 1048576 \<and> 0 < n then conf_loop k n (calls + 1)
            else Inr (n, replicate n 0, n, calls + 1)
        | ConfArray a \<Rightarrow>
            let a' = take n a in
            if length a' = n \<and> n < 1048576 \<and> 0 < n then conf_loop k n (calls + 1)
            else Inr (n, a' @ replicate (n - length a') 0, length a', calls + 1))"
  by pat_completeness auto
termination by (relation "measure (\<lambda>(k, n, c). 1048576 - n)") auto

declare conf_loop.simps [simp del]

definition if_buffer :: "kernel \<Rightarrow> (nat \<times> byte list \<times> nat \<times> nat) result" where
  "if_buffer k = conf_loop k 4069 0"

text \<open>\<open>ioctl\<close> on an element of the array: the kernel looks the name up and stores a union.\<close>

definition ifreq_ioctl :: "(string \<Rightarrow> byte list option) \<Rightarrow> byte list \<Rightarrow> nat \<Rightarrow> byte list option" where
  "ifreq_ioctl req buf off = map_option (\<lambda>u. blit buf (off + 16) u) (req (ifr_name buf off))"

text \<open>A \<open>std::map\<close> from names to the addresses of elements, in the order of its keys.\<close>

type_synonym if_map = "(string \<times> nat list) list"

fun map_push :: "string \<Rightarrow> nat \<Rightarrow> if_map \<Rightarrow> if_map" where
  "map_push nm off [] = [(nm, [off])]"
| "map_push nm off ((x, offs) # m) =
     (if nm = x then (x, offs @ [off]) # m
      else if nm < x then (nm, [off]) # (x, offs) # m
      else (x, offs) # map_push nm off m)"

definition scan_item :: "kernel \<Rightarrow> nat \<Rightarrow> byte list \<times> if_map \<Rightarrow> byte list \<times> if_map" where
  "scan_item k off bm = (let (buf, m) = bm; nm = ifr_name buf off in
     case ifreq_ioctl (k_addr k) buf off of
       None \<Rightarrow> (buf, m)
     | Some buf1 \<Rightarrow>
         (case ifreq_ioctl (k_hwaddr k) buf1 off of
            None \<Rightarrow> (buf1, m)
          | Some buf2 \<Rightarrow> (buf2, map_push nm off m)))"

definition scan_items :: "kernel \<Rightarrow> nat \<Rightarrow> byte list \<Rightarrow> byte list \<times> if_map" where
  "scan_items k len buf = fold (\<lambda>i. scan_item k (sizeof_ifreq * i)) [0 ..< len div sizeof_ifreq] (buf, [])"

text \<open>The \<open>switch\<close> of the constructor for one element.\<close>

definition item_addr :: "endian \<Rightarrow> byte list \<Rightarrow> nat \<Rightarrow> (address \<times> address \<times> address) list result" where
  "item_addr e buf off =
     (if sa_family e buf off = AF_INET then
        (case address_v4_of_ulong (ucast (sin_addr e buf off)) of
           Inl x \<Rightarrow> Inl x
         | Inr a \<Rightarrow> Inr [(AddrV4 a, AddrV4 a, AddrV4 a)])
      else if sa_family e buf off = AF_INET6 then
        Inr [(AddrV6 (AddressV6 (sin6_addr buf off) (ucast (sin6_scope_id e buf off))),
              AddrV6 (AddressV6 (replicate 16 0) 0), AddrV6 (AddressV6 (replicate 16 0) 0))]
      else Inr [])"

fun items_addr :: "endian \<Rightarrow> byte list \<Rightarrow> nat list \<Rightarrow> (address \<times> address \<times> address) list result" where
  "items_addr e buf [] = Inr []"
| "items_addr e buf (off # offs) = (case item_addr e buf off of
     Inl x \<Rightarrow> Inl x
   | Inr as \<Rightarrow> (case items_addr e buf offs of Inl x \<Rightarrow> Inl x | Inr bs \<Rightarrow> Inr (as @ bs)))"

definition NetInterface_new :: "endian \<Rightarrow> byte list \<Rightarrow> nat list \<Rightarrow> netinterface result" where
  "NetInterface_new e buf items = (case items of
     [] \<Rightarrow> Inl (Throw (GException [] ENOENT))
   | first # _ \<Rightarrow> (case items_addr e buf items of
        Inl x \<Rightarrow> Inl x
      | Inr as \<Rightarrow> Inr \<lparr>ifname = ifr_name buf first, ni_addr = as,
          ifmac = map (\<lambda>b. char_of (unat b)) (hw_sa_data buf first), ifmtu = ifr_mtu e buf first\<rparr>))"

definition NetInterface_all :: "kernel \<Rightarrow> netinterface list result" where
  "NetInterface_all k =
     (if \<not> k_socket k then throw_default k
      else case if_buffer k of
          Inl x \<Rightarrow> Inl x
        | Inr (n, buf, len, calls) \<Rightarrow>
            let (buf', m) = scan_items k len buf
            in Inr (List.map_filter (\<lambda>(nm, offs). case NetInterface_new (k_endian k) buf' offs of
                 Inl _ \<Rightarrow> None | Inr i \<Rightarrow> Some i) m))"

definition NetInterface_address :: "netinterface \<Rightarrow> address set" where
  "NetInterface_address i = set (map (\<lambda>a. fst a) (ni_addr i))"

definition NetInterface_broadcast :: "netinterface \<Rightarrow> address set" where
  "NetInterface_broadcast i = set (map (\<lambda>a. fst (snd a)) (ni_addr i))"

definition NetInterface_netmask :: "netinterface \<Rightarrow> address set" where
  "NetInterface_netmask i = set (map (\<lambda>a. snd (snd a)) (ni_addr i))"

definition NetInterface_addresses :: "netinterface \<Rightarrow> (address \<times> address \<times> address) list" where
  "NetInterface_addresses i = ni_addr i"

definition NetInterface_mtu :: "netinterface \<Rightarrow> int" where
  "NetInterface_mtu i = ifmtu i"

section \<open>The buffer\<close>

lemma throw_default_eq: "throw_default k = Inl (UB NullString)"
  by (simp add: throw_default_def Exception_int_def string_of_cstr_def)

lemma buffer_sizes:
  assumes "j \<le> 8"
  shows "4069 * 2 ^ Suc j < (1048576::nat) \<longleftrightarrow> Suc j \<le> 8"
proof
  assume "4069 * 2 ^ Suc j < (1048576::nat)"
  then show "Suc j \<le> 8" using assms by (cases "j = 8") auto
next
  assume "Suc j \<le> 8"
  then have "(2::nat) ^ Suc j \<le> 2 ^ 8" by (rule power_increasing) simp
  then show "4069 * 2 ^ Suc j < (1048576::nat)" by simp
qed

lemma conf_loop_result:
  assumes "conf_loop k b c = Inr (n, buf, len, calls)" "b = 4069 * 2 ^ j" "c = j" "j \<le> 8"
  shows "\<exists>i. i \<le> 9 \<and> n = 4069 * 2 ^ i \<and> calls = i \<and> length buf = n \<and> len \<le> n \<and> (len = n \<longrightarrow> i = 9)"
  using assms
proof (induction k b c arbitrary: j rule: conf_loop.induct)
  case (1 k b c)
  let ?n = "b * 2"
  have n: "?n = 4069 * 2 ^ Suc j" "0 < ?n" using "1.prems"(2) by simp_all
  have small: "?n < 1048576 \<longleftrightarrow> Suc j \<le> 8" using buffer_sizes [OF "1.prems"(4)] n(1) by simp
  have alloc: "k_calloc k ?n"
    using "1.prems"(1) by (cases "k_calloc k ?n") (simp_all add: conf_loop.simps [of k b c] throw_default_eq Let_def)
  have stop: ?case if "n = ?n" "calls = c + 1" "length buf = n" "len \<le> n" "len = n \<Longrightarrow> \<not> ?n < 1048576"
  proof (intro exI [of _ "Suc j"] conjI impI)
    show "Suc j \<le> 9" using "1.prems"(4) by simp
    show "Suc j = 9" if "len = n" using \<open>len = n \<Longrightarrow> \<not> ?n < 1048576\<close> [OF that] small "1.prems"(4) by linarith
  qed (use that n(1) "1.prems"(3) in simp_all)
  have next_size: "?n = 4069 * 2 ^ Suc j" "c + 1 = Suc j" using n(1) "1.prems"(3) by simp_all
  show ?case
  proof (cases "k_conf k ?n")
    case (ConfError e)
    have e: "e = EOVERFLOW"
      using "1.prems"(1) alloc ConfError by (cases "e = EOVERFLOW") (simp_all add: conf_loop.simps [of k b c] throw_default_eq Let_def)
    show ?thesis
    proof (cases "?n < 1048576")
      case True
      then have rec: "conf_loop k ?n (c + 1) = Inr (n, buf, len, calls)"
        using "1.prems"(1) alloc ConfError n(2) e by (simp add: conf_loop.simps [of k b c] Let_def)
      show ?thesis
        by (rule "1.IH"(1) [OF refl _ ConfError _ _ rec next_size]) (use alloc e True n(2) small in blast)+
    next
      case False
      then have "n = ?n \<and> buf = replicate ?n 0 \<and> len = ?n \<and> calls = c + 1"
        using "1.prems"(1) alloc ConfError e by (auto simp: conf_loop.simps [of k b c] Let_def)
      then show ?thesis using False by (intro stop) simp_all
    qed
  next
    case (ConfArray a)
    show ?thesis
    proof (cases "length (take ?n a) = ?n \<and> ?n < 1048576 \<and> 0 < ?n")
      case True
      then have rec: "conf_loop k ?n (c + 1) = Inr (n, buf, len, calls)"
        using "1.prems"(1) alloc ConfArray by (simp add: conf_loop.simps [of k b c] Let_def)
      show ?thesis
        by (rule "1.IH"(2) [OF refl _ ConfArray refl _ rec next_size]) (use alloc True small in blast)+
    next
      case False
      then have "n = ?n \<and> buf = take ?n a @ replicate (?n - length (take ?n a)) 0 \<and> len = length (take ?n a) \<and> calls = c + 1"
        using "1.prems"(1) alloc ConfArray
        by (simp only: conf_loop.simps [of k b c] Let_def conf_answer.case if_False not_not simp_thms if_True prod.inject sum.inject) blast
      then show ?thesis using False n(2) by (intro stop) auto
    qed
  qed
qed

section \<open>The elements\<close>

lemma nth_blit:
  "off + length bs \<le> length buf \<Longrightarrow> k < length buf \<Longrightarrow>
     blit buf off bs ! k = (if off \<le> k \<and> k < off + length bs then bs ! (k - off) else buf ! k)"
  by (auto simp: blit_def nth_append min_def)

definition window :: "byte list \<Rightarrow> nat \<Rightarrow> nat \<Rightarrow> byte list" where
  "window buf off n = take n (drop off buf)"

lemma window_blit_other:
  assumes "off + length bs \<le> length buf" "o' + n \<le> length buf" "o' + n \<le> off \<or> off + length bs \<le> o'"
  shows "window (blit buf off bs) o' n = window buf o' n"
  using assms by (intro nth_equalityI) (auto simp: window_def nth_blit)

lemma window_blit_same: "off + length bs \<le> length buf \<Longrightarrow> window (blit buf off bs) off (length bs) = bs"
  by (simp add: window_def blit_def)

lemma window_window: "i + m \<le> n \<Longrightarrow> window (window buf off n) i m = window buf (off + i) m"
  by (simp add: window_def drop_take min_def add.commute)

lemma ifr_name_window:
  assumes "0 \<in> set (window buf off 16)"
  shows "ifr_name buf off = map (\<lambda>b. char_of (unat b)) (takeWhile (\<lambda>b. b \<noteq> 0) (window buf off 16))"
proof -
  have "drop off buf = window buf off 16 @ drop 16 (drop off buf)" by (simp add: window_def del: drop_drop)
  then have "takeWhile (\<lambda>b. b \<noteq> 0) (drop off buf) = takeWhile (\<lambda>b. b \<noteq> 0) (window buf off 16)"
    using assms takeWhile_append1 [of 0 "window buf off 16" "\<lambda>b. b \<noteq> 0"] by metis
  then show ?thesis by (simp add: ifr_name_def)
qed

text \<open>A buffer of \<open>n\<close> elements with terminated names.\<close>

definition wf_items :: "nat \<Rightarrow> byte list \<Rightarrow> bool" where
  "wf_items n buf \<longleftrightarrow> sizeof_ifreq * n \<le> length buf \<and> (\<forall>i<n. 0 \<in> set (window buf (sizeof_ifreq * i) 16))"

definition item_name :: "byte list \<Rightarrow> nat \<Rightarrow> string" where
  "item_name buf i = ifr_name buf (sizeof_ifreq * i)"

lemma apart: "i \<noteq> j \<Longrightarrow> sizeof_ifreq * i + 40 \<le> sizeof_ifreq * j \<or> sizeof_ifreq * j + 40 \<le> sizeof_ifreq * i"
  unfolding sizeof_ifreq_def by presburger

lemma store_union:
  assumes "wf_items n buf" "i < n" "length u = 24"
  shows "length (blit buf (sizeof_ifreq * i + 16) u) = length buf"
    and "wf_items n (blit buf (sizeof_ifreq * i + 16) u)"
    and "j < n \<Longrightarrow> item_name (blit buf (sizeof_ifreq * i + 16) u) j = item_name buf j"
    and "j < n \<Longrightarrow> window (blit buf (sizeof_ifreq * i + 16) u) (sizeof_ifreq * j + 16) 24 =
      (if j = i then u else window buf (sizeof_ifreq * j + 16) 24)"
proof -
  have room: "sizeof_ifreq * j + 40 \<le> length buf" if "j < n" for j
    using assms(1) that mult_le_mono2 [of "Suc j" n sizeof_ifreq] by (simp add: wf_items_def sizeof_ifreq_def)
  let ?b = "blit buf (sizeof_ifreq * i + 16) u"
  show len: "length ?b = length buf" using room [OF assms(2)] assms(3) by simp
  have fit: "sizeof_ifreq * i + 16 + length u \<le> length buf" using room [OF assms(2)] assms(3) by linarith
  have before: "sizeof_ifreq * j + 16 \<le> sizeof_ifreq * i + 16 \<or> sizeof_ifreq * i + 16 + length u \<le> sizeof_ifreq * j" for j
    using apart [of i j] assms(3) by (cases "i = j") (simp, linarith)
  have other: "sizeof_ifreq * j + 16 + 24 \<le> sizeof_ifreq * i + 16 \<or> sizeof_ifreq * i + 16 + length u \<le> sizeof_ifreq * j + 16"
    if "j \<noteq> i" for j
    using apart [of i j] assms(3) that by linarith
  have name: "window ?b (sizeof_ifreq * j) 16 = window buf (sizeof_ifreq * j) 16" if "j < n" for j
    using room [OF that] by (intro window_blit_other [OF fit _ before]) linarith
  then show wf: "wf_items n ?b" using assms(1) len by (simp add: wf_items_def)
  show "j < n \<Longrightarrow> item_name ?b j = item_name buf j"
    using name wf assms(1) by (simp add: item_name_def ifr_name_window wf_items_def)
  show "j < n \<Longrightarrow> window ?b (sizeof_ifreq * j + 16) 24 = (if j = i then u else window buf (sizeof_ifreq * j + 16) 24)"
    using room [of j] window_blit_same [OF fit] window_blit_other [OF fit _ other, of j] assms(3) by auto
qed

section \<open>The map of names\<close>

definition wf_map :: "if_map \<Rightarrow> bool" where
  "wf_map m \<longleftrightarrow> sorted_wrt (<) (map fst m)"

lemma map_push_keys: "set (map fst (map_push nm off m)) = insert nm (set (map fst m))"
  by (induction nm off m rule: map_push.induct) auto

lemma map_push_wf: "wf_map m \<Longrightarrow> wf_map (map_push nm off m)"
proof (induction nm off m rule: map_push.induct)
  case (2 nm off x offs m)
  have "wf_map m" using 2(2) by (simp add: wf_map_def)
  then show ?case
    using 2 map_push_keys [of nm off m] by (auto simp: wf_map_def)
qed (simp add: wf_map_def)

lemma map_push_entries:
  "(y, os) \<in> set (map_push nm off m) \<Longrightarrow>
     (y, os) \<in> set m \<or> y = nm \<and> (os = [off] \<or> (\<exists>os'. (nm, os') \<in> set m \<and> os = os' @ [off]))"
  by (induction nm off m rule: map_push.induct) (auto split: if_splits)

section \<open>The scan\<close>

text \<open>What the system calls promise: unions of the right size, and one answer per name.\<close>

definition wf_kernel :: "kernel \<Rightarrow> bool" where
  "wf_kernel k \<longleftrightarrow> (\<forall>nm u. k_addr k nm = Some u \<longrightarrow> length u = 24) \<and> (\<forall>nm u. k_hwaddr k nm = Some u \<longrightarrow> length u = 24)"

definition listed :: "kernel \<Rightarrow> string \<Rightarrow> bool" where
  "listed k nm \<longleftrightarrow> k_addr k nm \<noteq> None \<and> k_hwaddr k nm \<noteq> None"

text \<open>After the first \<open>i\<close> elements.\<close>

definition scan_inv :: "kernel \<Rightarrow> nat \<Rightarrow> byte list \<Rightarrow> nat \<Rightarrow> byte list \<times> if_map \<Rightarrow> bool" where
  "scan_inv k n buf0 i bm \<longleftrightarrow> (case bm of (buf, m) \<Rightarrow>
     wf_items n buf \<and> (\<forall>j<n. item_name buf j = item_name buf0 j) \<and> wf_map m \<and>
     set (map fst m) = {item_name buf0 j | j. j < i \<and> listed k (item_name buf0 j)} \<and>
     (\<forall>(nm, offs) \<in> set m. offs \<noteq> [] \<and> (\<forall>off \<in> set offs. \<exists>j<i. off = sizeof_ifreq * j \<and> nm = item_name buf0 j \<and>
        k_hwaddr k nm = Some (window buf (off + 16) 24))))"

lemma scan_item_inv:
  assumes k: "wf_kernel k" and i: "i < n" and inv: "scan_inv k n buf0 i (buf, m)"
  shows "scan_inv k n buf0 (Suc i) (scan_item k (sizeof_ifreq * i) (buf, m))"
proof -
  let ?off = "sizeof_ifreq * i" and ?nm = "item_name buf0 i"
  have wf: "wf_items n buf" and names: "\<And>j. j < n \<Longrightarrow> item_name buf j = item_name buf0 j" and map: "wf_map m"
    and keys: "set (map fst m) = {item_name buf0 j | j. j < i \<and> listed k (item_name buf0 j)}"
    and items: "\<And>nm offs off. (nm, offs) \<in> set m \<Longrightarrow> off \<in> set offs \<Longrightarrow> \<exists>j<i. off = sizeof_ifreq * j \<and> nm = item_name buf0 j \<and>
        k_hwaddr k nm = Some (window buf (off + 16) 24)"
    and some: "\<And>nm offs. (nm, offs) \<in> set m \<Longrightarrow> offs \<noteq> []"
    using inv unfolding scan_inv_def by blast+
  have nm: "ifr_name buf ?off = ?nm" using names [OF i] by (simp add: item_name_def)
  have step: "{item_name buf0 j | j. j < Suc i \<and> listed k (item_name buf0 j)} =
      (if listed k ?nm then insert ?nm (set (map fst m)) else set (map fst m))"
    unfolding keys by (auto simp: less_Suc_eq)
  have frame: "scan_inv k n buf0 (Suc i) (b, m)"
    if b: "wf_items n b" "\<And>j. j < n \<Longrightarrow> item_name b j = item_name buf0 j"
        "\<And>j. j < i \<Longrightarrow> window b (sizeof_ifreq * j + 16) 24 = window buf (sizeof_ifreq * j + 16) 24"
      and "\<not> listed k ?nm" for b
    unfolding scan_inv_def prod.case step
  proof (intro conjI ballI)
    fix e
    assume e: "e \<in> set m"
    obtain x offs where x: "e = (x, offs)" by (cases e)
    have "\<exists>j<Suc i. off = sizeof_ifreq * j \<and> x = item_name buf0 j \<and> k_hwaddr k x = Some (window b (off + 16) 24)"
      if off: "off \<in> set offs" for off
    proof -
      obtain j where j: "j < i" "off = sizeof_ifreq * j" "x = item_name buf0 j" "k_hwaddr k x = Some (window buf (off + 16) 24)"
        using items [OF e [unfolded x] off] by blast
      then have "k_hwaddr k x = Some (window b (off + 16) 24)" using b(3) by simp
      then show ?thesis using j less_SucI by blast
    qed
    then show "case e of (x, offs) \<Rightarrow> offs \<noteq> [] \<and> (\<forall>off \<in> set offs. \<exists>j<Suc i. off = sizeof_ifreq * j \<and> x = item_name buf0 j \<and>
        k_hwaddr k x = Some (window b (off + 16) 24))"
      using some [OF e [unfolded x]] unfolding x by blast
  qed (use that map in simp_all)
  show ?thesis
  proof (cases "k_addr k ?nm")
    case None
    then show ?thesis
      using frame [OF wf names] nm by (simp add: scan_item_def ifreq_ioctl_def listed_def)
  next
    case (Some u)
    let ?b1 = "blit buf (?off + 16) u"
    note s1 = store_union [OF wf i, of u]
    have u: "length u = 24" using k Some by (simp add: wf_kernel_def)
    have b1: "wf_items n ?b1" "\<And>j. j < n \<Longrightarrow> item_name ?b1 j = item_name buf0 j"
      using s1(2,3) [OF u] names by simp_all
    have nm1: "ifr_name ?b1 ?off = ?nm" using b1(2) [OF i] by (simp add: item_name_def)
    show ?thesis
    proof (cases "k_hwaddr k ?nm")
      case None
      then show ?thesis
        using frame [OF b1] s1(4) [OF u] nm nm1 Some i by (simp add: scan_item_def ifreq_ioctl_def listed_def)
    next
      case hw: (Some v)
      let ?b2 = "blit ?b1 (?off + 16) v"
      note s2 = store_union [OF b1(1) i, of v]
      have v: "length v = 24" using k hw by (simp add: wf_kernel_def)
      have "scan_item k ?off (buf, m) = (?b2, map_push ?nm ?off m)"
        using Some hw nm nm1 by (simp add: scan_item_def ifreq_ioctl_def)
      moreover have "scan_inv k n buf0 (Suc i) (?b2, map_push ?nm ?off m)"
        unfolding scan_inv_def prod.case step
      proof (intro conjI ballI)
        show "wf_items n ?b2" by (rule s2(2) [OF v])
        show "\<forall>j<n. item_name ?b2 j = item_name buf0 j" using s2(3) [OF v] b1(2) by simp
        show "wf_map (map_push ?nm ?off m)" by (rule map_push_wf [OF map])
        show "set (map fst (map_push ?nm ?off m)) =
            (if listed k ?nm then insert ?nm (set (map fst m)) else set (map fst m))"
          using Some hw unfolding map_push_keys by (simp add: listed_def)
        have win: "window ?b2 (sizeof_ifreq * j + 16) 24 = (if j = i then v else window buf (sizeof_ifreq * j + 16) 24)" if "j < n" for j
          using s2(4) [OF v that] s1(4) [OF u that] by simp
        have old: "\<exists>j<Suc i. off = sizeof_ifreq * j \<and> x = item_name buf0 j \<and> k_hwaddr k x = Some (window ?b2 (off + 16) 24)"
          if old: "(x, offs) \<in> set m" "off \<in> set offs" for x offs off
        proof -
          obtain j where "j < i" "off = sizeof_ifreq * j" "x = item_name buf0 j" "k_hwaddr k x = Some (window buf (off + 16) 24)"
            using items [OF old] by blast
          then have "j < Suc i" "k_hwaddr k x = Some (window ?b2 (off + 16) 24)" using win [of j] i by auto
          then show ?thesis using \<open>off = sizeof_ifreq * j\<close> \<open>x = item_name buf0 j\<close> by blast
        qed
        have new: "\<exists>j<Suc i. ?off = sizeof_ifreq * j \<and> ?nm = item_name buf0 j \<and> k_hwaddr k ?nm = Some (window ?b2 (?off + 16) 24)"
          using win [OF i] hw by auto
        fix e
        assume e: "e \<in> set (map_push ?nm ?off m)"
        obtain x offs where x: "e = (x, offs)" by (cases e)
        let ?Q = "\<lambda>x off. \<exists>j<Suc i. off = sizeof_ifreq * j \<and> x = item_name buf0 j \<and> k_hwaddr k x = Some (window ?b2 (off + 16) 24)"
        have "offs \<noteq> [] \<and> (\<forall>off \<in> set offs. ?Q x off)"
          using map_push_entries [OF e [unfolded x]]
        proof (elim disjE conjE exE)
          assume "(x, offs) \<in> set m"
          then show ?thesis using old some by blast
        next
          assume "x = ?nm" "offs = [?off]"
          then show ?thesis using new by (simp only: list.set list.distinct simp_thms) blast
        next
          fix os'
          assume "x = ?nm" "(?nm, os') \<in> set m" "offs = os' @ [?off]"
          then show ?thesis using new old [of ?nm os'] by (simp only: set_append list.set ball_Un append_is_Nil_conv list.distinct simp_thms) blast
        qed
        then show "case e of (x, offs) \<Rightarrow> offs \<noteq> [] \<and> (\<forall>off \<in> set offs. ?Q x off)" unfolding x prod.case .
      qed
      ultimately show ?thesis by simp
    qed
  qed
qed

lemma scan_items_inv:
  assumes "wf_kernel k" "wf_items (len div sizeof_ifreq) buf"
  shows "scan_inv k (len div sizeof_ifreq) buf (len div sizeof_ifreq) (scan_items k len buf)"
proof -
  let ?n = "len div sizeof_ifreq" and ?f = "\<lambda>i. scan_item k (sizeof_ifreq * i)"
  have "scan_inv k ?n buf j (fold ?f [0 ..< j] (buf, []))" if "j \<le> ?n" for j
    using that
  proof (induction j)
    case 0
    then show ?case using assms(2) by (simp add: scan_inv_def wf_map_def)
  next
    case (Suc j)
    then show ?case
      using scan_item_inv [OF assms(1), of j ?n buf "fst (fold ?f [0 ..< j] (buf, []))" "snd (fold ?f [0 ..< j] (buf, []))"]
      by simp
  qed
  then show ?thesis by (simp add: scan_items_def)
qed

lemma union_members:
  "sa_family e buf off = load16 e (take 2 (window buf (off + 16) 24))"
  "ifr_mtu e buf off = sint (load32 e (take 4 (window buf (off + 16) 24)))"
  "hw_sa_data buf off = take 6 (drop 2 (window buf (off + 16) 24))"
  by (simp_all add: sa_family_def ifr_mtu_def hw_sa_data_def window_def min_def drop_take add.commute)

section \<open>Properties\<close>

text \<open>
  The buffer for the interface list is doubled at most nine times and stays within 2083328
  bytes, about twice the limit the code names; a list that may have been cut off is only accepted
  at that size. Any failing call ends in undefined behaviour instead of an exception.
\<close>

theorem interface_buffer_bounds:
  "(\<forall>n buf len calls. if_buffer k = Inr (n, buf, len, calls) \<longrightarrow>
      calls \<le> 9 \<and> n = 4069 * 2 ^ calls \<and> n \<le> 2083328 \<and> length buf = n \<and> len \<le> n \<and> (len = n \<longrightarrow> n = 2083328)) \<and>
   (\<forall>e. if_buffer k = Inl e \<longrightarrow> e = UB NullString) \<and>
   (if_buffer k = Inl (UB NullString) \<longleftrightarrow> (\<exists>r. if_buffer k = Inl r)) \<and>
   (\<not> k_socket k \<longrightarrow> NetInterface_all k = Inl (UB NullString))"
proof -
  have err: "conf_loop k b c = Inl e \<Longrightarrow> e = UB NullString" for b c e
  proof (induction k b c rule: conf_loop.induct)
    case (1 k b c)
    let ?n = "b * 2"
    show ?case
    proof (cases "k_calloc k ?n")
      case True
      show ?thesis
      proof (cases "k_conf k ?n")
        case (ConfError e')
        show ?thesis
        proof (cases "e' = EOVERFLOW \<and> ?n < 1048576 \<and> 0 < ?n")
          case more: True
          then have rec: "conf_loop k ?n (c + 1) = Inl e"
            using "1.prems" True ConfError by (simp add: conf_loop.simps [of k b c] Let_def)
          show ?thesis by (rule "1.IH"(1) [OF refl _ ConfError _ _ rec]) (use True more in blast)+
        next
          case False
          then show ?thesis
            using "1.prems" True ConfError by (auto simp: conf_loop.simps [of k b c] Let_def throw_default_eq split: if_splits)
        qed
      next
        case (ConfArray a)
        show ?thesis
        proof (cases "length (take ?n a) = ?n \<and> ?n < 1048576 \<and> 0 < ?n")
          case more: True
          then have rec: "conf_loop k ?n (c + 1) = Inl e"
            using "1.prems" True ConfArray by (simp add: conf_loop.simps [of k b c] Let_def)
          show ?thesis by (rule "1.IH"(2) [OF refl _ ConfArray refl _ rec]) (use True more in blast)+
        next
          case False
          then show ?thesis
            using "1.prems" True ConfArray
            by (simp only: conf_loop.simps [of k b c] Let_def conf_answer.case if_False not_not simp_thms if_True sum.distinct)
        qed
      qed
    qed (use "1.prems" in \<open>simp add: conf_loop.simps [of k b c] Let_def throw_default_eq\<close>)
  qed
  have "calls \<le> 9 \<and> n = 4069 * 2 ^ calls \<and> n \<le> 2083328 \<and> length buf = n \<and> len \<le> n \<and> (len = n \<longrightarrow> n = 2083328)"
    if run: "if_buffer k = Inr (n, buf, len, calls)" for n buf len calls
  proof -
    have start: "(4069::nat) = 4069 * 2 ^ 0" by simp
    have *: "calls \<le> 9" "n = 4069 * 2 ^ calls" "length buf = n" "len \<le> n" "len = n \<longrightarrow> calls = 9"
      using conf_loop_result [OF run [unfolded if_buffer_def] start refl zero_le] by blast+
    then have "(2::nat) ^ calls \<le> 2 ^ 9" by (intro power_increasing) simp_all
    then have le: "n \<le> 2083328" using *(2) by simp
    have "n = 2083328" if "len = n"
    proof -
      have "calls = 9" using *(5) that by blast
      then show ?thesis using *(2) by simp
    qed
    with * le show ?thesis by blast
  qed
  with err show ?thesis by (auto simp: if_buffer_def NetInterface_all_def throw_default_eq)
qed

text \<open>
  C30: The whole enumeration. When the list can be had, every interface the kernel gives both an
  address and a hardware address for is reported once, in the order of the names, with its
  hardware address. But the answer to the second question overwrites that to the first: the
  address family that is looked at is the hardware type, so unless a hardware type happens to have
  the number of an address family, no interface has any address, broadcast address or netmask,
  and the MTU is four bytes of the hardware type and address.
\<close>

theorem NetInterface_all_outcome:
  assumes sys: "wf_kernel k" "k_socket k" and buf: "if_buffer k = Inr (n, buf, len, calls)"
    and names: "wf_items (len div sizeof_ifreq) buf"
    and hw: "\<forall>nm u. k_hwaddr k nm = Some u \<longrightarrow> load16 (k_endian k) (take 2 u) \<notin> {AF_INET, AF_INET6}"
  shows "\<exists>ifs. NetInterface_all k = Inr ifs \<and> sorted_wrt (<) (map ifname ifs) \<and>
    set (map ifname ifs) = {item_name buf j | j. j < len div sizeof_ifreq \<and> listed k (item_name buf j)} \<and>
    (\<forall>i \<in> set ifs. NetInterface_address i = {} \<and> NetInterface_broadcast i = {} \<and> NetInterface_netmask i = {} \<and>
       (\<exists>u. k_hwaddr k (ifname i) = Some u \<and> ifmac i = map (\<lambda>b. char_of (unat b)) (take 6 (drop 2 u)) \<and>
          NetInterface_mtu i = sint (load32 (k_endian k) (take 4 u))))"
proof -
  let ?e = "k_endian k"
  obtain b m where scan: "scan_items k len buf = (b, m)" by (cases "scan_items k len buf")
  have inv: "scan_inv k (len div sizeof_ifreq) buf (len div sizeof_ifreq) (b, m)"
    using scan_items_inv [OF sys(1) names] scan by simp
  then have keys: "set (map fst m) = {item_name buf j | j. j < len div sizeof_ifreq \<and> listed k (item_name buf j)}"
    and sorted: "wf_map m"
    by (simp_all add: scan_inv_def)
  have entry: "\<exists>u. NetInterface_new ?e b offs = Inr \<lparr>ifname = nm, ni_addr = [],
        ifmac = map (\<lambda>b. char_of (unat b)) (take 6 (drop 2 u)), ifmtu = sint (load32 ?e (take 4 u))\<rparr> \<and> k_hwaddr k nm = Some u"
    if "(nm, offs) \<in> set m" for nm offs
  proof -
    have offs: "offs \<noteq> []" "\<And>off. off \<in> set offs \<Longrightarrow> \<exists>j<len div sizeof_ifreq. off = sizeof_ifreq * j \<and>
        nm = item_name buf j \<and> k_hwaddr k nm = Some (window b (off + 16) 24)"
      and same: "\<And>j. j < len div sizeof_ifreq \<Longrightarrow> item_name b j = item_name buf j"
      using inv that by (auto simp: scan_inv_def)
    then obtain first rest u where first: "offs = first # rest" "k_hwaddr k nm = Some u" "window b (first + 16) 24 = u"
        "ifr_name b first = nm"
      by (cases offs) (force simp: item_name_def)+
    have fam: "sa_family ?e b off \<notin> {AF_INET, AF_INET6}" if "off \<in> set offs" for off
      using offs(2) [OF that] hw by (auto simp: union_members(1))
    then have "items_addr ?e b os = Inr []" if "set os \<subseteq> set offs" for os
      using that by (induction os) (auto simp: item_addr_def)
    then have "items_addr ?e b offs = Inr []" by blast
    then have "items_addr ?e b (first # rest) = Inr []" by (simp only: first(1))
    then show ?thesis
      using first by (simp add: NetInterface_new_def union_members(2,3) del: items_addr.simps)
  qed
  define mk where "mk = (\<lambda>(nm :: string, offs). case NetInterface_new ?e b offs of Inl _ \<Rightarrow> None | Inr i \<Rightarrow> Some i)"
  have mk: "\<exists>i. mk x = Some i \<and> ifname i = fst x \<and> ni_addr i = [] \<and> (\<exists>u. k_hwaddr k (ifname i) = Some u \<and>
      ifmac i = map (\<lambda>b. char_of (unat b)) (take 6 (drop 2 u)) \<and> ifmtu i = sint (load32 ?e (take 4 u)))" if "x \<in> set m" for x
    using entry [of "fst x" "snd x"] that by (auto simp: mk_def case_prod_unfold)
  have ifs: "map ifname (List.map_filter mk xs) = map fst xs \<and> (\<forall>i \<in> set (List.map_filter mk xs). ni_addr i = [] \<and>
      (\<exists>u. k_hwaddr k (ifname i) = Some u \<and> ifmac i = map (\<lambda>b. char_of (unat b)) (take 6 (drop 2 u)) \<and>
        ifmtu i = sint (load32 ?e (take 4 u))))" if "set xs \<subseteq> set m" for xs
    using that
  proof (induction xs)
    case (Cons x xs)
    then show ?case using mk [of x] by (auto simp: List.map_filter_simps)
  qed (simp add: List.map_filter_simps)
  have "NetInterface_all k = Inr (List.map_filter mk m)"
    using sys(2) buf scan by (simp add: NetInterface_all_def mk_def)
  moreover have "map ifname (List.map_filter mk m) = map fst m" using ifs [OF order_refl] by blast
  ultimately show ?thesis
    using ifs [OF order_refl] keys sorted
    by (intro exI [of _ "List.map_filter mk m"] conjI)
      (simp_all add: wf_map_def NetInterface_address_def NetInterface_broadcast_def NetInterface_netmask_def
        NetInterface_mtu_def del: set_map)
qed

text \<open>An Ethernet interface with one address, on a little-endian host.\<close>

definition kernel0 :: kernel where
  "kernel0 = \<lparr>k_endian = LittleEndian, k_socket = True, k_calloc = (\<lambda>_. True),
     k_conf = (\<lambda>_. ConfArray ([101, 116, 104, 48] @ replicate 36 0)),
     k_addr = (\<lambda>nm. Some ([2, 0, 0, 0, 10, 0, 0, 1] @ replicate 16 0)),
     k_hwaddr = (\<lambda>nm. Some ([1, 0, 2, 66, 10, 0, 0, 1] @ replicate 16 0)),
     k_strerr = (\<lambda>_. ''no''), k_alloc = None, k_errno = 0\<rparr>"

lemma if_buffer_short:
  assumes "k_conf k 8138 = ConfArray a" "length a = 40" "k_calloc k 8138"
  shows "if_buffer k = Inr (8138, a @ replicate 8098 0, 40, 1)"
  using assms by (simp add: if_buffer_def conf_loop.simps)

lemma kernel0_facts: "wf_kernel kernel0" "k_socket kernel0" "listed kernel0 nm"
  "\<forall>nm u. k_hwaddr kernel0 nm = Some u \<longrightarrow> load16 (k_endian kernel0) (take 2 u) \<notin> {AF_INET, AF_INET6}"
  by (auto simp: wf_kernel_def listed_def kernel0_def load16_def AF_INET_def AF_INET6_def)

lemma kernel0_buffer:
  "\<exists>buf. if_buffer kernel0 = Inr (8138, buf, 40, 1) \<and> wf_items 1 buf \<and> item_name buf 0 = ''eth0''"
proof -
  let ?a = "[101, 116, 104, 48 :: byte] @ replicate 36 0"
  have "if_buffer kernel0 = Inr (8138, ?a @ replicate 8098 0, 40, 1)"
    by (rule if_buffer_short) (simp_all add: kernel0_def)
  moreover have "map (\<lambda>b. char_of (unat b)) [101, 116, 104, 48 :: byte] = ''eth0''" by code_simp
  then have "item_name (?a @ replicate 8098 0) 0 = ''eth0''" by (simp add: item_name_def ifr_name_def)
  moreover have "wf_items 1 (?a @ replicate 8098 0)" by (simp add: wf_items_def sizeof_ifreq_def window_def)
  ultimately show ?thesis by blast
qed

theorem NetInterface_all_outcome_witness:
  "\<exists>i. NetInterface_all kernel0 = Inr [i] \<and> ifname i = ''eth0'' \<and> NetInterface_address i = {}"
proof -
  obtain buf where buf: "if_buffer kernel0 = Inr (8138, buf, 40, 1)" and items: "wf_items 1 buf" "item_name buf 0 = ''eth0''"
    using kernel0_buffer by blast
  have one: "40 div sizeof_ifreq = 1" by (simp add: sizeof_ifreq_def)
  then have wf: "wf_items (40 div sizeof_ifreq) buf" using items(1) by simp
  note NetInterface_all_outcome [OF kernel0_facts(1,2) buf wf kernel0_facts(4)]
  then obtain ifs where ifs: "NetInterface_all kernel0 = Inr ifs" "sorted_wrt (<) (map ifname ifs)"
      "set (map ifname ifs) = {item_name buf j | j. j < 40 div sizeof_ifreq \<and> listed kernel0 (item_name buf j)}"
      "\<forall>i \<in> set ifs. NetInterface_address i = {} \<and> NetInterface_broadcast i = {} \<and> NetInterface_netmask i = {} \<and>
       (\<exists>u. k_hwaddr kernel0 (ifname i) = Some u \<and> ifmac i = map (\<lambda>b. char_of (unat b)) (take 6 (drop 2 u)) \<and>
          NetInterface_mtu i = sint (load32 (k_endian kernel0) (take 4 u)))"
    by (elim exE conjE)
  have "{item_name buf j | j. j < 40 div sizeof_ifreq \<and> listed kernel0 (item_name buf j)} = {''eth0''}"
    unfolding one using items(2) kernel0_facts(3) by auto
  then have "set (map ifname ifs) = {''eth0''}" using ifs(3) by (simp del: set_map)
  then have "map ifname ifs = [''eth0'']"
    using ifs(2) by (cases "map ifname ifs"; cases "tl (map ifname ifs)") auto
  then show ?thesis using ifs(1,4) by (cases ifs) auto
qed

theorem interface_buffer_bounds_witness:
  "\<exists>n buf len calls. if_buffer kernel0 = Inr (n, buf, len, calls) \<and> n = 4069 * 2 ^ calls \<and> len < n \<and> length buf = n"
proof -
  obtain buf where buf: "if_buffer kernel0 = Inr (8138, buf, 40, 1)"
    using kernel0_buffer by blast
  note bounds = interface_buffer_bounds [of kernel0, THEN conjunct1, rule_format, OF buf]
  show ?thesis
  proof (intro exI conjI)
    show "if_buffer kernel0 = Inr (8138, buf, 40, 1)" by (rule buf)
    show "(8138::nat) = 4069 * 2 ^ (1::nat)" using bounds by (elim conjE)
    show "length buf = 8138" using bounds by (elim conjE)
  qed simp
qed

end
