(* ===== verification/IntAdapter.thy ===== *)
theory IntAdapter imports Prelude "HOL-Library.Signed_Division" begin

text \<open>
  \<open>boost::date_time::int_adapter\<close>, the integers with infinities and a not-a-number value that dates
  and times are counted with (\<open>external/boost/date_time/int_adapter.hpp\<close>), and its refinement of
  extended integers.
\<close>

section \<open>The code\<close>

text \<open>
  The template's parameter, as the limits of its type. A value is the integer that is stored;
  arithmetic on a signed type that leaves the type is undefined.
\<close>

record limits =
  lim_min :: int
  lim_max :: int

definition int64_limits :: limits where
  "int64_limits = \<lparr>lim_min = - (2 ^ 63), lim_max = 2 ^ 63 - 1\<rparr>"

definition uint32_limits :: limits where
  "uint32_limits = \<lparr>lim_min = 0, lim_max = 2 ^ 32 - 1\<rparr>"

definition is_signed :: "limits \<Rightarrow> bool" where
  "is_signed L \<longleftrightarrow> lim_min L < 0"

datatype special_values = not_a_date_time | neg_infin | pos_infin | min_date_time | max_date_time | not_special

text \<open>What an expression of the type gives: unsigned types wrap around.\<close>

definition ia_result :: "limits \<Rightarrow> int \<Rightarrow> int result" where
  "ia_result L v =
     (if is_signed L then (if lim_min L \<le> v \<and> v \<le> lim_max L then Inr v else Inl (UB SignedOverflow))
      else Inr (v mod (lim_max L + 1)))"

definition pos_infinity :: "limits \<Rightarrow> int" where "pos_infinity L = lim_max L"
definition neg_infinity :: "limits \<Rightarrow> int" where "neg_infinity L = lim_min L"
definition not_a_number :: "limits \<Rightarrow> int" where "not_a_number L = lim_max L - 1"
definition ia_max :: "limits \<Rightarrow> int" where "ia_max L = lim_max L - 2"
definition ia_min :: "limits \<Rightarrow> int" where "ia_min L = lim_min L + 1"
definition maxcount :: "limits \<Rightarrow> int" where "maxcount L = lim_max L - 3"

definition from_special :: "limits \<Rightarrow> special_values \<Rightarrow> int" where
  "from_special L sv = (case sv of
     not_a_date_time \<Rightarrow> not_a_number L
   | neg_infin \<Rightarrow> neg_infinity L
   | pos_infin \<Rightarrow> pos_infinity L
   | max_date_time \<Rightarrow> ia_max L
   | min_date_time \<Rightarrow> ia_min L
   | not_special \<Rightarrow> not_a_number L)"

definition is_inf :: "limits \<Rightarrow> int \<Rightarrow> bool" where
  "is_inf L v \<longleftrightarrow> v = neg_infinity L \<or> v = pos_infinity L"

definition is_neg_inf :: "limits \<Rightarrow> int \<Rightarrow> bool" where "is_neg_inf L v \<longleftrightarrow> v = neg_infinity L"
definition is_pos_inf :: "limits \<Rightarrow> int \<Rightarrow> bool" where "is_pos_inf L v \<longleftrightarrow> v = pos_infinity L"
definition is_not_a_number :: "limits \<Rightarrow> int \<Rightarrow> bool" where "is_not_a_number L v \<longleftrightarrow> v = not_a_number L"

definition to_special :: "limits \<Rightarrow> int \<Rightarrow> special_values" where
  "to_special L v =
     (if is_not_a_number L v then not_a_date_time
      else if is_neg_inf L v then neg_infin
      else if is_pos_inf L v then pos_infin
      else not_special)"

definition is_special :: "limits \<Rightarrow> int \<Rightarrow> bool" where
  "is_special L v \<longleftrightarrow> is_inf L v \<or> is_not_a_number L v"

definition compare :: "limits \<Rightarrow> int \<Rightarrow> int \<Rightarrow> int" where
  "compare L a b =
     (if is_special L a \<or> is_special L b then
        if is_not_a_number L a \<or> is_not_a_number L b then
          (if is_not_a_number L a \<and> is_not_a_number L b then 0 else 2)
        else if is_neg_inf L a \<and> \<not> is_neg_inf L b \<or> is_pos_inf L b \<and> \<not> is_pos_inf L a then -1
        else if is_pos_inf L a \<and> \<not> is_pos_inf L b \<or> is_neg_inf L b \<and> \<not> is_neg_inf L a then 1
        else if a < b then -1 else if a > b then 1 else 0
      else if a < b then -1 else if a > b then 1 else 0)"

definition ia_equal :: "limits \<Rightarrow> int \<Rightarrow> int \<Rightarrow> bool" where "ia_equal L a b \<longleftrightarrow> compare L a b = 0"
definition ia_less :: "limits \<Rightarrow> int \<Rightarrow> int \<Rightarrow> bool" where "ia_less L a b \<longleftrightarrow> compare L a b = -1"
definition ia_greater :: "limits \<Rightarrow> int \<Rightarrow> int \<Rightarrow> bool" where "ia_greater L a b \<longleftrightarrow> compare L a b = 1"

text \<open>The comparisons with an \<open>int\<close>, which is converted to the type.\<close>

definition ia_of_int :: "limits \<Rightarrow> int \<Rightarrow> int" where
  "ia_of_int L r = (if is_signed L then r else r mod (lim_max L + 1))"

definition ia_equal_int :: "limits \<Rightarrow> int \<Rightarrow> int \<Rightarrow> bool" where
  "ia_equal_int L a r = (if \<not> is_signed L \<and> is_neg_inf L a \<and> r = 0 then False else compare L a (ia_of_int L r) = 0)"

definition ia_less_int :: "limits \<Rightarrow> int \<Rightarrow> int \<Rightarrow> bool" where
  "ia_less_int L a r = (if \<not> is_signed L \<and> is_neg_inf L a \<and> r = 0 then True else compare L a (ia_of_int L r) = -1)"

text \<open>Sums and differences; the right operand may be of another type \<open>R\<close>.\<close>

definition ia_add :: "limits \<Rightarrow> limits \<Rightarrow> int \<Rightarrow> int \<Rightarrow> int result" where
  "ia_add L R a b =
     (if is_special L a \<or> is_special R b then
        if is_not_a_number L a \<or> is_not_a_number R b then Inr (not_a_number L)
        else if is_pos_inf L a \<and> is_neg_inf R b \<or> is_neg_inf L a \<and> is_pos_inf R b then Inr (not_a_number L)
        else if is_inf L a then Inr a
        else if is_pos_inf R b then Inr (pos_infinity L)
        else if is_neg_inf R b then Inr (neg_infinity L)
        else ia_result L (a + b)
      else ia_result L (a + b))"

definition ia_add_int :: "limits \<Rightarrow> int \<Rightarrow> int \<Rightarrow> int result" where
  "ia_add_int L a r =
     (if is_special L a then
        if is_not_a_number L a then Inr (not_a_number L)
        else if is_inf L a then Inr a
        else ia_result L (a + r)
      else ia_result L (a + r))"

definition ia_sub :: "limits \<Rightarrow> limits \<Rightarrow> int \<Rightarrow> int \<Rightarrow> int result" where
  "ia_sub L R a b =
     (if is_special L a \<or> is_special R b then
        if is_not_a_number L a \<or> is_not_a_number R b then Inr (not_a_number L)
        else if is_pos_inf L a \<and> is_pos_inf R b \<or> is_neg_inf L a \<and> is_neg_inf R b then Inr (not_a_number L)
        else if is_inf L a then Inr a
        else if is_pos_inf R b then Inr (neg_infinity L)
        else if is_neg_inf R b then Inr (pos_infinity L)
        else ia_result L (a - b)
      else ia_result L (a - b))"

definition ia_sub_int :: "limits \<Rightarrow> int \<Rightarrow> int \<Rightarrow> int result" where
  "ia_sub_int L a r =
     (if is_special L a then
        if is_not_a_number L a then Inr (not_a_number L)
        else if is_inf L a then Inr a
        else ia_result L (a - r)
      else ia_result L (a - r))"

text \<open>Products and quotients with a special operand.\<close>

definition mult_div_specials :: "limits \<Rightarrow> int \<Rightarrow> int \<Rightarrow> int" where
  "mult_div_specials L a b =
     (let min_value = (if is_signed L then 0 else 1) in
      if is_not_a_number L a \<or> is_not_a_number L b then not_a_number L
      else if ia_greater L a 0 \<and> ia_greater L b 0 \<or> ia_less_int L a min_value \<and> ia_less_int L b min_value then pos_infinity L
      else if ia_greater L a 0 \<and> ia_less_int L b min_value \<or> ia_less_int L a min_value \<and> ia_greater L b 0 then neg_infinity L
      else not_a_number L)"

definition mult_div_specials_int :: "limits \<Rightarrow> int \<Rightarrow> int \<Rightarrow> int" where
  "mult_div_specials_int L a r =
     (let min_value = (if is_signed L then 0 else 1) in
      if is_not_a_number L a then not_a_number L
      else if ia_greater L a 0 \<and> r > 0 \<or> ia_less_int L a min_value \<and> r < 0 then pos_infinity L
      else if ia_greater L a 0 \<and> r < 0 \<or> ia_less_int L a min_value \<and> r > 0 then neg_infinity L
      else not_a_number L)"

definition ia_mult :: "limits \<Rightarrow> int \<Rightarrow> int \<Rightarrow> int result" where
  "ia_mult L a b = (if is_special L a \<or> is_special L b then Inr (mult_div_specials L a b) else ia_result L (a * b))"

definition ia_mult_int :: "limits \<Rightarrow> int \<Rightarrow> int \<Rightarrow> int result" where
  "ia_mult_int L a r = (if is_special L a then Inr (mult_div_specials_int L a r) else ia_result L (a * r))"

definition machine_div :: "limits \<Rightarrow> int \<Rightarrow> int \<Rightarrow> int result" where
  "machine_div L a b = (if b = 0 then Inl (UB DivByZero) else ia_result L (a sdiv b))"

definition machine_mod :: "limits \<Rightarrow> int \<Rightarrow> int \<Rightarrow> int result" where
  "machine_mod L a b = (if b = 0 then Inl (UB DivByZero)
     else if a = lim_min L \<and> b = -1 \<and> is_signed L then Inl (UB SignedOverflow) else ia_result L (a smod b))"

definition ia_div :: "limits \<Rightarrow> int \<Rightarrow> int \<Rightarrow> int result" where
  "ia_div L a b =
     (if is_special L a \<or> is_special L b then
        if is_inf L a \<and> is_inf L b then Inr (not_a_number L)
        else if \<not> ia_equal_int L b 0 then Inr (mult_div_specials L a b)
        else machine_div L a b
      else machine_div L a b)"

definition ia_div_int :: "limits \<Rightarrow> int \<Rightarrow> int \<Rightarrow> int result" where
  "ia_div_int L a r =
     (if is_special L a \<and> r \<noteq> 0 then Inr (mult_div_specials_int L a r) else machine_div L a (ia_of_int L r))"

definition ia_mod :: "limits \<Rightarrow> int \<Rightarrow> int \<Rightarrow> int result" where
  "ia_mod L a b =
     (if is_special L a \<or> is_special L b then
        if is_inf L a \<and> is_inf L b then Inr (not_a_number L)
        else if \<not> ia_equal_int L b 0 then Inr (mult_div_specials L a b)
        else machine_mod L a b
      else machine_mod L a b)"

definition ia_mod_int :: "limits \<Rightarrow> int \<Rightarrow> int \<Rightarrow> int result" where
  "ia_mod_int L a r =
     (if is_special L a \<and> r \<noteq> 0 then Inr (mult_div_specials_int L a r) else machine_mod L a (ia_of_int L r))"

section \<open>Extended integers\<close>

text \<open>What the type stands for.\<close>

datatype ext = NaN | NegInf | Fin int | PosInf

definition ext_of :: "limits \<Rightarrow> int \<Rightarrow> ext" where
  "ext_of L v =
     (if v = lim_max L - 1 then NaN else if v = lim_min L then NegInf else if v = lim_max L then PosInf else Fin v)"

fun ext_plus :: "ext \<Rightarrow> ext \<Rightarrow> ext" where
  "ext_plus NaN _ = NaN"
| "ext_plus _ NaN = NaN"
| "ext_plus PosInf NegInf = NaN"
| "ext_plus NegInf PosInf = NaN"
| "ext_plus PosInf _ = PosInf"
| "ext_plus NegInf _ = NegInf"
| "ext_plus _ PosInf = PosInf"
| "ext_plus _ NegInf = NegInf"
| "ext_plus (Fin a) (Fin b) = Fin (a + b)"

fun ext_minus :: "ext \<Rightarrow> ext" where
  "ext_minus NaN = NaN"
| "ext_minus PosInf = NegInf"
| "ext_minus NegInf = PosInf"
| "ext_minus (Fin a) = Fin (- a)"

fun ext_less :: "ext \<Rightarrow> ext \<Rightarrow> bool" where
  "ext_less NegInf (Fin _) = True"
| "ext_less NegInf PosInf = True"
| "ext_less (Fin _) PosInf = True"
| "ext_less (Fin a) (Fin b) = (a < b)"
| "ext_less _ _ = False"

fun ext_sgn :: "ext \<Rightarrow> int option" where
  "ext_sgn NaN = None"
| "ext_sgn PosInf = Some 1"
| "ext_sgn NegInf = Some (-1)"
| "ext_sgn (Fin a) = Some (sgn a)"

text \<open>The product, by signs when an operand is infinite.\<close>

definition ext_times :: "ext \<Rightarrow> ext \<Rightarrow> ext" where
  "ext_times a b = (case (a, b) of
     (Fin x, Fin y) \<Rightarrow> Fin (x * y)
   | _ \<Rightarrow> (case (ext_sgn a, ext_sgn b) of
        (Some s, Some t) \<Rightarrow> if s * t > 0 then PosInf else if s * t < 0 then NegInf else NaN
      | _ \<Rightarrow> NaN))"

definition ia_wf :: "limits \<Rightarrow> int \<Rightarrow> bool" where
  "ia_wf L v \<longleftrightarrow> lim_min L \<le> v \<and> v \<le> lim_max L"

lemmas ia_defs = pos_infinity_def neg_infinity_def not_a_number_def is_inf_def is_neg_inf_def is_pos_inf_def
  is_not_a_number_def is_special_def

lemma ext_of_cases:
  assumes "lim_min L < lim_max L - 1"
  shows "ext_of L (lim_max L - 1) = NaN" "ext_of L (lim_min L) = NegInf" "ext_of L (lim_max L) = PosInf"
    "\<not> is_special L v \<Longrightarrow> ext_of L v = Fin v" "is_special L v \<longleftrightarrow> (\<nexists>a. ext_of L v = Fin a)"
  using assms by (auto simp: ext_of_def ia_defs)

lemma ext_of_iff:
  assumes "lim_min L < lim_max L - 1"
  shows "ext_of L v = NaN \<longleftrightarrow> is_not_a_number L v" "ext_of L v = NegInf \<longleftrightarrow> is_neg_inf L v"
    "ext_of L v = PosInf \<longleftrightarrow> is_pos_inf L v" "ext_of L v = Fin a \<longleftrightarrow> \<not> is_special L v \<and> v = a"
  using assms by (auto simp: ext_of_def ia_defs)


section \<open>The operations refine extended integers\<close>

text \<open>How an extended integer is stored: a finite one as itself, if the type has it.\<close>

definition ext_store :: "limits \<Rightarrow> ext \<Rightarrow> int result" where
  "ext_store L e = (case e of
     NaN \<Rightarrow> Inr (not_a_number L) | NegInf \<Rightarrow> Inr (neg_infinity L) | PosInf \<Rightarrow> Inr (pos_infinity L)
   | Fin v \<Rightarrow> ia_result L v)"

text \<open>The finite values that are stored in a way that reads back as something else.\<close>

definition collides :: "limits \<Rightarrow> ext \<Rightarrow> bool" where
  "collides L e \<longleftrightarrow> e = Fin (lim_min L) \<or> e = Fin (lim_max L - 1) \<or> e = Fin (lim_max L)"

lemma ext_store_read:
  assumes "lim_min L < lim_max L - 1" "is_signed L" "ext_store L e = Inr c"
  shows "ext_of L c = e \<longleftrightarrow> \<not> collides L e"
  using assms
  by (cases e) (auto simp: ext_store_def collides_def ext_of_def ia_defs ia_result_def split: if_splits)

lemma ext_kind:
  assumes "lim_min L < lim_max L - 1"
  obtains
    (nan) "ext_of L a = NaN" "is_not_a_number L a" "\<not> is_inf L a" "\<not> is_pos_inf L a" "\<not> is_neg_inf L a" "is_special L a"
  | (neg) "ext_of L a = NegInf" "\<not> is_not_a_number L a" "is_inf L a" "\<not> is_pos_inf L a" "is_neg_inf L a" "is_special L a"
      "a = neg_infinity L"
  | (pos) "ext_of L a = PosInf" "\<not> is_not_a_number L a" "is_inf L a" "is_pos_inf L a" "\<not> is_neg_inf L a" "is_special L a"
      "a = pos_infinity L"
  | (fin) "ext_of L a = Fin a" "\<not> is_not_a_number L a" "\<not> is_inf L a" "\<not> is_pos_inf L a" "\<not> is_neg_inf L a"
      "\<not> is_special L a"
  using assms by (cases "ext_of L a") (auto simp: ext_of_def ia_defs split: if_splits)

lemma ia_add_store:
  assumes "lim_min L < lim_max L - 1" "lim_min R < lim_max R - 1"
  shows "ia_add L R a b = ext_store L (ext_plus (ext_of L a) (ext_of R b))"
  by (rule ext_kind [OF assms(1), of a]; rule ext_kind [OF assms(2), of b])
     (simp_all add: ia_add_def ext_store_def)

lemma ia_sub_store:
  assumes "lim_min L < lim_max L - 1" "lim_min R < lim_max R - 1"
  shows "ia_sub L R a b = ext_store L (ext_plus (ext_of L a) (ext_minus (ext_of R b)))"
  by (rule ext_kind [OF assms(1), of a]; rule ext_kind [OF assms(2), of b])
     (simp_all add: ia_sub_def ext_store_def)

lemma compare_ext:
  assumes "lim_min L < lim_max L - 1" "ia_wf L a" "ia_wf L b"
  shows "compare L a b =
     (if ext_of L a = ext_of L b then 0
      else if ext_of L a = NaN \<or> ext_of L b = NaN then 2
      else if ext_less (ext_of L a) (ext_of L b) then -1 else 1)"
  using assms by (auto simp: compare_def ext_of_def ia_defs ia_wf_def)

lemma ext_of_zero:
  assumes "lim_min L < 0" "1 < lim_max L"
  shows "ext_of L 0 = Fin 0" "ia_wf L 0"
  using assms by (auto simp: ext_of_def ia_wf_def)

lemma greater_zero_ext:
  assumes "lim_min L < 0" "1 < lim_max L" "ia_wf L a"
  shows "ia_greater L a 0 \<longleftrightarrow> ext_sgn (ext_of L a) = Some 1"
proof -
  have "lim_min L < lim_max L - 1" using assms by simp
  from compare_ext [OF this assms(3) ext_of_zero(2) [OF assms(1,2)]] show ?thesis
    by (cases "ext_of L a") (auto simp: ia_greater_def ext_of_zero(1) [OF assms(1,2)] sgn_if)
qed

lemma less_zero_ext:
  assumes "lim_min L < 0" "1 < lim_max L" "ia_wf L a"
  shows "ia_less_int L a 0 \<longleftrightarrow> ext_sgn (ext_of L a) = Some (-1)"
proof -
  have "lim_min L < lim_max L - 1" using assms by simp
  from compare_ext [OF this assms(3) ext_of_zero(2) [OF assms(1,2)]] show ?thesis
    using assms(1)
    by (cases "ext_of L a") (auto simp: ia_less_int_def ia_of_int_def is_signed_def ext_of_zero(1) [OF assms(1,2)] sgn_if)
qed

lemma equal_zero:
  assumes "lim_min L < 0" "1 < lim_max L" "ia_wf L a"
  shows "ia_equal_int L a 0 \<longleftrightarrow> a = 0"
proof -
  have "lim_min L < lim_max L - 1" using assms by simp
  from compare_ext [OF this assms(3) ext_of_zero(2) [OF assms(1,2)]] show ?thesis
    using assms by (auto simp: ia_equal_int_def ia_of_int_def is_signed_def ext_of_zero(1) [OF assms(1,2)] ext_of_def split: if_splits)
qed

text \<open>What a product or a quotient with a special operand is: the sign rule.\<close>

lemma mult_div_specials_ext:
  assumes "lim_min L < 0" "1 < lim_max L" "ia_wf L a" "ia_wf L b" "is_special L a \<or> is_special L b"
  shows "Inr (mult_div_specials L a b) = ext_store L (ext_times (ext_of L a) (ext_of L b))"
proof -
  have L: "lim_min L < lim_max L - 1" and s: "is_signed L" using assms(1,2) by (simp_all add: is_signed_def)
  note g = greater_zero_ext [OF assms(1,2)] less_zero_ext [OF assms(1,2)]
  have wf: "ia_wf L (neg_infinity L)" "ia_wf L (pos_infinity L)"
    using assms(1,2) by (simp_all add: ia_wf_def ia_defs)
  show ?thesis
    using assms(3-5)
    by (rule_tac ext_kind [OF L, of a]; rule_tac ext_kind [OF L, of b])
       (simp_all add: mult_div_specials_def Let_def s g wf ext_times_def ext_store_def sgn_if)
qed

lemma ia_mult_store:
  assumes "lim_min L < 0" "1 < lim_max L" "ia_wf L a" "ia_wf L b"
  shows "ia_mult L a b = ext_store L (ext_times (ext_of L a) (ext_of L b))"
proof (cases "is_special L a \<or> is_special L b")
  case True
  then show ?thesis using mult_div_specials_ext [OF assms] by (simp add: ia_mult_def)
next
  case False
  have L: "lim_min L < lim_max L - 1" using assms(1,2) by simp
  from False ext_of_cases(4) [OF L] show ?thesis by (simp add: ia_mult_def ext_times_def ext_store_def)
qed

lemma abs_sdiv_le: "\<bar>a sdiv b\<bar> \<le> \<bar>a :: int\<bar>"
proof -
  have "\<bar>a\<bar> div \<bar>b\<bar> \<le> \<bar>a\<bar>"
    by (cases "b = 0") (simp, metis abs_ge_zero div_by_1 int_one_le_iff_zero_less zdiv_mono2 zero_less_abs_iff zero_less_one)
  moreover have "\<bar>a sdiv b\<bar> \<le> \<bar>a\<bar> div \<bar>b\<bar>"
    by (simp add: signed_divide_int_def abs_mult sgn_if pos_imp_zdiv_nonneg_iff)
  ultimately show ?thesis by linarith
qed

text \<open>
  C22: Addition and subtraction refine the extended integers for every signed instance: both operands
  are read, the extended result is stored, a finite result outside the type overflows, and whatever is
  stored reads back as the extended result unless that is one of the three finite numbers whose
  representation is taken by an infinity or by not-a-number.
\<close>
theorem int_adapter_sums_refine:
  assumes "lim_min L < lim_max L - 1" "is_signed L"
  shows "ia_add L L a b = ext_store L (ext_plus (ext_of L a) (ext_of L b))
    \<and> ia_sub L L a b = ext_store L (ext_plus (ext_of L a) (ext_minus (ext_of L b)))
    \<and> (\<forall>c. ia_add L L a b = Inr c \<longrightarrow>
         (ext_of L c = ext_plus (ext_of L a) (ext_of L b) \<longleftrightarrow> \<not> collides L (ext_plus (ext_of L a) (ext_of L b))))
    \<and> (\<forall>c. ia_sub L L a b = Inr c \<longrightarrow>
         (ext_of L c = ext_plus (ext_of L a) (ext_minus (ext_of L b))
            \<longleftrightarrow> \<not> collides L (ext_plus (ext_of L a) (ext_minus (ext_of L b)))))"
  using ia_add_store [OF assms(1) assms(1), of a b] ia_sub_store [OF assms(1) assms(1), of a b]
    ext_store_read [OF assms]
  by simp

theorem int_adapter_sums_refine_witness:
  "ia_add int64_limits int64_limits 5 9223372036854775807 = Inr 9223372036854775807
   \<and> ia_sub int64_limits int64_limits 9223372036854775807 9223372036854775807 = Inr 9223372036854775806
   \<and> ia_add int64_limits int64_limits 9223372036854775805 1 = Inr 9223372036854775806
   \<and> ext_of int64_limits 9223372036854775806 \<noteq> Fin 9223372036854775806"
proof -
  have h: "lim_min int64_limits < lim_max int64_limits - 1" "is_signed int64_limits" by code_simp+
  have r: "ia_add int64_limits int64_limits 5 9223372036854775807 = Inr 9223372036854775807
   \<and> ia_sub int64_limits int64_limits 9223372036854775807 9223372036854775807 = Inr 9223372036854775806
   \<and> ia_add int64_limits int64_limits 9223372036854775805 1 = Inr 9223372036854775806"
    by code_simp
  have e: "ext_plus (ext_of int64_limits 9223372036854775805) (ext_of int64_limits 1) = Fin 9223372036854775806"
    "collides int64_limits (Fin 9223372036854775806)"
    by code_simp+
  show ?thesis
    using int_adapter_sums_refine [OF h, of 9223372036854775805 1] r e(2) unfolding e(1) by blast
qed

text \<open>
  The comparison operators decide the order of the extended integers: \<open>==\<close> is equality (not-a-number
  equals itself), \<open>\<close><\<open>\<close> is the order with the infinities at its ends, \<open>>\<close> is its converse, and not-a-number is
  neither below nor above anything.
\<close>
theorem int_adapter_order:
  assumes "lim_min L < lim_max L - 1" "ia_wf L a" "ia_wf L b"
  shows "(ia_equal L a b \<longleftrightarrow> ext_of L a = ext_of L b)
    \<and> (ia_less L a b \<longleftrightarrow> ext_less (ext_of L a) (ext_of L b))
    \<and> (ia_greater L a b \<longleftrightarrow> ext_less (ext_of L b) (ext_of L a))
    \<and> (is_not_a_number L a \<longrightarrow> \<not> ia_less L a b \<and> \<not> ia_less L b a)"
proof -
  have n: "is_not_a_number L a \<longleftrightarrow> ext_of L a = NaN" using ext_of_iff(1) [OF assms(1)] by simp
  show ?thesis
    unfolding ia_equal_def ia_less_def ia_greater_def compare_ext [OF assms] compare_ext [OF assms(1,3,2)] n
    by (cases "ext_of L a"; cases "ext_of L b") auto
qed

theorem int_adapter_order_witness:
  "ia_less int64_limits (-5) 9223372036854775807 \<and> \<not> ia_less int64_limits (-5) 9223372036854775806
   \<and> ext_less (ext_of int64_limits (-5)) (ext_of int64_limits 9223372036854775807)"
proof -
  have h: "lim_min int64_limits < lim_max int64_limits - 1" "ia_wf int64_limits (-5)" "ia_wf int64_limits 9223372036854775807"
    by code_simp+
  have "ia_less int64_limits (-5) 9223372036854775807 \<and> \<not> ia_less int64_limits (-5) 9223372036854775806" by code_simp
  then show ?thesis using int_adapter_order [OF h] by blast
qed

text \<open>
  C26: Products refine the extended integers' sign rule. A quotient is undefined exactly when the divisor
  is zero; otherwise two infinities give not-a-number, a special operand gives the same sign rule as
  a product (so a finite number divided by an infinity is an infinity, not zero), and two finite numbers
  give their truncated quotient without overflow, although the least one divided by \<open>-1\<close> is stored as
  positive infinity.
\<close>
theorem int_adapter_products_refine:
  assumes "lim_min L = - lim_max L - 1" "1 < lim_max L" "ia_wf L a" "ia_wf L b"
  shows "ia_mult L a b = ext_store L (ext_times (ext_of L a) (ext_of L b))
    \<and> ia_div L a b =
        (if b = 0 then Inl (UB DivByZero)
         else if is_inf L a \<and> is_inf L b then Inr (not_a_number L)
         else if is_special L a \<or> is_special L b then ext_store L (ext_times (ext_of L a) (ext_of L b))
         else Inr (a sdiv b))
    \<and> ia_div L (ia_min L) (- 1) = Inr (pos_infinity L)"
proof -
  have neg: "lim_min L < 0" using assms(1,2) by simp
  note z = equal_zero [OF neg assms(2,4)]
  have quot: "machine_div L x y = Inr (x sdiv y)" if "y \<noteq> 0" "ia_wf L x" "\<not> is_special L x" for x y
  proof -
    have "\<bar>x\<bar> \<le> lim_max L" using that assms(1) by (auto simp: ia_defs ia_wf_def)
    then have "\<bar>x sdiv y\<bar> \<le> lim_max L" using abs_sdiv_le [of x y] by linarith
    then show ?thesis using that(1) neg assms(1) by (auto simp: machine_div_def ia_result_def is_signed_def)
  qed
  have special: "Inr (mult_div_specials L a b) = ext_store L (ext_times (ext_of L a) (ext_of L b))"
    if "is_special L a \<or> is_special L b"
    using mult_div_specials_ext [OF neg assms(2-4) that] .
  have zero: "\<not> is_special L 0" using neg assms(2) by (auto simp: ia_defs)
  have div0: "machine_div L a 0 = Inl (UB DivByZero)" by (simp add: machine_div_def)
  have least: "ia_div L (ia_min L) (- 1) = Inr (pos_infinity L)"
  proof -
    have sp: "\<not> is_special L (ia_min L)" "\<not> is_special L (- 1)" "ia_wf L (ia_min L)" using neg assms(1,2)
      by (auto simp: ia_defs ia_min_def ia_wf_def)
    have "ia_min L = - lim_max L" using assms(1) by (simp add: ia_min_def)
    then have "ia_min L sdiv - 1 = pos_infinity L"
      using assms(2) by (simp add: signed_divide_int_def pos_infinity_def)
    then show ?thesis using quot [OF _ sp(3,1), of "- 1"] sp by (simp add: ia_div_def)
  qed
  have dv: "ia_div L a b =
        (if b = 0 then Inl (UB DivByZero)
         else if is_inf L a \<and> is_inf L b then Inr (not_a_number L)
         else if is_special L a \<or> is_special L b then ext_store L (ext_times (ext_of L a) (ext_of L b))
         else Inr (a sdiv b))"
  proof (cases "is_special L a \<or> is_special L b")
    case True
    show ?thesis
    proof (cases "b = 0")
      case b: True
      then have "\<not> is_inf L b" using zero by (auto simp: is_special_def)
      then show ?thesis using b z div0 by (simp add: ia_div_def)
    next
      case False
      then show ?thesis using True special by (simp add: ia_div_def z)
    qed
  next
    case False
    then show ?thesis using quot [OF _ assms(3), of b] div0 by (auto simp: ia_div_def is_special_def)
  qed
  show ?thesis using ia_mult_store [OF neg assms(2-4)] dv least by blast
qed

theorem int_adapter_products_refine_witness:
  "ia_div int64_limits 5 9223372036854775807 = Inr 9223372036854775807
   \<and> ia_div int64_limits (-9223372036854775807) (-1) = Inr 9223372036854775807
   \<and> ia_mult int64_limits 3 (-7) = Inr (-21)"
proof -
  have h: "lim_min int64_limits = - lim_max int64_limits - 1" "1 < lim_max int64_limits" "ia_wf int64_limits 3"
     "ia_wf int64_limits (-7)"
    by code_simp+
  have v: "ia_min int64_limits = - 9223372036854775807" "pos_infinity int64_limits = 9223372036854775807"
    "ext_store int64_limits (ext_times (ext_of int64_limits 3) (ext_of int64_limits (- 7))) = Inr (- 21)"
    "ia_div int64_limits 5 9223372036854775807 = Inr 9223372036854775807"
    by code_simp+
  show ?thesis using int_adapter_products_refine [OF h] unfolding v by simp
qed

end
