(* ===== verification/Gregorian.thy ===== *)
theory Gregorian imports IntAdapter begin

text \<open>
  The Gregorian calendar and the dates of \<open>boost::gregorian\<close>, on which the time stamps of the node
  table rest (\<open>external/boost/date_time/gregorian_calendar.ipp\<close>, \<open>date.hpp\<close>,
  \<open>constrained_value.hpp\<close>, \<open>gregorian/\<close>): day numbers, their conversion to and from year, month and
  day, the range checks, and arithmetic on dates and on durations of days.
\<close>

section \<open>The code\<close>

text \<open>Conversions to the unsigned types the code computes in.\<close>

definition cast16 :: "int \<Rightarrow> int" where "cast16 v = v mod 65536"
definition cast32 :: "int \<Rightarrow> int" where "cast32 v = v mod 4294967296"
definition cast64 :: "int \<Rightarrow> int" where "cast64 v = v mod 18446744073709551616"

text \<open>
  \<open>constrained_value\<close> over \<open>unsigned short\<close>: \<open>lo\<close>, \<open>hi\<close> and the message of the exception are the
  policy; the operands of the comparisons are promoted to \<open>int\<close>.
\<close>

definition assign :: "int \<Rightarrow> int \<Rightarrow> string \<Rightarrow> int \<Rightarrow> int result" where
  "assign lo hi msg v =
     (if v + 1 < lo + 1 then Inl (Throw (OtherException msg))
      else if v > hi then Inl (Throw (OtherException msg)) else Inr v)"

definition greg_year :: "int \<Rightarrow> int result" where
  "greg_year = assign 1400 10000 ''Year is out of valid range: 1400..10000''"

definition greg_month :: "int \<Rightarrow> int result" where
  "greg_month = assign 1 12 ''Month number is out of range 1..12''"

definition greg_day :: "int \<Rightarrow> int result" where
  "greg_day = assign 1 31 ''Day of month value is out of range 1..31''"

definition greg_day_of_year_rep :: "int \<Rightarrow> int result" where
  "greg_day_of_year_rep = assign 1 366 ''Day of year value is out of range 1..366''"

definition greg_weekday :: "int \<Rightarrow> int result" where
  "greg_weekday = assign 0 6 ''Weekday is out of range 0..6''"

text \<open>A year, month and day, and its construction from three \<open>unsigned short\<close>.\<close>

record ymd =
  year :: int
  month :: int
  day :: int

definition ymd_type :: "int \<Rightarrow> int \<Rightarrow> int \<Rightarrow> ymd result" where
  "ymd_type y m d = and_then (greg_year y) (\<lambda>y. and_then (greg_month m) (\<lambda>m. and_then (greg_day d) (\<lambda>d.
     Inr \<lparr>year = y, month = m, day = d\<rparr>)))"

definition is_leap_year :: "int \<Rightarrow> bool" where
  "is_leap_year y \<longleftrightarrow> \<not> y mod 4 \<noteq> 0 \<and> (y mod 100 \<noteq> 0 \<or> \<not> y mod 400 \<noteq> 0)"

definition end_of_month_day :: "int \<Rightarrow> int \<Rightarrow> int" where
  "end_of_month_day y m =
     (if m = 2 then (if is_leap_year y then 29 else 28)
      else if m = 4 \<or> m = 6 \<or> m = 9 \<or> m = 11 then 30 else 31)"

definition day_of_week :: "ymd \<Rightarrow> int" where
  "day_of_week t =
     (let a = cast16 ((14 - month t) div 12);
          y = cast16 (year t - a);
          m = cast16 (month t + 12 * a - 2) in
      cast16 ((day t + y + y div 4 - y div 100 + y div 400 + (31 * m) div 12) mod 7))"

definition day_number :: "ymd \<Rightarrow> int" where
  "day_number t =
     (let a = cast16 ((14 - month t) div 12);
          y = cast16 (year t + 4800 - a);
          m = cast16 (month t + 12 * a - 3);
          d = cast64 (day t + (153 * m + 2) div 5 + 365 * y + y div 4 - y div 100 + y div 400 - 32045) in
      cast32 d)"

definition julian_day_number :: "ymd \<Rightarrow> int" where
  "julian_day_number t = day_number t"

definition modjulian_day_number :: "ymd \<Rightarrow> int" where
  "modjulian_day_number t = cast32 (julian_day_number t - 2400001)"

definition from_day_number :: "int \<Rightarrow> ymd result" where
  "from_day_number n =
     (let a = cast32 (n + 32044);
          b = cast32 (4 * a + 3) div 146097;
          c = cast32 (a - cast32 (146097 * b) div 4);
          d = cast32 (4 * c + 3) div 1461;
          e = cast32 (c - cast32 (1461 * d) div 4);
          m = cast32 (5 * e + 2) div 153;
          dd = cast16 (e - cast32 (153 * m + 2) div 5 + 1);
          mm = cast16 (m + 3 - 12 * (m div 10)) in
      and_then (greg_year (cast16 (100 * b + d - 4800 + m div 10))) (\<lambda>y. ymd_type y mm dd))"

definition from_julian_day_number :: "int \<Rightarrow> ymd result" where
  "from_julian_day_number n =
     (let a = cast32 (n + 32044);
          b = cast32 (4 * a + 3) div 146097;
          c = cast32 (a - cast32 (146097 * b) div 4);
          d = cast32 (4 * c + 3) div 1461;
          e = cast32 (c - cast32 (1461 * d) div 4);
          m = cast32 (5 * e + 2) div 153;
          dd = cast16 (e - cast32 (153 * m + 2) div 5 + 1);
          mm = cast16 (m + 3 - 12 * (m div 10)) in
      and_then (greg_year (cast16 (100 * b + d - 4800 + m div 10))) (\<lambda>y. ymd_type y mm dd))"

definition from_modjulian_day_number :: "int \<Rightarrow> ymd result" where
  "from_modjulian_day_number n = (let jd = cast32 (n + 2400001) in from_julian_day_number jd)"

definition epoch :: "ymd result" where "epoch = ymd_type 1400 1 1"
definition days_in_week :: int where "days_in_week = 7"

text \<open>The week: \<open>unsigned long\<close> arithmetic, and the result converted to \<open>int\<close>.\<close>

definition week_of :: "int \<Rightarrow> int \<Rightarrow> int \<times> int" where
  "week_of julianbegin juliantoday =
     (let d = cast64 (julianbegin + 3) mod 7 in (d, cast64 (juliantoday + d - julianbegin + 4) div 7))"

definition week_number :: "ymd \<Rightarrow> int result" where
  "week_number t = and_then (ymd_type (year t) 1 1) (\<lambda>begin1.
     let (d, week) = week_of (julian_day_number begin1) (julian_day_number t) in
     if 1 \<le> week \<and> week \<le> 52 then Inr week
     else if week = 53 then
       (if d = 6 \<or> d = 5 \<and> is_leap_year (year t) then Inr week else Inr 1)
     else if week = 0 then
       and_then (ymd_type (cast16 (year t - 1)) 1 1) (\<lambda>begin2.
         Inr (snd (week_of (julian_day_number begin2) (julian_day_number t))))
     else Inr week)"

section \<open>Dates\<close>

text \<open>A \<open>date\<close> is its day count, an \<open>int_adapter<uint32_t>\<close>.\<close>

type_synonym date = int

definition date_of_ymd :: "ymd \<Rightarrow> date" where
  "date_of_ymd t = day_number t"

definition date_make :: "int \<Rightarrow> int \<Rightarrow> int \<Rightarrow> date result" where
  "date_make y m d = and_then (ymd_type y m d) (\<lambda>t.
     if end_of_month_day y m < d then Inl (Throw (OtherException ''Day of month is not valid for year''))
     else Inr (day_number t))"

definition date_default :: date where
  "date_default = from_special uint32_limits not_a_date_time"

definition date_special :: "special_values \<Rightarrow> date result" where
  "date_special sv = (case sv of
     min_date_time \<Rightarrow> date_make 1400 1 1
   | max_date_time \<Rightarrow> date_make 9999 12 31
   | _ \<Rightarrow> Inr (from_special uint32_limits sv))"

definition date_ymd :: "date \<Rightarrow> ymd result" where "date_ymd d = from_day_number d"
definition date_year :: "date \<Rightarrow> int result" where "date_year d = and_then (from_day_number d) (\<lambda>t. Inr (year t))"
definition date_month :: "date \<Rightarrow> int result" where "date_month d = and_then (from_day_number d) (\<lambda>t. Inr (month t))"
definition date_day :: "date \<Rightarrow> int result" where "date_day d = and_then (from_day_number d) (\<lambda>t. Inr (day t))"

definition date_day_of_week :: "date \<Rightarrow> int result" where
  "date_day_of_week d = and_then (from_day_number d) (\<lambda>t. greg_weekday (day_of_week t))"

definition date_less :: "date \<Rightarrow> date \<Rightarrow> bool" where "date_less a b \<longleftrightarrow> a < b"
definition date_equal :: "date \<Rightarrow> date \<Rightarrow> bool" where "date_equal a b \<longleftrightarrow> a = b"
definition date_is_not_a_date :: "date \<Rightarrow> bool" where "date_is_not_a_date d \<longleftrightarrow> is_not_a_number uint32_limits d"
definition date_is_infinity :: "date \<Rightarrow> bool" where "date_is_infinity d \<longleftrightarrow> is_inf uint32_limits d"
definition date_is_special :: "date \<Rightarrow> bool" where "date_is_special d \<longleftrightarrow> date_is_not_a_date d \<or> date_is_infinity d"
definition date_as_special :: "date \<Rightarrow> special_values" where "date_as_special d = to_special uint32_limits d"

text \<open>A \<open>date_duration\<close> is an \<open>int_adapter<long>\<close> of days; \<open>long\<close> has 64 bits.\<close>

type_synonym date_duration = int

definition date_sub :: "date \<Rightarrow> date \<Rightarrow> date_duration result" where
  "date_sub a b =
     (if \<not> date_is_special a \<and> \<not> date_is_special b then ia_result int64_limits (a - b)
      else and_then (ia_sub uint32_limits uint32_limits a b) (\<lambda>v.
        Inr (from_special int64_limits (to_special uint32_limits v))))"

definition date_minus :: "date \<Rightarrow> date_duration \<Rightarrow> date result" where
  "date_minus a dd =
     (if is_special int64_limits dd then ia_sub uint32_limits int64_limits a dd
      else ia_sub_int uint32_limits a (cast32 dd))"

definition date_plus :: "date \<Rightarrow> date_duration \<Rightarrow> date result" where
  "date_plus a dd =
     (if is_special int64_limits dd then ia_add uint32_limits int64_limits a dd
      else ia_add_int uint32_limits a (cast32 dd))"

definition date_julian_day :: "date \<Rightarrow> int result" where
  "date_julian_day d = and_then (date_ymd d) (\<lambda>t. Inr (julian_day_number t))"

definition date_modjulian_day :: "date \<Rightarrow> int result" where
  "date_modjulian_day d = and_then (date_ymd d) (\<lambda>t. Inr (modjulian_day_number t))"

definition date_day_of_year :: "date \<Rightarrow> int result" where
  "date_day_of_year d = and_then (date_year d) (\<lambda>y. and_then (date_make y 1 1) (\<lambda>start.
     and_then (date_sub d start) (\<lambda>n. and_then (ia_result int64_limits (n + 1)) (\<lambda>k. greg_day_of_year_rep (cast16 k)))))"

definition date_week_number :: "date \<Rightarrow> int result" where
  "date_week_number d = and_then (date_ymd d) week_number"

definition date_end_of_month :: "date \<Rightarrow> date result" where
  "date_end_of_month d = and_then (date_ymd d) (\<lambda>t. date_make (year t) (month t) (end_of_month_day (year t) (month t)))"

text \<open>Durations of days, with the relational operators written out by hand.\<close>

definition dd_equal :: "date_duration \<Rightarrow> date_duration \<Rightarrow> bool" where "dd_equal a b \<longleftrightarrow> ia_equal int64_limits a b"
definition dd_less :: "date_duration \<Rightarrow> date_duration \<Rightarrow> bool" where "dd_less a b \<longleftrightarrow> ia_less int64_limits a b"
definition dd_greater :: "date_duration \<Rightarrow> date_duration \<Rightarrow> bool" where "dd_greater a b \<longleftrightarrow> \<not> (dd_less a b \<or> dd_equal a b)"
definition dd_le :: "date_duration \<Rightarrow> date_duration \<Rightarrow> bool" where "dd_le a b \<longleftrightarrow> dd_less a b \<or> dd_equal a b"
definition dd_ge :: "date_duration \<Rightarrow> date_duration \<Rightarrow> bool" where "dd_ge a b \<longleftrightarrow> \<not> dd_less a b"
definition dd_add :: "date_duration \<Rightarrow> date_duration \<Rightarrow> date_duration result" where "dd_add a b = ia_add int64_limits int64_limits a b"
definition dd_subtract :: "date_duration \<Rightarrow> date_duration \<Rightarrow> date_duration result" where "dd_subtract a b = ia_sub int64_limits int64_limits a b"
definition dd_uminus :: "date_duration \<Rightarrow> date_duration result" where "dd_uminus a = ia_mult_int int64_limits a (- 1)"
definition dd_divide :: "date_duration \<Rightarrow> int \<Rightarrow> date_duration result" where "dd_divide a n = ia_div_int int64_limits a n"
definition dd_is_negative :: "date_duration \<Rightarrow> bool" where "dd_is_negative a \<longleftrightarrow> ia_less_int int64_limits a 0"
definition dd_unit :: date_duration where "dd_unit = 1"

end
