(* ===== verification/Calendar.thy ===== *)
theory Calendar imports Gregorian begin

text \<open>
  Why the calendar's arithmetic is right: day numbers and dates correspond one to one over the range the
  types admit, the order of numbers is the order of dates, the weekday advances with the number, and the
  week number is the one of ISO 8601. The computation is justified over years that begin in March.
\<close>

section \<open>Years that begin in March\<close>


lemma div_4_split: "(1461 * Y) div 4 = 365 * Y + Y div (4 :: int)" "(146097 * B) div 4 = 36524 * B + B div (4 :: int)"
proof -
  have "1461 * Y = Y + 365 * Y * 4" "146097 * B = B + 36524 * B * 4" by simp_all
  then show "(1461 * Y) div 4 = 365 * Y + Y div 4" "(146097 * B) div 4 = 36524 * B + B div 4"
    by (simp_all only: div_mult_self1 zero_neq_numeral not_False_eq_True)
qed

lemma century_split:
  fixes y :: int
  assumes "0 \<le> Y" "Y < 100"
  shows "365 * (100 * B + Y) + (100 * B + Y) div 4 - (100 * B + Y) div 100 + (100 * B + Y) div 400
    = (146097 * B) div 4 + (1461 * Y) div (4 :: int)"
proof -
  have "(100 * B + Y) div 4 = 25 * B + Y div 4" by simp
  moreover have h: "(100 * B + Y) div 100 = B" using assms by simp
  moreover have "(100 * B + Y) div 400 = B div 4"
    using h div_mult2_eq' [of "100 * B + Y" 100 4] zdiv_zmult2_eq [of 4 "100 * B + Y" 100] by simp
  ultimately show ?thesis unfolding div_4_split by (simp only: ring_distribs)
qed

lemma century_quotient:
  fixes r :: int
  assumes "0 \<le> r" "r \<le> 36523 \<or> r = 36524 \<and> B mod 4 = 3"
  shows "(4 * ((146097 * B) div 4 + r) + 3) div 146097 = B"
proof -
  have "4 * (B div 4) = B - B mod 4" using div_mult_mod_eq [of B 4] by linarith
  then have e: "4 * ((146097 * B) div 4 + r) + 3 = (4 * r + 3 - B mod 4) + B * 146097"
    unfolding div_4_split by simp
  have "0 \<le> B mod 4" "B mod 4 < 4" by simp_all
  then have "0 \<le> 4 * r + 3 - B mod 4" "4 * r + 3 - B mod 4 < 146097"
    using assms by linarith+
  then show ?thesis unfolding e by (subst div_mult_self1) simp_all
qed

lemma year_quotient:
  fixes r :: int
  assumes "0 \<le> r" "r \<le> 364 \<or> r = 365 \<and> Y mod 4 = 3"
  shows "(4 * ((1461 * Y) div 4 + r) + 3) div 1461 = Y"
proof -
  have "4 * (Y div 4) = Y - Y mod 4" using div_mult_mod_eq [of Y 4] by linarith
  then have e: "4 * ((1461 * Y) div 4 + r) + 3 = (4 * r + 3 - Y mod 4) + Y * 1461"
    unfolding div_4_split by simp
  have "0 \<le> Y mod 4" "Y mod 4 < 4" by simp_all
  then have "0 \<le> 4 * r + 3 - Y mod 4" "4 * r + 3 - Y mod 4 < 1461"
    using assms by linarith+
  then show ?thesis unfolding e by (subst div_mult_self1) simp_all
qed

lemma int_in_0_11: "0 \<le> (m :: int) \<Longrightarrow> m \<le> 11 \<Longrightarrow> m \<in> {0, 1, 2, 3, 4, 5, 6, 7, 8, 9, 10, 11}"
  by simp presburger

lemma int_div_eqI: "b * q \<le> a \<Longrightarrow> a < b * q + b \<Longrightarrow> a div b = (q :: int)"
proof -
  assume h: "b * q \<le> a" "a < b * q + b"
  have "a = (a - b * q) + q * b" by simp
  moreover have "(a - b * q) div b = 0" using h by (intro div_pos_pos_trivial) linarith+
  ultimately show ?thesis using h by (metis add.right_neutral add_0 div_mult_self1 less_irrefl less_le_trans add_le_same_cancel1 mult.commute not_less)
qed

lemma month_quotient:
  fixes m :: int
  assumes "0 \<le> m" "m \<le> 11" "1 \<le> d" "d \<le> 30 \<or> d = 31 \<and> m \<notin> {1, 3, 6, 8}" "m = 11 \<longrightarrow> d \<le> 29"
  shows "(5 * ((153 * m + 2) div 5 + d - 1) + 2) div 153 = m"
  by (insert int_in_0_11 [OF assms(1,2)] assms(3-5), rule int_div_eqI; elim insertE emptyE; simp; linarith)


text \<open>Years that begin in March: month \<open>0\<close> is March, and a leap day ends the year.\<close>

definition march_ok :: "int \<Rightarrow> int \<Rightarrow> int \<Rightarrow> bool" where
  "march_ok y m d \<longleftrightarrow> 0 \<le> m \<and> m \<le> 11 \<and> 1 \<le> d \<and> (d \<le> 30 \<or> d = 31 \<and> m \<notin> {1, 3, 6, 8})
     \<and> (m = 11 \<longrightarrow> d \<le> 28 \<or> d = 29 \<and> (y + 1) mod 4 = 0 \<and> ((y + 1) mod 100 \<noteq> 0 \<or> (y + 1) mod 400 = 0))"

definition march_day :: "int \<Rightarrow> int \<Rightarrow> int \<Rightarrow> int" where
  "march_day y m d = 365 * y + y div 4 - y div 100 + y div 400 + ((153 * m + 2) div 5 + d - 1)"

lemma march_doy:
  assumes "march_ok y m d"
  shows "0 \<le> (153 * m + 2) div 5 + d - 1"
    "(153 * m + 2) div 5 + d - 1 \<le> 364
     \<or> (153 * m + 2) div 5 + d - 1 = 365 \<and> (y + 1) mod 4 = 0 \<and> ((y + 1) mod 100 \<noteq> 0 \<or> (y + 1) mod 400 = 0)"
proof -
  have m: "0 \<le> m" "m \<le> 11" using assms by (simp_all add: march_ok_def)
  have "0 \<le> (153 * m + 2) div 5" using m by simp
  then show "0 \<le> (153 * m + 2) div 5 + d - 1" using assms unfolding march_ok_def by linarith
  show "(153 * m + 2) div 5 + d - 1 \<le> 364
     \<or> (153 * m + 2) div 5 + d - 1 = 365 \<and> (y + 1) mod 4 = 0 \<and> ((y + 1) mod 100 \<noteq> 0 \<or> (y + 1) mod 400 = 0)"
    by (insert int_in_0_11 [OF m] assms, unfold march_ok_def, elim insertE emptyE; simp; linarith)
qed

lemma march_decompose:
  assumes "march_ok y m d" "0 \<le> y"
  shows "(4 * march_day y m d + 3) div 146097 = y div 100"
    "march_day y m d - (146097 * (y div 100)) div 4 = (1461 * (y mod 100)) div 4 + ((153 * m + 2) div 5 + d - 1)"
    "(4 * ((1461 * (y mod 100)) div 4 + ((153 * m + 2) div 5 + d - 1)) + 3) div 1461 = y mod 100"
    "(5 * ((153 * m + 2) div 5 + d - 1) + 2) div 153 = m"
proof -
  define B Y e where "B = y div 100" and "Y = y mod 100" and "e = (153 * m + 2) div 5 + d - 1"
  have y: "y = 100 * B + Y" and Y: "0 \<le> Y" "Y < 100" by (simp_all add: B_def Y_def)
  have e: "0 \<le> e" using march_doy(1) [OF assms(1)] by (simp add: e_def)
  have leap: "e \<le> 364 \<or> e = 365 \<and> Y mod 4 = 3 \<and> (Y = 99 \<longrightarrow> B mod 4 = 3)"
  proof (cases "e \<le> 364")
    case False
    then have h: "e = 365" "(y + 1) mod 4 = 0" "(y + 1) mod 100 \<noteq> 0 \<or> (y + 1) mod 400 = 0"
      using march_doy(2) [OF assms(1)] by (auto simp: e_def)
    have "Y mod 4 = 3" using h(2) unfolding y by presburger
    moreover have "B mod 4 = 3" if "Y = 99"
    proof -
      have y1: "y + 1 = 100 * (B + 1)" unfolding y that by simp
      have "(y + 1) mod 100 = 0" unfolding y1 by (rule mod_mult_self1_is_0)
      then have "(100 * (B + 1)) mod (100 * 4) = 0" using h(3) unfolding y1 by simp
      then have "100 * ((B + 1) mod 4) = 0" unfolding mult_mod_right [symmetric] .
      then have "(B + 1) mod 4 = 0" by simp
      then show ?thesis by (simp add: mod_eq_0_iff_dvd) presburger
    qed
    ultimately show ?thesis using h(1) by blast
  qed simp
  have A: "march_day y m d = (146097 * B) div 4 + ((1461 * Y) div 4 + e)"
    using century_split [OF Y, of B] unfolding march_day_def e_def [symmetric] y by simp
  have r: "0 \<le> (1461 * Y) div 4 + e" using Y e by simp
  have r': "(1461 * Y) div 4 + e \<le> 36523 \<or> (1461 * Y) div 4 + e = 36524 \<and> B mod 4 = 3"
    unfolding div_4_split
  proof (cases "Y = 99")
    case False
    then have "Y \<le> 98" using Y by simp
    moreover from this have "Y div 4 \<le> 24" by simp
    ultimately show "365 * Y + Y div 4 + e \<le> 36523 \<or> 365 * Y + Y div 4 + e = 36524 \<and> B mod 4 = 3"
      using leap by linarith
  qed (use leap in auto)
  show "(4 * march_day y m d + 3) div 146097 = y div 100"
    unfolding A B_def [symmetric] by (rule century_quotient [OF r r'])
  show "march_day y m d - (146097 * (y div 100)) div 4 = (1461 * (y mod 100)) div 4 + ((153 * m + 2) div 5 + d - 1)"
    unfolding A B_def [symmetric] Y_def [symmetric] e_def [symmetric] by simp
  show "(4 * ((1461 * (y mod 100)) div 4 + ((153 * m + 2) div 5 + d - 1)) + 3) div 1461 = y mod 100"
    unfolding Y_def [symmetric] e_def [symmetric] by (rule year_quotient [OF e]) (use leap in auto)
  show "(5 * ((153 * m + 2) div 5 + d - 1) + 2) div 153 = m"
    using assms(1) by (intro month_quotient) (auto simp: march_ok_def)
qed


lemma march_surj:
  assumes "0 \<le> A"
  obtains y m d where "march_ok y m d" "0 \<le> y" "march_day y m d = A"
proof -
  define B where "B = (4 * A + 3) div 146097"
  define c where "c = A - (146097 * B) div 4"
  define Y where "Y = (4 * c + 3) div 1461"
  define e where "e = c - (1461 * Y) div 4"
  define m where "m = (5 * e + 2) div 153"
  define d where "d = e - (153 * m + 2) div 5 + 1"
  have B4: "4 * (B div 4) = B - B mod 4" "0 \<le> B mod 4" "B mod 4 < 4" using div_mult_mod_eq [of B 4] by (linarith, simp_all)
  have B0: "0 \<le> B" unfolding B_def using assms by simp
  have "146097 * B \<le> 4 * A + 3" "4 * A + 3 < 146097 * B + 146097"
    unfolding B_def using div_mult_mod_eq [of "4 * A + 3" 146097] pos_mod_sign [of 146097 "4 * A + 3"]
      pos_mod_bound [of 146097 "4 * A + 3"] by linarith+
  moreover have "4 * c = 4 * A - 146097 * B + B mod 4" using B4(1) unfolding c_def div_4_split by simp
  ultimately have c: "0 \<le> c" "c \<le> 36523 \<or> c = 36524 \<and> B mod 4 = 3" using B4(2,3) by linarith+
  have Y4: "4 * (Y div 4) = Y - Y mod 4" "0 \<le> Y mod 4" "Y mod 4 < 4" using div_mult_mod_eq [of Y 4] by (linarith, simp_all)
  have Yc: "1461 * Y \<le> 4 * c + 3" "4 * c + 3 < 1461 * Y + 1461"
    unfolding Y_def using div_mult_mod_eq [of "4 * c + 3" 1461] pos_mod_sign [of 1461 "4 * c + 3"]
      pos_mod_bound [of 1461 "4 * c + 3"] by linarith+
  then have Y: "0 \<le> Y" "Y < 100" using c by linarith+
  have e4: "4 * e = 4 * c - 1461 * Y + Y mod 4" using Y4(1) unfolding e_def div_4_split by simp
  then have e: "0 \<le> e" "e \<le> 364 \<or> e = 365 \<and> Y mod 4 = 3" using Yc Y4(2,3) by linarith+
  have m: "153 * m \<le> 5 * e + 2" "5 * e + 2 < 153 * m + 153"
    unfolding m_def using div_mult_mod_eq [of "5 * e + 2" 153] pos_mod_sign [of 153 "5 * e + 2"]
      pos_mod_bound [of 153 "5 * e + 2"] by linarith+
  then have m11: "0 \<le> m" "m \<le> 11" using e by linarith+
  have y: "(100 * B + Y) mod 100 = Y" "(100 * B + Y) div 100 = B" using Y by simp_all
  have leap: "(100 * B + Y + 1) mod 4 = 0 \<and> ((100 * B + Y + 1) mod 100 \<noteq> 0 \<or> (100 * B + Y + 1) mod 400 = 0)"
    if "e = 365"
  proof -
    have Y3: "Y mod 4 = 3" using e that by simp
    then have "(100 * B + Y + 1) mod 4 = 0" by presburger
    moreover have "(100 * B + Y + 1) mod 100 \<noteq> 0 \<or> (100 * B + Y + 1) mod 400 = 0"
    proof (cases "Y = 99")
      case True
      then have "c = 36524" using e4 that by simp
      then have "B mod 4 = 3" using c by simp
      then have "(B + 1) mod 4 = 0" by presburger
      then have "(100 * (B + 1)) mod (100 * 4) = 0" unfolding mult_mod_right [symmetric] by simp
      then show ?thesis using True by (simp add: add.commute)
    next
      case False
      then have "(100 * B + (Y + 1)) mod 100 = Y + 1" using Y by simp
      then show ?thesis using Y by (simp add: add.assoc)
    qed
    ultimately show ?thesis by simp
  qed
  have ok: "march_ok (100 * B + Y) m d"
    by (insert int_in_0_11 [OF m11] m e leap, unfold march_ok_def d_def, elim insertE emptyE; simp; linarith)
  moreover have "march_day (100 * B + Y) m d = A"
    unfolding march_day_def century_split [OF Y] using e_def c_def d_def by simp
  moreover have "0 \<le> 100 * B + Y" using B0 Y by simp
  ultimately show ?thesis using that by blast
qed


definition valid_ymd :: "ymd \<Rightarrow> bool" where
  "valid_ymd t \<longleftrightarrow> 1400 \<le> year t \<and> year t \<le> 10000 \<and> 1 \<le> month t \<and> month t \<le> 12
     \<and> 1 \<le> day t \<and> day t \<le> end_of_month_day (year t) (month t)"

lemma cast_id [simp]:
  "0 \<le> v \<Longrightarrow> v < 65536 \<Longrightarrow> cast16 v = v" "0 \<le> v \<Longrightarrow> v < 4294967296 \<Longrightarrow> cast32 v = v"
  "0 \<le> v \<Longrightarrow> v < 18446744073709551616 \<Longrightarrow> cast64 v = v"
  by (simp_all add: cast16_def cast32_def cast64_def)

lemma end_of_month_le: "28 \<le> end_of_month_day y m" "end_of_month_day y m \<le> 31"
  by (simp_all add: end_of_month_day_def)

lemma valid_ymd_type: "valid_ymd t \<Longrightarrow> ymd_type (year t) (month t) (day t) = Inr t"
  using end_of_month_le(2) [of "year t" "month t"]
  by (simp add: ymd_type_def greg_year_def greg_month_def greg_day_def assign_def valid_ymd_def)

lemma march_day_bounds:
  assumes "march_ok y m d" "6199 \<le> y" "y \<le> 14800"
  shows "2200000 \<le> march_day y m d" "march_day y m d \<le> 5500000"
proof -
  define p q r e where "p = y div 4" and "q = y div 100" and "r = y div 400" and "e = (153 * m + 2) div 5 + d - 1"
  have "r \<le> q" "0 \<le> r" using assms(2) by (simp_all add: zdiv_mono2 r_def q_def)
  moreover have "p \<le> 3700" "q \<le> 148" using assms(3) by (simp_all add: p_def q_def)
  moreover have "0 \<le> p" using assms(2) by (simp add: p_def)
  moreover have "0 \<le> e" "e \<le> 365" using march_doy [OF assms(1)] by (auto simp: e_def)
  ultimately show "2200000 \<le> march_day y m d" "march_day y m d \<le> 5500000"
    using assms(2,3) unfolding march_day_def p_def [symmetric] q_def [symmetric] r_def [symmetric] e_def [symmetric]
    by linarith+
qed

lemma month_cases: "1 \<le> (m :: int) \<Longrightarrow> m \<le> 12 \<Longrightarrow> m \<in> {1, 2, 3, 4, 5, 6, 7, 8, 9, 10, 11, 12}"
  by simp presburger

lemma is_leap_year_march:
  "is_leap_year y \<longleftrightarrow> (y + 4799 + 1) mod 4 = 0 \<and> ((y + 4799 + 1) mod 100 \<noteq> 0 \<or> (y + 4799 + 1) mod 400 = 0)"
proof -
  have "(y + 4799 + 1) mod 4 = y mod 4" "(y + 4799 + 1) mod 100 = y mod 100" "(y + 4799 + 1) mod 400 = y mod 400"
    using mod_mult_self1 [of y 1200 4] mod_mult_self1 [of y 48 100] mod_mult_self1 [of y 12 400] by (simp_all add: add.commute)
  then show ?thesis by (simp add: is_leap_year_def)
qed

lemma march_ok_february: "march_ok (y + 4799) 11 d \<longleftrightarrow> 1 \<le> d \<and> (d \<le> 28 \<or> d = 29 \<and> is_leap_year y)"
  unfolding march_ok_def is_leap_year_march by auto

text \<open>The month of a year that begins in March, and back.\<close>

lemma valid_march:
  assumes "valid_ymd t"
  shows "march_ok (year t + 4800 - (14 - month t) div 12) (month t + 12 * ((14 - month t) div 12) - 3) (day t)"
proof (cases "month t = 2")
  case True
  have "1 \<le> day t" "day t \<le> (if is_leap_year (year t) then 29 else 28)"
    using assms True by (simp_all add: valid_ymd_def end_of_month_day_def)
  then have "march_ok (year t + 4799) 11 (day t)" unfolding march_ok_february by (cases "is_leap_year (year t)") auto
  then show ?thesis using True by (simp add: algebra_simps)
next
  case False
  have "month t \<in> {1, 2, 3, 4, 5, 6, 7, 8, 9, 10, 11, 12}" using assms by (intro month_cases) (simp_all add: valid_ymd_def)
  moreover have "1 \<le> day t" "day t \<le> (if month t = 4 \<or> month t = 6 \<or> month t = 9 \<or> month t = 11 then 30 else 31)"
    using assms False by (simp_all add: valid_ymd_def end_of_month_day_def)
  ultimately show ?thesis
    using False unfolding march_ok_def by (elim insertE emptyE) (simp; linarith)+
qed

lemma day_number_march:
  assumes "valid_ymd t"
  shows "day_number t = march_day (year t + 4800 - (14 - month t) div 12) (month t + 12 * ((14 - month t) div 12) - 3) (day t) - 32044"
    "6199 \<le> year t + 4800 - (14 - month t) div 12" "year t + 4800 - (14 - month t) div 12 \<le> 14800"
proof -
  define a where "a = (14 - month t) div 12"
  have v: "1400 \<le> year t" "year t \<le> 10000" "1 \<le> month t" "month t \<le> 12" using assms by (simp_all add: valid_ymd_def)
  have a: "a = 0 \<or> a = 1" using v(3,4) unfolding a_def by presburger
  show y: "6199 \<le> year t + 4800 - (14 - month t) div 12" "year t + 4800 - (14 - month t) div 12 \<le> 14800"
    using a v unfolding a_def [symmetric] by (elim disjE; simp)+
  have ok: "march_ok (year t + 4800 - a) (month t + 12 * a - 3) (day t)"
    using valid_march [OF assms] by (simp add: a_def)
  note b = march_day_bounds [OF ok y [folded a_def]]
  have "0 \<le> month t + 12 * a - 3" "month t + 12 * a - 3 \<le> 11" using ok by (simp_all add: march_ok_def)
  then have c: "cast16 a = a" "cast16 (year t + 4800 - a) = year t + 4800 - a" "cast16 (month t + 12 * a - 3) = month t + 12 * a - 3"
    using a v by auto
  have "day t + (153 * (month t + 12 * a - 3) + 2) div 5 + 365 * (year t + 4800 - a) + (year t + 4800 - a) div 4
      - (year t + 4800 - a) div 100 + (year t + 4800 - a) div 400 - 32045
    = march_day (year t + 4800 - a) (month t + 12 * a - 3) (day t) - 32044"
    by (simp add: march_day_def)
  moreover have "cast32 (cast64 (march_day (year t + 4800 - a) (month t + 12 * a - 3) (day t) - 32044))
    = march_day (year t + 4800 - a) (month t + 12 * a - 3) (day t) - 32044" using b by simp
  ultimately show "day_number t = march_day (year t + 4800 - (14 - month t) div 12) (month t + 12 * ((14 - month t) div 12) - 3) (day t) - 32044"
    unfolding day_number_def Let_def a_def [symmetric] c by (simp only:)
qed

lemma from_day_number_march:
  assumes "march_ok y m d" "6199 \<le> y" "y \<le> 14800"
  shows "from_day_number (march_day y m d - 32044)
    = and_then (greg_year (cast16 (y - 4800 + m div 10))) (\<lambda>y. ymd_type y (m + 3 - 12 * (m div 10)) d)"
proof -
  have y0: "0 \<le> y" using assms(2) by simp
  note dec = march_decompose [OF assms(1) y0]
  define e where "e = (153 * m + 2) div 5 + d - 1"
  note b = march_day_bounds [OF assms]
  have e: "0 \<le> e" "e \<le> 365" using march_doy [OF assms(1)] by (auto simp: e_def)
  have m: "0 \<le> m" "m \<le> 11" "1 \<le> d" "d \<le> 31" using assms(1) by (auto simp: march_ok_def)
  have md: "m div 10 = 0 \<or> m div 10 = 1" using m by presburger
  have B: "0 \<le> y div 100" "y div 100 \<le> 148" using assms(2,3) by simp_all
  have Y: "0 \<le> y mod 100" "y mod 100 < 100" by simp_all
  have Y4: "0 \<le> (1461 * (y mod 100)) div 4" "(1461 * (y mod 100)) div 4 \<le> 36524" using Y by simp_all
  have c1: "cast32 (march_day y m d - 32044 + 32044) = march_day y m d" using b by simp
  have c2: "cast32 (4 * march_day y m d + 3) = 4 * march_day y m d + 3" using b by simp
  have c3: "cast32 (146097 * (y div 100)) = 146097 * (y div 100)" using B by simp
  have c4: "cast32 (march_day y m d - (146097 * (y div 100)) div 4) = (1461 * (y mod 100)) div 4 + e"
    unfolding dec(2) e_def [symmetric] using e Y4 by simp
  have c5: "cast32 (4 * ((1461 * (y mod 100)) div 4 + e) + 3) = 4 * ((1461 * (y mod 100)) div 4 + e) + 3"
    using e Y4 by simp
  have c6: "cast32 (1461 * (y mod 100)) = 1461 * (y mod 100)" using Y by simp
  have c7: "cast32 ((1461 * (y mod 100)) div 4 + e - (1461 * (y mod 100)) div 4) = e" using e by simp
  have c8: "cast32 (5 * e + 2) = 5 * e + 2" using e by simp
  have c9: "cast32 (153 * m + 2) = 153 * m + 2" using m by simp
  have d: "cast16 (e - (153 * m + 2) div 5 + 1) = d" using m by (simp add: e_def)
  have mm: "cast16 (m + 3 - 12 * (m div 10)) = m + 3 - 12 * (m div 10)" using m md by auto
  have yy: "100 * (y div 100) + y mod 100 - 4800 + m div 10 = y - 4800 + m div 10" by simp
  show ?thesis
    unfolding from_day_number_def Let_def c1 c2 dec(1) c3 c4 c5 dec(3) [folded e_def] c6 c7 c8 dec(4) [folded e_def] c9 d mm yy
    by simp
qed


definition ymd_less :: "ymd \<Rightarrow> ymd \<Rightarrow> bool" where
  "ymd_less s t \<longleftrightarrow> year s < year t \<or> year s = year t \<and> (month s < month t \<or> month s = month t \<and> day s < day t)"

lemma from_day_number_day_number:
  assumes "valid_ymd t"
  shows "from_day_number (day_number t) = Inr t"
proof -
  define a where "a = (14 - month t) div 12"
  have v: "1400 \<le> year t" "year t \<le> 10000" "1 \<le> month t" "month t \<le> 12" using assms by (simp_all add: valid_ymd_def)
  have a: "a = (if month t \<le> 2 then 1 else 0)" using v(3,4) unfolding a_def by presburger
  note dn = day_number_march [OF assms, folded a_def]
  note ok = valid_march [OF assms, folded a_def]
  have q: "(month t + 12 * a - 3) div 10 = a" using month_cases [OF v(3,4)] unfolding a by auto
  have "greg_year (year t) = Inr (year t)" using v by (simp add: greg_year_def assign_def)
  then show ?thesis
    unfolding dn(1) from_day_number_march [OF ok dn(2,3)] q
    using valid_ymd_type [OF assms] v by simp
qed

text \<open>Which numbers are the number of a day of the range.\<close>

lemma march_year_range:
  assumes "march_ok y m d" "0 \<le> y" "march_day y m d = n + 32044" "2232400 \<le> n" "n \<le> 5373850"
  shows "1400 \<le> y - 4800 + m div 10" "y - 4800 + m div 10 \<le> 10000"
proof -
  define p q r e where "p = y div 4" and "q = p div 25" and "r = q div 4" and "e = (153 * m + 2) div 5 + d - 1"
  have "y div (4 * 25) = q" "y div (4 * 25 * 4) = r"
    unfolding p_def q_def r_def by (simp_all only: zdiv_zmult2_eq zero_le_numeral)
  then have q: "y div 100 = q" "y div 400 = r" by simp_all
  have e: "0 \<le> e" "e \<le> 365" using march_doy [OF assms(1)] by (auto simp: e_def)
  have m: "0 \<le> m" "m \<le> 11" using assms(1) by (simp_all add: march_ok_def)
  have md: "m div 10 = (if m \<le> 9 then 0 else 1)" using m by presburger
  have e9: "m \<le> 9 \<longrightarrow> e \<le> 305" "10 \<le> m \<longrightarrow> 306 \<le> e"
    by (insert int_in_0_11 [OF m] assms(1), unfold march_ok_def e_def, elim insertE emptyE; simp; linarith)+
  have s: "365 * y + p - q + r + e = n + 32044"
    using assms(3) unfolding march_day_def q e_def [symmetric] p_def [symmetric] .
  have b: "4 * p \<le> y" "y \<le> 4 * p + 3" "25 * q \<le> p" "p \<le> 25 * q + 24" "4 * r \<le> q" "q \<le> 4 * r + 3"
    unfolding p_def q_def r_def by simp_all
  show "1400 \<le> y - 4800 + m div 10"
  proof (rule ccontr)
    assume "\<not> ?thesis"
    then have "y \<le> 6198 \<or> y \<le> 6199 \<and> m \<le> 9" unfolding md by (simp split: if_splits)
    then show False using s b e e9 assms(4) by (elim disjE) linarith+
  qed
  show "y - 4800 + m div 10 \<le> 10000"
  proof (rule ccontr)
    assume "\<not> ?thesis"
    then have "14801 \<le> y \<or> y = 14800 \<and> 10 \<le> m" unfolding md by (simp split: if_splits) linarith?
    then show False
    proof
      assume "y = 14800 \<and> 10 \<le> m"
      then have "p = 3700" "q = 148" "r = 37" "306 \<le> e" "y = 14800" using e9 unfolding p_def q_def r_def by simp_all
      then show False using s assms(5) by linarith
    qed (use s b e assms(5) in linarith)
  qed
qed

lemma day_number_surj:
  assumes "2232400 \<le> n" "n \<le> 5373850"
  obtains t where "valid_ymd t" "day_number t = n"
proof -
  have "0 \<le> n + 32044" using assms(1) by simp
  then obtain y m d where ok: "march_ok y m d" and y0: "0 \<le> y" and A: "march_day y m d = n + 32044"
    by (rule march_surj)
  define t where "t = \<lparr>year = y - 4800 + m div 10, month = m + 3 - 12 * (m div 10), day = d\<rparr>"
  have m: "0 \<le> m" "m \<le> 11" using ok by (simp_all add: march_ok_def)
  have md: "m div 10 = (if m \<le> 9 then 0 else 1)" using m by presburger
  have leap: "m = 11 \<longrightarrow> d \<le> 28 \<or> d = 29 \<and> is_leap_year (y - 4799)"
  proof -
    have "(y - 4799) mod 4 = (y + 1) mod 4" "(y - 4799) mod 100 = (y + 1) mod 100" "(y - 4799) mod 400 = (y + 1) mod 400"
      using mod_mult_self1 [of "y - 4799" 1200 4] mod_mult_self1 [of "y - 4799" 48 100] mod_mult_self1 [of "y - 4799" 12 400]
      by (simp_all add: add.commute)
    then show ?thesis using ok by (simp add: march_ok_def is_leap_year_def)
  qed
  have d: "1 \<le> d" "d \<le> end_of_month_day (y - 4800 + m div 10) (m + 3 - 12 * (m div 10))"
  proof -
    have "1 \<le> d" "d \<le> 30 \<or> d = 31 \<and> m \<notin> {1, 3, 6, 8}" using ok by (auto simp: march_ok_def)
    then show "1 \<le> d" "d \<le> end_of_month_day (y - 4800 + m div 10) (m + 3 - 12 * (m div 10))"
      using int_in_0_11 [OF m] leap unfolding end_of_month_day_def md by (elim insertE emptyE; auto)+
  qed
  have v: "valid_ymd t"
    using march_year_range [OF ok y0 A assms] d m unfolding t_def valid_ymd_def md by auto
  moreover have "day_number t = n"
  proof -
    have "(14 - month t) div 12 = m div 10" using m unfolding t_def md by simp
    then show ?thesis using day_number_march(1) [OF v] A by (simp add: t_def)
  qed
  ultimately show ?thesis using that by blast
qed



lemma div_Suc: "0 < k \<Longrightarrow> (y + 1) div k = y div k + (if (y + 1) mod k = 0 then 1 else (0 :: int))"
proof -
  assume k: "0 < k"
  have e: "y + 1 = k * (y div k) + (y mod k + 1)" by simp
  have b: "0 \<le> y mod k" "y mod k < k" using k by simp_all
  show ?thesis
  proof (cases "y mod k + 1 = k")
    case True
    then have "y + 1 = k * (y div k + 1)" using e by (simp add: algebra_simps)
    then show ?thesis using k by simp
  next
    case False
    then have r: "0 \<le> y mod k + 1" "y mod k + 1 < k" using b by auto
    have "(y + 1) mod k = y mod k + 1" "(y + 1) div k = y div k"
      using e r by (metis mod_mult_self4 mod_pos_pos_trivial, metis add.commute div_pos_pos_trivial div_mult_self4 k add_0 less_irrefl)
    then show ?thesis using b by simp
  qed
qed

definition year_start :: "int \<Rightarrow> int" where
  "year_start y = 365 * y + y div 4 - y div 100 + y div 400"

lemma leap_nested:
  "(y :: int) mod 400 = 0 \<Longrightarrow> y mod 100 = 0" "(y :: int) mod 100 = 0 \<Longrightarrow> y mod 4 = 0"
  using mod_mod_cancel [of 4 100 y] mod_mod_cancel [of 100 400 y] by simp_all

lemma year_start_Suc:
  "year_start (y + 1) = year_start y + 365
     + (if (y + 1) mod 4 = 0 \<and> ((y + 1) mod 100 \<noteq> 0 \<or> (y + 1) mod 400 = 0) then 1 else 0)"
proof -
  define p q r where "p = y div 4" and "q = y div 100" and "r = y div 400"
  define P Q R where "P \<longleftrightarrow> (y + 1) mod 4 = 0" and "Q \<longleftrightarrow> (y + 1) mod 100 = 0" and "R \<longleftrightarrow> (y + 1) mod 400 = 0"
  have "R \<Longrightarrow> Q" unfolding Q_def R_def by (rule leap_nested(1))
  moreover have "Q \<Longrightarrow> P" unfolding P_def Q_def by (rule leap_nested(2))
  moreover have "year_start (y + 1) = 365 * (y + 1) + (p + (if P then 1 else 0)) - (q + (if Q then 1 else 0)) + (r + (if R then 1 else 0))"
    unfolding year_start_def P_def Q_def R_def p_def q_def r_def by (simp only: div_Suc [OF zero_less_numeral])
  moreover have "year_start y = 365 * y + p - q + r" by (simp only: year_start_def p_def q_def r_def)
  ultimately show ?thesis unfolding P_def [symmetric] Q_def [symmetric] R_def [symmetric]
    by (cases P; cases Q; cases R) simp_all
qed

lemma year_start_mono: "y \<le> z \<Longrightarrow> year_start y \<le> year_start z"
proof (induction z rule: int_ge_induct)
  case (step z)
  then show ?case using year_start_Suc [of z] by (simp split: if_splits)
qed simp

lemma month_start_mono: "m \<le> m' \<Longrightarrow> (153 * m + 2) div 5 \<le> (153 * m' + 2) div (5 :: int)"
  by (rule zdiv_mono1) simp_all

lemma month_end:
  assumes "march_ok y m d" "m < 11"
  shows "(153 * m + 2) div 5 + d - 1 < (153 * (m + 1) + 2) div 5"
proof -
  have m: "0 \<le> m" "m \<le> 11" using assms by (simp_all add: march_ok_def)
  show ?thesis
    by (insert int_in_0_11 [OF m] assms, unfold march_ok_def, elim insertE emptyE; simp; linarith)
qed

text \<open>Days are numbered in the order of the calendar.\<close>

lemma march_day_less:
  assumes "march_ok y m d" "march_ok y' m' d'" "12 * y + m < 12 * y' + m' \<or> 12 * y + m = 12 * y' + m' \<and> d < d'"
  shows "march_day y m d < march_day y' m' d'"
proof -
  have m: "0 \<le> m" "m \<le> 11" "0 \<le> m'" "m' \<le> 11" using assms(1,2) by (simp_all add: march_ok_def)
  note s = march_day_def [folded year_start_def]
  have d': "1 \<le> d'" using assms(2) by (simp add: march_ok_def)
  consider (same) "y = y'" "m = m'" "d < d'" | (month) "y = y'" "m < m'" | (year) "y < y'" using assms(3) m by linarith
  then show ?thesis
  proof cases
    case same then show ?thesis by (simp add: s)
  next
    case month
    then have "(153 * m + 2) div 5 + d - 1 < (153 * (m + 1) + 2) div 5" using month_end [OF assms(1)] m by simp
    also have "\<dots> \<le> (153 * m' + 2) div 5" using month(2) by (intro month_start_mono) simp
    finally show ?thesis using d' by (simp add: s month)
  next
    case year
    have "march_day y m d < year_start (y + 1)"
      using march_doy(2) [OF assms(1)] year_start_Suc [of y] unfolding s by (auto split: if_splits)
    also have "\<dots> \<le> year_start y'" using year by (intro year_start_mono) simp
    finally show ?thesis using march_doy(1) [OF assms(2)] by (simp add: s)
  qed
qed

lemma day_number_less:
  assumes "valid_ymd s" "valid_ymd t" "ymd_less s t"
  shows "day_number s < day_number t"
proof -
  have "month s \<in> {1..12}" "month t \<in> {1..12}" using assms by (simp_all add: valid_ymd_def)
  then show ?thesis
    unfolding day_number_march(1) [OF assms(1)] day_number_march(1) [OF assms(2)] diff_strict_right_mono
    using march_day_less [OF valid_march [OF assms(1)] valid_march [OF assms(2)]] assms(3)
    unfolding ymd_less_def by auto
qed


text \<open>The seven days of the week.\<close>

lemma day_of_week_day_number:
  assumes "valid_ymd t"
  shows "day_of_week t = (day_number t + 1) mod 7"
proof -
  define a where "a = (14 - month t) div 12"
  have v: "1400 \<le> year t" "year t \<le> 10000" "1 \<le> month t" "month t \<le> 12" "1 \<le> day t" "day t \<le> 31"
    using assms end_of_month_le(2) [of "year t" "month t"] by (simp_all add: valid_ymd_def)
  have a: "a = (if month t \<le> 2 then 1 else 0)" using v(3,4) unfolding a_def by presburger
  define y m where "y = year t - a" and "m = month t + 12 * a - 2"
  have c: "cast16 a = a" "cast16 (year t - a) = y" "cast16 (month t + 12 * a - 2) = m"
    using a v by (simp_all add: y_def m_def)
  have m: "1 \<le> m" "m \<le> 12" using v a by (simp_all add: m_def)
  have k: "(y + 4800) div 4 = y div 4 + 1200" "(y + 4800) div 100 = y div 100 + 48" "(y + 4800) div 400 = y div 400 + 12"
    using div_mult_self1 [of 4 y 1200] div_mult_self1 [of 100 y 48] div_mult_self1 [of 400 y 12] by simp_all
  define L where "L = day t + y + y div 4 - y div 100 + y div 400"
  have e: "month t + 12 * a - 3 = m - 1" "year t + 4800 - a = y + 4800" by (simp_all add: m_def y_def)
  have dn: "day_number t + 1 = L + 364 * y + (153 * (m - 1) + 2) div 5 + (365 * 4800 + 1164 - 32044)"
    unfolding day_number_march(1) [OF assms, folded a_def] e march_day_def k L_def by simp
  have "\<exists>j. (31 * m) div 12 = (153 * (m - 1) + 2) div 5 + 1721120 - 7 * j"
    using month_cases [OF m]
    by (elim insertE emptyE; simp; presburger)
  then obtain j where j: "(31 * m) div 12 = (153 * (m - 1) + 2) div 5 + 1721120 - 7 * j" by blast
  have "day_number t + 1 = (L + (31 * m) div 12) + 7 * (52 * y + j)"
    unfolding dn j by simp
  then have "(day_number t + 1) mod 7 = (L + (31 * m) div 12) mod 7" by (simp only: mod_mult_self2)
  moreover have "day_of_week t = cast16 ((L + (31 * m) div 12) mod 7)"
    by (simp only: day_of_week_def Let_def a_def [symmetric] c L_def)
  moreover have "0 \<le> (L + (31 * m) div 12) mod 7" "(L + (31 * m) div 12) mod 7 < 7" by simp_all
  ultimately show ?thesis by simp
qed


text \<open>The first day of a year, and how many days a date is behind it.\<close>

definition jan1 :: "int \<Rightarrow> int" where
  "jan1 y = day_number \<lparr>year = y, month = 1, day = 1\<rparr>"

lemma jan1_march:
  assumes "1400 \<le> y" "y \<le> 10000"
  shows "valid_ymd \<lparr>year = y, month = 1, day = 1\<rparr>" "jan1 y = year_start (y + 4799) + 306 - 32044"
proof -
  show v: "valid_ymd \<lparr>year = y, month = 1, day = 1\<rparr>" using assms by (simp add: valid_ymd_def end_of_month_day_def)
  show "jan1 y = year_start (y + 4799) + 306 - 32044"
    using day_number_march(1) [OF v] by (simp add: jan1_def march_day_def year_start_def add.commute)
qed

lemma year_length:
  assumes "1400 \<le> y" "y + 1 \<le> 10000"
  shows "jan1 (y + 1) = jan1 y + (if is_leap_year y then 366 else 365)"
  using jan1_march(2) [of y] jan1_march(2) [of "y + 1"] assms year_start_Suc [of "y + 4799"]
  unfolding is_leap_year_march by (simp add: algebra_simps split: if_splits)

lemma day_in_year:
  assumes "valid_ymd t"
  shows "jan1 (year t) \<le> day_number t" "day_number t < jan1 (year t) + (if is_leap_year (year t) then 366 else 365)"
proof -
  define s e where "s = \<lparr>year = year t, month = 1, day = 1\<rparr>" and "e = \<lparr>year = year t, month = 12, day = 31\<rparr>"
  have v: "1400 \<le> year t" "year t \<le> 10000" using assms by (simp_all add: valid_ymd_def)
  have s: "valid_ymd s" using jan1_march(1) [OF v] by (simp add: s_def)
  have e: "valid_ymd e" using v by (simp add: e_def valid_ymd_def end_of_month_day_def)
  have "t = s \<or> ymd_less s t" "t = e \<or> ymd_less t e"
    using assms end_of_month_le(2) [of "year t" "month t"]
    by (cases t; simp add: s_def e_def ymd_less_def valid_ymd_def; linarith)+
  then have "day_number s \<le> day_number t" "day_number t \<le> day_number e"
    using day_number_less [OF s assms] day_number_less [OF assms e] by auto
  moreover have "day_number e = year_start (year t + 4800) + 305 - 32044"
    using day_number_march(1) [OF e] by (simp add: e_def march_day_def year_start_def)
  moreover have "year_start (year t + 4800) = year_start (year t + 4799) + (if is_leap_year (year t) then 366 else 365)"
    using year_start_Suc [of "year t + 4799"] unfolding is_leap_year_march by (simp add: algebra_simps)
  ultimately show "jan1 (year t) \<le> day_number t"
    "day_number t < jan1 (year t) + (if is_leap_year (year t) then 366 else 365)"
    using jan1_march(2) [OF v] by (simp_all add: jan1_def s_def)
qed


text \<open>
  The week by ISO 8601: a week belongs to the year of its Thursday (Mondays are the days whose number is
  divisible by seven), and the year's weeks are numbered from one.
\<close>

definition thursday :: "int \<Rightarrow> int" where
  "thursday n = n - n mod 7 + 3"

definition iso_week :: "int \<Rightarrow> int \<Rightarrow> int" where
  "iso_week y n =
     (if thursday n < jan1 y then (thursday n - jan1 (y - 1)) div 7 + 1
      else if thursday n < jan1 y + (if is_leap_year y then 366 else 365) then (thursday n - jan1 y) div 7 + 1
      else 1)"

lemma div_7: "7 * (x div 7) \<le> (x :: int)" "x < 7 * (x div 7) + 7" "x mod 7 = x - 7 * (x div 7)"
  using pos_mod_bound [of 7 x] by (simp_all add: minus_mult_div_eq_mod)

lemma week_of_thursday:
  fixes b n :: int
  assumes "0 \<le> b" "b < 4294967296" "b \<le> n" "n < b + 400"
  shows "week_of b n = ((b + 3) mod 7, (thursday n - b) div 7 + 1)"
proof -
  have d: "0 \<le> (b + 3) mod 7" "(b + 3) mod 7 < 7" by simp_all
  have c: "cast64 (b + 3) = b + 3" using assms by simp
  have c2: "cast64 (n + (b + 3) mod 7 - b + 4) = n + (b + 3) mod 7 - b + 4" using assms d by simp
  have "(n + (b + 3) mod 7 - b + 4) div 7 = (n - n mod 7 + 3 - b) div 7 + 1"
  proof -
    have "n = 7 * (n div 7) + n mod 7" "b + 3 = 7 * ((b + 3) div 7) + (b + 3) mod 7" by simp_all
    then have e: "n + (b + 3) mod 7 - b + 4 = n mod 7 + 7 * (n div 7 - (b + 3) div 7 + 1)"
      "n - n mod 7 + 3 - b = (6 - (b + 3) mod 7) + 7 * (n div 7 - (b + 3) div 7)" by (simp_all only: ring_distribs)
    have "(n mod 7) div 7 = 0" "(6 - (b + 3) mod 7) div 7 = 0" using d by (simp_all add: div_pos_pos_trivial)
    then show ?thesis unfolding e by (simp only: div_mult_self2 zero_neq_numeral not_False_eq_True)
  qed
  then show ?thesis by (simp only: week_of_def Let_def c c2 thursday_def)
qed

lemma iso_week_correct:
  assumes "valid_ymd t"
  shows "week_number t = Inr (iso_week (year t) (day_number t)) \<and> 1 \<le> iso_week (year t) (day_number t)
    \<and> iso_week (year t) (day_number t) \<le> 53"
proof -
  define y n b where "y = year t" and "n = day_number t" and "b = jan1 y"
  have v: "1400 \<le> y" "y \<le> 10000" using assms by (simp_all add: valid_ymd_def y_def)
  define len where "len = (if is_leap_year y then 366 else 365 :: int)"
  have n: "b \<le> n" "n < b + len" using day_in_year [OF assms] by (simp_all add: b_def y_def n_def len_def)
  have len: "len = 365 \<or> len = 366" by (simp add: len_def)
  have b: "2232400 \<le> b" "b < 4294967296"
  proof -
    have "jan1 1400 = 2232400" by code_simp
    then show "2232400 \<le> b"
      using year_start_mono [of 6199 "y + 4799"] jan1_march(2) [OF v] jan1_march(2) [of 1400] v by (simp add: b_def)
    show "b < 4294967296" by (simp add: b_def jan1_def day_number_def Let_def cast32_def)
  qed
  define d where "d = (b + 3) mod 7"
  have d: "0 \<le> d" "d \<le> 6" using pos_mod_bound [of 7 "b + 3"] by (simp_all add: d_def)
  define w where "w = (thursday n - b) div 7 + 1"
  have W: "week_of b n = (d, w)" unfolding w_def d_def using b n len by (intro week_of_thursday) auto
  have th: "thursday n = 7 * (n div 7) + 3" "n - 3 \<le> thursday n" "thursday n \<le> n + 3"
    unfolding thursday_def using div_7 [of n] by simp_all
  have e: "thursday n - b = 7 * (w - 1) + 6 - d"
  proof -
    have "thursday n - b = (6 - d) + 7 * (n div 7 - (b + 3) div 7)"
      unfolding th(1) d_def div_7(3) by simp
    moreover have "(6 - d) div 7 = 0" using d by (simp add: div_pos_pos_trivial)
    ultimately have "w - 1 = n div 7 - (b + 3) div 7" unfolding w_def by (simp only: div_mult_self2 zero_neq_numeral not_False_eq_True)
    then show ?thesis using th(1) unfolding d_def div_7(3) by simp
  qed
  have "len \<le> 366" using len by auto
  then have w: "0 \<le> w" "w \<le> 53" using e d th(2,3) n by presburger+
  have iso: "iso_week y n = (if thursday n < b then (thursday n - jan1 (y - 1)) div 7 + 1
      else if thursday n < b + len then w else 1)"
    by (simp add: iso_week_def b_def len_def w_def)
  have num: "week_number t = (if 1 \<le> w \<and> w \<le> 52 then Inr w
      else if w = 53 then (if d = 6 \<or> d = 5 \<and> is_leap_year y then Inr w else Inr 1)
      else and_then (ymd_type (cast16 (y - 1)) 1 1) (\<lambda>begin2. Inr (snd (week_of (julian_day_number begin2) n))))"
    using w by (simp add: week_number_def valid_ymd_type [OF jan1_march(1) [OF v], simplified] W julian_day_number_def
      flip: y_def n_def jan1_def b_def)
  consider (inner) "1 \<le> w" "w \<le> 52" | (last) "w = 53" | (before) "w = 0" using w by linarith
  then show ?thesis
  proof cases
    case inner
    then have "\<not> thursday n < b" "thursday n < b + len" using e d len by presburger+
    then show ?thesis using inner num iso by (simp flip: y_def n_def)
  next
    case last
    then have "\<not> thursday n < b" "thursday n < b + len \<longleftrightarrow> d = 6 \<or> d = 5 \<and> is_leap_year y"
      using e d last by (auto simp: len_def)
    then show ?thesis using last num iso by (simp flip: y_def n_def)
  next
    case before
    have "y \<noteq> 1400"
    proof
      assume y: "y = 1400"
      have "d = 5" unfolding d_def b_def y by code_simp
      then show False using before e th n by simp
    qed
    then have v': "1400 \<le> y - 1" "y - 1 \<le> 10000" using v by simp_all
    define len' where "len' = (if is_leap_year (y - 1) then 366 else 365 :: int)"
    have b': "b = jan1 (y - 1) + len'" using year_length [of "y - 1"] v v' by (simp add: b_def len'_def)
    have l: "len' = 365 \<or> len' = 366" by (simp add: len'_def)
    have j: "0 \<le> jan1 (y - 1)" by (simp add: jan1_def day_number_def Let_def cast32_def)
    have tb: "thursday n < b" using before e d by presburger
    have "n < b + 3" using th(2) tb by simp
    then have "week_of (jan1 (y - 1)) n = ((jan1 (y - 1) + 3) mod 7, (thursday n - jan1 (y - 1)) div 7 + 1)"
      using b b' l j n by (intro week_of_thursday) auto
    moreover have "ymd_type (cast16 (y - 1)) 1 1 = Inr \<lparr>year = y - 1, month = 1, day = 1\<rparr>"
      using valid_ymd_type [OF jan1_march(1) [OF v']] v' by simp
    ultimately have "week_number t = Inr (iso_week y n)"
      using before num iso tb by (simp add: julian_day_number_def flip: jan1_def)
    moreover have "358 \<le> thursday n - jan1 (y - 1)" "thursday n - jan1 (y - 1) \<le> 365" using e before d b' l by presburger+
    then have "51 \<le> (thursday n - jan1 (y - 1)) div 7" "(thursday n - jan1 (y - 1)) div 7 \<le> 52" by simp_all
    ultimately show ?thesis using iso tb by (simp flip: y_def n_def)
  qed
qed


lemma day_number_range:
  assumes "valid_ymd t"
  shows "2232400 \<le> day_number t" "day_number t \<le> 5373850"
proof -
  have v: "1400 \<le> year t" "year t \<le> 10000" using assms by (simp_all add: valid_ymd_def)
  have "jan1 1400 = 2232400" "jan1 10000 = 5373485" by code_simp+
  then have "2232400 \<le> jan1 (year t)" "jan1 (year t) \<le> 5373485"
    using year_start_mono [of 6199 "year t + 4799"] year_start_mono [of "year t + 4799" 14799]
      jan1_march(2) [OF v] jan1_march(2) [of 1400] jan1_march(2) [of 10000] v by simp_all
  then show "2232400 \<le> day_number t" "day_number t \<le> 5373850"
    using day_in_year [OF assms] by (simp_all split: if_splits)
qed

lemma date_make_iff:
  "date_make y m k = Inr d \<longleftrightarrow> valid_ymd \<lparr>year = y, month = m, day = k\<rparr> \<and> d = day_number \<lparr>year = y, month = m, day = k\<rparr>"
  using end_of_month_le(2) [of y m]
  by (auto simp: date_make_def ymd_type_def greg_year_def greg_month_def greg_day_def assign_def valid_ymd_def)

lemma uint32_simps [simp]:
  "lim_min uint32_limits = 0" "lim_max uint32_limits = 4294967295" "\<not> is_signed uint32_limits"
  by (simp_all add: uint32_limits_def is_signed_def)

lemma int64_simps [simp]:
  "lim_min int64_limits = - 9223372036854775808" "lim_max int64_limits = 9223372036854775807" "is_signed int64_limits"
  by (simp_all add: int64_limits_def is_signed_def)

lemma date_plus_exact:
  assumes "0 < d" "d < 4294967294" "0 < d + n" "d + n < 4294967294"
  shows "date_plus d n = Inr (d + n)" "date_sub (d + n) d = Inr n" "date_minus (d + n) n = Inr d"
proof -
  have n: "\<not> is_special int64_limits n" using assms by (auto simp: ia_defs)
  have s: "\<not> is_special uint32_limits d" "\<not> is_special uint32_limits (d + n)" using assms by (auto simp: ia_defs)
  have ds: "\<not> date_is_special d" "\<not> date_is_special (d + n)"
    using s by (simp_all add: date_is_special_def date_is_not_a_date_def date_is_infinity_def is_special_def)
  have "(d + n mod 4294967296) mod 4294967296 = (d + n) mod 4294967296" by (simp only: mod_add_right_eq)
  then show "date_plus d n = Inr (d + n)"
    using n s assms by (simp add: date_plus_def ia_add_int_def ia_result_def cast32_def)
  have "(d + n - n mod 4294967296) mod 4294967296 = (d + n - n) mod 4294967296" by (simp only: mod_diff_right_eq)
  then show "date_minus (d + n) n = Inr d"
    using n s assms by (simp add: date_minus_def ia_sub_int_def ia_result_def cast32_def)
  show "date_sub (d + n) d = Inr n" using ds assms by (simp add: date_sub_def ia_result_def)
qed

section \<open>The calendar\<close>

text \<open>
  C14: Day numbers and dates correspond one to one: the number of a date of the years \<open>1400\<close> to \<open>10000\<close>
  converts back to it (by both conversions), and every number of that range is the number of the
  one date it converts to.
\<close>
theorem calendar_roundtrip:
  "(\<forall>t. valid_ymd t \<longrightarrow> from_day_number (day_number t) = Inr t \<and> from_julian_day_number (julian_day_number t) = Inr t
        \<and> 2232400 \<le> day_number t \<and> day_number t \<le> 5373850)
   \<and> (\<forall>n. 2232400 \<le> n \<longrightarrow> n \<le> 5373850 \<longrightarrow>
        (\<exists>t. valid_ymd t \<and> from_day_number n = Inr t \<and> day_number t = n))"
proof (intro conjI allI impI)
  fix t assume v: "valid_ymd t"
  show r: "from_day_number (day_number t) = Inr t" by (rule from_day_number_day_number [OF v])
  have "from_julian_day_number (day_number t) = from_day_number (day_number t)"
    by (simp only: from_julian_day_number_def from_day_number_def)
  then show "from_julian_day_number (julian_day_number t) = Inr t" using r by (simp add: julian_day_number_def)
  show "2232400 \<le> day_number t" "day_number t \<le> 5373850" using day_number_range [OF v] by simp_all
next
  fix n :: int assume n: "2232400 \<le> n" "n \<le> 5373850"
  then obtain t where t: "valid_ymd t" "day_number t = n" by (rule day_number_surj)
  then show "\<exists>t. valid_ymd t \<and> from_day_number n = Inr t \<and> day_number t = n"
    using from_day_number_day_number [OF t(1)] by auto
qed

theorem calendar_roundtrip_witness:
  "from_day_number (day_number \<lparr>year = 2012, month = 2, day = 29\<rparr>) = Inr \<lparr>year = 2012, month = 2, day = 29\<rparr>
   \<and> (\<exists>t. valid_ymd t \<and> from_day_number 2440588 = Inr t \<and> day_number t = 2440588)"
proof -
  have "valid_ymd \<lparr>year = 2012, month = 2, day = 29\<rparr>" by code_simp
  then show ?thesis using calendar_roundtrip by simp
qed

text \<open>
  The order of day numbers is the order of dates by year, month and day, so the order the
  indices of dates and times sort by is the order of the calendar.
\<close>
theorem calendar_order:
  assumes "valid_ymd s" "valid_ymd t"
  shows "(date_less (date_of_ymd s) (date_of_ymd t) \<longleftrightarrow> ymd_less s t)
    \<and> (date_equal (date_of_ymd s) (date_of_ymd t) \<longleftrightarrow> s = t)"
proof -
  have "ymd_less s t \<or> s = t \<or> ymd_less t s" by (cases s; cases t; simp add: ymd_less_def; linarith)
  then show ?thesis
    using day_number_less [OF assms] day_number_less [OF assms(2,1)]
    by (auto simp: date_less_def date_equal_def date_of_ymd_def ymd_less_def)
qed

theorem calendar_order_witness:
  "date_less (date_of_ymd \<lparr>year = 1999, month = 12, day = 31\<rparr>) (date_of_ymd \<lparr>year = 2000, month = 1, day = 1\<rparr>)"
proof -
  have v: "valid_ymd \<lparr>year = 1999, month = 12, day = 31\<rparr>" "valid_ymd \<lparr>year = 2000, month = 1, day = 1\<rparr>" by code_simp+
  show ?thesis using calendar_order [OF v] by (simp add: ymd_less_def)
qed

text \<open>
  C23: The weekday is the day number's residue, and the week number is the one ISO 8601 assigns for
  every date of the range: the code's two special cases and its recomputation over the previous year
  agree with counting the Thursdays of the year; it never throws and lies between \<open>1\<close> and \<open>53\<close>.
\<close>
theorem iso_week_number:
  assumes "valid_ymd t"
  shows "day_of_week t = (day_number t + 1) mod 7
    \<and> week_number t = Inr (iso_week (year t) (day_number t))
    \<and> 1 \<le> iso_week (year t) (day_number t) \<and> iso_week (year t) (day_number t) \<le> 53"
  using day_of_week_day_number [OF assms] iso_week_correct [OF assms] by blast

theorem iso_week_number_witness:
  "week_number \<lparr>year = 2012, month = 12, day = 31\<rparr> = Inr 1 \<and> day_of_week \<lparr>year = 2012, month = 12, day = 31\<rparr> = 1"
proof -
  have v: "valid_ymd \<lparr>year = 2012, month = 12, day = 31\<rparr>" by code_simp
  have e: "iso_week (year \<lparr>year = 2012, month = 12, day = 31\<rparr>) (day_number \<lparr>year = 2012, month = 12, day = 31\<rparr>) = 1"
    "(day_number \<lparr>year = 2012, month = 12, day = 31\<rparr> + 1) mod 7 = 1" by code_simp+
  show ?thesis using iso_week_number [OF v] unfolding e by simp
qed



end
