(* ===== verification/PosixTime.thy ===== *)
theory PosixTime imports Calendar begin

text \<open>
  Times and durations of \<open>boost::posix_time\<close> at the microsecond resolution the build uses
  (\<open>external/boost/date_time/time_resolution_traits.hpp\<close>, \<open>time_duration.hpp\<close>,
  \<open>time_system_counted.hpp\<close>, \<open>time.hpp\<close>, \<open>microsec_time_clock.hpp\<close>, \<open>posix_time/\<close>): the time stamps of
  connected nodes, the timeouts of the workers and the heartbeat timer are values of these types.
\<close>

section \<open>Durations\<close>

text \<open>A duration is an \<open>int_adapter<int64_t>\<close> of microseconds; its components are \<open>int32_t\<close>.\<close>

type_synonym time_duration = int

definition int32_limits :: limits where
  "int32_limits = \<lparr>lim_min = - 2147483648, lim_max = 2147483647\<rparr>"

definition cast_s32 :: "int \<Rightarrow> int" where
  "cast_s32 v = (v + 2147483648) mod 4294967296 - 2147483648"

definition res_adjust :: int where "res_adjust = 1000000"
definition ticks_per_second :: int where "ticks_per_second = res_adjust"

definition absolute_value :: "limits \<Rightarrow> int \<Rightarrow> int result" where
  "absolute_value L x = (if x < 0 then ia_result L (- x) else Inr x)"

text \<open>
  The sums of the hours, minutes and seconds of 32 bits fit the 64 bits they are computed in; only adding
  the fraction can overflow.
\<close>

definition to_tick_count :: "int \<Rightarrow> int \<Rightarrow> int \<Rightarrow> int \<Rightarrow> int result" where
  "to_tick_count h m s fs =
     (if h < 0 \<or> m < 0 \<or> s < 0 \<or> fs < 0 then
        and_then (absolute_value int32_limits h) (\<lambda>h. and_then (absolute_value int32_limits m) (\<lambda>m.
        and_then (absolute_value int32_limits s) (\<lambda>s. and_then (absolute_value int64_limits fs) (\<lambda>fs.
        and_then (ia_result int64_limits ((h * 3600 + m * 60 + s) * res_adjust + fs)) (\<lambda>v.
          ia_result int64_limits (v * - 1))))))
      else ia_result int64_limits ((h * 3600 + m * 60 + s) * res_adjust + fs))"

definition td_make :: "int \<Rightarrow> int \<Rightarrow> int \<Rightarrow> int \<Rightarrow> time_duration result" where
  "td_make h m s fs = to_tick_count h m s fs"

definition td_special :: "special_values \<Rightarrow> time_duration" where
  "td_special sv = from_special int64_limits sv"

text \<open>The constructors of one unit take a \<open>long\<close> that is converted to 32 bits.\<close>

definition hours_of :: "int \<Rightarrow> time_duration result" where "hours_of n = td_make (cast_s32 n) 0 0 0"
definition minutes_of :: "int \<Rightarrow> time_duration result" where "minutes_of n = td_make 0 (cast_s32 n) 0 0"
definition seconds_of :: "int \<Rightarrow> time_duration result" where "seconds_of n = td_make 0 0 (cast_s32 n) 0"

definition subsecond_duration :: "int \<Rightarrow> int \<Rightarrow> time_duration result" where
  "subsecond_duration frac_of_second ss =
     (if ticks_per_second \<ge> frac_of_second
      then ia_result int64_limits (ss * (ticks_per_second sdiv frac_of_second))
      else ia_result int64_limits (ss sdiv (frac_of_second sdiv ticks_per_second)))"

definition milliseconds_of :: "int \<Rightarrow> time_duration result" where "milliseconds_of = subsecond_duration 1000"
definition microseconds_of :: "int \<Rightarrow> time_duration result" where "microseconds_of = subsecond_duration 1000000"

text \<open>The accessors divide the stored number, a special value included.\<close>

definition td_hours :: "time_duration \<Rightarrow> int" where "td_hours t = cast_s32 (t sdiv (3600 * ticks_per_second))"
definition td_minutes :: "time_duration \<Rightarrow> int" where "td_minutes t = cast_s32 ((t sdiv (60 * ticks_per_second)) smod 60)"
definition td_seconds :: "time_duration \<Rightarrow> int" where "td_seconds t = cast_s32 ((t sdiv ticks_per_second) smod 60)"
definition total_seconds :: "time_duration \<Rightarrow> int" where "total_seconds t = cast_s32 (t sdiv ticks_per_second)"

definition total_milliseconds :: "time_duration \<Rightarrow> int result" where
  "total_milliseconds t =
     (if ticks_per_second < 1000 then ia_result int64_limits (t * (1000 sdiv ticks_per_second))
      else ia_result int64_limits (t sdiv (ticks_per_second sdiv 1000)))"

definition total_nanoseconds :: "time_duration \<Rightarrow> int result" where
  "total_nanoseconds t =
     (if ticks_per_second < 1000000000 then ia_result int64_limits (t * (1000000000 sdiv ticks_per_second))
      else ia_result int64_limits (t sdiv (ticks_per_second sdiv 1000000000)))"

definition total_microseconds :: "time_duration \<Rightarrow> int result" where
  "total_microseconds t =
     (if ticks_per_second < 1000000 then ia_result int64_limits (t * (1000000 sdiv ticks_per_second))
      else ia_result int64_limits (t sdiv (ticks_per_second sdiv 1000000)))"

definition fractional_seconds :: "time_duration \<Rightarrow> int" where "fractional_seconds t = t smod ticks_per_second"

definition td_invert_sign :: "time_duration \<Rightarrow> time_duration result" where "td_invert_sign t = ia_mult_int int64_limits t (- 1)"
definition td_is_negative :: "time_duration \<Rightarrow> bool" where "td_is_negative t \<longleftrightarrow> ia_less_int int64_limits t 0"
definition td_less :: "time_duration \<Rightarrow> time_duration \<Rightarrow> bool" where "td_less a b \<longleftrightarrow> ia_less int64_limits a b"
definition td_equal :: "time_duration \<Rightarrow> time_duration \<Rightarrow> bool" where "td_equal a b \<longleftrightarrow> ia_equal int64_limits a b"
definition td_uminus :: "time_duration \<Rightarrow> time_duration result" where "td_uminus t = ia_mult_int int64_limits t (- 1)"
definition td_sub :: "time_duration \<Rightarrow> time_duration \<Rightarrow> time_duration result" where "td_sub a b = ia_sub int64_limits int64_limits a b"
definition td_add :: "time_duration \<Rightarrow> time_duration \<Rightarrow> time_duration result" where "td_add a b = ia_add int64_limits int64_limits a b"
definition td_div :: "time_duration \<Rightarrow> int \<Rightarrow> time_duration result" where "td_div t n = ia_div_int int64_limits t n"
definition td_mult :: "time_duration \<Rightarrow> int \<Rightarrow> time_duration result" where "td_mult t n = ia_mult_int int64_limits t n"
definition td_is_special :: "time_duration \<Rightarrow> bool" where "td_is_special t \<longleftrightarrow> is_special int64_limits t"
definition td_is_pos_infinity :: "time_duration \<Rightarrow> bool" where "td_is_pos_infinity t \<longleftrightarrow> is_pos_inf int64_limits t"
definition td_is_neg_infinity :: "time_duration \<Rightarrow> bool" where "td_is_neg_infinity t \<longleftrightarrow> is_neg_inf int64_limits t"
definition td_is_not_a_date_time :: "time_duration \<Rightarrow> bool" where "td_is_not_a_date_time t \<longleftrightarrow> is_not_a_number int64_limits t"

section \<open>Times\<close>

text \<open>\<open>counted_time_rep\<close>: microseconds counted from the calendar's day zero, an \<open>int_adapter<int64_t>\<close>.\<close>

type_synonym ptime_rep = int

definition frac_sec_per_day :: int where
  "frac_sec_per_day = (let seconds_per_day = 60 * 60 * 24; fractional_sec_per_sec = res_adjust in
     seconds_per_day * fractional_sec_per_sec)"

definition counted_time_rep :: "date \<Rightarrow> time_duration \<Rightarrow> ptime_rep result" where
  "counted_time_rep d tod =
     (if date_is_infinity d \<or> date_is_not_a_date d \<or> td_is_special tod then ia_add int64_limits uint32_limits tod d
      else and_then (ia_result int64_limits (d * frac_sec_per_day)) (\<lambda>v. ia_result int64_limits (v + tod)))"

definition rep_day_count :: "ptime_rep \<Rightarrow> int" where
  "rep_day_count c = cast64 (c sdiv frac_sec_per_day)"

definition rep_date :: "ptime_rep \<Rightarrow> date result" where
  "rep_date c =
     (if is_special int64_limits c then date_special (to_special int64_limits c)
      else and_then (from_day_number (cast32 (rep_day_count c))) (\<lambda>t. Inr (date_of_ymd t)))"

definition rep_tod :: "ptime_rep \<Rightarrow> int" where
  "rep_tod c = c smod frac_sec_per_day"

text \<open>\<open>counted_time_system\<close>.\<close>

definition get_time_rep :: "special_values \<Rightarrow> ptime_rep result" where
  "get_time_rep sv = (case sv of
     not_a_date_time \<Rightarrow> and_then (date_special not_a_date_time) (\<lambda>d. counted_time_rep d (td_special not_a_date_time))
   | pos_infin \<Rightarrow> and_then (date_special pos_infin) (\<lambda>d. counted_time_rep d (td_special pos_infin))
   | neg_infin \<Rightarrow> and_then (date_special neg_infin) (\<lambda>d. counted_time_rep d (td_special neg_infin))
   | max_date_time \<Rightarrow> and_then (td_make 24 0 0 0) (\<lambda>a. and_then (td_make 0 0 0 1) (\<lambda>b. and_then (td_sub a b) (\<lambda>td.
       and_then (date_special max_date_time) (\<lambda>d. counted_time_rep d td))))
   | min_date_time \<Rightarrow> and_then (date_special min_date_time) (\<lambda>d. and_then (td_make 0 0 0 0) (counted_time_rep d))
   | not_special \<Rightarrow> and_then (date_special not_a_date_time) (\<lambda>d. counted_time_rep d (td_special not_a_date_time)))"

definition get_time_of_day :: "ptime_rep \<Rightarrow> time_duration result" where
  "get_time_of_day c =
     (if is_special int64_limits c then Inr (td_special (to_special int64_limits c))
      else td_make 0 0 0 (rep_tod c))"

definition is_equal :: "ptime_rep \<Rightarrow> ptime_rep \<Rightarrow> bool" where "is_equal a b \<longleftrightarrow> a = b"
definition is_less :: "ptime_rep \<Rightarrow> ptime_rep \<Rightarrow> bool" where "is_less a b \<longleftrightarrow> a < b"

definition add_days :: "ptime_rep \<Rightarrow> date_duration \<Rightarrow> ptime_rep result" where
  "add_days c dd =
     (if is_special int64_limits c \<or> is_special int64_limits dd then ia_add int64_limits int64_limits c dd
      else and_then (ia_result int64_limits (dd * frac_sec_per_day)) (\<lambda>v. ia_result int64_limits (c + v)))"

definition subtract_days :: "ptime_rep \<Rightarrow> date_duration \<Rightarrow> ptime_rep result" where
  "subtract_days c dd =
     (if is_special int64_limits c \<or> is_special int64_limits dd then ia_sub int64_limits int64_limits c dd
      else and_then (ia_result int64_limits (dd * frac_sec_per_day)) (\<lambda>v. ia_result int64_limits (c - v)))"

definition subtract_time_duration :: "ptime_rep \<Rightarrow> time_duration \<Rightarrow> ptime_rep result" where
  "subtract_time_duration c td =
     (if is_special int64_limits c \<or> td_is_special td then ia_sub int64_limits int64_limits c td
      else ia_result int64_limits (c - td))"

definition add_time_duration :: "ptime_rep \<Rightarrow> time_duration \<Rightarrow> ptime_rep result" where
  "add_time_duration c td =
     (if is_special int64_limits c \<or> td_is_special td then ia_add int64_limits int64_limits c td
      else ia_result int64_limits (c + td))"

definition subtract_times :: "ptime_rep \<Rightarrow> ptime_rep \<Rightarrow> time_duration result" where
  "subtract_times a b =
     (if is_special int64_limits a \<or> is_special int64_limits b then
        and_then (ia_sub int64_limits int64_limits a b) (\<lambda>v. Inr (td_special (to_special int64_limits v)))
      else and_then (ia_result int64_limits (a - b)) (td_make 0 0 0))"

text \<open>\<open>base_time\<close> and \<open>ptime\<close>.\<close>

definition ptime_make :: "date \<Rightarrow> time_duration \<Rightarrow> ptime_rep result" where
  "ptime_make d td = counted_time_rep d td"

definition ptime_midnight :: "date \<Rightarrow> ptime_rep result" where
  "ptime_midnight d = and_then (td_make 0 0 0 0) (counted_time_rep d)"

definition ptime_default :: "ptime_rep result" where
  "ptime_default = and_then (date_special not_a_date_time) (\<lambda>d. counted_time_rep d (td_special not_a_date_time))"

definition time_is_special :: "ptime_rep \<Rightarrow> bool" where
  "time_is_special c \<longleftrightarrow> is_not_a_number int64_limits c \<or> (is_pos_inf int64_limits c \<or> is_neg_inf int64_limits c)"

definition time_plus_days_in_place :: "ptime_rep \<Rightarrow> date_duration \<Rightarrow> ptime_rep result" where
  "time_plus_days_in_place c dd = and_then (rep_date c) (\<lambda>d. and_then (date_plus d dd) (\<lambda>d'.
     and_then (get_time_of_day c) (counted_time_rep d')))"

definition time_minus_days_in_place :: "ptime_rep \<Rightarrow> date_duration \<Rightarrow> ptime_rep result" where
  "time_minus_days_in_place c dd = and_then (rep_date c) (\<lambda>d. and_then (date_minus d dd) (\<lambda>d'.
     and_then (get_time_of_day c) (counted_time_rep d')))"

definition time_plus_in_place :: "ptime_rep \<Rightarrow> time_duration \<Rightarrow> ptime_rep result" where
  "time_plus_in_place c td = and_then (rep_date c) (\<lambda>d. and_then (get_time_of_day c) (\<lambda>tod.
     and_then (td_add tod td) (counted_time_rep d)))"

definition time_minus_in_place :: "ptime_rep \<Rightarrow> time_duration \<Rightarrow> ptime_rep result" where
  "time_minus_in_place c td = and_then (rep_date c) (\<lambda>d. and_then (get_time_of_day c) (\<lambda>tod.
     and_then (td_sub tod td) (counted_time_rep d)))"

section \<open>The clock\<close>

text \<open>
  What \<open>gettimeofday\<close> and \<open>gmtime_r\<close> answer is outside the code: the broken-down time, if the
  conversion succeeds, and the microseconds.
\<close>

record tm =
  tm_year :: int
  tm_mon :: int
  tm_mday :: int
  tm_hour :: int
  tm_min :: int
  tm_sec :: int

definition gmtime :: "tm option \<Rightarrow> tm result" where
  "gmtime answer = (case answer of
     None \<Rightarrow> Inl (Throw (OtherException ''could not convert calendar time to UTC time''))
   | Some t \<Rightarrow> Inr t)"

definition universal_time :: "tm option \<Rightarrow> int \<Rightarrow> ptime_rep result" where
  "universal_time answer usec =
     (let sub_sec = cast32 usec in
      and_then (gmtime answer) (\<lambda>curr.
      and_then (date_make (cast16 (tm_year curr + 1900)) (cast16 (tm_mon curr + 1)) (cast16 (tm_mday curr))) (\<lambda>d.
        let adjust = cast_s32 (res_adjust sdiv 1000000) in
      and_then (td_make (tm_hour curr) (tm_min curr) (tm_sec curr) (cast32 (sub_sec * adjust))) (\<lambda>td.
        ptime_make d td))))"

text \<open>The timeout a worker arms its timer with, from a \<open>timeval\<close> (\<open>GroupCore::runWorker\<close>).\<close>

definition timeout_duration :: "int \<Rightarrow> int \<Rightarrow> time_duration result" where
  "timeout_duration tv_sec tv_usec = and_then (seconds_of tv_sec) (\<lambda>a. and_then (microseconds_of tv_usec) (td_add a))"

section \<open>Arithmetic of the counts\<close>


lemma ticks_simps [simp]:
  "res_adjust = 1000000" "ticks_per_second = 1000000" "frac_sec_per_day = 86400000000"
  by (simp_all add: res_adjust_def ticks_per_second_def frac_sec_per_day_def)

lemma int32_simps [simp]:
  "lim_min int32_limits = - 2147483648" "lim_max int32_limits = 2147483647" "is_signed int32_limits"
  by (simp_all add: int32_limits_def is_signed_def)

lemma int64_result:
  "- 9223372036854775808 \<le> v \<Longrightarrow> v \<le> 9223372036854775807 \<Longrightarrow> ia_result int64_limits v = Inr v"
  by (simp add: ia_result_def)

lemma not_special_int64:
  "- 9223372036854775808 < v \<Longrightarrow> v < 9223372036854775806 \<Longrightarrow> \<not> is_special int64_limits v"
  by (simp add: ia_defs)

lemma sdiv_smod_nonneg:
  "0 \<le> (a :: int) \<Longrightarrow> 0 < b \<Longrightarrow> a sdiv b = a div b" "0 \<le> (a :: int) \<Longrightarrow> 0 < b \<Longrightarrow> a smod b = a mod b"
  by (simp_all add: signed_divide_int_def signed_modulo_int_def sgn_if minus_div_mult_eq_mod)

lemma td_make_ticks: "0 \<le> v \<Longrightarrow> v \<le> 9223372036854775807 \<Longrightarrow> td_make 0 0 0 v = Inr v"
  by (simp add: td_make_def to_tick_count_def int64_result)

lemma counted_time:
  assumes "valid_ymd t" "0 \<le> tod" "tod < 86400000000"
  shows "counted_time_rep (day_number t) tod = Inr (day_number t * 86400000000 + tod)"
    "\<not> is_special int64_limits (day_number t * 86400000000 + tod)"
    "0 \<le> day_number t * 86400000000 + tod" "day_number t * 86400000000 + tod < 500000000000000000"
proof -
  note r = day_number_range [OF assms(1)]
  show b: "0 \<le> day_number t * 86400000000 + tod" "day_number t * 86400000000 + tod < 500000000000000000"
    using r assms(2,3) by simp_all
  then show "\<not> is_special int64_limits (day_number t * 86400000000 + tod)" by (intro not_special_int64) simp_all
  have "\<not> td_is_special tod" unfolding td_is_special_def using assms(2,3) by (intro not_special_int64) simp_all
  moreover have "\<not> date_is_infinity (day_number t)" "\<not> date_is_not_a_date (day_number t)"
    using r by (simp_all add: date_is_infinity_def date_is_not_a_date_def ia_defs)
  ultimately show "counted_time_rep (day_number t) tod = Inr (day_number t * 86400000000 + tod)"
    using r b assms(2,3) by (simp add: counted_time_rep_def int64_result)
qed

lemma counted_time_parts:
  assumes "valid_ymd t" "0 \<le> tod" "tod < 86400000000"
  shows "rep_date (day_number t * 86400000000 + tod) = Inr (day_number t)"
    "get_time_of_day (day_number t * 86400000000 + tod) = Inr tod"
proof -
  note c = counted_time [OF assms]
  note r = day_number_range [OF assms(1)]
  have dm: "(day_number t * 86400000000 + tod) div 86400000000 = day_number t"
    "(day_number t * 86400000000 + tod) mod 86400000000 = tod"
    using assms(2,3) by simp_all
  then show "rep_date (day_number t * 86400000000 + tod) = Inr (day_number t)"
    using c(2,3) r from_day_number_day_number [OF assms(1)]
    by (simp add: rep_date_def rep_day_count_def sdiv_smod_nonneg date_of_ymd_def)
  show "get_time_of_day (day_number t * 86400000000 + tod) = Inr tod"
    using c(2,3) dm assms(2,3) by (simp add: get_time_of_day_def rep_tod_def sdiv_smod_nonneg td_make_ticks)
qed

text \<open>The components of a duration, and their sum.\<close>

lemma sdiv_smod_neg: "0 \<le> (a :: int) \<Longrightarrow> 0 < b \<Longrightarrow> (- a) sdiv b = - (a div b)" "0 \<le> (a :: int) \<Longrightarrow> 0 < b \<Longrightarrow> (- a) smod b = - (a mod b)"
  by (auto simp: signed_divide_int_def signed_modulo_int_def sgn_if minus_div_mult_eq_mod)

lemma components_sum:
  fixes a :: int
  assumes "0 \<le> a"
  shows "(a div 3600000000 * 3600 + a div 60000000 mod 60 * 60 + a div 1000000 mod 60) * 1000000 + a mod 1000000 = a"
proof -
  define s where "s = a div 1000000"
  have "a div 60000000 = s div 60" "a div 3600000000 = s div 60 div 60"
    using zdiv_zmult2_eq [of 60 a 1000000] zdiv_zmult2_eq [of 3600 a 1000000] zdiv_zmult2_eq [of 60 s 60] by (simp_all add: s_def)
  moreover have "s div 60 div 60 * 3600 + s div 60 mod 60 * 60 + s mod 60 = s"
    using div_mult_mod_eq [of s 60] div_mult_mod_eq [of "s div 60" 60] by linarith
  moreover have "s * 1000000 + a mod 1000000 = a" by (simp add: s_def)
  ultimately show ?thesis unfolding s_def by (simp only:)
qed

lemma cast_s32_id: "- 2147483648 \<le> v \<Longrightarrow> v < 2147483648 \<Longrightarrow> cast_s32 v = v"
  by (simp add: cast_s32_def)

lemma components_nonneg:
  assumes "0 \<le> a" "a < 7730941132800000000"
  shows "td_hours a = a div 3600000000" "td_minutes a = a div 60000000 mod 60" "td_seconds a = a div 1000000 mod 60"
    "fractional_seconds a = a mod 1000000"
    "td_hours (- a) = - (a div 3600000000)" "td_minutes (- a) = - (a div 60000000 mod 60)"
    "td_seconds (- a) = - (a div 1000000 mod 60)" "fractional_seconds (- a) = - (a mod 1000000)"
proof -
  have h: "0 \<le> a div 3600000000" "a div 3600000000 < 2147483648" using assms by simp_all
  have m: "0 \<le> a div 60000000 mod 60" "a div 60000000 mod 60 < 60" "0 \<le> a div 1000000 mod 60" "a div 1000000 mod 60 < 60"
    by simp_all
  have p: "0 \<le> a div 60000000" "0 \<le> a div 1000000" using assms by simp_all
  show "td_hours a = a div 3600000000" using h assms by (simp add: td_hours_def sdiv_smod_nonneg cast_s32_id)
  show "td_minutes a = a div 60000000 mod 60" using m assms p by (simp add: td_minutes_def sdiv_smod_nonneg cast_s32_id)
  show "td_seconds a = a div 1000000 mod 60" using m assms p by (simp add: td_seconds_def sdiv_smod_nonneg cast_s32_id)
  show "fractional_seconds a = a mod 1000000" using assms by (simp add: fractional_seconds_def sdiv_smod_nonneg)
  show "td_hours (- a) = - (a div 3600000000)"
    using h assms by (simp add: td_hours_def sdiv_smod_neg sdiv_smod_nonneg cast_s32_id)
  show "td_minutes (- a) = - (a div 60000000 mod 60)"
    using m assms p by (simp add: td_minutes_def sdiv_smod_neg sdiv_smod_nonneg cast_s32_id)
  show "td_seconds (- a) = - (a div 1000000 mod 60)"
    using m assms p by (simp add: td_seconds_def sdiv_smod_neg sdiv_smod_nonneg cast_s32_id)
  show "fractional_seconds (- a) = - (a mod 1000000)" using assms by (simp add: fractional_seconds_def sdiv_smod_neg sdiv_smod_nonneg)
qed

lemma td_parts:
  assumes "0 \<le> h" "h \<le> 23" "0 \<le> m" "m \<le> 59" "0 \<le> s" "s \<le> 59" "0 \<le> u" "u < 1000000"
    and td: "td = (h * 3600 + m * 60 + s) * 1000000 + u"
  shows "td_make h m s u = Inr td" "td_hours td = h" "td_minutes td = m" "td_seconds td = s" "fractional_seconds td = u"
    "0 \<le> td" "td < 86400000000"
proof -
  show b: "0 \<le> td" "td < 86400000000" using assms by simp_all
  show "td_make h m s u = Inr td" using assms(1,3,5,7) b unfolding td by (simp add: td_make_def to_tick_count_def int64_result)
  have q: "td div 1000000 = h * 3600 + m * 60 + s" "td mod 1000000 = u"
    unfolding td using assms(7,8) by (simp, subst mod_mult_self3, simp)
  have "td div 60000000 = (h * 3600 + m * 60 + s) div 60" "td div 3600000000 = (h * 3600 + m * 60 + s) div 3600"
    using zdiv_zmult2_eq [of 60 td 1000000] zdiv_zmult2_eq [of 3600 td 1000000] unfolding q(1) by simp_all
  moreover have "(h * 3600 + m * 60 + s) div 60 = h * 60 + m" "(h * 3600 + m * 60 + s) div 3600 = h"
    using assms(3-6) by (intro int_div_eqI; simp)+
  ultimately have "td div 60000000 = h * 60 + m" "td div 3600000000 = h" by (simp_all only:)
  moreover have "(h * 3600 + m * 60 + s) mod 60 = s"
  proof -
    have "h * 3600 + m * 60 + s = s + 60 * (h * 60 + m)" by simp
    then have "(h * 3600 + m * 60 + s) mod 60 = s mod 60" by (simp only: mod_mult_self2)
    then show ?thesis using assms(5,6) by simp
  qed
  moreover have "(h * 60 + m) mod 60 = m" using assms(3,4) by simp
  moreover have "td < 7730941132800000000" using b(2) by simp
  ultimately show "td_hours td = h" "td_minutes td = m" "td_seconds td = s" "fractional_seconds td = u"
    using components_nonneg [OF b(1)] q by (simp_all only:)
qed

lemma td_make_neg:
  assumes "0 \<le> h" "h \<le> 2147483647" "0 \<le> m" "m < 60" "0 \<le> s" "s < 60" "0 \<le> u" "u < 1000000"
    "(h * 3600 + m * 60 + s) * 1000000 + u = a" "0 < a" "a < 7730941132800000000"
  shows "td_make (- h) (- m) (- s) (- u) = Inr (- a)"
proof -
  have neg: "- h < 0 \<or> - m < 0 \<or> - s < 0 \<or> - u < 0"
  proof (rule ccontr)
    assume "\<not> ?thesis"
    then have "h = 0" "m = 0" "s = 0" "u = 0" using assms(1,3,5,7) by simp_all
    then show False using assms(9,10) by simp
  qed
  have abs: "absolute_value int32_limits (- x) = Inr x" if "0 \<le> x" "x \<le> 2147483647" for x
    using that by (simp add: absolute_value_def ia_result_def)
  have u: "absolute_value int64_limits (- u) = Inr u" using assms(7,8) by (simp add: absolute_value_def ia_result_def)
  show ?thesis
    unfolding td_make_def to_tick_count_def if_P [OF neg]
    using abs [of h] abs [of m] abs [of s] u assms by (simp add: int64_result)
qed

lemma td_make_pos:
  assumes "0 \<le> h" "0 \<le> m" "0 \<le> s" "0 \<le> u" "(h * 3600 + m * 60 + s) * 1000000 + u = a" "a < 7730941132800000000" "0 \<le> a"
  shows "td_make h m s u = Inr a"
  using assms by (simp add: td_make_def to_tick_count_def int64_result)

lemma td_components:
  assumes "- 7730941132800000000 < t" "t < 7730941132800000000"
  shows "td_make (td_hours t) (td_minutes t) (td_seconds t) (fractional_seconds t) = Inr t"
proof -
  define a where "a = \<bar>t\<bar>"
  have a: "0 \<le> a" "a < 7730941132800000000" using assms by (auto simp: a_def)
  note c = components_nonneg [OF a]
  have m: "0 \<le> a div 3600000000" "a div 3600000000 \<le> 2147483647" "0 \<le> a div 60000000 mod 60" "a div 60000000 mod 60 < 60"
    "0 \<le> a div 1000000 mod 60" "a div 1000000 mod 60 < 60" "0 \<le> a mod 1000000" "a mod 1000000 < 1000000"
    using a by simp_all
  show ?thesis
  proof (cases "0 \<le> t")
    case True
    then have t: "t = a" by (simp add: a_def)
    show ?thesis unfolding t c by (rule td_make_pos [OF m(1,3,5,7) components_sum [OF a(1)] a(2,1)])
  next
    case False
    then have t: "t = - a" and "0 < a" by (simp_all add: a_def)
    then show ?thesis unfolding t c by (intro td_make_neg [OF m components_sum [OF a(1)] _ a(2)])
  qed
qed


section \<open>What the times mean\<close>

text \<open>
  C24: A time made from a date of the calendar and a time within the day counts the microseconds since day
  zero and gives both back, and the clock's reading of a broken-down time is that time: its date is the
  day of the fields and its time of day has their hour, minute and second and the microseconds.
\<close>
theorem ptime_roundtrip:
  assumes "valid_ymd \<lparr>year = tm_year b + 1900, month = tm_mon b + 1, day = tm_mday b\<rparr>"
    "0 \<le> tm_hour b" "tm_hour b \<le> 23" "0 \<le> tm_min b" "tm_min b \<le> 59" "0 \<le> tm_sec b" "tm_sec b \<le> 59" "0 \<le> u" "u < 1000000"
    "valid_ymd t" "0 \<le> tod" "tod < 86400000000"
  shows "ptime_make (date_of_ymd t) tod = Inr (day_number t * 86400000000 + tod)
    \<and> rep_date (day_number t * 86400000000 + tod) = Inr (date_of_ymd t)
    \<and> get_time_of_day (day_number t * 86400000000 + tod) = Inr tod
    \<and> (\<exists>c td. universal_time (Some b) u = Inr c
         \<and> and_then (rep_date c) date_ymd = Inr \<lparr>year = tm_year b + 1900, month = tm_mon b + 1, day = tm_mday b\<rparr>
         \<and> get_time_of_day c = Inr td \<and> td_hours td = tm_hour b \<and> td_minutes td = tm_min b \<and> td_seconds td = tm_sec b
         \<and> fractional_seconds td = u)"
proof -
  define d where "d = \<lparr>year = tm_year b + 1900, month = tm_mon b + 1, day = tm_mday b\<rparr>"
  have d: "valid_ymd d" using assms(1) by (simp add: d_def)
  have c16: "cast16 (tm_year b + 1900) = tm_year b + 1900" "cast16 (tm_mon b + 1) = tm_mon b + 1" "cast16 (tm_mday b) = tm_mday b"
    using assms(1) end_of_month_le(2) [of "tm_year b + 1900" "tm_mon b + 1"] by (simp_all add: valid_ymd_def)
  have dm: "date_make (tm_year b + 1900) (tm_mon b + 1) (tm_mday b) = Inr (day_number d)"
    using date_make_iff d by (simp add: d_def)
  define td where "td = (tm_hour b * 3600 + tm_min b * 60 + tm_sec b) * 1000000 + u"
  note p = td_parts [OF assms(2-9) td_def]
  have adj: "cast_s32 1 = 1" by code_simp
  have "universal_time (Some b) u = Inr (day_number d * 86400000000 + td)"
    using assms(8,9) p(1) counted_time(1) [OF d p(6,7)]
    by (simp add: universal_time_def gmtime_def c16 dm adj ptime_make_def)
  moreover have "and_then (rep_date (day_number d * 86400000000 + td)) date_ymd = Inr d"
    using counted_time_parts(1) [OF d p(6,7)] from_day_number_day_number [OF d] by (simp add: date_ymd_def)
  ultimately have "\<exists>c td. universal_time (Some b) u = Inr c \<and> and_then (rep_date c) date_ymd = Inr d
     \<and> get_time_of_day c = Inr td \<and> td_hours td = tm_hour b \<and> td_minutes td = tm_min b \<and> td_seconds td = tm_sec b
     \<and> fractional_seconds td = u"
    using counted_time_parts(2) [OF d p(6,7)] p(2-5) by blast
  then show ?thesis
    using counted_time(1) [OF assms(10-12)] counted_time_parts [OF assms(10-12)]
    by (simp only: ptime_make_def date_of_ymd_def d_def)
qed

theorem ptime_roundtrip_witness:
  "\<exists>c td. universal_time (Some \<lparr>tm_year = 113, tm_mon = 11, tm_mday = 31, tm_hour = 23, tm_min = 59, tm_sec = 59\<rparr>) 999999 = Inr c
     \<and> and_then (rep_date c) date_ymd = Inr \<lparr>year = 2013, month = 12, day = 31\<rparr>
     \<and> get_time_of_day c = Inr td \<and> td_hours td = 23"
proof -
  define b where "b = \<lparr>tm_year = 113, tm_mon = 11, tm_mday = 31, tm_hour = 23, tm_min = 59, tm_sec = 59\<rparr>"
  have v: "valid_ymd \<lparr>year = tm_year b + 1900, month = tm_mon b + 1, day = tm_mday b\<rparr>"
    "valid_ymd \<lparr>year = 2013, month = 12, day = 31\<rparr>" unfolding b_def by code_simp+
  have h: "0 \<le> tm_hour b" "tm_hour b \<le> 23" "0 \<le> tm_min b" "tm_min b \<le> 59" "0 \<le> tm_sec b" "tm_sec b \<le> 59"
    "(0 :: int) \<le> 999999" "(999999 :: int) < 1000000" "(0 :: int) \<le> 0" "(0 :: int) < 86400000000" by (simp_all add: b_def)
  have f: "tm_year b + 1900 = 2013" "tm_mon b + 1 = 12" "tm_mday b = 31" "tm_hour b = 23" by (simp_all add: b_def)
  show ?thesis using ptime_roundtrip [OF v(1) h(1-8) v(2) h(9,10)] unfolding f b_def [symmetric] by blast
qed

text \<open>
  Times are compared by their raw counts. For times of the calendar that is the order by date and then by
  time of day; \<open>not_a_date_time\<close>, which marks a node that is still connected, comes after every
  such time, although as an \<open>int_adapter\<close> it is not comparable with any.
\<close>
theorem ptime_order:
  assumes "valid_ymd s" "0 \<le> a" "a < 86400000000" "valid_ymd t" "0 \<le> b" "b < 86400000000"
    "ptime_make (date_of_ymd s) a = Inr x" "ptime_make (date_of_ymd t) b = Inr y"
  shows "(is_less x y \<longleftrightarrow> ymd_less s t \<or> s = t \<and> a < b)
    \<and> (is_equal x y \<longleftrightarrow> s = t \<and> a = b)
    \<and> (\<exists>n. ptime_default = Inr n \<and> time_is_special n \<and> is_less x n \<and> \<not> is_less n x
         \<and> \<not> ia_less int64_limits x n \<and> \<not> ia_less int64_limits n x)"
proof -
  have x: "x = day_number s * 86400000000 + a" and y: "y = day_number t * 86400000000 + b"
    using assms(7,8) counted_time(1) [OF assms(1-3)] counted_time(1) [OF assms(4-6)]
    by (simp_all add: ptime_make_def date_of_ymd_def)
  have tri: "ymd_less s t \<or> s = t \<or> ymd_less t s" by (cases s; cases t; simp add: ymd_less_def; linarith)
  have irr: "\<not> ymd_less s s" "\<not> (ymd_less s t \<and> ymd_less t s)" by (auto simp: ymd_less_def)
  have lt: "ymd_less s t \<Longrightarrow> x < y" "ymd_less t s \<Longrightarrow> y < x"
    using day_number_less [OF assms(1,4)] day_number_less [OF assms(4,1)] assms(2,3,5,6) unfolding x y by linarith+
  have "is_less x y \<longleftrightarrow> ymd_less s t \<or> s = t \<and> a < b" "is_equal x y \<longleftrightarrow> s = t \<and> a = b"
    using tri irr lt unfolding is_less_def is_equal_def by (auto simp: x y)
  moreover have "ptime_default = Inr 9223372036854775806" by code_simp
  moreover have "time_is_special 9223372036854775806" by code_simp
  moreover have n: "x < 9223372036854775806" using counted_time(4) [OF assms(1-3)] unfolding x by simp
  moreover have "\<not> ia_less int64_limits x 9223372036854775806" "\<not> ia_less int64_limits 9223372036854775806 x"
    by (simp_all add: ia_less_def compare_def ia_defs)
  moreover have "\<not> (9223372036854775806 :: int) < x" using n by simp
  ultimately show ?thesis unfolding is_less_def by blast
qed

theorem ptime_order_witness:
  "is_less (2456658 * 86400000000) (2456658 * 86400000000 + 1) \<and> (\<exists>n. ptime_default = Inr n \<and> is_less (2456658 * 86400000000) n)"
proof -
  have v: "valid_ymd \<lparr>year = 2013, month = 12, day = 31\<rparr>" by code_simp
  have m: "ptime_make (date_of_ymd \<lparr>year = 2013, month = 12, day = 31\<rparr>) 0 = Inr (2456658 * 86400000000)"
    "ptime_make (date_of_ymd \<lparr>year = 2013, month = 12, day = 31\<rparr>) 1 = Inr (2456658 * 86400000000 + 1)" by code_simp+
  show ?thesis using ptime_order [OF v _ _ v _ _ m] by auto
qed


lemma int64_wf: "- 9223372036854775808 \<le> v \<Longrightarrow> v \<le> 9223372036854775807 \<Longrightarrow> \<not> is_special int64_limits v \<Longrightarrow> ext_of int64_limits v = Fin v"
  by (simp add: ext_of_def ia_defs)

text \<open>
  A duration whose hours fit \<open>int32_t\<close> is rebuilt by its hours, minutes, seconds and fraction, negative
  ones included. The timeout of a worker is the microseconds of its \<open>timeval\<close> while the seconds fit
  \<open>int32_t\<close>; larger ones are converted to \<open>int\<close> first, so a timeout of \<open>2 ^ 32\<close> seconds is none at all
  and one of \<open>2 ^ 31\<close> seconds is undefined.
\<close>
theorem duration_components:
  assumes "- 7730941132800000000 < t" "t < 7730941132800000000" "0 \<le> sec" "sec < 2147483648" "0 \<le> usec" "usec < 1000000"
  shows "td_make (td_hours t) (td_minutes t) (td_seconds t) (fractional_seconds t) = Inr t
    \<and> timeout_duration sec usec = Inr (sec * 1000000 + usec)
    \<and> timeout_duration 4294967296 0 = Inr 0
    \<and> timeout_duration 2147483648 0 = Inl (UB SignedOverflow)"
proof -
  have s: "seconds_of sec = Inr (sec * 1000000)"
    using assms(3,4) by (simp add: seconds_of_def td_make_def to_tick_count_def cast_s32_id int64_result)
  have u: "microseconds_of usec = Inr usec"
    using assms(5,6) by (simp add: microseconds_of_def subsecond_duration_def int64_result)
  have "\<not> is_special int64_limits (sec * 1000000)" "\<not> is_special int64_limits usec"
    using assms(3-6) by (intro not_special_int64; simp)+
  then have "td_add (sec * 1000000) usec = Inr (sec * 1000000 + usec)"
    using assms(3-6) by (simp add: td_add_def ia_add_def int64_result)
  then have "timeout_duration sec usec = Inr (sec * 1000000 + usec)" by (simp add: timeout_duration_def s u)
  moreover have "timeout_duration 4294967296 0 = Inr 0" "timeout_duration 2147483648 0 = Inl (UB SignedOverflow)" by code_simp+
  ultimately show ?thesis using td_components [OF assms(1,2)] by blast
qed

theorem duration_components_witness:
  "td_make (td_hours (- 5400000001)) (td_minutes (- 5400000001)) (td_seconds (- 5400000001)) (fractional_seconds (- 5400000001))
     = Inr (- 5400000001)
   \<and> td_hours (- 5400000001) = -1 \<and> td_minutes (- 5400000001) = -30 \<and> timeout_duration 2 500000 = Inr 2500000"
proof -
  have "td_hours (- 5400000001) = -1 \<and> td_minutes (- 5400000001) = -30" by code_simp
  then show ?thesis using duration_components [of "- 5400000001" 2 500000] by simp
qed

text \<open>
  C25: Adding a duration to a time, subtracting it again and subtracting the times are inverse while the sum is a
  count the type has left for finite times; the compound assignment, which goes through the date and
  the time of day, gives the same sum for every time of the calendar; and a difference of times is
  not checked against the special values, so a time at the end of the range is turned into
  \<open>not_a_date_time\<close> by adding a microsecond.
\<close>
theorem time_arithmetic:
  assumes "valid_ymd t" "0 \<le> tod" "tod < 86400000000" "c = day_number t * 86400000000 + tod"
    "- 500000000000000000 < d" "d < 8500000000000000000"
  shows "add_time_duration c d = Inr (c + d) \<and> subtract_time_duration (c + d) d = Inr c \<and> subtract_times (c + d) c = Inr d
    \<and> time_plus_in_place c d = add_time_duration c d \<and> time_minus_in_place c d = subtract_time_duration c d
    \<and> add_time_duration 9223372036854775805 1 = Inr 9223372036854775806
    \<and> time_is_special 9223372036854775806"
proof -
  have c: "0 \<le> c" "c < 500000000000000000" "\<not> is_special int64_limits c" "rep_date c = Inr (day_number t)" "get_time_of_day c = Inr tod"
    using counted_time [OF assms(1-3)] counted_time_parts [OF assms(1-3)] by (simp_all add: assms(4))
  have sp: "\<not> is_special int64_limits v" if "- 9000000000000000000 \<le> v" "v \<le> 9000000000000000000" for v
    using that by (intro not_special_int64) simp_all
  have res: "ia_result int64_limits v = Inr v" if "- 9000000000000000000 \<le> v" "v \<le> 9000000000000000000" for v
    using that by (intro int64_result) simp_all
  have plain: "add_time_duration c d = Inr (c + d)" "subtract_time_duration (c + d) d = Inr c"
    "subtract_time_duration c d = Inr (c - d)"
    using c assms(5,6) sp res by (simp_all add: add_time_duration_def subtract_time_duration_def td_is_special_def)
  have tick: "td_make 0 0 0 d = Inr d"
  proof (cases "d < 0")
    case True
    then show ?thesis
      using assms(5) by (simp add: td_make_def to_tick_count_def absolute_value_def int64_result)
  qed (use assms(6) in \<open>simp add: td_make_ticks\<close>)
  have times: "subtract_times (c + d) c = Inr d"
    using c assms(5,6) sp res tick by (simp add: subtract_times_def)
  have count: "counted_time_rep (day_number t) v = Inr (day_number t * 86400000000 + v)"
    if "- 8600000000000000000 \<le> v" "v \<le> 8600000000000000000" for v
  proof -
    note r = day_number_range [OF assms(1)]
    have "\<not> td_is_special v" unfolding td_is_special_def using that by (intro not_special_int64) simp_all
    moreover have "\<not> date_is_infinity (day_number t)" "\<not> date_is_not_a_date (day_number t)"
      using r by (simp_all add: date_is_infinity_def date_is_not_a_date_def ia_defs)
    ultimately show ?thesis using r that by (simp add: counted_time_rep_def int64_result)
  qed
  have "td_add tod d = Inr (tod + d)" "td_sub tod d = Inr (tod - d)"
    using sp [of tod] sp [of d] res [of "tod + d"] res [of "tod - d"] assms(2,3,5,6)
    by (simp_all add: td_add_def td_sub_def ia_add_def ia_sub_def)
  moreover have bounds: "- 8600000000000000000 \<le> tod + d" "tod + d \<le> 8600000000000000000"
    "- 8600000000000000000 \<le> tod - d" "tod - d \<le> 8600000000000000000"
    using assms(2,3,5,6) by linarith+
  have "counted_time_rep (day_number t) (tod + d) = Inr (c + d)" "counted_time_rep (day_number t) (tod - d) = Inr (c - d)"
    using count [of "tod + d"] count [of "tod - d"] bounds by (simp_all only: assms(4) add.assoc add_diff_eq)
  ultimately have "time_plus_in_place c d = Inr (c + d)" "time_minus_in_place c d = Inr (c - d)"
    by (simp_all add: time_plus_in_place_def time_minus_in_place_def c(4,5))
  moreover have "add_time_duration 9223372036854775805 1 = Inr 9223372036854775806" "time_is_special 9223372036854775806"
    by code_simp+
  ultimately show ?thesis using plain times by simp
qed

theorem time_arithmetic_witness:
  "time_plus_in_place 212255251200000000 90000000000 = Inr 212255341200000000
   \<and> subtract_times 212255341200000000 212255251200000000 = Inr 90000000000"
proof -
  have v: "valid_ymd \<lparr>year = 2013, month = 12, day = 31\<rparr>" by code_simp
  have c: "212255251200000000 = day_number \<lparr>year = 2013, month = 12, day = 31\<rparr> * 86400000000 + 0" by code_simp
  show ?thesis using time_arithmetic [OF v _ _ c, of 90000000000] by simp
qed

end
