(* ===== verification/TimerQueue.thy ===== *)
theory TimerQueue imports PosixTime "HOL-Library.Multiset" begin

text \<open>
  The queue of deadline timers of the repository's Asio (\<open>external/boost/asio/detail/timer_queue.hpp\<close>,
  \<open>op_queue.hpp\<close>, \<open>deadline_timer_service.hpp\<close>): the worker's timeout and the TCP backend's
  heartbeat are timers of it. A heap orders the timers by expiry, every timer knows its index in the
  heap, and a doubly linked list holds the active timers.
\<close>

section \<open>The code\<close>

text \<open>
  An operation that waits for a timer, and the error it is completed with. A queue of operations is the
  list of them: its links are private to \<open>op_queue\<close>.
\<close>

record wait_op =
  op_id :: nat
  op_aborted :: bool

text \<open>A timer is an address; \<open>next_\<close> and \<open>prev_\<close> are null or addresses.\<close>

type_synonym timer = nat

record per_timer_data =
  op_queue :: "wait_op list"
  heap_index :: nat
  next_timer :: "timer option"
  prev_timer :: "timer option"

text \<open>The constructor leaves \<open>heap_index_\<close> unset: \<open>i\<close> is what the memory holds.\<close>

definition per_timer_data :: "nat \<Rightarrow> per_timer_data" where
  "per_timer_data i = \<lparr>op_queue = [], heap_index = i, next_timer = None, prev_timer = None\<rparr>"

type_synonym heap_entry = "ptime_rep \<times> timer"

record timer_queue =
  timers :: "timer option"
  heap :: "heap_entry list"
  data :: "timer \<Rightarrow> per_timer_data"

definition timer_queue_new :: "(timer \<Rightarrow> per_timer_data) \<Rightarrow> timer_queue" where
  "timer_queue_new m = \<lparr>timers = None, heap = [], data = m\<rparr>"

definition size_max :: nat where "size_max = 2 ^ 64 - 1"

definition upd_data :: "timer \<Rightarrow> (per_timer_data \<Rightarrow> per_timer_data) \<Rightarrow> timer_queue \<Rightarrow> timer_queue" where
  "upd_data t f q = q\<lparr>data := (data q)(t := f (data q t))\<rparr>"

definition less_at :: "heap_entry list \<Rightarrow> nat \<Rightarrow> nat \<Rightarrow> bool" where
  "less_at h i j \<longleftrightarrow> is_less (fst (h ! i)) (fst (h ! j))"

definition swap_heap :: "nat \<Rightarrow> nat \<Rightarrow> timer_queue \<Rightarrow> timer_queue" where
  "swap_heap i j q =
     (let tmp = heap q ! i;
          h = (heap q)[i := heap q ! j, j := tmp];
          q1 = upd_data (snd (h ! i)) (heap_index_update (\<lambda>_. i)) (q\<lparr>heap := h\<rparr>) in
      upd_data (snd (h ! j)) (heap_index_update (\<lambda>_. j)) q1)"

text \<open>\<open>(index - 1) / 2\<close>; for index \<open>0\<close> the code computes a value it does not use.\<close>

definition parent :: "nat \<Rightarrow> nat" where "parent i = (i - 1) div 2"

function up_heap :: "nat \<Rightarrow> timer_queue \<Rightarrow> timer_queue" where
  "up_heap index q =
     (if index > 0 \<and> less_at (heap q) index (parent index)
      then up_heap (parent index) (swap_heap index (parent index) q) else q)"
  by pat_completeness auto
termination
  by (relation "measure fst") (auto simp: parent_def)

lemma length_heap_swap [simp]: "length (heap (swap_heap i j q)) = length (heap q)"
  by (simp add: swap_heap_def upd_data_def Let_def)

definition min_child :: "heap_entry list \<Rightarrow> nat \<Rightarrow> nat" where
  "min_child h child = (if child + 1 = length h \<or> less_at h child (child + 1) then child else child + 1)"

function down_heap :: "nat \<Rightarrow> timer_queue \<Rightarrow> timer_queue" where
  "down_heap index q =
     (let child = index * 2 + 1 in
      if child < length (heap q) then
        (let c = min_child (heap q) child in
         if less_at (heap q) index c then q else down_heap c (swap_heap index c q))
      else q)"
  by pat_completeness auto
termination
  by (relation "measure (\<lambda>(i, q). length (heap q) - i)") (auto simp: min_child_def)

text \<open>\<open>remove_timer\<close>: the heap first, then the linked list.\<close>

definition remove_from_heap :: "timer \<Rightarrow> timer_queue \<Rightarrow> timer_queue" where
  "remove_from_heap t q =
     (let index = heap_index (data q t) in
      if heap q \<noteq> [] \<and> index < length (heap q) then
        if index = length (heap q) - 1 then q\<lparr>heap := butlast (heap q)\<rparr>
        else
          (let q1 = swap_heap index (length (heap q) - 1) q;
               q2 = q1\<lparr>heap := butlast (heap q1)\<rparr> in
           if index > 0 \<and> less_at (heap q2) index (parent index) then up_heap index q2 else down_heap index q2)
      else q)"

definition unlink_timer :: "timer \<Rightarrow> timer_queue \<Rightarrow> timer_queue" where
  "unlink_timer t q =
     (let q1 = (if timers q = Some t then q\<lparr>timers := next_timer (data q t)\<rparr> else q);
          q2 = (case prev_timer (data q1 t) of None \<Rightarrow> q1
            | Some p \<Rightarrow> upd_data p (next_timer_update (\<lambda>_. next_timer (data q1 t))) q1);
          q3 = (case next_timer (data q2 t) of None \<Rightarrow> q2
            | Some n \<Rightarrow> upd_data n (prev_timer_update (\<lambda>_. prev_timer (data q2 t))) q2) in
      upd_data t (\<lambda>d. d\<lparr>next_timer := None, prev_timer := None\<rparr>) q3)"

definition remove_timer :: "timer \<Rightarrow> timer_queue \<Rightarrow> timer_queue" where
  "remove_timer t q = unlink_timer t (remove_from_heap t q)"

text \<open>
  \<open>is_positive_infinity\<close> is overloaded: a template over any type that answers false, and one over
  \<open>base_time\<close> that asks the time. A \<open>ptime\<close> is only derived from \<open>base_time\<close>, so for the call in
  \<open>enqueue_timer\<close> the first one, which takes the argument as it is, is the better match. The second one is
  never called by the queue.
\<close>

definition is_positive_infinity :: "'time_type \<Rightarrow> bool" where
  "is_positive_infinity time \<longleftrightarrow> False"

definition base_time_is_positive_infinity :: "ptime_rep \<Rightarrow> bool" where
  "base_time_is_positive_infinity time \<longleftrightarrow> is_pos_inf int64_limits time"

definition active :: "timer_queue \<Rightarrow> timer \<Rightarrow> bool" where
  "active q t \<longleftrightarrow> prev_timer (data q t) \<noteq> None \<or> timers q = Some t"

definition enqueue_heap :: "ptime_rep \<Rightarrow> timer \<Rightarrow> timer_queue \<Rightarrow> timer_queue" where
  "enqueue_heap time t q =
     (if is_positive_infinity time then upd_data t (heap_index_update (\<lambda>_. size_max)) q
      else
        (let q1 = upd_data t (heap_index_update (\<lambda>_. length (heap q))) q;
             q2 = q1\<lparr>heap := heap q1 @ [(time, t)]\<rparr> in
         up_heap (length (heap q2) - 1) q2))"

definition link_timer :: "timer \<Rightarrow> timer_queue \<Rightarrow> timer_queue" where
  "link_timer t q =
     (let q1 = upd_data t (\<lambda>d. d\<lparr>next_timer := timers q, prev_timer := None\<rparr>) q;
          q2 = (case timers q1 of None \<Rightarrow> q1 | Some h \<Rightarrow> upd_data h (prev_timer_update (\<lambda>_. Some t)) q1) in
      q2\<lparr>timers := Some t\<rparr>)"

definition enqueue_timer :: "ptime_rep \<Rightarrow> timer \<Rightarrow> wait_op \<Rightarrow> timer_queue \<Rightarrow> bool \<times> timer_queue" where
  "enqueue_timer time t op q =
     (let q1 = (if \<not> active q t then link_timer t (enqueue_heap time t q) else q);
          q2 = upd_data t (\<lambda>d. d\<lparr>op_queue := op_queue d @ [op]\<rparr>) q1 in
      (heap_index (data q2 t) = 0 \<and> op_id (hd (op_queue (data q2 t))) = op_id op, q2))"

definition tq_empty :: "timer_queue \<Rightarrow> bool" where "tq_empty q \<longleftrightarrow> timers q = None"

text \<open>Waiting times are \<open>long\<close>.\<close>

definition to_msec :: "time_duration \<Rightarrow> int \<Rightarrow> int result" where
  "to_msec d max_duration =
     (if d \<le> 0 then Inr 0
      else and_then (total_milliseconds d) (\<lambda>msec.
        if msec = 0 then Inr 1 else if msec > max_duration then Inr max_duration else Inr msec))"

definition to_usec :: "time_duration \<Rightarrow> int \<Rightarrow> int result" where
  "to_usec d max_duration =
     (if d \<le> 0 then Inr 0
      else and_then (total_microseconds d) (\<lambda>usec.
        if usec = 0 then Inr 1 else if usec > max_duration then Inr max_duration else Inr usec))"

definition wait_duration_msec :: "ptime_rep \<Rightarrow> int \<Rightarrow> timer_queue \<Rightarrow> int result" where
  "wait_duration_msec now max_duration q =
     (if heap q = [] then Inr max_duration
      else and_then (subtract_times (fst (heap q ! 0)) now) (\<lambda>d. to_msec d max_duration))"

definition wait_duration_usec :: "ptime_rep \<Rightarrow> int \<Rightarrow> timer_queue \<Rightarrow> int result" where
  "wait_duration_usec now max_duration q =
     (if heap q = [] then Inr max_duration
      else and_then (subtract_times (fst (heap q ! 0)) now) (\<lambda>d. to_usec d max_duration))"

text \<open>\<open>get_ready_timers\<close> and \<open>get_all_timers\<close> move operations to the queue they are given.\<close>

partial_function (option) ready_loop :: "ptime_rep \<Rightarrow> wait_op list \<Rightarrow> timer_queue \<Rightarrow> (wait_op list \<times> timer_queue) option" where
  "ready_loop now ops q =
     (if heap q \<noteq> [] \<and> \<not> is_less now (fst (heap q ! 0)) then
        (let t = snd (heap q ! 0) in
         ready_loop now (ops @ op_queue (data q t))
           (remove_timer t (upd_data t (op_queue_update (\<lambda>_. [])) q)))
      else Some (ops, q))"

definition get_ready_timers :: "ptime_rep \<Rightarrow> wait_op list \<Rightarrow> timer_queue \<Rightarrow> (wait_op list \<times> timer_queue) option" where
  "get_ready_timers now ops q = (if heap q \<noteq> [] then ready_loop now ops q else Some (ops, q))"

partial_function (option) all_loop :: "wait_op list \<Rightarrow> timer_queue \<Rightarrow> (wait_op list \<times> timer_queue) option" where
  "all_loop ops q =
     (case timers q of None \<Rightarrow> Some (ops, q)
      | Some t \<Rightarrow> all_loop (ops @ op_queue (data q t))
          (upd_data t (\<lambda>d. d\<lparr>op_queue := [], next_timer := None, prev_timer := None\<rparr>) (q\<lparr>timers := next_timer (data q t)\<rparr>)))"

definition get_all_timers :: "wait_op list \<Rightarrow> timer_queue \<Rightarrow> (wait_op list \<times> timer_queue) option" where
  "get_all_timers ops q = map_option (\<lambda>(ops', q'). (ops', q'\<lparr>heap := []\<rparr>)) (all_loop ops q)"

text \<open>\<open>cancel_timer\<close>: at most \<open>max_cancelled\<close> operations are completed as aborted.\<close>

fun cancel_ops :: "nat \<Rightarrow> nat \<Rightarrow> wait_op list \<Rightarrow> wait_op list \<Rightarrow> nat \<times> wait_op list \<times> wait_op list" where
  "cancel_ops max_cancelled n [] ops = (n, [], ops)"
| "cancel_ops max_cancelled n (op # rest) ops =
     (if n \<noteq> max_cancelled then cancel_ops max_cancelled (n + 1) rest (ops @ [op\<lparr>op_aborted := True\<rparr>])
      else (n, op # rest, ops))"

definition cancel_timer :: "timer \<Rightarrow> nat \<Rightarrow> wait_op list \<Rightarrow> timer_queue \<Rightarrow> nat \<times> wait_op list \<times> timer_queue" where
  "cancel_timer t max_cancelled ops q =
     (if active q t then
        (let (n, rest, ops') = cancel_ops max_cancelled 0 (op_queue (data q t)) ops;
             q1 = upd_data t (op_queue_update (\<lambda>_. rest)) q in
         (n, ops', if rest = [] then remove_timer t q1 else q1))
      else (0, ops, q))"

section \<open>The timer service\<close>

text \<open>
  The timer object: its expiry time, a flag that spares cancelling when nothing waits, and its data in the queue.
  The queue's lock and its wake-up of the reactor are the reactor's.
\<close>

record timer_impl =
  expiry :: ptime_rep
  might_have_pending_waits :: bool
  timer_data :: timer

definition timer_construct :: "timer \<Rightarrow> timer_impl result" where
  "timer_construct t = and_then ptime_default (\<lambda>e. Inr \<lparr>expiry = e, might_have_pending_waits = False, timer_data = t\<rparr>)"

definition timer_cancel :: "timer_impl \<Rightarrow> wait_op list \<Rightarrow> timer_queue \<Rightarrow> nat \<times> timer_impl \<times> wait_op list \<times> timer_queue" where
  "timer_cancel impl ops q =
     (if \<not> might_have_pending_waits impl then (0, impl, ops, q)
      else
        (let (n, ops', q') = cancel_timer (timer_data impl) size_max ops q in
         (n, impl\<lparr>might_have_pending_waits := False\<rparr>, ops', q')))"

definition timer_cancel_one :: "timer_impl \<Rightarrow> wait_op list \<Rightarrow> timer_queue \<Rightarrow> nat \<times> timer_impl \<times> wait_op list \<times> timer_queue" where
  "timer_cancel_one impl ops q =
     (if \<not> might_have_pending_waits impl then (0, impl, ops, q)
      else
        (let (n, ops', q') = cancel_timer (timer_data impl) 1 ops q in
         (n, if n = 0 then impl\<lparr>might_have_pending_waits := False\<rparr> else impl, ops', q')))"

definition expires_at :: "timer_impl \<Rightarrow> ptime_rep \<Rightarrow> wait_op list \<Rightarrow> timer_queue \<Rightarrow> nat \<times> timer_impl \<times> wait_op list \<times> timer_queue" where
  "expires_at impl time ops q =
     (let (n, impl', ops', q') = timer_cancel impl ops q in (n, impl'\<lparr>expiry := time\<rparr>, ops', q'))"

definition expires_from_now ::
    "ptime_rep \<Rightarrow> timer_impl \<Rightarrow> time_duration \<Rightarrow> wait_op list \<Rightarrow> timer_queue \<Rightarrow> (nat \<times> timer_impl \<times> wait_op list \<times> timer_queue) result" where
  "expires_from_now now impl d ops q = and_then (add_time_duration now d) (\<lambda>time. Inr (expires_at impl time ops q))"

definition remaining :: "ptime_rep \<Rightarrow> timer_impl \<Rightarrow> time_duration result" where
  "remaining now impl = subtract_times (expiry impl) now"

definition async_wait :: "timer_impl \<Rightarrow> wait_op \<Rightarrow> timer_queue \<Rightarrow> bool \<times> timer_impl \<times> timer_queue" where
  "async_wait impl op q =
     (let impl' = impl\<lparr>might_have_pending_waits := True\<rparr>;
          (earliest, q') = enqueue_timer (expiry impl) (timer_data impl) op q in
      (earliest, impl', q'))"


declare ready_loop.simps [code] all_loop.simps [code]
declare up_heap.simps [simp del] down_heap.simps [simp del]

end
