(* ===== verification/Scheduler.thy ===== *)
theory Scheduler imports TimerQueue begin

text \<open>
  The event loop of the repository's Asio (\<open>external/boost/asio/detail/impl/task_io_service.ipp\<close>,
  \<open>task_io_service.hpp\<close>, \<open>op_queue.hpp\<close>, \<open>call_stack.hpp\<close>): every group and every TCP backend
  owns one, posts its handlers to it and runs or polls it from the worker. The service shares its
  queue with one task, the reactor, which it calls through \<open>run\<close> and \<open>interrupt\<close>; both are
  arguments here (\<open>rn\<close>, \<open>irq\<close>), as is the completion of an operation (\<open>cp\<close>).

  One thread runs the service, so no other thread is ever idle in it and the locks are free; the
  contexts of nested runs are a list, the innermost first.
\<close>

section \<open>The code\<close>

text \<open>
  An operation of the queue: the task's own marker, a descriptor the reactor found ready, a handler that was
  posted, a wait for a timer, or an operation on a descriptor with the error it is completed with.
\<close>

record io_op =
  io_id :: nat
  io_ec :: int

datatype 'h operation =
    TaskOp
  | DescriptorOp nat
  | HandlerOp 'h
  | TimerOp wait_op
  | IoOp io_op

definition is_task :: "'h operation \<Rightarrow> bool" where
  "is_task p \<longleftrightarrow> (case p of TaskOp \<Rightarrow> True | _ \<Rightarrow> False)"

record 'h thread_info =
  private_queue :: "'h operation list"
  private_work :: int

record 'h task_io_service =
  srv_queue :: "'h operation list"
  outstanding_work :: int
  has_task :: bool
  task_interrupted :: bool
  srv_stopped :: bool
  srv_shutdown :: bool
  one_thread :: bool
  call_stack :: "'h thread_info list"

type_synonym ('h, 'z) interrupt = "('h, 'z) task_io_service_scheme \<Rightarrow> ('h, 'z) task_io_service_scheme"
type_synonym ('h, 'z) effect =
  "('h, 'z) task_io_service_scheme \<Rightarrow> (unit result \<times> ('h, 'z) task_io_service_scheme) option"

definition task_io_service_new :: "nat \<Rightarrow> 'h task_io_service" where
  "task_io_service_new concurrency_hint = \<lparr>srv_queue = [], outstanding_work = 0, has_task = False,
     task_interrupted = True, srv_stopped = False, srv_shutdown = False, one_thread = (concurrency_hint = 1),
     call_stack = []\<rparr>"

text \<open>Changes of the innermost context of this service.\<close>

definition upd_context :: "('h thread_info \<Rightarrow> 'h thread_info) \<Rightarrow> ('h, 'z) interrupt" where
  "upd_context f s = s\<lparr>call_stack := (case call_stack s of [] \<Rightarrow> [] | t # ts \<Rightarrow> f t # ts)\<rparr>"

definition push_private :: "'h operation list \<Rightarrow> ('h, 'z) interrupt" where
  "push_private ops = upd_context (\<lambda>t. t\<lparr>private_queue := private_queue t @ ops\<rparr>)"

definition push_ops :: "'h operation list \<Rightarrow> ('h, 'z) interrupt" where
  "push_ops ops s = s\<lparr>srv_queue := srv_queue s @ ops\<rparr>"

subsection \<open>Stopping and waking\<close>

text \<open>No thread is idle, so waking one means interrupting the task.\<close>

definition interrupt_task :: "('h, 'z) interrupt \<Rightarrow> ('h, 'z) interrupt" where
  "interrupt_task irq s =
     (if \<not> task_interrupted s \<and> has_task s then irq (s\<lparr>task_interrupted := True\<rparr>) else s)"

definition stop_all_threads :: "('h, 'z) interrupt \<Rightarrow> ('h, 'z) interrupt" where
  "stop_all_threads irq s = interrupt_task irq (s\<lparr>srv_stopped := True\<rparr>)"

definition wake_one_thread :: "('h, 'z) interrupt \<Rightarrow> ('h, 'z) interrupt" where
  "wake_one_thread irq s = interrupt_task irq s"

definition service_stop :: "('h, 'z) interrupt \<Rightarrow> ('h, 'z) interrupt" where
  "service_stop irq s = stop_all_threads irq s"

definition service_stopped :: "('h, 'z) task_io_service_scheme \<Rightarrow> bool" where
  "service_stopped s = srv_stopped s"

definition service_reset :: "('h, 'z) interrupt" where
  "service_reset s = s\<lparr>srv_stopped := False\<rparr>"

definition work_started :: "('h, 'z) interrupt" where
  "work_started s = s\<lparr>outstanding_work := outstanding_work s + 1\<rparr>"

definition work_finished :: "('h, 'z) interrupt \<Rightarrow> ('h, 'z) interrupt" where
  "work_finished irq s =
     (let s1 = s\<lparr>outstanding_work := outstanding_work s - 1\<rparr> in
      if outstanding_work s1 = 0 then service_stop irq s1 else s1)"

definition init_task :: "('h, 'z) interrupt \<Rightarrow> ('h, 'z) interrupt" where
  "init_task irq s =
     (if \<not> srv_shutdown s \<and> \<not> has_task s then wake_one_thread irq (push_ops [TaskOp] (s\<lparr>has_task := True\<rparr>)) else s)"

text \<open>The operations that are destroyed unexecuted are the result.\<close>

definition shutdown_service :: "('h, 'z) task_io_service_scheme \<Rightarrow> 'h operation list \<times> ('h, 'z) task_io_service_scheme" where
  "shutdown_service s = (filter (\<lambda>p. \<not> is_task p) (srv_queue s), s\<lparr>srv_shutdown := True, srv_queue := [], has_task := False\<rparr>)"

subsection \<open>Posting\<close>

definition post_immediate_completion :: "('h, 'z) interrupt \<Rightarrow> 'h operation \<Rightarrow> ('h, 'z) interrupt" where
  "post_immediate_completion irq p s =
     (if one_thread s \<and> call_stack s \<noteq> [] then
        push_private [p] (upd_context (\<lambda>t. t\<lparr>private_work := private_work t + 1\<rparr>) s)
      else wake_one_thread irq (push_ops [p] (work_started s)))"

definition post_deferred_completions :: "('h, 'z) interrupt \<Rightarrow> 'h operation list \<Rightarrow> ('h, 'z) interrupt" where
  "post_deferred_completions irq ops s =
     (if ops \<noteq> [] then
        if one_thread s \<and> call_stack s \<noteq> [] then push_private ops s else wake_one_thread irq (push_ops ops s)
      else s)"

definition post_deferred_completion :: "('h, 'z) interrupt \<Rightarrow> 'h operation \<Rightarrow> ('h, 'z) interrupt" where
  "post_deferred_completion irq p s =
     (if one_thread s \<and> call_stack s \<noteq> [] then push_private [p] s else wake_one_thread irq (push_ops [p] s))"

definition post_private_deferred_completion :: "('h, 'z) interrupt \<Rightarrow> 'h operation \<Rightarrow> ('h, 'z) interrupt" where
  "post_private_deferred_completion irq p s =
     (if call_stack s \<noteq> [] then push_private [p] s else wake_one_thread irq (push_ops [p] s))"

definition post_private_immediate_completion :: "('h, 'z) interrupt \<Rightarrow> 'h operation \<Rightarrow> ('h, 'z) interrupt" where
  "post_private_immediate_completion irq p s = post_private_deferred_completion irq p (work_started s)"

definition post_non_private_deferred_completion :: "('h, 'z) interrupt \<Rightarrow> 'h operation \<Rightarrow> ('h, 'z) interrupt" where
  "post_non_private_deferred_completion irq p s = wake_one_thread irq (push_ops [p] s)"

definition post_non_private_immediate_completion :: "('h, 'z) interrupt \<Rightarrow> 'h operation \<Rightarrow> ('h, 'z) interrupt" where
  "post_non_private_immediate_completion irq p s = post_non_private_deferred_completion irq p (work_started s)"

definition service_post :: "('h, 'z) interrupt \<Rightarrow> 'h \<Rightarrow> ('h, 'z) interrupt" where
  "service_post irq h s = post_immediate_completion irq (HandlerOp h) s"

text \<open>\<open>dispatch\<close> calls the handler at once when this thread already runs the service.\<close>

definition service_dispatch :: "('h, 'z) interrupt \<Rightarrow> ('h \<Rightarrow> ('h, 'z) effect) \<Rightarrow> 'h \<Rightarrow> ('h, 'z) effect" where
  "service_dispatch irq invoke h s =
     (if call_stack s \<noteq> [] then invoke h s
      else Some (Inr (), post_non_private_immediate_completion irq (HandlerOp h) s))"

subsection \<open>Running\<close>

text \<open>The two destructors that close a round, whether or not it ended by an exception.\<close>

definition task_cleanup :: "('h, 'z) interrupt" where
  "task_cleanup s = (case call_stack s of
     [] \<Rightarrow> s
   | t # ts \<Rightarrow>
       s\<lparr>outstanding_work := (if private_work t > 0 then outstanding_work s + private_work t
            else outstanding_work s),
          call_stack := t\<lparr>private_work := 0, private_queue := []\<rparr> # ts,
          task_interrupted := True,
          srv_queue := srv_queue s @ private_queue t @ [TaskOp]\<rparr>)"

definition work_cleanup :: "('h, 'z) interrupt \<Rightarrow> ('h, 'z) interrupt" where
  "work_cleanup irq s = (case call_stack s of
     [] \<Rightarrow> s
   | t # ts \<Rightarrow>
       let s1 = (if private_work t > 1
                 then s\<lparr>outstanding_work := outstanding_work s + (private_work t - 1)\<rparr>
                 else if private_work t < 1 then work_finished irq s else s);
           s2 = s1\<lparr>call_stack := t\<lparr>private_work := 0, private_queue := []\<rparr> # ts\<rparr> in
       push_ops (private_queue t) s2)"

text \<open>
  Taking the first operation: the task is run, and may block when nothing else is queued; any other
  operation is completed.
\<close>

definition run_task :: "(bool \<Rightarrow> ('h, 'z) effect) \<Rightarrow> bool \<Rightarrow> ('h, 'z) effect" where
  "run_task rn block s = map_option (\<lambda>(r, s'). (r, task_cleanup s')) (rn block s)"

definition complete_op ::
    "('h, 'z) interrupt \<Rightarrow> ('h operation \<Rightarrow> ('h, 'z) effect) \<Rightarrow> 'h operation \<Rightarrow> ('h, 'z) effect" where
  "complete_op irq cp p s =
     (let s1 = (if srv_queue s \<noteq> [] \<and> \<not> one_thread s then wake_one_thread irq s else s) in
      map_option (\<lambda>(r, s'). (r, work_cleanup irq s')) (cp p s1))"

text \<open>
  \<open>do_run_one\<close>: the result is the number of handlers it ran. With an empty queue it waits for another thread,
  which does not exist.
\<close>

partial_function (option) do_run_one ::
    "(bool \<Rightarrow> ('h, 'z) effect) \<Rightarrow> ('h, 'z) interrupt \<Rightarrow> ('h operation \<Rightarrow> ('h, 'z) effect) \<Rightarrow>
     ('h, 'z) task_io_service_scheme \<Rightarrow> (nat result \<times> ('h, 'z) task_io_service_scheme) option" where
  "do_run_one rn irq cp s =
     (if srv_stopped s then Some (Inr 0, s)
      else case srv_queue s of
          [] \<Rightarrow> None
        | p # rest \<Rightarrow>
            (let s1 = s\<lparr>srv_queue := rest\<rparr>; more_handlers = rest \<noteq> [] in
             if is_task p then
               Option.bind (run_task rn (\<not> more_handlers) (s1\<lparr>task_interrupted := more_handlers\<rparr>))
                 (\<lambda>res. case fst res of Inl e \<Rightarrow> Some (Inl e, snd res) | Inr _ \<Rightarrow> do_run_one rn irq cp (snd res))
             else
               map_option (\<lambda>(r, s'). (map_sum id (\<lambda>_. 1) r, s')) (complete_op irq cp p s1)))"

definition do_poll_one ::
    "(bool \<Rightarrow> ('h, 'z) effect) \<Rightarrow> ('h, 'z) interrupt \<Rightarrow> ('h operation \<Rightarrow> ('h, 'z) effect) \<Rightarrow>
     ('h, 'z) task_io_service_scheme \<Rightarrow> (nat result \<times> ('h, 'z) task_io_service_scheme) option" where
  "do_poll_one rn irq cp s =
     (if srv_stopped s then Some (Inr 0, s)
      else Option.bind
        (case srv_queue s of
           [] \<Rightarrow> Some (Inr (), s)
         | p # rest \<Rightarrow> if is_task p then run_task rn False (s\<lparr>srv_queue := rest\<rparr>) else Some (Inr (), s))
        (\<lambda>(r, s1). case r of
           Inl e \<Rightarrow> Some (Inl e, s1)
         | Inr _ \<Rightarrow>
             (case srv_queue s1 of
                [] \<Rightarrow> Some (Inr 0, s1)
              | p # rest \<Rightarrow>
                  if is_task p then Some (Inr 0, s1)
                  else map_option (\<lambda>(r, s'). (map_sum id (\<lambda>_. 1) r, s')) (complete_op irq cp p (s1\<lparr>srv_queue := rest\<rparr>)))))"

text \<open>The loops of \<open>run\<close> and \<open>poll\<close>; the count saturates.\<close>

partial_function (option) service_loop ::
    "(('h, 'z) task_io_service_scheme \<Rightarrow> (nat result \<times> ('h, 'z) task_io_service_scheme) option) \<Rightarrow> nat \<Rightarrow>
     ('h, 'z) task_io_service_scheme \<Rightarrow> (nat result \<times> ('h, 'z) task_io_service_scheme) option" where
  "service_loop one n s =
     Option.bind (one s) (\<lambda>res. case fst res of
         Inl e \<Rightarrow> Some (Inl e, snd res)
       | Inr k \<Rightarrow> if k = 0 then Some (Inr n, snd res)
                  else service_loop one (if n \<noteq> size_max then n + 1 else n) (snd res))"

text \<open>A context of this service is on the stack while \<open>body\<close> runs; leaving it destroys its queue.\<close>

definition with_context ::
    "(('h, 'z) task_io_service_scheme \<Rightarrow> ('a result \<times> ('h, 'z) task_io_service_scheme) option) \<Rightarrow>
     ('h, 'z) task_io_service_scheme \<Rightarrow> ('a result \<times> ('h, 'z) task_io_service_scheme) option" where
  "with_context body s =
     map_option (\<lambda>(r, s'). (r, s'\<lparr>call_stack := tl (call_stack s')\<rparr>))
       (body (s\<lparr>call_stack := \<lparr>private_queue = [], private_work = 0\<rparr> # call_stack s\<rparr>))"

definition service_run where
  "service_run rn irq cp s =
     (if outstanding_work s = 0 then Some (Inr 0, service_stop irq s)
      else with_context (service_loop (do_run_one rn irq cp) 0) s)"

definition service_run_one where
  "service_run_one rn irq cp s =
     (if outstanding_work s = 0 then Some (Inr 0, service_stop irq s)
      else with_context (do_run_one rn irq cp) s)"

text \<open>With one thread, a nested poll first takes over what the run around it has posted.\<close>

definition take_outer_private :: "('h, 'z) interrupt" where
  "take_outer_private s = (case call_stack s of
     t # u # ts \<Rightarrow> if one_thread s
       then push_ops (private_queue u) (s\<lparr>call_stack := t # u\<lparr>private_queue := []\<rparr> # ts\<rparr>) else s
   | _ \<Rightarrow> s)"

definition service_poll where
  "service_poll rn irq cp s =
     (if outstanding_work s = 0 then Some (Inr 0, service_stop irq s)
      else with_context (\<lambda>s. service_loop (do_poll_one rn irq cp) 0 (take_outer_private s)) s)"

definition service_poll_one where
  "service_poll_one rn irq cp s =
     (if outstanding_work s = 0 then Some (Inr 0, service_stop irq s)
      else with_context (\<lambda>s. do_poll_one rn irq cp (take_outer_private s)) s)"

declare do_run_one.simps [code] service_loop.simps [code]

end
