(* ===== verification/Reactor.thy ===== *)
theory Reactor imports Scheduler begin

text \<open>
  The reactor of the event loop (\<open>external/boost/asio/detail/impl/epoll_reactor.ipp\<close>, \<open>epoll_reactor.hpp\<close>,
  \<open>timer_queue_set.ipp\<close>, \<open>object_pool.hpp\<close>): it waits in \<open>epoll_wait\<close>, hands the timers that are due
  and the descriptors that are ready to the scheduler, and keeps the operations that wait for them. The
  kernel is an argument of the definitions: what it answers, and how its own state \<open>'k\<close> changes.
\<close>

section \<open>The kernel\<close>

datatype epoll_event = EvInterrupter | EvTimerFd | EvDescriptor nat u32

datatype epoll_ctl = AddInterrupter | AddTimerFd | ModInterrupter | Add int u32 | Mod int u32 | Del int

text \<open>
  \<open>epoll_wait\<close> with a timeout in milliseconds (\<open>-1\<close> blocks) is \<open>None\<close> when it never returns; \<open>epoll_ctl\<close>
  answers 0 or an \<open>errno\<close>; \<open>timerfd_settime\<close> gets its flags, seconds and nanoseconds; the clock is the one the
  timer queue reads; performing an operation is the system call of its \<open>perform\<close> function.
\<close>

record 'k kernel =
  k_epoll_wait :: "int \<Rightarrow> 'k \<Rightarrow> (epoll_event list \<times> 'k) option"
  k_epoll_ctl :: "epoll_ctl \<Rightarrow> 'k \<Rightarrow> int \<times> 'k"
  k_timerfd_settime :: "int \<Rightarrow> int \<Rightarrow> int \<Rightarrow> 'k \<Rightarrow> 'k"
  k_clock :: "'k \<Rightarrow> ptime_rep \<times> 'k"
  k_perform :: "io_op \<Rightarrow> 'k \<Rightarrow> bool \<times> io_op \<times> 'k"

definition EPOLLIN :: u32 where "EPOLLIN = 1"
definition EPOLLPRI :: u32 where "EPOLLPRI = 2"
definition EPOLLOUT :: u32 where "EPOLLOUT = 4"
definition EPOLLERR :: u32 where "EPOLLERR = 8"
definition EPOLLHUP :: u32 where "EPOLLHUP = 16"
definition EPOLLET :: u32 where "EPOLLET = 0x80000000"

definition EBADF :: int where "EBADF = 9"
definition ECANCELED :: int where "ECANCELED = 125"
definition TFD_TIMER_ABSTIME :: int where "TFD_TIMER_ABSTIME = 1"

section \<open>The state\<close>

text \<open>The kinds of operations index the three queues of a descriptor; \<open>connect_op\<close> has the number of \<open>write_op\<close>.\<close>

datatype op_type = ReadOp | WriteOp | ExceptOp

record descriptor_state =
  descriptor :: int
  registered_events :: u32
  op_queues :: "op_type \<Rightarrow> io_op list"
  d_shutdown :: bool
  task_result :: u32

text \<open>
  The reactor's members, beside those of the service it belongs to: the set of timer queues is the list of their
  addresses, the pool of descriptor states has a live and a free list and the number of states it
  has created. \<open>user\<close> is the state of the program whose handlers run.
\<close>

record ('h, 'k, 'u) reactor = "'h task_io_service" +
  r_shutdown :: bool
  timer_fd :: int
  queue_set :: "nat list"
  queues :: "nat \<Rightarrow> timer_queue"
  descriptors :: "nat \<Rightarrow> descriptor_state"
  live_list :: "nat list"
  free_list :: "nat list"
  created :: nat
  kern :: 'k
  user :: 'u

definition upd_queue :: "nat \<Rightarrow> timer_queue \<Rightarrow> ('h, 'k, 'u) reactor \<Rightarrow> ('h, 'k, 'u) reactor" where
  "upd_queue q tq s = s\<lparr>queues := (queues s)(q := tq)\<rparr>"

definition upd_descriptor ::
    "nat \<Rightarrow> (descriptor_state \<Rightarrow> descriptor_state) \<Rightarrow> ('h, 'k, 'u) reactor \<Rightarrow> ('h, 'k, 'u) reactor" where
  "upd_descriptor d f s = s\<lparr>descriptors := (descriptors s)(d := f (descriptors s d))\<rparr>"

definition ctl :: "'k kernel \<Rightarrow> epoll_ctl \<Rightarrow> ('h, 'k, 'u) reactor \<Rightarrow> int \<times> ('h, 'k, 'u) reactor" where
  "ctl K c s = (let (r, k) = k_epoll_ctl K c (kern s) in (r, s\<lparr>kern := k\<rparr>))"

definition epoll_reactor_new ::
    "'k kernel \<Rightarrow> int \<Rightarrow> (nat \<Rightarrow> timer_queue) \<Rightarrow> (nat \<Rightarrow> descriptor_state) \<Rightarrow> nat \<Rightarrow> 'k \<Rightarrow> 'u \<Rightarrow> ('h, 'k, 'u) reactor" where
  "epoll_reactor_new K tfd qs ds hint k u =
     (let s = task_io_service.extend (task_io_service_new hint)
           \<lparr>r_shutdown = False, timer_fd = tfd, queue_set = [], queues = qs, descriptors = ds, live_list = [],
            free_list = [], created = 0, kern = k, user = u\<rparr>;
          s1 = snd (ctl K AddInterrupter s) in
      if tfd \<noteq> - 1 then snd (ctl K AddTimerFd s1) else s1)"

definition epoll_interrupt :: "'k kernel \<Rightarrow> ('h, 'k, 'u) reactor \<Rightarrow> ('h, 'k, 'u) reactor" where
  "epoll_interrupt K s = snd (ctl K ModInterrupter s)"

section \<open>Timers\<close>

definition add_timer_queue :: "nat \<Rightarrow> ('h, 'k, 'u) reactor \<Rightarrow> ('h, 'k, 'u) reactor" where
  "add_timer_queue q s = s\<lparr>queue_set := q # queue_set s\<rparr>"

definition remove_timer_queue :: "nat \<Rightarrow> ('h, 'k, 'u) reactor \<Rightarrow> ('h, 'k, 'u) reactor" where
  "remove_timer_queue q s = s\<lparr>queue_set := remove1 q (queue_set s)\<rparr>"

definition all_empty :: "('h, 'k, 'u) reactor \<Rightarrow> bool" where
  "all_empty s \<longleftrightarrow> list_all (\<lambda>q. tq_empty (queues s q)) (queue_set s)"

text \<open>A queue reads the clock only when its heap is not empty.\<close>

definition queue_wait ::
    "'k kernel \<Rightarrow> (ptime_rep \<Rightarrow> int \<Rightarrow> timer_queue \<Rightarrow> int result) \<Rightarrow> nat \<Rightarrow> int \<Rightarrow> ('h, 'k, 'u) reactor \<Rightarrow>
     int result \<times> ('h, 'k, 'u) reactor" where
  "queue_wait K f q m s =
     (if heap (queues s q) = [] then (Inr m, s)
      else let (now, k) = k_clock K (kern s) in (f now m (queues s q), s\<lparr>kern := k\<rparr>))"

fun set_wait ::
    "'k kernel \<Rightarrow> (ptime_rep \<Rightarrow> int \<Rightarrow> timer_queue \<Rightarrow> int result) \<Rightarrow> nat list \<Rightarrow> int \<Rightarrow> ('h, 'k, 'u) reactor \<Rightarrow>
     int result \<times> ('h, 'k, 'u) reactor" where
  "set_wait K f [] m s = (Inr m, s)"
| "set_wait K f (q # qs) m s =
     (case queue_wait K f q m s of (Inl e, s') \<Rightarrow> (Inl e, s') | (Inr m', s') \<Rightarrow> set_wait K f qs m' s')"

definition get_timeout :: "'k kernel \<Rightarrow> ('h, 'k, 'u) reactor \<Rightarrow> int result \<times> ('h, 'k, 'u) reactor" where
  "get_timeout K s = set_wait K wait_duration_msec (queue_set s) (5 * 60 * 1000) s"

text \<open>The setting of the timer descriptor: the flags, and \<open>it_value\<close> in seconds and nanoseconds.\<close>

definition timerfd_value :: "int \<Rightarrow> int \<times> int \<times> int" where
  "timerfd_value usec =
     (if usec \<noteq> 0 then 0 else TFD_TIMER_ABSTIME, usec div 1000000,
      if usec \<noteq> 0 then (usec mod 1000000) * 1000 else 1)"

definition set_timerfd :: "'k kernel \<Rightarrow> ('h, 'k, 'u) reactor \<Rightarrow> unit result \<times> ('h, 'k, 'u) reactor" where
  "set_timerfd K s =
     (case set_wait K wait_duration_usec (queue_set s) (5 * 60 * 1000 * 1000) s of
        (Inl e, s') \<Rightarrow> (Inl e, s')
      | (Inr usec, s') \<Rightarrow>
          let (flags, sec, nsec) = timerfd_value usec in
          (Inr (), s'\<lparr>kern := k_timerfd_settime K flags sec nsec (kern s')\<rparr>))"

definition update_timeout :: "'k kernel \<Rightarrow> ('h, 'k, 'u) reactor \<Rightarrow> unit result \<times> ('h, 'k, 'u) reactor" where
  "update_timeout K s = (if timer_fd s \<noteq> - 1 then set_timerfd K s else (Inr (), epoll_interrupt K s))"

text \<open>\<open>heap_max\<close>: the most entries of 16 bytes a vector holds; one more is refused by an exception.\<close>

definition heap_max :: nat where "heap_max = 2 ^ 59 - 1"

definition schedule_timer ::
    "'k kernel \<Rightarrow> nat \<Rightarrow> ptime_rep \<Rightarrow> timer \<Rightarrow> wait_op \<Rightarrow> ('h, 'k, 'u) reactor \<Rightarrow> unit result \<times> ('h, 'k, 'u) reactor" where
  "schedule_timer K q time t p s =
     (if r_shutdown s then (Inr (), post_immediate_completion (epoll_interrupt K) (TimerOp p) s)
      else if \<not> active (queues s q) t \<and> \<not> is_positive_infinity time \<and> length (heap (queues s q)) \<ge> heap_max then
        (Inl (Throw (OtherException ''std::length_error'')),
         upd_queue q (upd_data t (heap_index_update (\<lambda>_. length (heap (queues s q)))) (queues s q)) s)
      else
        (let (earliest, tq) = enqueue_timer time t p (queues s q);
             s1 = work_started (upd_queue q tq s) in
         if earliest then update_timeout K s1 else (Inr (), s1)))"

definition reactor_cancel_timer ::
    "'k kernel \<Rightarrow> nat \<Rightarrow> timer \<Rightarrow> nat \<Rightarrow> ('h, 'k, 'u) reactor \<Rightarrow> nat \<times> ('h, 'k, 'u) reactor" where
  "reactor_cancel_timer K q t max_cancelled s =
     (let (n, ps, tq) = cancel_timer t max_cancelled [] (queues s q) in
      (n, post_deferred_completions (epoll_interrupt K) (map TimerOp ps) (upd_queue q tq s)))"

text \<open>The timers that are due, one queue after the other.\<close>

fun set_ready ::
    "'k kernel \<Rightarrow> nat list \<Rightarrow> ('h, 'k, 'u) reactor \<Rightarrow> ('h, 'k, 'u) reactor option" where
  "set_ready K [] s = Some s"
| "set_ready K (q # qs) s =
     (if heap (queues s q) = [] then set_ready K qs s
      else let (now, k) = k_clock K (kern s) in
        Option.bind (get_ready_timers now [] (queues s q))
          (\<lambda>(ps, tq). set_ready K qs (push_private (map TimerOp ps) (upd_queue q tq (s\<lparr>kern := k\<rparr>)))))"

section \<open>Waiting for events\<close>

definition is_descriptor :: "nat \<Rightarrow> 'h operation \<Rightarrow> bool" where
  "is_descriptor d p \<longleftrightarrow> (case p of DescriptorOp d' \<Rightarrow> d' = d | _ \<Rightarrow> False)"

definition linked :: "nat \<Rightarrow> ('h, 'z) task_io_service_scheme \<Rightarrow> bool" where
  "linked d s \<longleftrightarrow> list_ex (is_descriptor d) (srv_queue s) \<or> list_ex (\<lambda>t. list_ex (is_descriptor d) (private_queue t)) (call_stack s)"

text \<open>
  A ready descriptor is itself the operation that is queued. Its link is in it, so queueing it while
  it is in a queue would tear that queue.
\<close>

fun dispatch_events ::
    "epoll_event list \<Rightarrow> bool \<Rightarrow> ('h, 'k, 'u) reactor \<Rightarrow> bool result \<times> ('h, 'k, 'u) reactor" where
  "dispatch_events [] check_timers s = (Inr check_timers, s)"
| "dispatch_events (ev # evs) check_timers s =
     (case ev of
        EvInterrupter \<Rightarrow> dispatch_events evs (if timer_fd s = - 1 then True else check_timers) s
      | EvTimerFd \<Rightarrow> dispatch_events evs True s
      | EvDescriptor d events \<Rightarrow>
          if linked d s then (Inl (UB DoubleLink), s)
          else dispatch_events evs check_timers
            (push_private [DescriptorOp d] (upd_descriptor d (\<lambda>st. st\<lparr>task_result := events\<rparr>) s)))"

definition epoll_timeout :: "'k kernel \<Rightarrow> bool \<Rightarrow> ('h, 'k, 'u) reactor \<Rightarrow> int result \<times> ('h, 'k, 'u) reactor" where
  "epoll_timeout K block s =
     (if timer_fd s \<noteq> - 1 then (Inr (if block then - 1 else 0), s)
      else if block then get_timeout K s else (Inr 0, s))"

definition check_timer_queues :: "'k kernel \<Rightarrow> ('h, 'k, 'u) reactor \<Rightarrow> (unit result \<times> ('h, 'k, 'u) reactor) option" where
  "check_timer_queues K s = Option.bind (set_ready K (queue_set s) s)
     (\<lambda>s'. Some (if timer_fd s' \<noteq> - 1 then set_timerfd K s' else (Inr (), s')))"

definition epoll_run :: "'k kernel \<Rightarrow> bool \<Rightarrow> ('h, 'k, 'u) reactor \<Rightarrow> (unit result \<times> ('h, 'k, 'u) reactor) option" where
  "epoll_run K block s =
     (case epoll_timeout K block s of
        (Inl e, s1) \<Rightarrow> Some (Inl e, s1)
      | (Inr timeout, s1) \<Rightarrow>
          Option.bind (k_epoll_wait K timeout (kern s1)) (\<lambda>(evs, k).
            case dispatch_events evs (timer_fd s1 = - 1) (s1\<lparr>kern := k\<rparr>) of
              (Inl e, s2) \<Rightarrow> Some (Inl e, s2)
            | (Inr check_timers, s2) \<Rightarrow> if check_timers then check_timer_queues K s2 else Some (Inr (), s2)))"

section \<open>Descriptors\<close>

definition allocate_descriptor_state :: "('h, 'k, 'u) reactor \<Rightarrow> nat \<times> ('h, 'k, 'u) reactor" where
  "allocate_descriptor_state s = (case free_list s of
     d # fs \<Rightarrow> (d, s\<lparr>free_list := fs, live_list := d # live_list s\<rparr>)
   | [] \<Rightarrow> (created s, s\<lparr>created := created s + 1, live_list := created s # live_list s\<rparr>))"

definition free_descriptor_state :: "nat \<Rightarrow> ('h, 'k, 'u) reactor \<Rightarrow> ('h, 'k, 'u) reactor" where
  "free_descriptor_state d s = s\<lparr>live_list := remove1 d (live_list s), free_list := d # free_list s\<rparr>"

text \<open>\<open>register_descriptor\<close> returns 0 or an \<open>errno\<close>; the state it allocated is kept in both cases.\<close>

definition register_descriptor ::
    "'k kernel \<Rightarrow> int \<Rightarrow> ('h, 'k, 'u) reactor \<Rightarrow> int \<times> nat \<times> ('h, 'k, 'u) reactor" where
  "register_descriptor K fd s =
     (let (d, s1) = allocate_descriptor_state s;
          ev = EPOLLIN OR EPOLLERR OR EPOLLHUP OR EPOLLPRI OR EPOLLET;
          s2 = upd_descriptor d (\<lambda>st. st\<lparr>descriptor := fd, d_shutdown := False, registered_events := ev\<rparr>) s1;
          (r, s3) = ctl K (Add fd ev) s2 in
      (r, d, s3))"

definition enqueue_io :: "nat \<Rightarrow> op_type \<Rightarrow> io_op \<Rightarrow> ('h, 'k, 'u) reactor \<Rightarrow> ('h, 'k, 'u) reactor" where
  "enqueue_io d i p s =
     work_started (upd_descriptor d (\<lambda>st. st\<lparr>op_queues := (op_queues st)(i := op_queues st i @ [p])\<rparr>) s)"

definition start_op ::
    "'k kernel \<Rightarrow> op_type \<Rightarrow> int \<Rightarrow> nat option \<Rightarrow> io_op \<Rightarrow> bool \<Rightarrow> ('h, 'k, 'u) reactor \<Rightarrow> ('h, 'k, 'u) reactor" where
  "start_op K i fd dd p allow_speculative s =
     (let post = (\<lambda>p. post_immediate_completion (epoll_interrupt K) (IoOp p)) in
      case dd of
        None \<Rightarrow> post (p\<lparr>io_ec := EBADF\<rparr>) s
      | Some d \<Rightarrow>
          let st = descriptors s d in
          if d_shutdown st then post p s
          else if op_queues st i = [] then
            if allow_speculative \<and> (i \<noteq> ReadOp \<or> op_queues st ExceptOp = []) then
              (let (finished, p', k) = k_perform K p (kern s); s1 = s\<lparr>kern := k\<rparr> in
               if finished then post p' s1
               else if i = WriteOp \<and> registered_events st AND EPOLLOUT = 0 then
                 (let ev = registered_events st OR EPOLLOUT; (err, s2) = ctl K (Mod fd ev) s1 in
                  if err = 0
                  then enqueue_io d i p' (upd_descriptor d (\<lambda>st. st\<lparr>registered_events := registered_events st OR ev\<rparr>) s2)
                  else post (p'\<lparr>io_ec := err\<rparr>) s2)
               else enqueue_io d i p' s1)
            else
              (let s1 = (if i = WriteOp
                         then upd_descriptor d (\<lambda>st. st\<lparr>registered_events := registered_events st OR EPOLLOUT\<rparr>) s else s) in
               enqueue_io d i p (snd (ctl K (Mod fd (registered_events (descriptors s1 d))) s1)))
          else enqueue_io d i p s)"

text \<open>All operations of a descriptor, aborted.\<close>

definition aborted_ops :: "descriptor_state \<Rightarrow> io_op list" where
  "aborted_ops st = concat (map (\<lambda>i. map (\<lambda>p. p\<lparr>io_ec := ECANCELED\<rparr>) (op_queues st i)) [ReadOp, WriteOp, ExceptOp])"

definition cancel_io :: "'k kernel \<Rightarrow> nat option \<Rightarrow> ('h, 'k, 'u) reactor \<Rightarrow> ('h, 'k, 'u) reactor" where
  "cancel_io K dd s = (case dd of None \<Rightarrow> s | Some d \<Rightarrow>
     post_deferred_completions (epoll_interrupt K) (map IoOp (aborted_ops (descriptors s d)))
       (upd_descriptor d (\<lambda>st. st\<lparr>op_queues := \<lambda>_. []\<rparr>) s))"

definition deregister_descriptor ::
    "'k kernel \<Rightarrow> int \<Rightarrow> nat option \<Rightarrow> bool \<Rightarrow> ('h, 'k, 'u) reactor \<Rightarrow> nat option \<times> ('h, 'k, 'u) reactor" where
  "deregister_descriptor K fd dd closing s = (case dd of None \<Rightarrow> (None, s) | Some d \<Rightarrow>
     if d_shutdown (descriptors s d) then (Some d, s)
     else
       (let s1 = (if closing then s else snd (ctl K (Del fd) s));
            s2 = upd_descriptor d (\<lambda>st. st\<lparr>op_queues := \<lambda>_. [], descriptor := - 1, d_shutdown := True\<rparr>) s1 in
        (None, post_deferred_completions (epoll_interrupt K) (map IoOp (aborted_ops (descriptors s d)))
                 (free_descriptor_state d s2))))"

text \<open>
  Internal descriptors, those of the library itself, have an operation that waits from the start and is no
  work: registering does not count it, and deregistering destroys it, the second result, uncompleted.
\<close>

definition register_internal_descriptor ::
    "'k kernel \<Rightarrow> op_type \<Rightarrow> int \<Rightarrow> io_op \<Rightarrow> ('h, 'k, 'u) reactor \<Rightarrow> int \<times> nat \<times> ('h, 'k, 'u) reactor" where
  "register_internal_descriptor K i fd p s =
     (let (d, s1) = allocate_descriptor_state s;
          ev = EPOLLIN OR EPOLLERR OR EPOLLHUP OR EPOLLPRI OR EPOLLET;
          s2 = upd_descriptor d (\<lambda>st. st\<lparr>descriptor := fd, d_shutdown := False,
                 op_queues := (op_queues st)(i := op_queues st i @ [p]), registered_events := ev\<rparr>) s1;
          (r, s3) = ctl K (Add fd ev) s2 in
      (r, d, s3))"

definition deregister_internal_descriptor ::
    "'k kernel \<Rightarrow> int \<Rightarrow> nat option \<Rightarrow> ('h, 'k, 'u) reactor \<Rightarrow> nat option \<times> io_op list \<times> ('h, 'k, 'u) reactor" where
  "deregister_internal_descriptor K fd dd s = (case dd of None \<Rightarrow> (None, [], s) | Some d \<Rightarrow>
     if d_shutdown (descriptors s d) then (Some d, [], s)
     else
       (let s1 = snd (ctl K (Del fd) s) in
        (None, concat (map (op_queues (descriptors s d)) [ReadOp, WriteOp, ExceptOp]),
         free_descriptor_state d
           (upd_descriptor d (\<lambda>st. st\<lparr>op_queues := \<lambda>_. [], descriptor := - 1, d_shutdown := True\<rparr>) s1))))"

text \<open>\<open>move_descriptor\<close> hands a registration on: the new target and source.\<close>

definition move_descriptor :: "nat option \<Rightarrow> nat option \<times> nat option" where
  "move_descriptor source = (source, None)"

text \<open>
  After a fork the child has a new epoll set, if \<open>epoll_create\<close> answers with one (\<open>made\<close>; otherwise
  \<open>do_epoll_create\<close> throws before anything else is done), and a new timer descriptor \<open>tfd\<close>. Everything is
  added to the set again; the first descriptor that is refused ends that by an exception.
\<close>

fun reregister :: "'k kernel \<Rightarrow> nat list \<Rightarrow> ('h, 'k, 'u) reactor \<Rightarrow> unit result \<times> ('h, 'k, 'u) reactor" where
  "reregister K [] s = (Inr (), s)"
| "reregister K (d # ds) s =
     (let (r, s1) = ctl K (Add (descriptor (descriptors s d)) (registered_events (descriptors s d))) s in
      if r \<noteq> 0 then (Inl (Throw (OtherException ''boost::system::system_error'')), s1) else reregister K ds s1)"

definition fork_service :: "'k kernel \<Rightarrow> bool \<Rightarrow> bool \<Rightarrow> int \<Rightarrow> ('h, 'k, 'u) reactor \<Rightarrow> unit result \<times> ('h, 'k, 'u) reactor" where
  "fork_service K child made tfd s =
     (if \<not> child then (Inr (), s)
      else if \<not> made then (Inl (Throw (OtherException ''boost::system::system_error'')), s)
      else
        (let s1 = snd (ctl K AddInterrupter (s\<lparr>timer_fd := tfd\<rparr>));
             s2 = (if tfd \<noteq> - 1 then snd (ctl K AddTimerFd s1) else s1) in
         case update_timeout K s2 of (Inl e, s3) \<Rightarrow> (Inl e, s3) | (Inr _, s3) \<Rightarrow> reregister K (live_list s3) s3))"

text \<open>\<open>perform_io\<close>: the ready queues are worked off from the exceptional one to the reading one.\<close>

fun perform_ops :: "'k kernel \<Rightarrow> io_op list \<Rightarrow> 'k \<Rightarrow> io_op list \<times> io_op list \<times> 'k" where
  "perform_ops K [] k = ([], [], k)"
| "perform_ops K (p # ps) k =
     (let (finished, p', k1) = k_perform K p k in
      if finished then (let (fin, rest, k2) = perform_ops K ps k1 in (p' # fin, rest, k2))
      else ([], p' # ps, k1))"

definition event_flag :: "op_type \<Rightarrow> u32" where
  "event_flag j = (case j of ReadOp \<Rightarrow> EPOLLIN | WriteOp \<Rightarrow> EPOLLOUT | ExceptOp \<Rightarrow> EPOLLPRI)"

definition perform_queue ::
    "'k kernel \<Rightarrow> nat \<Rightarrow> u32 \<Rightarrow> op_type \<Rightarrow> io_op list \<times> ('h, 'k, 'u) reactor \<Rightarrow> io_op list \<times> ('h, 'k, 'u) reactor" where
  "perform_queue K d events j x =
     (let (ps, s) = x in
      if events AND (event_flag j OR EPOLLERR OR EPOLLHUP) \<noteq> 0 then
        (let (fin, rest, k) = perform_ops K (op_queues (descriptors s d) j) (kern s) in
         (ps @ fin, upd_descriptor d (\<lambda>st. st\<lparr>op_queues := (op_queues st)(j := rest)\<rparr>) (s\<lparr>kern := k\<rparr>)))
      else (ps, s))"

definition perform_io :: "'k kernel \<Rightarrow> nat \<Rightarrow> u32 \<Rightarrow> ('h, 'k, 'u) reactor \<Rightarrow> io_op option \<times> ('h, 'k, 'u) reactor" where
  "perform_io K d events s =
     (let (ps, s1) = perform_queue K d events ReadOp (perform_queue K d events WriteOp (perform_queue K d events ExceptOp ([], s))) in
      case ps of
        [] \<Rightarrow> (None, work_started s1)
      | p # rest \<Rightarrow> (Some p, post_deferred_completions (epoll_interrupt K) (map IoOp rest) s1))"

definition descriptor_complete ::
    "'k kernel \<Rightarrow> ('h operation \<Rightarrow> ('h, 'k, 'u) reactor \<Rightarrow> (unit result \<times> ('h, 'k, 'u) reactor) option) \<Rightarrow> nat \<Rightarrow>
     ('h, 'k, 'u) reactor \<Rightarrow> (unit result \<times> ('h, 'k, 'u) reactor) option" where
  "descriptor_complete K cp d s =
     (case perform_io K d (task_result (descriptors s d)) s of
        (None, s1) \<Rightarrow> Some (Inr (), s1)
      | (Some p, s1) \<Rightarrow> cp (IoOp p) s1)"

text \<open>All operations that wait are collected and destroyed with the reactor.\<close>

fun set_all :: "nat list \<Rightarrow> ('h, 'k, 'u) reactor \<Rightarrow> (wait_op list \<times> ('h, 'k, 'u) reactor) option" where
  "set_all [] s = Some ([], s)"
| "set_all (q # qs) s = Option.bind (get_all_timers [] (queues s q))
     (\<lambda>(ps, tq). map_option (\<lambda>(ps', s'). (ps @ ps', s')) (set_all qs (upd_queue q tq s)))"

definition free_all_states :: "('h, 'k, 'u) reactor \<Rightarrow> io_op list \<times> ('h, 'k, 'u) reactor" where
  "free_all_states s =
     (concat (map (\<lambda>d. concat (map (op_queues (descriptors s d)) [ReadOp, WriteOp, ExceptOp])) (live_list s)),
      s\<lparr>descriptors := (\<lambda>d. if d \<in> set (live_list s) then (descriptors s d)\<lparr>op_queues := \<lambda>_. [], d_shutdown := True\<rparr>
                            else descriptors s d),
         free_list := rev (live_list s) @ free_list s, live_list := []\<rparr>)"

definition reactor_shutdown :: "('h, 'k, 'u) reactor \<Rightarrow> ('h operation list \<times> ('h, 'k, 'u) reactor) option" where
  "reactor_shutdown s =
     (let (ios, s1) = free_all_states (s\<lparr>r_shutdown := True\<rparr>) in
      map_option (\<lambda>(ws, s2). (map IoOp ios @ map TimerOp ws, s2)) (set_all (queue_set s1) s1))"

section \<open>Handlers\<close>

text \<open>
  A handler acts on its service by posting, stopping it, arming and cancelling timers and starting and
  cancelling operations on descriptors; an exception ends it. \<open>program\<close> gives the actions of the handler
  behind an operation, as the program's own state determines them.
\<close>

datatype 'h action =
    APost 'h
  | AStop
  | ASchedule nat ptime_rep timer wait_op
  | ACancelTimer nat timer nat
  | AStartOp op_type int "nat option" io_op bool
  | ACancelIo "nat option"
  | ADeregister int "nat option" bool
  | ARegister int
  | AInit
  | ARaise exn

fun do_action :: "'k kernel \<Rightarrow> 'h action \<Rightarrow> ('h, 'k, 'u) reactor \<Rightarrow> unit result \<times> ('h, 'k, 'u) reactor" where
  "do_action K (APost h) s = (Inr (), service_post (epoll_interrupt K) h s)"
| "do_action K AStop s = (Inr (), service_stop (epoll_interrupt K) s)"
| "do_action K (ASchedule q time t p) s = schedule_timer K q time t p s"
| "do_action K (ACancelTimer q t m) s = (Inr (), snd (reactor_cancel_timer K q t m s))"
| "do_action K (AStartOp i fd dd p spec) s = (Inr (), start_op K i fd dd p spec s)"
| "do_action K (ACancelIo dd) s = (Inr (), cancel_io K dd s)"
| "do_action K (ADeregister fd dd closing) s = (Inr (), snd (deregister_descriptor K fd dd closing s))"
| "do_action K (ARegister fd) s = (Inr (), snd (snd (register_descriptor K fd s)))"
| "do_action K AInit s = (Inr (), init_task (epoll_interrupt K) s)"
| "do_action K (ARaise e) s = (Inl (Throw e), s)"

fun do_actions :: "'k kernel \<Rightarrow> 'h action list \<Rightarrow> ('h, 'k, 'u) reactor \<Rightarrow> unit result \<times> ('h, 'k, 'u) reactor" where
  "do_actions K [] s = (Inr (), s)"
| "do_actions K (a # as) s = (case do_action K a s of (Inl e, s') \<Rightarrow> (Inl e, s') | (Inr _, s') \<Rightarrow> do_actions K as s')"

definition handler_complete ::
    "'k kernel \<Rightarrow> ('h operation \<Rightarrow> 'u \<Rightarrow> 'h action list \<times> 'u) \<Rightarrow> 'h operation \<Rightarrow> ('h, 'k, 'u) reactor \<Rightarrow>
     (unit result \<times> ('h, 'k, 'u) reactor) option" where
  "handler_complete K program p s =
     (let (as, u) = program p (user s) in Some (do_actions K as (s\<lparr>user := u\<rparr>)))"

definition reactor_complete ::
    "'k kernel \<Rightarrow> ('h operation \<Rightarrow> 'u \<Rightarrow> 'h action list \<times> 'u) \<Rightarrow> 'h operation \<Rightarrow> ('h, 'k, 'u) reactor \<Rightarrow>
     (unit result \<times> ('h, 'k, 'u) reactor) option" where
  "reactor_complete K program p s =
     (case p of DescriptorOp d \<Rightarrow> descriptor_complete K (handler_complete K program) d s
      | _ \<Rightarrow> handler_complete K program p s)"

text \<open>A service with its reactor.\<close>

definition reactor_run where
  "reactor_run K program = service_run (epoll_run K) (epoll_interrupt K) (reactor_complete K program)"

definition reactor_poll where
  "reactor_poll K program = service_poll (epoll_run K) (epoll_interrupt K) (reactor_complete K program)"

end
