(* ===== verification/ServiceLoop.thy ===== *)
theory ServiceLoop imports Scheduler begin

text \<open>
  What the event loop guarantees to everyone who uses it, over an interface of the task, its interruption
  and the completion of operations: the count of outstanding work is exactly what is queued, waits in
  the task or is being completed; the task's marker is queued once and every descriptor
  operation before it; and a run without \<open>stop\<close> ends only when nothing is left to do.
\<close>

section \<open>What is counted\<close>

text \<open>The marker of the task and a ready descriptor are not work of their own.\<close>

definition user_op :: "'h operation \<Rightarrow> bool" where
  "user_op p \<longleftrightarrow> (case p of TaskOp \<Rightarrow> False | DescriptorOp _ \<Rightarrow> False | _ \<Rightarrow> True)"

definition count_ops :: "'h operation list \<Rightarrow> int" where
  "count_ops ops = int (length (filter user_op ops))"

definition private_sum :: "'h thread_info list \<Rightarrow> int" where
  "private_sum ts = (\<Sum>t\<leftarrow>ts. private_work t - count_ops (private_queue t))"

text \<open>Started work that is neither queued nor waiting (\<open>pend\<close>) in the task: it is being completed.\<close>

definition balance :: "(('h, 'z) task_io_service_scheme \<Rightarrow> int) \<Rightarrow> ('h, 'z) task_io_service_scheme \<Rightarrow> int" where
  "balance pend s = outstanding_work s - count_ops (srv_queue s) + private_sum (call_stack s) - pend s"

definition private_ok :: "('h, 'z) task_io_service_scheme \<Rightarrow> bool" where
  "private_ok s \<longleftrightarrow> (\<forall>t \<in> set (call_stack s). 0 \<le> private_work t \<and> list_all user_op (private_queue t))"

text \<open>Neither the marker nor a descriptor operation is queued: the state in which the task runs.\<close>

definition quiet :: "('h, 'z) task_io_service_scheme \<Rightarrow> bool" where
  "quiet s \<longleftrightarrow> private_ok s \<and> list_all user_op (srv_queue s)"

text \<open>Between the operations: if there is a task its marker is queued once, and only user operations behind it.\<close>

definition disciplined :: "('h, 'z) task_io_service_scheme \<Rightarrow> bool" where
  "disciplined s \<longleftrightarrow> private_ok s \<and>
     (if has_task s then \<exists>pre post. srv_queue s = pre @ TaskOp # post \<and> list_all (\<lambda>p. \<not> is_task p) pre \<and> list_all user_op post
      else list_all user_op (srv_queue s))"

text \<open>The innermost context between the operations.\<close>

definition at_rest :: "('h, 'z) task_io_service_scheme \<Rightarrow> bool" where
  "at_rest s \<longleftrightarrow> (\<exists>ts. call_stack s = \<lparr>private_queue = [], private_work = 0\<rparr> # ts)"

lemma count_ops_simps [simp]:
  "count_ops [] = 0" "count_ops (p # ps) = (if user_op p then 1 else 0) + count_ops ps" "count_ops (ps @ qs) = count_ops ps + count_ops qs"
  by (simp_all add: count_ops_def)

lemma count_ops_nonneg [simp]: "0 \<le> count_ops ps"
  by (simp add: count_ops_def)

lemma count_ops_zero [simp]: "count_ops ps = 0 \<longleftrightarrow> list_all (\<lambda>p. \<not> user_op p) ps"
  by (induction ps) (auto, metis add.commute add_nonneg_pos count_ops_nonneg less_numeral_extra(1) less_numeral_extra(3))

lemma count_ops_map [simp]: "(\<And>x. user_op (f x)) \<Longrightarrow> count_ops (map f xs) = int (length xs)"
  by (induction xs) auto

lemma user_op_simps [simp]:
  "\<not> user_op TaskOp" "\<not> user_op (DescriptorOp d)" "user_op (HandlerOp h)" "user_op (TimerOp w)" "user_op (IoOp i)"
  by (simp_all add: user_op_def)

lemma is_task_simps [simp]:
  "is_task TaskOp" "\<not> is_task (DescriptorOp d)" "\<not> is_task (HandlerOp h)" "\<not> is_task (TimerOp w)" "\<not> is_task (IoOp i)"
  by (simp_all add: is_task_def)

lemma is_task_iff: "is_task p \<longleftrightarrow> p = TaskOp"
  by (cases p) simp_all

lemma user_not_task: "user_op p \<Longrightarrow> \<not> is_task p"
  by (cases p) simp_all

lemma private_sum_simps [simp]:
  "private_sum [] = 0" "private_sum (t # ts) = private_work t - count_ops (private_queue t) + private_sum ts"
  by (simp_all add: private_sum_def)

lemma disciplinedI:
  "has_task s \<Longrightarrow> private_ok s \<Longrightarrow> srv_queue s = pre @ TaskOp # post \<Longrightarrow> list_all (\<lambda>p. \<not> is_task p) pre \<Longrightarrow>
     list_all user_op post \<Longrightarrow> disciplined s"
  by (auto simp: disciplined_def)

lemma disciplined_private: "disciplined s \<Longrightarrow> private_ok s"
  by (simp add: disciplined_def)

lemma quiet_private: "quiet s \<Longrightarrow> private_ok s"
  by (simp add: quiet_def)

text \<open>Induction over a run that returns, the arguments of the loop being fixed.\<close>

lemma do_run_one_rule [consumes 1, case_names step]:
  assumes "do_run_one rn irq cp s = Some x"
    and "\<And>one s x. (\<And>s x. one s = Some x \<Longrightarrow> P s x) \<Longrightarrow>
      (if srv_stopped s then Some (Inr 0, s)
       else case srv_queue s of
           [] \<Rightarrow> None
         | p # rest \<Rightarrow> (let s1 = s\<lparr>srv_queue := rest\<rparr>; more_handlers = rest \<noteq> [] in
             if is_task p then
               Option.bind (run_task rn (\<not> more_handlers) (s1\<lparr>task_interrupted := more_handlers\<rparr>))
                 (\<lambda>res. case fst res of Inl e \<Rightarrow> Some (Inl e, snd res) | Inr _ \<Rightarrow> one (snd res))
             else map_option (\<lambda>(r, s'). (map_sum id (\<lambda>_. 1) r, s')) (complete_op irq cp p s1))) = Some x \<Longrightarrow>
      P s x"
  shows "P s x"
proof -
  have "rn' = rn \<longrightarrow> irq' = irq \<longrightarrow> cp' = cp \<longrightarrow> P s x" if "do_run_one rn' irq' cp' s = Some x" for rn' irq' cp'
  proof (rule do_run_one.raw_induct [where P = "\<lambda>rn' irq' cp' s x. rn' = rn \<longrightarrow> irq' = irq \<longrightarrow> cp' = cp \<longrightarrow> P s x", OF _ that])
    fix one rn' irq' cp' s x
    assume IH: "\<And>rn' irq' cp' s x. one rn' irq' cp' s = Some x \<Longrightarrow> rn' = rn \<longrightarrow> irq' = irq \<longrightarrow> cp' = cp \<longrightarrow> P s x"
      and b: "(if srv_stopped s then Some (Inr 0, s)
       else case srv_queue s of [] \<Rightarrow> None
         | p # rest \<Rightarrow> (let s1 = s\<lparr>srv_queue := rest\<rparr>; more_handlers = rest \<noteq> [] in
             if is_task p then
               Option.bind (run_task rn' (\<not> more_handlers) (s1\<lparr>task_interrupted := more_handlers\<rparr>))
                 (\<lambda>res. case fst res of Inl e \<Rightarrow> Some (Inl e, snd res) | Inr _ \<Rightarrow> one rn' irq' cp' (snd res))
             else map_option (\<lambda>(r, s'). (map_sum id (\<lambda>_. 1) r, s')) (complete_op irq' cp' p s1))) = Some x"
    show "rn' = rn \<longrightarrow> irq' = irq \<longrightarrow> cp' = cp \<longrightarrow> P s x"
    proof (intro impI)
      assume e: "rn' = rn" "irq' = irq" "cp' = cp"
      have "\<And>s x. one rn irq cp s = Some x \<Longrightarrow> P s x" using IH [of rn irq cp] by blast
      then show "P s x" by (rule assms(2) [where one = "one rn irq cp", OF _ b [unfolded e]])
    qed
  qed
  then show ?thesis using assms(1) by blast
qed

text \<open>The three ways a round goes.\<close>

lemma round_cases:
  assumes "(if srv_stopped s then Some (Inr 0, s)
       else case srv_queue s of
           [] \<Rightarrow> None
         | p # rest \<Rightarrow> (let s1 = s\<lparr>srv_queue := rest\<rparr>; more_handlers = rest \<noteq> [] in
             if is_task p then
               Option.bind (run_task rn (\<not> more_handlers) (s1\<lparr>task_interrupted := more_handlers\<rparr>))
                 (\<lambda>res. case fst res of Inl e \<Rightarrow> Some (Inl e, snd res) | Inr _ \<Rightarrow> one (snd res))
             else map_option (\<lambda>(r, s'). (map_sum id (\<lambda>_. 1) r, s')) (complete_op irq cp p s1))) = Some (x :: nat result \<times> _)"
  obtains (stopped) "srv_stopped s" "x = (Inr 0, s)"
  | (task) p rest res where "\<not> srv_stopped s" "srv_queue s = p # rest" "is_task p"
      "run_task rn (rest = []) (s\<lparr>srv_queue := rest, task_interrupted := rest \<noteq> []\<rparr>) = Some res"
      "(case fst res of Inl e \<Rightarrow> Some (Inl e, snd res) | Inr _ \<Rightarrow> one (snd res)) = Some x"
  | (complete) p rest r s' where "\<not> srv_stopped s" "srv_queue s = p # rest" "\<not> is_task p"
      "complete_op irq cp p (s\<lparr>srv_queue := rest\<rparr>) = Some (r, s')" "x = (map_sum id (\<lambda>_. 1) r, s')"
proof (cases "srv_stopped s")
  case True
  then show thesis using assms stopped by auto
next
  case False
  then obtain p rest where q: "srv_queue s = p # rest" using assms by (auto split: list.splits)
  show thesis
  proof (cases "is_task p")
    case True
    then show thesis using assms task False q by (auto simp: Let_def Option.bind_eq_Some_conv)
  next
    case other: False
    obtain y where "complete_op irq cp p (s\<lparr>srv_queue := rest\<rparr>) = Some y" "x = (map_sum id (\<lambda>_. 1) (fst y), snd y)"
      using assms other False q by (auto simp: Let_def)
    then show thesis using complete [OF False q other, of "fst y" "snd y"] by simp
  qed
qed

lemma service_loop_rule [consumes 1, case_names step]:
  assumes "service_loop one n s = Some x"
    and "\<And>loop n s x. (\<And>n s x. loop n s = Some x \<Longrightarrow> P n s x) \<Longrightarrow>
      Option.bind (one s) (\<lambda>res. case fst res of
         Inl e \<Rightarrow> Some (Inl e, snd res)
       | Inr k \<Rightarrow> if k = 0 then Some (Inr n, snd res) else loop (if n \<noteq> size_max then n + 1 else n) (snd res)) = Some x \<Longrightarrow>
      P n s x"
  shows "P n s x"
proof -
  have "one' = one \<longrightarrow> P n s x" if "service_loop one' n s = Some x" for one'
  proof (rule service_loop.raw_induct [where P = "\<lambda>one' n s x. one' = one \<longrightarrow> P n s x", OF _ that])
    fix loop one' n s x
    assume IH: "\<And>one' n s x. loop one' n s = Some x \<Longrightarrow> one' = one \<longrightarrow> P n s x"
      and b: "Option.bind (one' s) (\<lambda>res. case fst res of
         Inl e \<Rightarrow> Some (Inl e, snd res)
       | Inr k \<Rightarrow> if k = 0 then Some (Inr n, snd res) else loop one' (if n \<noteq> size_max then n + 1 else n) (snd res)) = Some x"
    show "one' = one \<longrightarrow> P n s x"
    proof (intro impI)
      assume e: "one' = one"
      have "\<And>n s x. loop one n s = Some x \<Longrightarrow> P n s x" using IH [of one] by blast
      then show "P n s x" by (rule assms(2) [where loop = "loop one", OF _ b [unfolded e]])
    qed
  qed
  then show ?thesis using assms(1) by blast
qed

section \<open>The interface of the loop\<close>

text \<open>
  \<open>pend\<close> counts the work that waits in the task, \<open>ok\<close> is what the task requires of its own state; both look
  only at that state. The task turns waiting work into queued work, keeps to the innermost context's queue
  and hands out each descriptor once; a completed operation leaves the state of the loop balanced, a
  descriptor operation having counted the work it completes.
\<close>

locale event_loop =
  fixes rn :: "bool \<Rightarrow> ('h, 'z) effect"
    and irq :: "('h, 'z) interrupt"
    and cp :: "'h operation \<Rightarrow> ('h, 'z) effect"
    and pend :: "('h, 'z) task_io_service_scheme \<Rightarrow> int"
    and ok :: "('h, 'z) task_io_service_scheme \<Rightarrow> bool"
  assumes pend_own: "task_io_service.more s = task_io_service.more s' \<Longrightarrow> pend s = pend s' \<and> (ok s \<longleftrightarrow> ok s')"
    and irq_frame: "\<exists>z. irq s = s\<lparr>task_io_service.more := z\<rparr> \<and> pend (irq s) = pend s \<and> (ok s \<longrightarrow> ok (irq s))"
    and rn_law: "rn b s = Some (r, s') \<Longrightarrow> quiet s \<Longrightarrow> ok s \<Longrightarrow> call_stack s = t # ts \<Longrightarrow>
        private_queue t = [] \<Longrightarrow>
        (\<exists>t'. call_stack s' = t' # ts \<and> 0 \<le> private_work t' \<and> list_all (\<lambda>p. \<not> is_task p) (private_queue t'))
        \<and> srv_queue s' = srv_queue s \<and> has_task s' = has_task s \<and> srv_stopped s' = srv_stopped s
        \<and> ok s' \<and> balance pend s' = balance pend s \<and> r \<noteq> Inl (UB DoubleLink)"
    and cp_law: "cp p s = Some (r, s') \<Longrightarrow> \<not> is_task p \<Longrightarrow> disciplined s \<Longrightarrow> ok s \<Longrightarrow> at_rest s \<Longrightarrow>
        disciplined s' \<and> ok s' \<and> length (call_stack s') = length (call_stack s)
        \<and> balance pend s' = balance pend s + (if user_op p then 0 else 1) \<and> r \<noteq> Inl (UB DoubleLink)"
begin

definition inv :: "('h, 'z) task_io_service_scheme \<Rightarrow> bool" where
  "inv s \<longleftrightarrow> disciplined s \<and> ok s \<and> at_rest s"

text \<open>What one round, and every loop of rounds, keeps.\<close>

definition kept :: "('h, 'z) task_io_service_scheme \<Rightarrow> 'a result \<times> ('h, 'z) task_io_service_scheme \<Rightarrow> bool" where
  "kept s x \<longleftrightarrow> inv (snd x) \<and> balance pend (snd x) = balance pend s
     \<and> length (call_stack (snd x)) = length (call_stack s) \<and> fst x \<noteq> Inl (UB DoubleLink)"

lemma irq_simps [simp]:
  "srv_queue (irq s) = srv_queue s" "outstanding_work (irq s) = outstanding_work s" "call_stack (irq s) = call_stack s"
  "has_task (irq s) = has_task s" "srv_stopped (irq s) = srv_stopped s" "one_thread (irq s) = one_thread s"
  "pend (irq s) = pend s" "srv_shutdown (irq s) = srv_shutdown s"
  using irq_frame [of s] by auto

lemma pend_simps [simp]:
  "pend (s\<lparr>srv_queue := a\<rparr>) = pend s" "pend (s\<lparr>outstanding_work := b\<rparr>) = pend s" "pend (s\<lparr>has_task := c\<rparr>) = pend s"
  "pend (s\<lparr>task_interrupted := d\<rparr>) = pend s" "pend (s\<lparr>srv_stopped := e\<rparr>) = pend s" "pend (s\<lparr>call_stack := f\<rparr>) = pend s"
  by (rule pend_own [THEN conjunct1], simp)+

lemma ok_simps [simp]:
  "ok (s\<lparr>srv_queue := a\<rparr>) = ok s" "ok (s\<lparr>outstanding_work := b\<rparr>) = ok s" "ok (s\<lparr>has_task := c\<rparr>) = ok s"
  "ok (s\<lparr>task_interrupted := d\<rparr>) = ok s" "ok (s\<lparr>srv_stopped := e\<rparr>) = ok s" "ok (s\<lparr>call_stack := f\<rparr>) = ok s"
  by (rule pend_own [THEN conjunct2], simp)+

lemma ok_irq [simp]: "ok s \<Longrightarrow> ok (irq s)"
  using irq_frame [of s] by blast

lemma interrupt_task_simps [simp]:
  "srv_queue (interrupt_task irq s) = srv_queue s" "outstanding_work (interrupt_task irq s) = outstanding_work s"
  "call_stack (interrupt_task irq s) = call_stack s" "has_task (interrupt_task irq s) = has_task s"
  "srv_stopped (interrupt_task irq s) = srv_stopped s" "one_thread (interrupt_task irq s) = one_thread s"
  "pend (interrupt_task irq s) = pend s" "ok s \<Longrightarrow> ok (interrupt_task irq s)"
  by (simp_all add: interrupt_task_def)

lemma stop_simps [simp]:
  "srv_queue (service_stop irq s) = srv_queue s" "outstanding_work (service_stop irq s) = outstanding_work s"
  "call_stack (service_stop irq s) = call_stack s" "has_task (service_stop irq s) = has_task s"
  "srv_stopped (service_stop irq s)" "one_thread (service_stop irq s) = one_thread s"
  "pend (service_stop irq s) = pend s" "ok s \<Longrightarrow> ok (service_stop irq s)"
  by (simp_all add: service_stop_def stop_all_threads_def)

lemma work_finished_simps [simp]:
  "srv_queue (work_finished irq s) = srv_queue s" "outstanding_work (work_finished irq s) = outstanding_work s - 1"
  "call_stack (work_finished irq s) = call_stack s" "has_task (work_finished irq s) = has_task s"
  "pend (work_finished irq s) = pend s" "ok s \<Longrightarrow> ok (work_finished irq s)"
  "srv_stopped (work_finished irq s) \<longleftrightarrow> srv_stopped s \<or> outstanding_work s = 1"
  by (auto simp: work_finished_def Let_def)

lemma frame_disciplined:
  "srv_queue s' = srv_queue s \<Longrightarrow> call_stack s' = call_stack s \<Longrightarrow> has_task s' = has_task s \<Longrightarrow> disciplined s' = disciplined s"
  by (simp add: disciplined_def private_ok_def)

lemma frame_balance:
  "srv_queue s' = srv_queue s \<Longrightarrow> call_stack s' = call_stack s \<Longrightarrow> outstanding_work s' = outstanding_work s \<Longrightarrow>
     pend s' = pend s \<Longrightarrow> balance pend s' = balance pend s"
  by (simp add: balance_def)

text \<open>The end of a round: the innermost context is emptied.\<close>

lemma work_cleanup_law:
  assumes "disciplined s" "ok s" "call_stack s \<noteq> []"
  shows "inv (work_cleanup irq s)" "balance pend (work_cleanup irq s) = balance pend s - 1"
    "length (call_stack (work_cleanup irq s)) = length (call_stack s)"
    "srv_stopped (work_cleanup irq s) \<longleftrightarrow> srv_stopped s \<or> private_work (hd (call_stack s)) < 1 \<and> outstanding_work s = 1"
    "private_work (hd (call_stack s)) = 0 \<Longrightarrow> outstanding_work (work_cleanup irq s) = outstanding_work s - 1"
    "private_work (hd (call_stack s)) < 1 \<Longrightarrow> outstanding_work (work_cleanup irq s) = outstanding_work s - 1"
proof -
  obtain t ts where c: "call_stack s = t # ts" using assms(3) by (cases "call_stack s") auto
  have t: "0 \<le> private_work t" "list_all user_op (private_queue t)" "\<forall>u \<in> set ts. 0 \<le> private_work u \<and> list_all user_op (private_queue u)"
    using disciplined_private [OF assms(1)] c by (auto simp: private_ok_def)
  have q: "srv_queue (work_cleanup irq s) = srv_queue s @ private_queue t"
    "call_stack (work_cleanup irq s) = \<lparr>private_queue = [], private_work = 0\<rparr> # ts"
    "has_task (work_cleanup irq s) = has_task s" "ok (work_cleanup irq s)" "pend (work_cleanup irq s) = pend s"
    "outstanding_work (work_cleanup irq s) = outstanding_work s + (private_work t - 1)"
    using c t(1) assms(2) by (simp_all add: work_cleanup_def push_ops_def Let_def)
  have "disciplined (work_cleanup irq s)"
  proof (cases "has_task s")
    case True
    then obtain pre post where "srv_queue s = pre @ TaskOp # post" "list_all (\<lambda>p. \<not> is_task p) pre" "list_all user_op post"
      using assms(1) by (auto simp: disciplined_def)
    then have "srv_queue (work_cleanup irq s) = pre @ TaskOp # (post @ private_queue t)" "list_all user_op (post @ private_queue t)"
      using q(1) t(2) by simp_all
    then show ?thesis
      using True t(3) q(2,3) \<open>list_all (\<lambda>p. \<not> is_task p) pre\<close> by (intro disciplinedI) (auto simp: private_ok_def)
  next
    case False
    then show ?thesis using assms(1) t(2,3) q by (simp add: disciplined_def private_ok_def)
  qed
  then show "inv (work_cleanup irq s)" using q by (simp add: inv_def at_rest_def)
  show "balance pend (work_cleanup irq s) = balance pend s - 1" using c q by (simp add: balance_def)
  show "length (call_stack (work_cleanup irq s)) = length (call_stack s)" using c q by simp
  show "srv_stopped (work_cleanup irq s) \<longleftrightarrow> srv_stopped s \<or> private_work (hd (call_stack s)) < 1 \<and> outstanding_work s = 1"
    using c t(1) by (auto simp: work_cleanup_def push_ops_def Let_def)
  show "private_work (hd (call_stack s)) = 0 \<Longrightarrow> outstanding_work (work_cleanup irq s) = outstanding_work s - 1"
    "private_work (hd (call_stack s)) < 1 \<Longrightarrow> outstanding_work (work_cleanup irq s) = outstanding_work s - 1"
    using c t(1) q(6) by simp_all
qed

text \<open>A round of the task starts with nothing but user operations queued and ends with the marker last.\<close>

lemma run_task_law:
  assumes "run_task rn b s = Some (r, s')" "quiet s" "ok s" "at_rest s" "has_task s"
  shows "inv s' \<and> balance pend s' = balance pend s \<and> length (call_stack s') = length (call_stack s)
    \<and> srv_stopped s' = srv_stopped s \<and> r \<noteq> Inl (UB DoubleLink)"
proof -
  obtain s1 where s1: "rn b s = Some (r, s1)" "s' = task_cleanup s1" using assms(1) by (auto simp: run_task_def)
  obtain ts where c: "call_stack s = \<lparr>private_queue = [], private_work = 0\<rparr> # ts" using assms(4) by (auto simp: at_rest_def)
  obtain t' where t': "call_stack s1 = t' # ts" "0 \<le> private_work t'" "list_all (\<lambda>p. \<not> is_task p) (private_queue t')"
    and k: "srv_queue s1 = srv_queue s" "has_task s1 = has_task s" "srv_stopped s1 = srv_stopped s" "ok s1"
      "balance pend s1 = balance pend s" "r \<noteq> Inl (UB DoubleLink)"
    using rn_law [OF s1(1) assms(2,3) c] by auto
  have o: "outstanding_work s' = outstanding_work s1 + private_work t'" using t'(1,2) by (simp add: s1(2) task_cleanup_def)
  have q: "srv_queue s' = (srv_queue s @ private_queue t') @ TaskOp # []" "call_stack s' = \<lparr>private_queue = [], private_work = 0\<rparr> # ts"
    "has_task s' = has_task s" "srv_stopped s' = srv_stopped s" "ok s'" "pend s' = pend s1"
    using t'(1) k by (simp_all add: s1(2) task_cleanup_def)
  have u: "list_all (\<lambda>p. \<not> is_task p) (srv_queue s @ private_queue t')"
    using assms(2) t'(3) by (auto simp: quiet_def list_all_iff dest: user_not_task)
  have "private_ok s'" using quiet_private [OF assms(2)] c q(2) by (auto simp: private_ok_def)
  then have "disciplined s'" using disciplinedI [OF _ _ q(1) u] assms(5) q(3) by simp
  then show ?thesis using c q k(5,6) o t'(1) k(1) by (simp add: inv_def at_rest_def balance_def)
qed

lemma complete_op_law:
  assumes "complete_op irq cp p s = Some (r, s')" "\<not> is_task p" "disciplined s" "ok s" "at_rest s"
  shows "inv s' \<and> balance pend s' = balance pend s - (if user_op p then 1 else 0)
    \<and> length (call_stack s') = length (call_stack s) \<and> r \<noteq> Inl (UB DoubleLink)"
proof -
  define s1 where "s1 = (if srv_queue s \<noteq> [] \<and> \<not> one_thread s then wake_one_thread irq s else s)"
  obtain s2 where s2: "cp p s1 = Some (r, s2)" "s' = work_cleanup irq s2"
    using assms(1) by (auto simp: complete_op_def s1_def Let_def)
  have f: "srv_queue s1 = srv_queue s" "call_stack s1 = call_stack s" "has_task s1 = has_task s" "outstanding_work s1 = outstanding_work s"
    "pend s1 = pend s" "ok s1"
    using assms(4) by (simp_all add: s1_def wake_one_thread_def)
  have 1: "disciplined s1" "at_rest s1" "balance pend s1 = balance pend s"
    using assms(3,5) frame_disciplined [OF f(1-3)] frame_balance [OF f(1,2,4,5)] f(2) by (simp_all add: at_rest_def)
  note c = cp_law [OF s2(1) assms(2) 1(1) f(6) 1(2)]
  have n: "call_stack s2 \<noteq> []" using c f(2) assms(5) by (auto simp: at_rest_def)
  show ?thesis
    using work_cleanup_law(1-3) [OF _ _ n] c f(2) 1(3) by (auto simp: s2(2))
qed

text \<open>Taking the first operation of the queue.\<close>

lemma pop_task:
  assumes "disciplined s" "srv_queue s = p # rest" "is_task p"
  shows "quiet (s\<lparr>srv_queue := rest, task_interrupted := b\<rparr>)" "quiet (s\<lparr>srv_queue := rest\<rparr>)" "has_task s"
proof -
  have h: "has_task s" using assms by (auto simp: disciplined_def is_task_iff split: if_splits)
  then obtain pre post where q: "srv_queue s = pre @ TaskOp # post" "list_all (\<lambda>p. \<not> is_task p) pre" "list_all user_op post"
    using assms(1) by (auto simp: disciplined_def)
  have "pre = []" using q assms(2,3) by (cases pre) auto
  then have "list_all user_op rest" using q assms(2) by simp
  then show "quiet (s\<lparr>srv_queue := rest, task_interrupted := b\<rparr>)" "quiet (s\<lparr>srv_queue := rest\<rparr>)" "has_task s"
    using h disciplined_private [OF assms(1)] by (auto simp: quiet_def private_ok_def)
qed

lemma pop_other:
  assumes "disciplined s" "srv_queue s = p # rest" "\<not> is_task p"
  shows "disciplined (s\<lparr>srv_queue := rest\<rparr>)"
proof (cases "has_task s")
  case True
  then obtain pre post where q: "srv_queue s = pre @ TaskOp # post" "list_all (\<lambda>p. \<not> is_task p) pre" "list_all user_op post"
    using assms(1) by (auto simp: disciplined_def)
  then obtain pre' where "pre = p # pre'" using assms(2,3) by (cases pre) auto
  then show ?thesis using q assms(2) True disciplined_private [OF assms(1)] by (auto simp: disciplined_def private_ok_def)
next
  case False
  then show ?thesis using assms by (simp add: disciplined_def private_ok_def)
qed

lemma balance_pop: "srv_queue s = p # rest \<Longrightarrow> balance pend (s\<lparr>srv_queue := rest\<rparr>) = balance pend s + (if user_op p then 1 else 0)"
  by (simp add: balance_def)

lemma pop_complete:
  assumes "inv s" "srv_queue s = p # rest" "\<not> is_task p" "complete_op irq cp p (s\<lparr>srv_queue := rest\<rparr>) = Some (r, s')"
  shows "kept s (r, s')"
  using complete_op_law [OF assms(4,3) pop_other [OF _ assms(2,3)]] assms(1) balance_pop [OF assms(2)]
  by (auto simp: inv_def kept_def at_rest_def)

lemma pop_run_task:
  assumes "inv s" "srv_queue s = p # rest" "is_task p" "run_task rn b s1 = Some (r, s')"
    "s1 = s\<lparr>srv_queue := rest, task_interrupted := m\<rparr> \<or> s1 = s\<lparr>srv_queue := rest\<rparr>"
  shows "kept s (r, s')" "srv_stopped s' = srv_stopped s"
proof -
  have q: "quiet s1" "has_task s1" "ok s1" "at_rest s1" "balance pend s1 = balance pend s" "length (call_stack s1) = length (call_stack s)"
    "srv_stopped s1 = srv_stopped s"
    using pop_task [OF _ assms(2,3)] assms(1,2,3,5) balance_pop [OF assms(2)]
    by (auto simp: inv_def at_rest_def balance_def is_task_iff)
  show "kept s (r, s')" "srv_stopped s' = srv_stopped s"
    using run_task_law [OF assms(4) q(1,3,4,2)] q(5-7) by (auto simp: kept_def)
qed

lemma kept_trans: "kept s (r, s1) \<Longrightarrow> kept s1 x \<Longrightarrow> kept s x"
  by (simp add: kept_def)

lemma kept_inv: "kept s (r, s1) \<Longrightarrow> inv s1"
  by (simp add: kept_def)

lemma kept_count: "kept s (r, s1) \<Longrightarrow> kept s (map_sum id f r, s1)"
  by (cases r) (auto simp: kept_def)

lemma kept_result: "kept s (r, s1) \<Longrightarrow> (\<And>e. r' = Inl e \<Longrightarrow> r = Inl e) \<Longrightarrow> kept s (r', s1)"
  by (auto simp: kept_def)

section \<open>The loops\<close>

lemma do_run_one_kept: "do_run_one rn irq cp s = Some x \<Longrightarrow> inv s \<Longrightarrow> kept s x"
proof (induction rule: do_run_one_rule)
  case (step one s x)
  from step(2) show ?case
  proof (cases rule: round_cases)
    case stopped
    then show ?thesis using step(3) by (simp add: kept_def)
  next
    case (task p rest res)
    have k: "kept s (fst res, snd res)"
      using pop_run_task(1) [OF step(3) task(2,3), of _ _ "fst res" "snd res"] task(4) by fastforce
    show ?thesis
      using task(5) k kept_trans [OF k step(1) [OF _ kept_inv [OF k]]] by (cases "fst res") (auto intro: kept_result)
  next
    case (complete p rest r s')
    then show ?thesis using kept_count [OF pop_complete [OF step(3) complete(2-4)]] by simp
  qed
qed

lemma do_poll_one_kept:
  assumes "do_poll_one rn irq cp s = Some x" "inv s"
  shows "kept s x"
proof (cases "srv_stopped s")
  case True
  then show ?thesis using assms by (auto simp: do_poll_one_def kept_def)
next
  case False
  obtain r s1 where r: "(case srv_queue s of [] \<Rightarrow> Some (Inr (), s)
      | p # rest \<Rightarrow> if is_task p then run_task rn False (s\<lparr>srv_queue := rest\<rparr>) else Some (Inr (), s)) = Some (r, s1)"
    and x: "(case r of Inl e \<Rightarrow> Some (Inl e, s1) | Inr _ \<Rightarrow> (case srv_queue s1 of [] \<Rightarrow> Some (Inr 0, s1)
      | p # rest \<Rightarrow> if is_task p then Some (Inr 0, s1)
          else map_option (\<lambda>(r, s'). (map_sum id (\<lambda>_. 1) r, s')) (complete_op irq cp p (s1\<lparr>srv_queue := rest\<rparr>)))) = Some x"
    using assms(1) unfolding do_poll_one_def if_not_P [OF False] Option.bind_eq_Some_conv by (elim exE conjE) (simp split: prod.splits)
  have k: "kept s (r, s1)"
    using r assms(2) pop_run_task(1) [OF assms(2)] by (auto simp: kept_def split: list.splits if_splits)
  then have i: "inv s1" by (rule kept_inv)
  show ?thesis
  proof (cases r)
    case (Inl e)
    then show ?thesis using x k by (auto intro: kept_result)
  next
    case (Inr u)
    show ?thesis
    proof (cases "srv_queue s1")
      case Nil
      then show ?thesis using x Inr k by (auto intro: kept_result)
    next
      case (Cons p rest)
      show ?thesis
      proof (cases "is_task p")
        case True
        then show ?thesis using x Inr Cons k by (auto intro: kept_result)
      next
        case False
        then obtain r' s' where "complete_op irq cp p (s1\<lparr>srv_queue := rest\<rparr>) = Some (r', s')" "x = (map_sum id (\<lambda>_. 1) r', s')"
          using x Inr Cons by auto
        then show ?thesis
          by (auto intro!: kept_count intro: kept_trans [OF k] pop_complete [OF i Cons False])
      qed
    qed
  qed
qed

lemma service_loop_kept:
  assumes "service_loop one n s = Some x" "inv s" "\<And>s x. one s = Some x \<Longrightarrow> inv s \<Longrightarrow> kept s x"
  shows "kept s x"
  using assms(1,2)
proof (induction rule: service_loop_rule)
  case (step loop n s x)
  obtain res where r: "one s = Some res"
    and x: "(case fst res of Inl e \<Rightarrow> Some (Inl e, snd res)
      | Inr k \<Rightarrow> if k = 0 then Some (Inr n, snd res) else loop (if n \<noteq> size_max then n + 1 else n) (snd res)) = Some x"
    using step(2) by (auto simp: Option.bind_eq_Some_conv)
  have k: "kept s (fst res, snd res)" using assms(3) [OF r step(3)] by simp
  show ?case
    using x k kept_trans [OF k step(1) [OF _ kept_inv [OF k]]]
    by (cases "fst res") (auto split: if_splits intro: kept_result)
qed

text \<open>Entering and leaving: the new context is empty, and empty again when it is left.\<close>

lemma enter_inv:
  assumes "disciplined s" "ok s"
  shows "inv (s\<lparr>call_stack := \<lparr>private_queue = [], private_work = 0\<rparr> # call_stack s\<rparr>)"
    "balance pend (s\<lparr>call_stack := \<lparr>private_queue = [], private_work = 0\<rparr> # call_stack s\<rparr>) = balance pend s"
  using assms by (auto simp: inv_def at_rest_def disciplined_def private_ok_def balance_def)

lemma leave_disciplined:
  assumes "inv s"
  shows "disciplined (s\<lparr>call_stack := tl (call_stack s)\<rparr>)" "ok (s\<lparr>call_stack := tl (call_stack s)\<rparr>)"
    "balance pend (s\<lparr>call_stack := tl (call_stack s)\<rparr>) = balance pend s"
  using assms by (auto simp: inv_def at_rest_def disciplined_def private_ok_def balance_def)

definition settled :: "('h, 'z) task_io_service_scheme \<Rightarrow> 'a result \<times> ('h, 'z) task_io_service_scheme \<Rightarrow> bool" where
  "settled s x \<longleftrightarrow> disciplined (snd x) \<and> ok (snd x) \<and> balance pend (snd x) = balance pend s
     \<and> length (call_stack (snd x)) = length (call_stack s) \<and> fst x \<noteq> Inl (UB DoubleLink)"

lemma with_context_settled:
  assumes "with_context body s = Some x" "disciplined s" "ok s"
    and body: "\<And>s x. body s = Some x \<Longrightarrow> inv s \<Longrightarrow> kept s x"
  shows "settled s x"
proof -
  obtain r s1 where b: "body (s\<lparr>call_stack := \<lparr>private_queue = [], private_work = 0\<rparr> # call_stack s\<rparr>) = Some (r, s1)"
    and x: "x = (r, s1\<lparr>call_stack := tl (call_stack s1)\<rparr>)"
    using assms(1) by (auto simp: with_context_def)
  have k: "kept (s\<lparr>call_stack := \<lparr>private_queue = [], private_work = 0\<rparr> # call_stack s\<rparr>) (r, s1)"
    by (rule body [OF b enter_inv(1) [OF assms(2,3)]])
  then show ?thesis
    using leave_disciplined [of s1] enter_inv(2) [OF assms(2,3)] by (auto simp: settled_def kept_def x)
qed

lemma take_outer_inv:
  assumes "inv s"
  shows "inv (take_outer_private s)" "balance pend (take_outer_private s) = balance pend s"
    "length (call_stack (take_outer_private s)) = length (call_stack s)"
    "srv_stopped (take_outer_private s) = srv_stopped s"
proof -
  have "inv (take_outer_private s) \<and> balance pend (take_outer_private s) = balance pend s
    \<and> length (call_stack (take_outer_private s)) = length (call_stack s) \<and> srv_stopped (take_outer_private s) = srv_stopped s"
  proof (cases "one_thread s \<and> (\<exists>t u ts. call_stack s = t # u # ts)")
    case True
    then obtain t u ts where c: "one_thread s" "call_stack s = t # u # ts" by auto
    have d: "disciplined s" "ok s" "at_rest s" using assms by (auto simp: inv_def)
    then have u: "0 \<le> private_work u" "list_all user_op (private_queue u)" "\<forall>v \<in> set (t # ts). 0 \<le> private_work v \<and> list_all user_op (private_queue v)"
      using c(2) disciplined_private [OF d(1)] by (auto simp: private_ok_def)
    define s' where "s' = push_ops (private_queue u) (s\<lparr>call_stack := t # u\<lparr>private_queue := []\<rparr> # ts\<rparr>)"
    have t: "take_outer_private s = s'" using c by (simp add: take_outer_private_def s'_def)
    have q: "srv_queue s' = srv_queue s @ private_queue u" "call_stack s' = t # u\<lparr>private_queue := []\<rparr> # ts" "has_task s' = has_task s"
      "pend s' = pend s" "outstanding_work s' = outstanding_work s" "ok s'" "srv_stopped s' = srv_stopped s"
      using d(2) by (simp_all add: s'_def push_ops_def)
    have p: "private_ok s'" using u q(2) by (auto simp: private_ok_def)
    have "disciplined s'"
    proof (cases "has_task s")
      case True
      then obtain pre post where "srv_queue s = pre @ TaskOp # post" "list_all (\<lambda>p. \<not> is_task p) pre" "list_all user_op post"
        using d(1) by (auto simp: disciplined_def)
      then show ?thesis using True p q(1,3) u(2) by (intro disciplinedI [of s' pre "post @ private_queue u"]) simp_all
    next
      case False
      then show ?thesis using d(1) p q u(2) by (simp add: disciplined_def)
    qed
    then show ?thesis using d q c(2) unfolding t by (auto simp: inv_def at_rest_def balance_def)
  next
    case False
    then have "take_outer_private s = s" by (auto simp: take_outer_private_def split: list.splits)
    then show ?thesis using assms by simp
  qed
  then show "inv (take_outer_private s)" "balance pend (take_outer_private s) = balance pend s"
    "length (call_stack (take_outer_private s)) = length (call_stack s)"
    "srv_stopped (take_outer_private s) = srv_stopped s" by auto
qed

lemma stop_settled: "disciplined s \<Longrightarrow> ok s \<Longrightarrow> settled s (Inr n, service_stop irq s)"
  using frame_disciplined [of "service_stop irq s" s] frame_balance [of "service_stop irq s" s] by (simp add: settled_def)

lemma after_outer: "inv s \<Longrightarrow> kept (take_outer_private s) x \<Longrightarrow> kept s x"
  using take_outer_inv by (auto simp: kept_def)

lemma run_loop_kept:
  assumes "service_loop (do_run_one rn irq cp) n s = Some x" "inv s"
  shows "kept s x"
proof (rule service_loop_kept [OF assms])
  fix s x
  assume "do_run_one rn irq cp s = Some x" "inv s"
  then show "kept s x" by (rule do_run_one_kept)
qed

lemma poll_loop_kept:
  assumes "service_loop (do_poll_one rn irq cp) n s = Some x" "inv s"
  shows "kept s x"
proof (rule service_loop_kept [OF assms])
  fix s x
  assume "do_poll_one rn irq cp s = Some x" "inv s"
  then show "kept s x" by (rule do_poll_one_kept)
qed

lemma service_settled:
  assumes "disciplined s" "ok s"
  shows "service_run rn irq cp s = Some x \<Longrightarrow> settled s x"
    "service_run_one rn irq cp s = Some x \<Longrightarrow> settled s x"
    "service_poll rn irq cp s = Some x \<Longrightarrow> settled s x"
    "service_poll_one rn irq cp s = Some x \<Longrightarrow> settled s x"
proof -
  show "service_run rn irq cp s = Some x \<Longrightarrow> settled s x"
    using with_context_settled [OF _ assms run_loop_kept] stop_settled [OF assms, of 0]
    by (auto simp: service_run_def split: if_splits)
  show "service_run_one rn irq cp s = Some x \<Longrightarrow> settled s x"
    using with_context_settled [OF _ assms do_run_one_kept] stop_settled [OF assms, of 0]
    by (auto simp: service_run_one_def split: if_splits)
  have "service_loop (do_poll_one rn irq cp) 0 (take_outer_private s) = Some x \<Longrightarrow> inv s \<Longrightarrow> kept s x" for s x
    by (rule after_outer, assumption, rule poll_loop_kept, assumption, rule take_outer_inv)
  then show "service_poll rn irq cp s = Some x \<Longrightarrow> settled s x"
    using with_context_settled [OF _ assms, where body = "\<lambda>s. service_loop (do_poll_one rn irq cp) 0 (take_outer_private s)"]
      stop_settled [OF assms, of 0]
    by (auto simp: service_poll_def split: if_splits)
  have "do_poll_one rn irq cp (take_outer_private s) = Some x \<Longrightarrow> inv s \<Longrightarrow> kept s x" for s x
    by (rule after_outer, assumption, rule do_poll_one_kept, assumption, rule take_outer_inv)
  then show "service_poll_one rn irq cp s = Some x \<Longrightarrow> settled s x"
    using with_context_settled [OF _ assms, where body = "\<lambda>s. do_poll_one rn irq cp (take_outer_private s)"]
      stop_settled [OF assms, of 0]
    by (auto simp: service_poll_one_def split: if_splits)
qed

text \<open>\<open>run\<close> comes back only from a stopped service.\<close>

lemma do_run_one_zero: "do_run_one rn irq cp s = Some x \<Longrightarrow> fst x = Inr 0 \<Longrightarrow> srv_stopped (snd x)"
proof (induction rule: do_run_one_rule)
  case (step one s x)
  from step(2) show ?case
  proof (cases rule: round_cases)
    case (task p rest res)
    then show ?thesis using step(1,3) by (cases "fst res") auto
  next
    case (complete p rest r s')
    then show ?thesis using step(3) by (cases r) auto
  qed simp
qed

lemma run_loop_stopped: "service_loop (do_run_one rn irq cp) n s = Some x \<Longrightarrow> fst x = Inr m \<Longrightarrow> srv_stopped (snd x)"
proof (induction arbitrary: m rule: service_loop_rule)
  case (step loop n s x)
  obtain res where r: "do_run_one rn irq cp s = Some res"
    and x: "(case fst res of Inl e \<Rightarrow> Some (Inl e, snd res)
      | Inr k \<Rightarrow> if k = 0 then Some (Inr n, snd res) else loop (if n \<noteq> size_max then n + 1 else n) (snd res)) = Some x"
    using step(2) by (auto simp: Option.bind_eq_Some_conv)
  show ?case
    using x step(1) [OF _ step(3)] step(3) do_run_one_zero [OF r] by (cases "fst res") (auto split: if_splits)
qed

lemma service_run_stopped: "service_run rn irq cp s = Some (Inr n, s') \<Longrightarrow> srv_stopped s'"
  by (auto simp: service_run_def with_context_def dest!: run_loop_stopped split: if_splits)

end

section \<open>Services that nobody stops\<close>

text \<open>If no handler calls \<open>stop\<close>, the service stops itself, at the moment its work is done.\<close>

locale unstopped_loop = event_loop +
  assumes cp_runs: "cp p s = Some (r, s') \<Longrightarrow> disciplined s \<Longrightarrow> ok s \<Longrightarrow> srv_stopped s' = srv_stopped s"
    and pend_nonneg: "ok s \<Longrightarrow> 0 \<le> pend s"
begin

text \<open>A stopped service has no outstanding work.\<close>

definition idle_stop :: "('a, 'b) task_io_service_scheme \<Rightarrow> bool" where
  "idle_stop s \<longleftrightarrow> (srv_stopped s \<longrightarrow> outstanding_work s = 0)"

lemma complete_idle_stop:
  assumes "complete_op irq cp p s = Some (r, s')" "\<not> is_task p" "disciplined s" "ok s" "at_rest s" "\<not> srv_stopped s"
  shows "idle_stop s'"
proof -
  define s1 where "s1 = (if srv_queue s \<noteq> [] \<and> \<not> one_thread s then wake_one_thread irq s else s)"
  obtain s2 where s2: "cp p s1 = Some (r, s2)" "s' = work_cleanup irq s2"
    using assms(1) by (auto simp: complete_op_def s1_def Let_def)
  have f: "srv_queue s1 = srv_queue s" "call_stack s1 = call_stack s" "has_task s1 = has_task s" "ok s1" "srv_stopped s1 = srv_stopped s"
    using assms(4) by (simp_all add: s1_def wake_one_thread_def)
  have 1: "disciplined s1" "at_rest s1" using assms(3,5) frame_disciplined [OF f(1-3)] f(2) by (simp_all add: at_rest_def)
  note c = cp_law [OF s2(1) assms(2) 1(1) f(4) 1(2)]
  have n: "call_stack s2 \<noteq> []" using c f(2) assms(5) by (auto simp: at_rest_def)
  show ?thesis
    using work_cleanup_law(4,6) [OF _ _ n] c cp_runs [OF s2(1) 1(1) f(4)] f(5) assms(6) by (auto simp: idle_stop_def s2(2))
qed

lemma do_run_one_idle: "do_run_one rn irq cp s = Some x \<Longrightarrow> inv s \<Longrightarrow> idle_stop s \<Longrightarrow> idle_stop (snd x)"
proof (induction rule: do_run_one_rule)
  case (step one s x)
  from step(2) show ?case
  proof (cases rule: round_cases)
    case stopped
    then show ?thesis using step(4) by simp
  next
    case (task p rest res)
    have k: "kept s (fst res, snd res)" "\<not> srv_stopped (snd res)"
      using pop_run_task [OF step(3) task(2,3), of _ _ "fst res" "snd res"] task(1,4) by fastforce+
    then show ?thesis
      using task(5) step(1) [OF _ kept_inv [OF k(1)]] by (cases "fst res") (auto simp: idle_stop_def)
  next
    case (complete p rest r s')
    have "disciplined (s\<lparr>srv_queue := rest\<rparr>)" "ok s" "at_rest s"
      using pop_other [OF _ complete(2,3)] step(3) by (auto simp: inv_def)
    then show ?thesis using complete_idle_stop [OF complete(4,3)] complete(1,5) by (simp add: at_rest_def)
  qed
qed

lemma run_loop_idle:
  "service_loop (do_run_one rn irq cp) n s = Some x \<Longrightarrow> inv s \<Longrightarrow> idle_stop s \<Longrightarrow> idle_stop (snd x)"
proof (induction rule: service_loop_rule)
  case (step loop n s x)
  obtain res where r: "do_run_one rn irq cp s = Some res"
    and x: "(case fst res of Inl e \<Rightarrow> Some (Inl e, snd res)
      | Inr k \<Rightarrow> if k = 0 then Some (Inr n, snd res) else loop (if n \<noteq> size_max then n + 1 else n) (snd res)) = Some x"
    using step(2) by (auto simp: Option.bind_eq_Some_conv)
  have "inv (snd res)" "idle_stop (snd res)"
    using do_run_one_kept [OF r step(3)] do_run_one_idle [OF r step(3,4)] by (auto simp: kept_def)
  then show ?case using x step(1) by (cases "fst res") (auto split: if_splits)
qed

text \<open>So a run that returns at the top level has done everything: nothing is queued and nothing waits in the task.\<close>

lemma run_completes:
  assumes "service_run rn irq cp s = Some (Inr n, s')" "disciplined s" "ok s" "call_stack s = []" "balance pend s = 0"
    "\<not> srv_stopped s"
  shows "srv_stopped s'" "outstanding_work s' = 0" "pend s' = 0" "list_all (\<lambda>p. \<not> user_op p) (srv_queue s')"
proof -
  note t = service_settled(1) [OF assms(2,3,1)]
  have c: "call_stack s' = []" using t assms(4) by (simp add: settled_def)
  show st: "srv_stopped s'" by (rule service_run_stopped [OF assms(1)])
  show o: "outstanding_work s' = 0"
  proof (cases "outstanding_work s = 0")
    case True
    then show ?thesis using assms(1) by (auto simp: service_run_def)
  next
    case False
    then obtain s1 where l: "service_loop (do_run_one rn irq cp) 0 (s\<lparr>call_stack := \<lparr>private_queue = [], private_work = 0\<rparr> # call_stack s\<rparr>)
        = Some (Inr n, s1)" and s': "s' = s1\<lparr>call_stack := tl (call_stack s1)\<rparr>"
      using assms(1) by (auto simp: service_run_def with_context_def)
    have "idle_stop s1"
      using run_loop_idle [OF l enter_inv(1) [OF assms(2,3)]] assms(6) by (simp add: idle_stop_def)
    then show ?thesis using st by (simp add: idle_stop_def s')
  qed
  have "count_ops (srv_queue s') + pend s' = 0"
    using t o c assms(4,5) by (simp add: settled_def balance_def)
  moreover have "0 \<le> pend s'" using pend_nonneg t by (simp add: settled_def)
  ultimately have "pend s' = 0 \<and> count_ops (srv_queue s') = 0" using count_ops_nonneg [of "srv_queue s'"] by linarith
  then show "pend s' = 0" "list_all (\<lambda>p. \<not> user_op p) (srv_queue s')" by simp_all
qed

end

end
