(* ===== verification/TimerOrder.thy ===== *)
theory TimerOrder imports TimerQueue begin

text \<open>
  Why the queue of timers works: the heap stays ordered and its back indices exact, the linked list stays
  well formed, enqueueing and cancelling refine a multiset of expiry times, the ready timers leave in the
  order of their expiry, and the service never sleeps past one.
\<close>

section \<open>The heap\<close>

definition heap_order :: "heap_entry list \<Rightarrow> bool" where
  "heap_order h \<longleftrightarrow> (\<forall>i. 0 < i \<longrightarrow> i < length h \<longrightarrow> fst (h ! parent i) \<le> fst (h ! i))"

definition index_ok :: "timer_queue \<Rightarrow> bool" where
  "index_ok q \<longleftrightarrow> (\<forall>i < length (heap q). heap_index (data q (snd (heap q ! i))) = i)"

text \<open>What moving entries about the heap leaves as it is.\<close>

definition reorder :: "timer_queue \<Rightarrow> timer_queue \<Rightarrow> bool" where
  "reorder q q' \<longleftrightarrow> mset (heap q') = mset (heap q) \<and> (index_ok q \<longrightarrow> index_ok q') \<and> timers q' = timers q
     \<and> (\<forall>t. op_queue (data q' t) = op_queue (data q t) \<and> next_timer (data q' t) = next_timer (data q t)
          \<and> prev_timer (data q' t) = prev_timer (data q t)
          \<and> (t \<notin> snd ` set (heap q) \<longrightarrow> heap_index (data q' t) = heap_index (data q t)))"

lemma reorder_refl [simp]: "reorder q q"
  by (simp add: reorder_def)

lemma reorder_trans: "reorder q r \<Longrightarrow> reorder r s \<Longrightarrow> reorder q s"
  unfolding reorder_def by (metis mset_eq_setD)

lemma heap_swap: "heap (swap_heap i j q) = (heap q)[i := heap q ! j, j := heap q ! i]"
  by (simp add: swap_heap_def upd_data_def Let_def)

lemma index_ok_inj: "index_ok q \<Longrightarrow> i < length (heap q) \<Longrightarrow> j < length (heap q) \<Longrightarrow> snd (heap q ! i) = snd (heap q ! j) \<Longrightarrow> i = j"
  unfolding index_ok_def by metis

lemma reorder_swap:
  assumes "i < length (heap q)" "j < length (heap q)" "i \<noteq> j"
  shows "reorder q (swap_heap i j q)"
proof -
  have "mset (heap (swap_heap i j q)) = mset (heap q)"
    unfolding heap_swap list_update_swap [OF assms(3)] by (rule mset_swap [OF assms(1,2)])
  moreover have "index_ok (swap_heap i j q)" if "index_ok q"
    unfolding index_ok_def
  proof (intro allI impI)
    fix k assume "k < length (heap (swap_heap i j q))"
    then have k: "k < length (heap q)" by simp
    note inj = index_ok_inj [OF that]
    show "heap_index (data (swap_heap i j q) (snd (heap (swap_heap i j q) ! k))) = k"
      using assms k inj [of i k] inj [of j k] inj [of i j] that
      by (cases "k = i"; cases "k = j") (auto simp: swap_heap_def upd_data_def Let_def nth_list_update index_ok_def)
  qed
  ultimately show ?thesis
    using assms by (auto simp: reorder_def swap_heap_def upd_data_def Let_def nth_list_update)
qed

lemma parent_less: "0 < i \<Longrightarrow> parent i < i"
  by (simp add: parent_def)

lemma parent_child: "parent c = i \<Longrightarrow> 0 < c \<Longrightarrow> c = 2 * i + 1 \<or> c = 2 * i + 2"
  by (auto simp: parent_def)

lemma key_swap:
  assumes "i < length h" "j < length h"
  shows "fst (h[i := h ! j, j := h ! i] ! k) = (if k = j then fst (h ! i) else if k = i then fst (h ! j) else fst (h ! k))"
  using assms by (auto simp: nth_list_update)

lemma up_heap_reorder: "index < length (heap q) \<Longrightarrow> reorder q (up_heap index q)"
proof (induction index q rule: up_heap.induct)
  case (1 index q)
  show ?case
  proof (cases "index > 0 \<and> less_at (heap q) index (parent index)")
    case True
    then have p: "parent index < index" by (simp add: parent_less)
    have "reorder q (swap_heap index (parent index) q)" using 1(2) p by (intro reorder_swap) simp_all
    moreover have "reorder (swap_heap index (parent index) q) (up_heap (parent index) (swap_heap index (parent index) q))"
      using 1(2) p by (intro 1(1) True) simp_all
    ultimately show ?thesis using True by (subst up_heap.simps) (simp add: reorder_trans)
  qed (subst up_heap.simps, auto)
qed

text \<open>Upwards: only the edge above the index may be out of order.\<close>

lemma up_heap_order:
  assumes "index < length (heap q)"
    "\<forall>j. 0 < j \<longrightarrow> j < length (heap q) \<longrightarrow> j \<noteq> index \<longrightarrow> fst (heap q ! parent j) \<le> fst (heap q ! j)"
    "\<forall>j. 0 < j \<longrightarrow> j < length (heap q) \<longrightarrow> parent j = index \<longrightarrow> 0 < index \<longrightarrow> fst (heap q ! parent index) \<le> fst (heap q ! j)"
  shows "heap_order (heap (up_heap index q))"
  using assms
proof (induction index q rule: up_heap.induct)
  case (1 index q)
  show ?case
  proof (cases "index > 0 \<and> less_at (heap q) index (parent index)")
    case True
    define p where "p = parent index"
    have p: "p < index" "fst (heap q ! index) < fst (heap q ! p)"
      using True parent_less by (auto simp: p_def less_at_def is_less_def)
    have pl: "p < length (heap q)" using p(1) 1(2) by simp
    note k = key_swap [OF 1(2) pl, folded heap_swap]
    have "heap_order (heap (up_heap p (swap_heap index p q)))"
      unfolding p_def
    proof (rule 1(1) [OF True]; fold p_def)
      show "p < length (heap (swap_heap index p q))" using pl by simp
      show "\<forall>j. 0 < j \<longrightarrow> j < length (heap (swap_heap index p q)) \<longrightarrow> j \<noteq> p \<longrightarrow>
        fst (heap (swap_heap index p q) ! parent j) \<le> fst (heap (swap_heap index p q) ! j)"
      proof (intro allI impI)
        fix j assume j: "0 < j" "j < length (heap (swap_heap index p q))" "j \<noteq> p"
        then have jl: "j < length (heap q)" by simp
        have pj: "parent j \<noteq> j" using parent_less [OF j(1)] by simp
        consider "j = index" | "j \<noteq> index" "parent j = index" | "j \<noteq> index" "parent j = p" | "j \<noteq> index" "parent j \<noteq> index" "parent j \<noteq> p"
          by blast
        then show "fst (heap (swap_heap index p q) ! parent j) \<le> fst (heap (swap_heap index p q) ! j)"
        proof cases
          case 3
          then have "fst (heap q ! p) \<le> fst (heap q ! j)" using "1.prems"(2) j(1) jl by auto
          then show ?thesis using 3 j(3) p unfolding k by simp
        next
          case 1
          then show ?thesis using p unfolding k by (simp add: p_def [symmetric])
        next
          case 2
          then have "fst (heap q ! p) \<le> fst (heap q ! j)" using "1.prems"(3) j(1) jl p(1) by (auto simp: p_def)
          then show ?thesis using 2 j(3) p unfolding k by simp
        next
          case 4
          then have "fst (heap q ! parent j) \<le> fst (heap q ! j)" using "1.prems"(2) j(1) jl by simp
          then show ?thesis using 4 j(3) unfolding k by simp
        qed
      qed
      show "\<forall>j. 0 < j \<longrightarrow> j < length (heap (swap_heap index p q)) \<longrightarrow> parent j = p \<longrightarrow> 0 < p \<longrightarrow>
        fst (heap (swap_heap index p q) ! parent p) \<le> fst (heap (swap_heap index p q) ! j)"
      proof (intro allI impI)
        fix j assume j: "0 < j" "j < length (heap (swap_heap index p q))" "parent j = p" "0 < p"
        then have jl: "j < length (heap q)" by simp
        have pp: "parent p < p" using j(4) by (rule parent_less)
        have a: "fst (heap q ! parent p) \<le> fst (heap q ! p)" using 1(3) j(4) pl p(1) by auto
        have b: "j \<noteq> index \<Longrightarrow> fst (heap q ! p) \<le> fst (heap q ! j)" using 1(3) j jl by auto
        have "j \<noteq> p" using parent_less [OF j(1)] j(3) by simp
        then show "fst (heap (swap_heap index p q) ! parent p) \<le> fst (heap (swap_heap index p q) ! j)"
          using a b pp p(1) unfolding k by auto
      qed
    qed
    then show ?thesis using True by (subst up_heap.simps) (simp add: p_def)
  next
    case False
    have "fst (heap q ! parent j) \<le> fst (heap q ! j)" if "0 < j" "j < length (heap q)" for j
      using 1(3) False that by (cases "j = index") (auto simp: less_at_def is_less_def)
    then show ?thesis using False by (subst up_heap.simps) (auto simp: heap_order_def)
  qed
qed


lemma min_child_bounds:
  assumes "index * 2 + 1 < length h"
  shows "index < min_child h (index * 2 + 1)" "min_child h (index * 2 + 1) < length h"
    "parent (min_child h (index * 2 + 1)) = index"
    "parent j = index \<Longrightarrow> 0 < j \<Longrightarrow> j < length h \<Longrightarrow> fst (h ! min_child h (index * 2 + 1)) \<le> fst (h ! j)"
proof -
  show "index < min_child h (index * 2 + 1)" "min_child h (index * 2 + 1) < length h"
    "parent (min_child h (index * 2 + 1)) = index"
    using assms by (auto simp: min_child_def parent_def)
  assume "parent j = index" "0 < j" "j < length h"
  then have "j = index * 2 + 1 \<or> j = index * 2 + 1 + 1" using parent_child [of j index] by auto
  then show "fst (h ! min_child h (index * 2 + 1)) \<le> fst (h ! j)"
    using \<open>j < length h\<close> unfolding min_child_def less_at_def is_less_def by (elim disjE) auto
qed

lemma down_heap_step:
  assumes "index * 2 + 1 < length (heap q)" "c = min_child (heap q) (index * 2 + 1)"
  shows "down_heap index q = (if less_at (heap q) index c then q else down_heap c (swap_heap index c q))"
  using assms by (subst down_heap.simps) (simp only: Let_def if_True)

lemma down_heap_leaf: "\<not> index * 2 + 1 < length (heap q) \<Longrightarrow> down_heap index q = q"
  by (subst down_heap.simps) (simp only: Let_def if_False)

lemma down_heap_reorder: "index < length (heap q) \<Longrightarrow> reorder q (down_heap index q)"
proof (induction index q rule: down_heap.induct)
  case (1 index q)
  define c where "c = min_child (heap q) (index * 2 + 1)"
  show ?case
  proof (cases "index * 2 + 1 < length (heap q)")
    case True
    note s = down_heap_step [OF True c_def]
    note c = min_child_bounds(1,2) [OF True, folded c_def]
    show ?thesis
    proof (cases "less_at (heap q) index c")
      case less: False
      have "reorder q (swap_heap index c q)" using 1(2) c by (intro reorder_swap) simp_all
      moreover have "reorder (swap_heap index c q) (down_heap c (swap_heap index c q))"
        by (rule "1.IH" [OF refl True c_def less]) (simp add: c)
      ultimately show ?thesis using less unfolding s by (simp add: reorder_trans)
    qed (simp add: s)
  qed (simp add: down_heap_leaf)
qed

text \<open>Downwards: only the edges below the index may be out of order.\<close>

lemma down_heap_order:
  assumes "index < length (heap q)"
    "\<forall>j. 0 < j \<longrightarrow> j < length (heap q) \<longrightarrow> parent j \<noteq> index \<longrightarrow> fst (heap q ! parent j) \<le> fst (heap q ! j)"
    "\<forall>j. 0 < j \<longrightarrow> j < length (heap q) \<longrightarrow> parent j = index \<longrightarrow> 0 < index \<longrightarrow> fst (heap q ! parent index) \<le> fst (heap q ! j)"
  shows "heap_order (heap (down_heap index q))"
  using assms
proof (induction index q rule: down_heap.induct)
  case (1 index q)
  define c where "c = min_child (heap q) (index * 2 + 1)"
  consider (move) "index * 2 + 1 < length (heap q)" "\<not> less_at (heap q) index c"
    | (stay) "index * 2 + 1 < length (heap q) \<longrightarrow> less_at (heap q) index c" by blast
  then show ?case
  proof cases
    case move
    note mc = min_child_bounds [OF move(1), folded c_def]
    have le: "fst (heap q ! c) \<le> fst (heap q ! index)" using move(2) by (simp add: less_at_def is_less_def)
    note k = key_swap [OF 1(2) mc(2), folded heap_swap]
    have "heap_order (heap (down_heap c (swap_heap index c q)))"
    proof (rule "1.IH" [OF refl move(1) c_def move(2)])
      show "c < length (heap (swap_heap index c q))" using mc(2) by simp
      show "\<forall>j. 0 < j \<longrightarrow> j < length (heap (swap_heap index c q)) \<longrightarrow> parent j \<noteq> c \<longrightarrow>
        fst (heap (swap_heap index c q) ! parent j) \<le> fst (heap (swap_heap index c q) ! j)"
      proof (intro allI impI)
        fix j assume j: "0 < j" "j < length (heap (swap_heap index c q))" "parent j \<noteq> c"
        then have jl: "j < length (heap q)" by simp
        have pj: "parent j < j" by (rule parent_less [OF j(1)])
        consider "j = c" | "j \<noteq> c" "parent j = index" | "j = index" | "j \<noteq> c" "j \<noteq> index" "parent j \<noteq> index" by blast
        then show "fst (heap (swap_heap index c q) ! parent j) \<le> fst (heap (swap_heap index c q) ! j)"
        proof cases
          case 1
          then show ?thesis using le mc(1,3) unfolding k by simp
        next
          case 2
          then have "fst (heap q ! c) \<le> fst (heap q ! j)" using mc(4) j(1) jl by simp
          then show ?thesis using 2 j(3) pj unfolding k by simp
        next
          case 3
          then have "fst (heap q ! parent index) \<le> fst (heap q ! c)" using "1.prems"(3) mc j(1) by simp
          then show ?thesis using 3 pj mc(1) unfolding k by simp
        next
          case 4
          then have "fst (heap q ! parent j) \<le> fst (heap q ! j)" using "1.prems"(2) j(1) jl by simp
          then show ?thesis using 4 j(3) unfolding k by simp
        qed
      qed
      show "\<forall>j. 0 < j \<longrightarrow> j < length (heap (swap_heap index c q)) \<longrightarrow> parent j = c \<longrightarrow> 0 < c \<longrightarrow>
        fst (heap (swap_heap index c q) ! parent c) \<le> fst (heap (swap_heap index c q) ! j)"
      proof (intro allI impI)
        fix j assume j: "0 < j" "j < length (heap (swap_heap index c q))" "parent j = c" "0 < c"
        then have jl: "j < length (heap q)" by simp
        have "c < j" using parent_less [OF j(1)] j(3) by simp
        moreover have "fst (heap q ! parent j) \<le> fst (heap q ! j)" using "1.prems"(2) [rule_format, of j] j jl mc(1) by auto
        ultimately show "fst (heap (swap_heap index c q) ! parent c) \<le> fst (heap (swap_heap index c q) ! j)"
          using mc(1,3) j(3) unfolding k by simp
      qed
    qed
    then show ?thesis using move(2) unfolding down_heap_step [OF move(1) c_def] by simp
  next
    case stay
    have "fst (heap q ! parent j) \<le> fst (heap q ! j)" if j: "0 < j" "j < length (heap q)" for j
    proof (cases "parent j = index")
      case True
      then have l: "index * 2 + 1 < length (heap q)" using parent_child [OF True j(1)] j(2) by auto
      then have "fst (heap q ! index) < fst (heap q ! c)" using stay by (simp add: less_at_def is_less_def)
      then show ?thesis using min_child_bounds(4) [OF l True j] True by (simp add: c_def)
    qed (use "1.prems"(2) that in simp)
    then have "heap_order (heap q)" by (simp add: heap_order_def)
    moreover have "down_heap index q = q"
      using stay down_heap_step [OF _ c_def] down_heap_leaf by (cases "index * 2 + 1 < length (heap q)") auto
    ultimately show ?thesis by simp
  qed
qed


text \<open>Removing an entry of the heap.\<close>

lemma mset_last: "xs \<noteq> [] \<Longrightarrow> mset xs = add_mset (last xs) (mset (butlast xs))"
  by (cases xs rule: rev_cases) simp_all

definition same_links :: "timer_queue \<Rightarrow> timer_queue \<Rightarrow> bool" where
  "same_links q q' \<longleftrightarrow> timers q' = timers q
     \<and> (\<forall>t. op_queue (data q' t) = op_queue (data q t) \<and> next_timer (data q' t) = next_timer (data q t)
          \<and> prev_timer (data q' t) = prev_timer (data q t)
          \<and> (t \<notin> snd ` set (heap q) \<longrightarrow> heap_index (data q' t) = heap_index (data q t)))"

lemma reorder_links: "reorder q q' \<Longrightarrow> same_links q q'"
  by (simp add: reorder_def same_links_def)

lemma remove_from_heap_spec:
  assumes "heap_order (heap q)" "index_ok q" "i < length (heap q)" "snd (heap q ! i) = t"
  shows "heap_order (heap (remove_from_heap t q)) \<and> index_ok (remove_from_heap t q)
    \<and> mset (heap q) = add_mset (heap q ! i) (mset (heap (remove_from_heap t q)))
    \<and> same_links q (remove_from_heap t q)"
proof -
  define n where "n = length (heap q)"
  have i: "heap_index (data q t) = i" using assms(2-4) by (auto simp: index_ok_def)
  have ne: "heap q \<noteq> []" using assms(3) by auto
  show ?thesis
  proof (cases "i = n - 1")
    case True
    then have r: "remove_from_heap t q = q\<lparr>heap := butlast (heap q)\<rparr>"
      using i ne assms(3) by (simp add: remove_from_heap_def n_def)
    have "heap q ! i = last (heap q)" using True ne by (simp add: last_conv_nth n_def)
    moreover have "heap_order (butlast (heap q))"
      unfolding heap_order_def
    proof (intro allI impI)
      fix j assume j: "0 < j" "j < length (butlast (heap q))"
      then have "j < length (heap q)" "parent j < length (butlast (heap q))" using parent_less [OF j(1)] by simp_all
      then show "fst (butlast (heap q) ! parent j) \<le> fst (butlast (heap q) ! j)"
        using assms(1) j by (simp add: heap_order_def nth_butlast)
    qed
    moreover have "index_ok (q\<lparr>heap := butlast (heap q)\<rparr>)" using assms(2) by (simp add: index_ok_def nth_butlast)
    ultimately show ?thesis using mset_last [OF ne] by (simp add: r same_links_def)
  next
    case False
    define q1 where "q1 = swap_heap i (n - 1) q"
    define q2 where "q2 = q1\<lparr>heap := butlast (heap q1)\<rparr>"
    have n: "i < n - 1" "n - 1 < length (heap q)" using False assms(3) by (simp_all add: n_def)
    have r1: "reorder q q1" unfolding q1_def using n assms(3) by (intro reorder_swap) simp_all
    have l1: "length (heap q1) = n" "length (heap q2) = n - 1" by (simp_all add: q1_def q2_def n_def)
    moreover have "heap q1 \<noteq> []" using l1(1) n by auto
    ultimately have l: "length (heap q1) = n" "length (heap q2) = n - 1" "heap q1 \<noteq> []" .
    have last: "last (heap q1) = heap q ! i"
      using n by (subst last_conv_nth [OF l(3)]) (simp add: l(1), simp add: q1_def heap_swap n_def)
    have ix: "index_ok q2" using r1 assms(2) by (simp add: reorder_def index_ok_def q2_def nth_butlast)
    have m2: "mset (heap q) = add_mset (heap q ! i) (mset (heap q2))"
      using r1 mset_last [OF l(3)] by (simp add: reorder_def last q2_def)
    have links: "same_links q q2" using r1 by (simp add: reorder_def same_links_def q2_def)
    have k: "fst (heap q2 ! j) = (if j = i then fst (heap q ! (n - 1)) else fst (heap q ! j))" if "j < n - 1" for j
    proof -
      have "heap q2 ! j = heap q1 ! j" using that l by (simp add: q2_def nth_butlast)
      then show ?thesis using that n assms(3) by (simp add: q1_def heap_swap key_swap)
    qed
    have ord: "fst (heap q ! parent j) \<le> fst (heap q ! j)" if "0 < j" "j < n" for j
      using assms(1) that by (simp add: heap_order_def n_def)
    have away: "fst (heap q2 ! parent j) \<le> fst (heap q2 ! j)" if "0 < j" "j < n - 1" "j \<noteq> i" "parent j \<noteq> i" for j
      using ord [of j] parent_less [of j] that by (simp add: k)
    have below: "fst (heap q2 ! parent i) \<le> fst (heap q2 ! j)" if "0 < j" "j < n - 1" "parent j = i" "0 < i" for j
    proof -
      have "parent i < i" "j \<noteq> i" using parent_less [OF that(4)] parent_less [OF that(1)] that(3) by auto
      moreover have "fst (heap q ! i) \<le> fst (heap q ! j)" "fst (heap q ! parent i) \<le> fst (heap q ! i)"
        using ord [of j] ord [of i] that n by auto
      ultimately show ?thesis using that n by (simp add: k)
    qed
    have rm: "remove_from_heap t q = (if i > 0 \<and> less_at (heap q2) i (parent i) then up_heap i q2 else down_heap i q2)"
      using False i ne assms(3) by (simp add: remove_from_heap_def n_def q1_def q2_def Let_def)
    have il: "i < length (heap q2)" using l n by simp
    have "heap_order (heap (remove_from_heap t q)) \<and> reorder q2 (remove_from_heap t q)"
    proof (cases "i > 0 \<and> less_at (heap q2) i (parent i)")
      case True
      then have lt: "0 < i" "fst (heap q2 ! i) < fst (heap q2 ! parent i)" by (simp_all add: less_at_def is_less_def)
      have "fst (heap q2 ! parent j) \<le> fst (heap q2 ! j)" if "0 < j" "j < n - 1" "j \<noteq> i" for j
      proof (cases "parent j = i")
        case True
        then show ?thesis using below [OF that(1,2) True lt(1)] lt(2) by simp
      qed (rule away [OF that])
      then have "heap_order (heap (up_heap i q2))"
        using below l by (intro up_heap_order [OF il]) auto
      then show ?thesis using up_heap_reorder [OF il] rm True by simp
    next
      case False
      then have ge: "0 < i \<Longrightarrow> fst (heap q2 ! parent i) \<le> fst (heap q2 ! i)" by (auto simp: less_at_def is_less_def)
      have "fst (heap q2 ! parent j) \<le> fst (heap q2 ! j)" if "0 < j" "j < n - 1" "parent j \<noteq> i" for j
      proof (cases "j = i")
        case True
        then show ?thesis using ge that(1) by simp
      qed (rule away [OF that(1,2) _ that(3)])
      then have "heap_order (heap (down_heap i q2))"
        using below l by (intro down_heap_order [OF il]) auto
      then show ?thesis using down_heap_reorder [OF il] rm False by simp
    qed
    moreover have "set (heap q2) \<subseteq> set (heap q)" using m2 by (metis set_mset_mset set_mset_add_mset_insert subset_insertI)
    then have sub: "u \<notin> snd ` set (heap q) \<Longrightarrow> u \<notin> snd ` set (heap q2)" for u by blast
    ultimately show ?thesis using m2 ix links unfolding reorder_def same_links_def by (simp add: sub)
  qed
qed


section \<open>The list of active timers\<close>

text \<open>A stretch of the list between the timers \<open>p\<close> and \<open>n\<close>, and the whole list.\<close>

fun dseg :: "(timer \<Rightarrow> per_timer_data) \<Rightarrow> timer option \<Rightarrow> timer list \<Rightarrow> timer option \<Rightarrow> bool" where
  "dseg d p [] n = True"
| "dseg d p (x # xs) n =
     (prev_timer (d x) = p \<and> next_timer (d x) = (if xs = [] then n else Some (hd xs)) \<and> dseg d (Some x) xs n)"

definition dlist :: "timer_queue \<Rightarrow> timer list \<Rightarrow> bool" where
  "dlist q xs \<longleftrightarrow> distinct xs \<and> timers q = (if xs = [] then None else Some (hd xs)) \<and> dseg (data q) None xs None
     \<and> (\<forall>t. t \<notin> set xs \<longrightarrow> next_timer (data q t) = None \<and> prev_timer (data q t) = None)"

lemma dseg_append:
  "dseg d p (xs @ ys) n \<longleftrightarrow> dseg d p xs (if ys = [] then n else Some (hd ys)) \<and> dseg d (if xs = [] then p else Some (last xs)) ys n"
  by (induction xs arbitrary: p) (auto simp: hd_append)

lemma dseg_frame:
  "(\<And>x. x \<in> set xs \<Longrightarrow> prev_timer (d' x) = prev_timer (d x) \<and> next_timer (d' x) = next_timer (d x)) \<Longrightarrow>
   dseg d' p xs n = dseg d p xs n"
  by (induction xs arbitrary: p) auto

lemma dseg_upd_other [simp]: "t \<notin> set xs \<Longrightarrow> dseg (d(t := v)) p xs n = dseg d p xs n"
  by (rule dseg_frame) auto

lemma dseg_prev: "dseg d p xs n \<Longrightarrow> x \<in> set xs \<Longrightarrow> x \<noteq> hd xs \<Longrightarrow> prev_timer (d x) \<noteq> None"
proof (induction xs arbitrary: p)
  case (Cons y ys)
  then have x: "x \<in> set ys" and s: "dseg d (Some y) ys n" by auto
  show ?case
  proof (cases "x = hd ys")
    case True
    then show ?thesis using s x by (cases ys) auto
  qed (use Cons.IH s x in blast)
qed simp

lemma active_iff: "dlist q xs \<Longrightarrow> active q t \<longleftrightarrow> t \<in> set xs"
  using dseg_prev [of "data q" None xs None t] by (auto simp: dlist_def active_def split: if_splits)

lemma dlist_links:
  assumes "dlist q xs" "same_links q q'"
  shows "dlist q' xs"
  using assms dseg_frame [of xs "data q'" "data q" None None] by (simp add: dlist_def same_links_def)

lemma unlink_timer_list:
  assumes "dlist q (as @ t # bs)"
  shows "dlist (unlink_timer t q) (as @ bs)"
proof -
  have d: "distinct (as @ t # bs)" and tm: "timers q = Some (hd (as @ t # bs))"
    and s: "dseg (data q) None as (Some t)" "dseg (data q) (if as = [] then None else Some (last as)) (t # bs) None"
    and o: "\<forall>u. u \<notin> set (as @ t # bs) \<longrightarrow> next_timer (data q u) = None \<and> prev_timer (data q u) = None"
    using assms by (auto simp: dlist_def dseg_append)
  have pt: "prev_timer (data q t) = (if as = [] then None else Some (last as))"
    and nt: "next_timer (data q t) = (if bs = [] then None else Some (hd bs))"
    and sb: "dseg (data q) (Some t) bs None" using s(2) by simp_all
  show ?thesis
  proof (cases as rule: rev_cases)
    case Nil
    show ?thesis
    proof (cases bs)
      case Nil
      then show ?thesis using \<open>as = []\<close> o tm pt nt by (simp add: unlink_timer_def Let_def upd_data_def dlist_def)
    next
      case (Cons b bs')
      then have "b \<noteq> t" "b \<notin> set bs'" "t \<notin> set bs'" using d by auto
      then show ?thesis using \<open>as = []\<close> Cons o tm pt nt sb d
        by (simp add: unlink_timer_def Let_def upd_data_def dlist_def)
    qed
  next
    case (snoc as' l)
    have tl: "timers q \<noteq> Some t" using tm d snoc by (cases as') auto
    have sa: "dseg (data q) None as' (Some l)" "prev_timer (data q l) = (if as' = [] then None else Some (last as'))"
      using s(1) snoc by (auto simp: dseg_append)
    have hd: "hd (as' @ l # ys) = hd (as' @ l # zs)" for ys zs by (cases as') simp_all
    show ?thesis
    proof (cases bs)
      case Nil
      have "l \<noteq> t" "l \<notin> set as'" "t \<notin> set as'" using d snoc by auto
      then show ?thesis using snoc Nil o tm tl pt nt sa d hd [of "[t]" "[]"]
        by (simp add: unlink_timer_def Let_def upd_data_def dlist_def dseg_append)
    next
      case (Cons b bs')
      have n: "l \<noteq> t" "l \<notin> set as'" "t \<notin> set as'" "b \<noteq> t" "b \<notin> set bs'" "t \<notin> set bs'" "b \<noteq> l" "b \<notin> set as'" "l \<notin> set bs'"
        using d snoc Cons by auto
      then show ?thesis using snoc Cons o tm tl pt nt sa sb d hd [of "t # b # bs'" "b # bs'"]
        by (simp add: unlink_timer_def Let_def upd_data_def dlist_def dseg_append)
    qed
  qed
qed


section \<open>The invariant\<close>

text \<open>
  The heap is ordered and indexed, the list holds the active timers, and an active timer that is not in
  the heap (one that never expires) has the index no heap reaches.
\<close>

definition tq_inv :: "timer_queue \<Rightarrow> bool" where
  "tq_inv q \<longleftrightarrow> heap_order (heap q) \<and> index_ok q \<and> length (heap q) < size_max
     \<and> (\<exists>xs. dlist q xs \<and> snd ` set (heap q) \<subseteq> set xs
          \<and> (\<forall>t \<in> set xs. t \<notin> snd ` set (heap q) \<longrightarrow> heap_index (data q t) = size_max))"

lemma tq_inv_new: "(\<forall>t. next_timer (m t) = None \<and> prev_timer (m t) = None) \<Longrightarrow> tq_inv (timer_queue_new m)"
  by (auto simp: tq_inv_def timer_queue_new_def heap_order_def index_ok_def dlist_def size_max_def intro!: exI [of _ "[]"])

lemma index_ok_distinct: "index_ok q \<Longrightarrow> distinct (map snd (heap q))"
  unfolding distinct_conv_nth by (auto dest: index_ok_inj)

lemma tq_inv_active:
  assumes "tq_inv q" "e \<in># mset (heap q)"
  shows "active q (snd e)"
  using assms active_iff unfolding tq_inv_def by (auto dest!: subsetD)

lemma tq_inv_ops:
  assumes "tq_inv q"
  shows "tq_inv (upd_data t (\<lambda>d. d\<lparr>op_queue := f d\<rparr>) q)"
proof -
  have s: "dlist q xs \<Longrightarrow> dlist (upd_data t (\<lambda>d. d\<lparr>op_queue := f d\<rparr>) q) xs" for xs
    using dseg_frame [of xs "data (upd_data t (\<lambda>d. d\<lparr>op_queue := f d\<rparr>) q)" "data q" None None]
    by (simp add: dlist_def upd_data_def)
  show ?thesis
    using assms s by (simp add: tq_inv_def index_ok_def upd_data_def) (metis (no_types, lifting))
qed

lemma heap_unlink [simp]: "heap (unlink_timer t q) = heap q"
  by (simp add: unlink_timer_def upd_data_def Let_def split: option.split)

lemma data_unlink [simp]:
  "op_queue (data (unlink_timer t q) u) = op_queue (data q u)" "heap_index (data (unlink_timer t q) u) = heap_index (data q u)"
  by (simp_all add: unlink_timer_def upd_data_def Let_def split: option.split)

lemma remove_timer_spec:
  assumes "tq_inv q" "active q t"
  shows "tq_inv (remove_timer t q)" "mset (heap (remove_timer t q)) = filter_mset (\<lambda>e. snd e \<noteq> t) (mset (heap q))"
    "active (remove_timer t q) u \<longleftrightarrow> active q u \<and> u \<noteq> t" "op_queue (data (remove_timer t q) u) = op_queue (data q u)"
proof -
  obtain xs where inv: "heap_order (heap q)" "index_ok q" "length (heap q) < size_max" "dlist q xs"
      "snd ` set (heap q) \<subseteq> set xs" "\<forall>t \<in> set xs. t \<notin> snd ` set (heap q) \<longrightarrow> heap_index (data q t) = size_max"
    using assms(1) unfolding tq_inv_def by (elim conjE exE) blast
  have "t \<in> set xs" using assms(2) active_iff [OF inv(4)] by simp
  then obtain as bs where xs: "xs = as @ t # bs" by (auto dest: split_list)
  define r where "r = remove_from_heap t q"
  have r: "heap_order (heap r) \<and> index_ok r \<and> length (heap r) \<le> length (heap q) \<and> same_links q r
      \<and> mset (heap r) = filter_mset (\<lambda>e. snd e \<noteq> t) (mset (heap q))"
  proof (cases "t \<in> snd ` set (heap q)")
    case True
    then obtain i where i: "i < length (heap q)" "snd (heap q ! i) = t" by (auto simp: in_set_conv_nth)
    note sp = remove_from_heap_spec [OF inv(1,2) i, folded r_def]
    then have m: "mset (heap q) = add_mset (heap q ! i) (mset (heap r))" by blast
    have "count (image_mset snd (mset (heap q))) t \<le> 1"
      using index_ok_distinct [OF inv(2)] unfolding distinct_count_atmost_1 mset_map by simp
    then have "count (image_mset snd (mset (heap r))) t = 0" unfolding m by (simp add: i(2))
    then have "t \<notin># image_mset snd (mset (heap r))" by (simp only: not_in_iff)
    then have "filter_mset (\<lambda>e. snd e \<noteq> t) (mset (heap r)) = mset (heap r)"
      by (intro filter_mset_eq_conv [THEN iffD2]) (auto simp: i(2))
    moreover have "length (heap r) \<le> length (heap q)" using m by (metis add_mset_remove_trivial size_add_mset size_mset le_SucI order_refl)
    ultimately show ?thesis using sp m i(2) by simp
  next
    case False
    then have "heap_index (data q t) = size_max" using inv(6) \<open>t \<in> set xs\<close> by blast
    then have "r = q" using inv(3) by (simp add: r_def remove_from_heap_def)
    moreover have "filter_mset (\<lambda>e. snd e \<noteq> t) (mset (heap q)) = mset (heap q)"
      using False by (intro filter_mset_eq_conv [THEN iffD2]) auto
    ultimately show ?thesis using inv by (simp add: same_links_def)
  qed
  have dl: "dlist (remove_timer t q) (as @ bs)"
    unfolding remove_timer_def r_def [symmetric]
    by (rule unlink_timer_list) (use dlist_links [OF inv(4)] r xs in blast)
  have sub: "snd ` set (heap r) = snd ` set (heap q) - {t}"
  proof -
    have "set (heap r) = {e \<in> set (heap q). snd e \<noteq> t}" using r by (metis set_mset_filter set_mset_mset)
    then show ?thesis by auto
  qed
  have d: "distinct (as @ t # bs)" using inv(4) xs by (simp add: dlist_def)
  have ix: "\<forall>u \<in> set (as @ bs). u \<notin> snd ` set (heap r) \<longrightarrow> heap_index (data (remove_timer t q) u) = size_max"
  proof (intro ballI impI)
    fix u assume u: "u \<in> set (as @ bs)" "u \<notin> snd ` set (heap r)"
    then have "u \<noteq> t" "u \<in> set xs" using d xs by auto
    then have "u \<notin> snd ` set (heap q)" using u(2) sub by blast
    then show "heap_index (data (remove_timer t q) u) = size_max"
      using r inv(6) \<open>u \<in> set xs\<close> by (simp add: remove_timer_def same_links_def r_def)
  qed
  have subs: "snd ` set (heap r) \<subseteq> set (as @ bs)" using sub inv(5) xs by auto
  show "tq_inv (remove_timer t q)"
    unfolding tq_inv_def
  proof (intro conjI exI [of _ "as @ bs"])
    show "heap_order (heap (remove_timer t q))" "length (heap (remove_timer t q)) < size_max"
      using r inv(3) by (simp_all add: remove_timer_def r_def)
    show "index_ok (remove_timer t q)" using r by (simp add: index_ok_def remove_timer_def r_def)
  qed (use dl ix subs in \<open>simp_all add: remove_timer_def r_def\<close>)
  show "mset (heap (remove_timer t q)) = filter_mset (\<lambda>e. snd e \<noteq> t) (mset (heap q))"
    using r by (simp add: remove_timer_def r_def)
  show "active (remove_timer t q) u \<longleftrightarrow> active q u \<and> u \<noteq> t"
    using active_iff [OF dl] active_iff [OF inv(4)] d xs by auto
  show "op_queue (data (remove_timer t q) u) = op_queue (data q u)"
    using r by (simp add: remove_timer_def same_links_def r_def)
qed

lemma heap_link [simp]: "heap (link_timer t q) = heap q"
  by (simp add: link_timer_def upd_data_def Let_def split: option.split)

lemma data_link [simp]:
  "op_queue (data (link_timer t q) u) = op_queue (data q u)" "heap_index (data (link_timer t q) u) = heap_index (data q u)"
  by (simp_all add: link_timer_def upd_data_def Let_def split: option.split)

lemma link_timer_list:
  assumes "dlist q xs" "t \<notin> set xs"
  shows "dlist (link_timer t q) (t # xs)"
proof (cases xs)
  case (Cons x ys)
  then have "x \<noteq> t" "x \<notin> set ys" "t \<notin> set ys" using assms by (auto simp: dlist_def)
  then show ?thesis using assms Cons by (simp add: dlist_def link_timer_def upd_data_def Let_def)
qed (use assms in \<open>simp add: dlist_def link_timer_def upd_data_def Let_def\<close>)


lemma enqueue_heap_spec:
  assumes "heap_order (heap q)" "index_ok q" "t \<notin> snd ` set (heap q)"
  shows "heap_order (heap (enqueue_heap time t q)) \<and> index_ok (enqueue_heap time t q)
    \<and> mset (heap (enqueue_heap time t q)) = add_mset (time, t) (mset (heap q))
    \<and> timers (enqueue_heap time t q) = timers q
    \<and> (\<forall>u. op_queue (data (enqueue_heap time t q) u) = op_queue (data q u)
         \<and> next_timer (data (enqueue_heap time t q) u) = next_timer (data q u)
         \<and> prev_timer (data (enqueue_heap time t q) u) = prev_timer (data q u)
         \<and> (u \<notin> snd ` set (heap q) \<longrightarrow> u \<noteq> t \<longrightarrow> heap_index (data (enqueue_heap time t q) u) = heap_index (data q u)))"
proof -
  define n where "n = length (heap q)"
  define q2 where "q2 = (upd_data t (heap_index_update (\<lambda>_. n)) q)\<lparr>heap := heap q @ [(time, t)]\<rparr>"
  have e: "enqueue_heap time t q = up_heap n q2"
    by (simp add: enqueue_heap_def is_positive_infinity_def q2_def n_def upd_data_def Let_def)
  have h: "heap q2 = heap q @ [(time, t)]" "n < length (heap q2)" by (simp_all add: q2_def n_def)
  have "index_ok q2"
    using assms(2,3) by (auto simp: index_ok_def q2_def upd_data_def n_def nth_append less_Suc_eq)
  moreover have "heap_order (heap (up_heap n q2))"
  proof (rule up_heap_order [OF h(2)])
    show "\<forall>j. 0 < j \<longrightarrow> j < length (heap q2) \<longrightarrow> j \<noteq> n \<longrightarrow> fst (heap q2 ! parent j) \<le> fst (heap q2 ! j)"
    proof (intro allI impI)
      fix j assume j: "0 < j" "j < length (heap q2)" "j \<noteq> n"
      then have "j < length (heap q)" "parent j < length (heap q)" using parent_less [OF j(1)] by (simp_all add: h n_def)
      then show "fst (heap q2 ! parent j) \<le> fst (heap q2 ! j)" using assms(1) j(1) by (simp add: heap_order_def h nth_append)
    qed
    show "\<forall>j. 0 < j \<longrightarrow> j < length (heap q2) \<longrightarrow> parent j = n \<longrightarrow> 0 < n \<longrightarrow> fst (heap q2 ! parent n) \<le> fst (heap q2 ! j)"
    proof (intro allI impI)
      fix j assume j: "0 < j" "j < length (heap q2)" "parent j = n"
      then show "fst (heap q2 ! parent n) \<le> fst (heap q2 ! j)" using parent_less [OF j(1)] by (simp add: h n_def)
    qed
  qed
  moreover have "reorder q2 (up_heap n q2)" by (rule up_heap_reorder [OF h(2)])
  ultimately show ?thesis unfolding e reorder_def by (auto simp: q2_def upd_data_def)
qed

lemma enqueue_timer_spec:
  assumes "tq_inv q" "length (heap q) + 1 < size_max" "enqueue_timer time t op q = (b, q')"
  shows "tq_inv q'"
    "mset (heap q') = (if active q t then mset (heap q) else add_mset (time, t) (mset (heap q)))"
    "active q' u \<longleftrightarrow> active q u \<or> u = t"
    "op_queue (data q' u) = (if u = t then op_queue (data q u) @ [op] else op_queue (data q u))"
    "b \<longleftrightarrow> heap_index (data q' t) = 0 \<and> op_id (hd (op_queue (data q t) @ [op])) = op_id op"
proof -
  define q1 where "q1 = (if \<not> active q t then link_timer t (enqueue_heap time t q) else q)"
  have q': "q' = upd_data t (\<lambda>d. d\<lparr>op_queue := op_queue d @ [op]\<rparr>) q1"
    and b: "b \<longleftrightarrow> heap_index (data q' t) = 0 \<and> op_id (hd (op_queue (data q' t))) = op_id op"
    using assms(3) by (auto simp: enqueue_timer_def q1_def Let_def upd_data_def)
  obtain xs where inv: "heap_order (heap q)" "index_ok q" "length (heap q) < size_max" "dlist q xs"
      "snd ` set (heap q) \<subseteq> set xs" "\<forall>t \<in> set xs. t \<notin> snd ` set (heap q) \<longrightarrow> heap_index (data q t) = size_max"
    using assms(1) unfolding tq_inv_def by (elim conjE exE) blast
  have "tq_inv q1 \<and> mset (heap q1) = (if active q t then mset (heap q) else add_mset (time, t) (mset (heap q)))
    \<and> (\<forall>u. active q1 u \<longleftrightarrow> active q u \<or> u = t) \<and> (\<forall>u. op_queue (data q1 u) = op_queue (data q u))"
  proof (cases "active q t")
    case True
    then show ?thesis using assms(1) by (auto simp: q1_def)
  next
    case False
    define r where "r = enqueue_heap time t q"
    have t: "t \<notin> set xs" "t \<notin> snd ` set (heap q)" using False active_iff [OF inv(4)] inv(5) by auto
    have r: "heap_order (heap r) \<and> index_ok r \<and> timers r = timers q
      \<and> mset (heap r) = add_mset (time, t) (mset (heap q))
      \<and> (\<forall>u. op_queue (data r u) = op_queue (data q u) \<and> next_timer (data r u) = next_timer (data q u)
           \<and> prev_timer (data r u) = prev_timer (data q u)
           \<and> (u \<notin> snd ` set (heap q) \<longrightarrow> u \<noteq> t \<longrightarrow> heap_index (data r u) = heap_index (data q u)))"
      using enqueue_heap_spec [OF inv(1,2) t(2)] by (simp add: r_def)
    have set_r: "set (heap r) = insert (time, t) (set (heap q))"
      using r by (metis set_mset_mset set_mset_add_mset_insert)
    have len: "length (heap r) < size_max"
      using r assms(2) inv(3) by (metis Suc_eq_plus1 size_add_mset size_mset)
    have "dlist r xs" using inv(4) r dseg_frame [of xs "data r" "data q" None None] by (simp add: dlist_def)
    then have dl: "dlist (link_timer t r) (t # xs)" using t(1) by (rule link_timer_list)
    have q1: "q1 = link_timer t r" using False by (simp add: q1_def r_def)
    have "tq_inv q1"
      unfolding tq_inv_def
    proof (intro conjI exI [of _ "t # xs"])
      show "heap_order (heap q1)" "index_ok q1" "length (heap q1) < size_max" "dlist q1 (t # xs)"
        using r len dl by (simp_all add: q1 index_ok_def)
      show "snd ` set (heap q1) \<subseteq> set (t # xs)" using inv(5) set_r by (auto simp: q1 split: if_splits)
      show "\<forall>u \<in> set (t # xs). u \<notin> snd ` set (heap q1) \<longrightarrow> heap_index (data q1 u) = size_max"
      proof (intro ballI impI)
        fix u assume u: "u \<in> set (t # xs)" "u \<notin> snd ` set (heap q1)"
        then have "u \<notin> snd ` set (heap q)" "u \<noteq> t" using set_r by (auto simp: q1 split: if_splits)
        then show "heap_index (data q1 u) = size_max" using u(1) r inv(6) by (auto simp: q1)
      qed
    qed
    moreover have "active q1 u \<longleftrightarrow> active q u \<or> u = t" for u
      using active_iff [OF dl] active_iff [OF inv(4)] by (auto simp: q1)
    ultimately show ?thesis using r False by (simp add: q1)
  qed
  then show "tq_inv q'"
    "mset (heap q') = (if active q t then mset (heap q) else add_mset (time, t) (mset (heap q)))"
    "active q' u \<longleftrightarrow> active q u \<or> u = t"
    "op_queue (data q' u) = (if u = t then op_queue (data q u) @ [op] else op_queue (data q u))"
    "b \<longleftrightarrow> heap_index (data q' t) = 0 \<and> op_id (hd (op_queue (data q t) @ [op])) = op_id op"
    using tq_inv_ops [of q1 t "\<lambda>d. op_queue d @ [op]"] b by (simp_all add: q') (simp_all add: upd_data_def active_def)
qed


lemma heap_least: "heap_order h \<Longrightarrow> i < length h \<Longrightarrow> fst (h ! 0) \<le> fst (h ! i)"
proof (induction i rule: less_induct)
  case (less i)
  show ?case
  proof (cases "i = 0")
    case False
    then have "parent i < i" by (simp add: parent_less)
    then have "fst (h ! 0) \<le> fst (h ! parent i)" using less by simp
    also have "\<dots> \<le> fst (h ! i)" using less(2,3) False by (simp add: heap_order_def)
    finally show ?thesis .
  qed simp
qed

section \<open>Queues that hand out their entries in order\<close>

text \<open>
  What the loops over ready timers need of a queue: its first entry is a least one, and popping removes
  exactly that. The lemmas split the entries that are due from the others along the loop.
\<close>

locale ordered_queue =
  fixes invar :: "'q \<Rightarrow> bool"
    and entries :: "'q \<Rightarrow> (int \<times> nat) multiset"
    and first_entry :: "'q \<Rightarrow> int \<times> nat"
    and pop :: "'q \<Rightarrow> 'q"
  assumes first_in: "invar q \<Longrightarrow> entries q \<noteq> {#} \<Longrightarrow> first_entry q \<in># entries q"
    and first_least: "invar q \<Longrightarrow> e \<in># entries q \<Longrightarrow> fst (first_entry q) \<le> fst e"
    and pop_invar: "invar q \<Longrightarrow> entries q \<noteq> {#} \<Longrightarrow> invar (pop q)"
    and pop_entries: "invar q \<Longrightarrow> entries q \<noteq> {#} \<Longrightarrow> entries q = add_mset (first_entry q) (entries (pop q))"
begin

lemma none_due:
  assumes "invar q" "entries q = {#} \<or> now < fst (first_entry q)"
  shows "filter_mset (\<lambda>e. fst e \<le> now) (entries q) = {#}" "filter_mset (\<lambda>e. now < fst e) (entries q) = entries q"
proof -
  have "now < fst e" if "e \<in># entries q" for e
    using assms first_least [OF assms(1) that] that by auto
  then have "filter_mset (\<lambda>e. now < fst e) (entries q) = entries q" by (simp add: filter_mset_eq_conv)
  moreover from this have "filter_mset (\<lambda>e. \<not> now < fst e) (entries q) = {#}"
    using multiset_partition [of "entries q" "\<lambda>e. now < fst e"] by simp
  ultimately show "filter_mset (\<lambda>e. fst e \<le> now) (entries q) = {#}" "filter_mset (\<lambda>e. now < fst e) (entries q) = entries q"
    by (simp_all add: not_less)
qed

lemma first_due:
  assumes "invar q" "entries q \<noteq> {#}" "fst (first_entry q) \<le> now"
  shows "filter_mset (\<lambda>e. fst e \<le> now) (entries q) = add_mset (first_entry q) (filter_mset (\<lambda>e. fst e \<le> now) (entries (pop q)))"
    "filter_mset (\<lambda>e. now < fst e) (entries q) = filter_mset (\<lambda>e. now < fst e) (entries (pop q))"
    "e \<in># entries (pop q) \<Longrightarrow> fst (first_entry q) \<le> fst e"
  using pop_entries [OF assms(1,2)] assms(3) first_least [OF assms(1)] by simp_all

text \<open>Induction along the loop that pops what is due.\<close>

lemma drain_induct [consumes 1, case_names rest step]:
  assumes "invar q"
    and "\<And>q. invar q \<Longrightarrow> entries q = {#} \<or> now < fst (first_entry q) \<Longrightarrow> P q"
    and "\<And>q. invar q \<Longrightarrow> entries q \<noteq> {#} \<Longrightarrow> fst (first_entry q) \<le> now \<Longrightarrow> invar (pop q) \<Longrightarrow> P (pop q) \<Longrightarrow> P q"
  shows "P q"
  using assms(1)
proof (induction "size (entries q)" arbitrary: q rule: less_induct)
  case less
  show ?case
  proof (cases "entries q = {#} \<or> now < fst (first_entry q)")
    case False
    then have q: "entries q \<noteq> {#}" "fst (first_entry q) \<le> now" by auto
    have "size (entries (pop q)) < size (entries q)" using pop_entries [OF less(2) q(1)] by simp
    then show ?thesis using less(1) pop_invar [OF less(2) q(1)] by (intro assms(3) [OF less(2) q]) simp_all
  qed (rule assms(2) [OF less(2)])
qed

end

definition pop_first :: "timer_queue \<Rightarrow> timer_queue" where
  "pop_first q = (let t = snd (heap q ! 0) in remove_timer t (upd_data t (op_queue_update (\<lambda>_. [])) q))"

lemma tq_inv_clear: "tq_inv q \<Longrightarrow> tq_inv (upd_data t (op_queue_update (\<lambda>_. os)) q)"
  using tq_inv_ops [of q t "\<lambda>_. os"] by simp

lemma upd_ops_simps [simp]:
  "heap (upd_data t (op_queue_update f) q) = heap q" "timers (upd_data t (op_queue_update f) q) = timers q"
  "active (upd_data t (op_queue_update f) q) u = active q u"
  by (simp_all add: upd_data_def active_def)

lemma pop_first_spec:
  assumes "tq_inv q" "heap q \<noteq> []"
  shows "tq_inv (pop_first q)" "mset (heap q) = add_mset (heap q ! 0) (mset (heap (pop_first q)))"
    "active (pop_first q) u \<longleftrightarrow> active q u \<and> u \<noteq> snd (heap q ! 0)"
    "op_queue (data (pop_first q) u) = (if u = snd (heap q ! 0) then [] else op_queue (data q u))"
    "e \<in># mset (heap (pop_first q)) \<Longrightarrow> snd e \<noteq> snd (heap q ! 0)"
proof -
  define t where "t = snd (heap q ! 0)"
  define q1 where "q1 = upd_data t (op_queue_update (\<lambda>_. [])) q"
  have p: "pop_first q = remove_timer t q1" by (simp add: pop_first_def t_def q1_def Let_def)
  have i: "tq_inv q1" unfolding q1_def by (rule tq_inv_clear [OF assms(1)])
  have a: "active q1 t" using tq_inv_active [OF assms(1), of "heap q ! 0"] assms(2) by (simp add: q1_def t_def)
  note r = remove_timer_spec [OF i a, folded p]
  show "tq_inv (pop_first q)" by (rule r(1))
  show "active (pop_first q) u \<longleftrightarrow> active q u \<and> u \<noteq> snd (heap q ! 0)" using r(3) by (simp add: q1_def t_def)
  show "op_queue (data (pop_first q) u) = (if u = snd (heap q ! 0) then [] else op_queue (data q u))"
    using r(4) by (simp add: q1_def t_def upd_data_def)
  have h: "mset (heap (pop_first q)) = filter_mset (\<lambda>e. snd e \<noteq> t) (mset (heap q))" using r(2) by (simp add: q1_def)
  then show "e \<in># mset (heap (pop_first q)) \<Longrightarrow> snd e \<noteq> snd (heap q ! 0)" by (simp add: t_def)
  have "index_ok q" using assms(1) by (simp add: tq_inv_def)
  then have "filter (\<lambda>e. snd e = t) (heap q) = [heap q ! 0]"
  proof -
    obtain x ys where xy: "heap q = x # ys" using assms(2) by (cases "heap q") auto
    then have "snd x \<notin> snd ` set ys" using index_ok_distinct [OF \<open>index_ok q\<close>] by simp
    then have "filter (\<lambda>e. snd e = snd x) ys = []" unfolding filter_empty_conv by (metis imageI)
    then show ?thesis by (simp add: xy t_def)
  qed
  then have "filter_mset (\<lambda>e. snd e = t) (mset (heap q)) = {#heap q ! 0#}" by (metis mset_filter mset_single_iff)
  then show "mset (heap q) = add_mset (heap q ! 0) (mset (heap (pop_first q)))"
    using multiset_partition [of "mset (heap q)" "\<lambda>e. snd e = t"] h by simp
qed

interpretation tq: ordered_queue tq_inv "\<lambda>q. mset (heap q)" "\<lambda>q. heap q ! 0" pop_first
proof unfold_locales
  fix q :: timer_queue assume q: "tq_inv q"
  show "heap q ! 0 \<in># mset (heap q)" if "mset (heap q) \<noteq> {#}" using that by simp
  show "fst (heap q ! 0) \<le> fst e" if "e \<in># mset (heap q)" for e
    using q that heap_least by (auto simp: tq_inv_def in_set_conv_nth)
  show "tq_inv (pop_first q)" if "mset (heap q) \<noteq> {#}" using that pop_first_spec(1) [OF q] by simp
  show "mset (heap q) = add_mset (heap q ! 0) (mset (heap (pop_first q)))" if "mset (heap q) \<noteq> {#}"
    using that pop_first_spec(2) [OF q] by simp
qed

text \<open>The loop over the timers that are due.\<close>

lemma ready_loop_due:
  assumes "tq_inv q"
  shows "\<exists>es q'. ready_loop now ops q = Some (ops @ concat (map (\<lambda>e. op_queue (data q (snd e))) es), q') \<and> tq_inv q'
    \<and> mset es = filter_mset (\<lambda>e. fst e \<le> now) (mset (heap q)) \<and> sorted (map fst es)
    \<and> mset (heap q') = filter_mset (\<lambda>e. now < fst e) (mset (heap q))
    \<and> (\<forall>u. active q' u \<longleftrightarrow> active q u \<and> u \<notin> snd ` set es)
    \<and> (\<forall>u. op_queue (data q' u) = (if u \<in> snd ` set es then [] else op_queue (data q u)))"
  using assms
proof (induction q arbitrary: ops rule: tq.drain_induct [where now = now])
  case (rest q)
  then have "ready_loop now ops q = Some (ops, q)" by (subst ready_loop.simps) (auto simp: is_less_def)
  then show ?case using rest tq.none_due [OF rest(1), of now] by (intro exI [of _ "[]"] exI [of _ q]) simp
next
  case (step q)
  then have h: "heap q \<noteq> []" by simp
  define t where "t = snd (heap q ! 0)"
  have l: "ready_loop now ops q = ready_loop now (ops @ op_queue (data q t)) (pop_first q)"
    using step(2,3) by (subst ready_loop.simps) (simp add: is_less_def pop_first_def t_def Let_def)
  obtain es q' where r: "ready_loop now (ops @ op_queue (data q t)) (pop_first q)
        = Some ((ops @ op_queue (data q t)) @ concat (map (\<lambda>e. op_queue (data (pop_first q) (snd e))) es), q')"
      "tq_inv q'" "mset es = filter_mset (\<lambda>e. fst e \<le> now) (mset (heap (pop_first q)))" "sorted (map fst es)"
      "mset (heap q') = filter_mset (\<lambda>e. now < fst e) (mset (heap (pop_first q)))"
      "\<forall>u. active q' u \<longleftrightarrow> active (pop_first q) u \<and> u \<notin> snd ` set es"
      "\<forall>u. op_queue (data q' u) = (if u \<in> snd ` set es then [] else op_queue (data (pop_first q) u))"
    using step.IH [of "ops @ op_queue (data q t)"] by (elim exE conjE)
  note p = pop_first_spec [OF step(1) h]
  have in_es: "e \<in># mset (heap (pop_first q))" if "e \<in> set es" for e
    using that r(3) by (metis in_multiset_in_set multiset_filter_subset mset_subset_eqD)
  have other: "snd e \<noteq> t" "fst (heap q ! 0) \<le> fst e" if "e \<in> set es" for e
    using p(5) [OF in_es [OF that]] tq.first_due(3) [OF step(1-3) in_es [OF that]] by (simp_all add: t_def)
  have ops: "map (\<lambda>e. op_queue (data (pop_first q) (snd e))) es = map (\<lambda>e. op_queue (data q (snd e))) es"
    using other(1) p(4) by (simp add: t_def)
  show ?case
  proof (intro exI conjI)
    show "ready_loop now ops q = Some (ops @ concat (map (\<lambda>e. op_queue (data q (snd e))) (heap q ! 0 # es)), q')"
      unfolding l r(1) ops by (simp add: t_def)
    show "mset (heap q ! 0 # es) = filter_mset (\<lambda>e. fst e \<le> now) (mset (heap q))"
      using tq.first_due(1) [OF step(1-3)] r(3) by simp
    show "sorted (map fst (heap q ! 0 # es))" using other(2) r(4) by simp
    show "mset (heap q') = filter_mset (\<lambda>e. now < fst e) (mset (heap q))"
      using tq.first_due(2) [OF step(1-3)] r(5) by simp
    show "\<forall>u. active q' u \<longleftrightarrow> active q u \<and> u \<notin> snd ` set (heap q ! 0 # es)" using r(6) p(3) by auto
    show "\<forall>u. op_queue (data q' u) = (if u \<in> snd ` set (heap q ! 0 # es) then [] else op_queue (data q u))"
      using r(7) p(4) by auto
  qed (rule r(2))
qed


text \<open>Cancelling.\<close>

lemma cancel_ops_take:
  "n \<le> m \<Longrightarrow> cancel_ops m n xs ops
    = (min m (n + length xs), drop (m - n) xs, ops @ map (\<lambda>op. op\<lparr>op_aborted := True\<rparr>) (take (m - n) xs))"
proof (induction xs arbitrary: n ops)
  case (Cons x xs)
  show ?case
  proof (cases "n = m")
    case False
    then have "m - n = Suc (m - Suc n)" "n + 1 \<le> m" using Cons.prems by simp_all
    then show ?thesis using Cons.IH [of "n + 1"] False by simp
  qed simp
qed simp

lemma cancel_timer_spec:
  assumes "tq_inv q" "active q t"
  shows "\<exists>q'. cancel_timer t m ops q = (min m (length (op_queue (data q t))),
       ops @ map (\<lambda>op. op\<lparr>op_aborted := True\<rparr>) (take m (op_queue (data q t))), q')
    \<and> tq_inv q' \<and> (\<forall>u. op_queue (data q' u) = (if u = t then drop m (op_queue (data q t)) else op_queue (data q u)))
    \<and> mset (heap q') = (if length (op_queue (data q t)) \<le> m then filter_mset (\<lambda>e. snd e \<noteq> t) (mset (heap q)) else mset (heap q))
    \<and> (\<forall>u. active q' u \<longleftrightarrow> active q u \<and> (u = t \<longrightarrow> m < length (op_queue (data q t))))"
proof -
  define q1 where "q1 = upd_data t (op_queue_update (\<lambda>_. drop m (op_queue (data q t)))) q"
  have i: "tq_inv q1" unfolding q1_def by (rule tq_inv_clear [OF assms(1)])
  have a: "active q1 t" using assms(2) by (simp add: q1_def)
  have o: "op_queue (data q1 u) = (if u = t then drop m (op_queue (data q t)) else op_queue (data q u))" for u
    by (simp add: q1_def upd_data_def)
  have c: "cancel_timer t m ops q = (min m (length (op_queue (data q t))),
       ops @ map (\<lambda>op. op\<lparr>op_aborted := True\<rparr>) (take m (op_queue (data q t))),
       if length (op_queue (data q t)) \<le> m then remove_timer t q1 else q1)"
    using assms(2) by (simp add: cancel_timer_def cancel_ops_take q1_def)
  show ?thesis
  proof (cases "length (op_queue (data q t)) \<le> m")
    case True
    then show ?thesis using c remove_timer_spec [OF i a] o by (auto simp: q1_def)
  next
    case False
    then show ?thesis using c i o assms(2) by (auto simp: q1_def)
  qed
qed

text \<open>All timers.\<close>

lemma all_loop_list:
  assumes "distinct xs" "timers q = (if xs = [] then None else Some (hd xs))" "dseg (data q) p xs None"
    "\<forall>t. t \<notin> set xs \<longrightarrow> next_timer (data q t) = None \<and> prev_timer (data q t) = None"
  shows "\<exists>q'. all_loop ops q = Some (ops @ concat (map (\<lambda>t. op_queue (data q t)) xs), q') \<and> dlist q' []
    \<and> (\<forall>u. op_queue (data q' u) = (if u \<in> set xs then [] else op_queue (data q u)))"
  using assms
proof (induction xs arbitrary: q p ops)
  case Nil
  then show ?case by (subst all_loop.simps) (auto simp: dlist_def)
next
  case (Cons t xs)
  have t: "timers q = Some t" "t \<notin> set xs" "next_timer (data q t) = (if xs = [] then None else Some (hd xs))"
    using Cons.prems by auto
  define q1 where "q1 = upd_data t (\<lambda>d. d\<lparr>op_queue := [], next_timer := None, prev_timer := None\<rparr>)
    (q\<lparr>timers := next_timer (data q t)\<rparr>)"
  have l: "all_loop ops q = all_loop (ops @ op_queue (data q t)) q1"
    using t(1) by (subst all_loop.simps) (simp add: q1_def)
  have h: "distinct xs" "timers q1 = (if xs = [] then None else Some (hd xs))" "dseg (data q1) (Some t) xs None"
    "\<forall>u. u \<notin> set xs \<longrightarrow> next_timer (data q1 u) = None \<and> prev_timer (data q1 u) = None"
    using Cons.prems t(2,3) by (simp_all add: q1_def upd_data_def)
  obtain q' where q': "all_loop (ops @ op_queue (data q t)) q1
      = Some ((ops @ op_queue (data q t)) @ concat (map (\<lambda>t. op_queue (data q1 t)) xs), q')" "dlist q' []"
      "\<forall>u. op_queue (data q' u) = (if u \<in> set xs then [] else op_queue (data q1 u))"
    using Cons.IH [OF h, of "ops @ op_queue (data q t)"] by (elim exE conjE)
  have "map (\<lambda>t. op_queue (data q1 t)) xs = map (\<lambda>t. op_queue (data q t)) xs"
    using t(2) by (auto simp: q1_def upd_data_def)
  then have "all_loop ops q = Some (ops @ concat (map (\<lambda>t. op_queue (data q t)) (t # xs)), q')"
    using q'(1) l by (simp only: list.map concat.simps append_assoc)
  moreover have "\<forall>u. op_queue (data q' u) = (if u \<in> set (t # xs) then [] else op_queue (data q u))"
    using q'(3) by (auto simp: q1_def upd_data_def)
  ultimately show ?case using q'(2) by blast
qed

text \<open>Waiting times.\<close>

lemma to_msec_bounds:
  assumes "1 \<le> m" "d \<le> 9223372036854775807" "0 < d"
  shows "\<exists>w. to_msec d m = Inr w \<and> 1 \<le> w \<and> w \<le> m \<and> (w * 1000 \<le> d \<or> w = 1) \<and> (w < m \<longrightarrow> d < (w + 1) * 1000)"
proof -
  define k where "k = d div 1000"
  have k: "0 \<le> k" "k * 1000 \<le> d" "d < (k + 1) * 1000" "k \<le> d" using assms(3) by (simp_all add: k_def)
  have "d sdiv 1000 = k" using assms(3) by (simp add: sdiv_smod_nonneg k_def)
  then have "total_milliseconds d = Inr k"
    using k assms(2) sdiv_smod_nonneg(1) [of 1000000 1000] by (simp add: total_milliseconds_def int64_result)
  then have "to_msec d m = Inr (if k = 0 then 1 else if k > m then m else k)"
    using assms(3) by (simp add: to_msec_def)
  then show ?thesis using k assms(1) by (cases "k = 0"; cases "k > m") auto
qed

lemma to_usec_bounds:
  assumes "1 \<le> m" "d \<le> 9223372036854775807" "0 < d"
  shows "to_usec d m = Inr (min d m)"
  using assms sdiv_smod_nonneg(1) [of 1000000 1000000] sdiv_smod_nonneg(1) [of d 1]
  by (simp add: to_usec_def total_microseconds_def int64_result min_def)


lemma td_make_exact: "- 9223372036854775807 \<le> d \<Longrightarrow> d \<le> 9223372036854775807 \<Longrightarrow> td_make 0 0 0 d = Inr d"
  by (cases "d < 0") (simp_all add: td_make_def to_tick_count_def absolute_value_def int64_result)

lemma subtract_times_exact:
  assumes "- 4000000000000000000 < a" "a < 4000000000000000000" "- 4000000000000000000 < b" "b < 4000000000000000000"
  shows "subtract_times a b = Inr (a - b)"
proof -
  have "\<not> is_special int64_limits a" "\<not> is_special int64_limits b" using assms by (intro not_special_int64; simp)+
  then show ?thesis using assms by (simp add: subtract_times_def int64_result td_make_exact)
qed

lemma earliest_index:
  assumes "tq_inv q" "active q t" "heap_index (data q t) = 0"
  shows "\<exists>time. (time, t) \<in># mset (heap q) \<and> (\<forall>e \<in># mset (heap q). time \<le> fst e)"
proof -
  obtain xs where inv: "heap_order (heap q)" "index_ok q" "dlist q xs"
      "\<forall>t \<in> set xs. t \<notin> snd ` set (heap q) \<longrightarrow> heap_index (data q t) = size_max"
    using assms(1) unfolding tq_inv_def by (elim conjE exE) blast
  have "t \<in> snd ` set (heap q)"
    using inv(4) assms(2,3) active_iff [OF inv(3)] by (auto simp: size_max_def)
  then obtain i where i: "i < length (heap q)" "snd (heap q ! i) = t" by (auto simp: in_set_conv_nth)
  then have "i = 0" using inv(2) assms(3) by (auto simp: index_ok_def)
  then have "(fst (heap q ! 0), t) \<in> set (heap q)" using i by (metis nth_mem prod.collapse)
  moreover have "\<forall>e \<in> set (heap q). fst (heap q ! 0) \<le> fst e"
    using heap_least [OF inv(1)] by (metis in_set_conv_nth)
  ultimately show ?thesis by auto
qed

section \<open>What the queue guarantees\<close>

text \<open>
  C16: The queue of timers refines a multiset of expiry times: on every state that satisfies the invariant
  (ordered heap, exact back indices, well linked list), enqueueing an operation adds the timer's entry exactly
  if the timer was not active, whatever its time (also a time that never comes), appends the operation, and answers true only for a
  timer that is the earliest; cancelling completes the oldest operations as aborted, counts
  them, and removes the timer exactly when none is left. Both keep the invariant.
\<close>
theorem timer_queue_refines:
  assumes "tq_inv q" "length (heap q) + 1 < size_max"
  shows "(\<forall>time t op b q'. enqueue_timer time t op q = (b, q') \<longrightarrow> tq_inv q'
        \<and> mset (heap q') = (if active q t then mset (heap q) else add_mset (time, t) (mset (heap q)))
        \<and> (\<forall>u. active q' u \<longleftrightarrow> active q u \<or> u = t)
        \<and> (\<forall>u. op_queue (data q' u) = (if u = t then op_queue (data q u) @ [op] else op_queue (data q u)))
        \<and> (b \<longrightarrow> (\<exists>first. (first, t) \<in># mset (heap q') \<and> (\<forall>e \<in># mset (heap q'). first \<le> fst e))))
    \<and> (\<forall>t m ops. active q t \<longrightarrow>
        (\<exists>q'. cancel_timer t m ops q = (min m (length (op_queue (data q t))),
             ops @ map (\<lambda>op. op\<lparr>op_aborted := True\<rparr>) (take m (op_queue (data q t))), q')
           \<and> tq_inv q'
           \<and> (\<forall>u. op_queue (data q' u) = (if u = t then drop m (op_queue (data q t)) else op_queue (data q u)))
           \<and> mset (heap q') = (if length (op_queue (data q t)) \<le> m then filter_mset (\<lambda>e. snd e \<noteq> t) (mset (heap q))
                else mset (heap q))))"
proof (intro conjI allI impI)
  fix time t op b q' assume e: "enqueue_timer time t op q = (b, q')"
  note s = enqueue_timer_spec [OF assms e]
  show "tq_inv q'" by (rule s(1))
  show "mset (heap q') = (if active q t then mset (heap q) else add_mset (time, t) (mset (heap q)))"
    by (rule s(2))
  show "active q' u \<longleftrightarrow> active q u \<or> u = t" for u by (rule s(3))
  show "op_queue (data q' u) = (if u = t then op_queue (data q u) @ [op] else op_queue (data q u))" for u by (rule s(4))
  show "\<exists>first. (first, t) \<in># mset (heap q') \<and> (\<forall>e \<in># mset (heap q'). first \<le> fst e)" if b
    using that s(3,5) by (intro earliest_index [OF s(1)]) auto
next
  fix t m ops assume "active q t"
  from cancel_timer_spec [OF assms(1) this, of m ops]
  show "\<exists>q'. cancel_timer t m ops q = (min m (length (op_queue (data q t))),
       ops @ map (\<lambda>op. op\<lparr>op_aborted := True\<rparr>) (take m (op_queue (data q t))), q')
     \<and> tq_inv q'
     \<and> (\<forall>u. op_queue (data q' u) = (if u = t then drop m (op_queue (data q t)) else op_queue (data q u)))
     \<and> mset (heap q') = (if length (op_queue (data q t)) \<le> m then filter_mset (\<lambda>e. snd e \<noteq> t) (mset (heap q))
          else mset (heap q))"
    by (elim exE conjE) (intro exI conjI)
qed

definition queue0 :: timer_queue where
  "queue0 = timer_queue_new (\<lambda>t. per_timer_data 7)"

definition queue3 :: timer_queue where
  "queue3 = snd (enqueue_timer 20 2 \<lparr>op_id = 12, op_aborted = False\<rparr>
     (snd (enqueue_timer 10 1 \<lparr>op_id = 11, op_aborted = False\<rparr>
     (snd (enqueue_timer 30 3 \<lparr>op_id = 13, op_aborted = False\<rparr> queue0)))))"

lemma queue0_inv: "tq_inv queue0" "heap queue0 = []"
  by (simp_all add: queue0_def per_timer_data_def tq_inv_new) (simp add: timer_queue_new_def)

theorem timer_queue_refines_witness:
  "\<exists>q'. enqueue_timer 30 3 \<lparr>op_id = 13, op_aborted = False\<rparr> queue0 = (True, q') \<and> tq_inv q' \<and> mset (heap q') = {#(30, 3)#}"
proof -
  have h: "length (heap queue0) + 1 < size_max" by (simp add: queue0_inv size_max_def)
  have a: "\<not> active queue0 3" by code_simp
  obtain b q' where e: "enqueue_timer 30 3 \<lparr>op_id = 13, op_aborted = False\<rparr> queue0 = (b, q')" by fastforce
  have "fst (enqueue_timer 30 3 \<lparr>op_id = 13, op_aborted = False\<rparr> queue0)" by code_simp
  then have b by (simp add: e)
  have "tq_inv q' \<and> mset (heap q') = (if active queue0 3 then mset (heap queue0)
      else add_mset (30, 3) (mset (heap queue0)))"
    using timer_queue_refines [OF queue0_inv(1) h, THEN conjunct1] e by blast
  then show ?thesis using e \<open>b\<close> a queue0_inv(2) by simp
qed


text \<open>
  C15: Collecting the ready timers ends, and hands on the operations of exactly the timers that are due, timer by
  timer in the order of their expiry and each timer's operations in the order they were added. Those
  timers become inactive, every other one keeps its entry and operations, and the invariant holds
  again. Collecting all timers ends too, hands on every operation once and leaves an empty queue.
\<close>
theorem ready_timers_in_order:
  assumes "tq_inv q"
  shows "(\<exists>es q'. get_ready_timers now ops q = Some (ops @ concat (map (\<lambda>e. op_queue (data q (snd e))) es), q')
        \<and> tq_inv q'
        \<and> mset es = filter_mset (\<lambda>e. fst e \<le> now) (mset (heap q)) \<and> sorted (map fst es)
        \<and> mset (heap q') = filter_mset (\<lambda>e. now < fst e) (mset (heap q))
        \<and> (\<forall>u. active q' u \<longleftrightarrow> active q u \<and> u \<notin> snd ` set es)
        \<and> (\<forall>u. op_queue (data q' u) = (if u \<in> snd ` set es then [] else op_queue (data q u))))
    \<and> (\<exists>ts q'. get_all_timers ops q = Some (ops @ concat (map (\<lambda>t. op_queue (data q t)) ts), q')
        \<and> distinct ts \<and> (\<forall>t. t \<in> set ts \<longleftrightarrow> active q t) \<and> tq_inv q' \<and> tq_empty q' \<and> heap q' = [])"
proof (rule conjI)
  have "get_ready_timers now ops q = ready_loop now ops q"
    by (cases "heap q = []") (simp_all add: get_ready_timers_def ready_loop.simps)
  then show "\<exists>es q'. get_ready_timers now ops q = Some (ops @ concat (map (\<lambda>e. op_queue (data q (snd e))) es), q')
        \<and> tq_inv q'
        \<and> mset es = filter_mset (\<lambda>e. fst e \<le> now) (mset (heap q)) \<and> sorted (map fst es)
        \<and> mset (heap q') = filter_mset (\<lambda>e. now < fst e) (mset (heap q))
        \<and> (\<forall>u. active q' u \<longleftrightarrow> active q u \<and> u \<notin> snd ` set es)
        \<and> (\<forall>u. op_queue (data q' u) = (if u \<in> snd ` set es then [] else op_queue (data q u)))"
    using ready_loop_due [OF assms, of now ops] by simp
next
  obtain xs where xs: "dlist q xs" using assms unfolding tq_inv_def by (elim conjE exE)
  then have h: "distinct xs" "timers q = (if xs = [] then None else Some (hd xs))" "dseg (data q) None xs None"
    "\<forall>t. t \<notin> set xs \<longrightarrow> next_timer (data q t) = None \<and> prev_timer (data q t) = None"
    by (simp_all add: dlist_def)
  obtain q' where q': "all_loop ops q = Some (ops @ concat (map (\<lambda>t. op_queue (data q t)) xs), q')" "dlist q' []"
    using all_loop_list [OF h, of ops] by (elim exE conjE)
  have "tq_inv (q'\<lparr>heap := []\<rparr>)"
    using q'(2) by (auto simp: tq_inv_def heap_order_def index_ok_def size_max_def dlist_def intro!: exI [of _ "[]"])
  moreover have "tq_empty (q'\<lparr>heap := []\<rparr>)" using q'(2) by (simp add: tq_empty_def dlist_def)
  ultimately show "\<exists>ts q'. get_all_timers ops q = Some (ops @ concat (map (\<lambda>t. op_queue (data q t)) ts), q')
        \<and> distinct ts \<and> (\<forall>t. t \<in> set ts \<longleftrightarrow> active q t) \<and> tq_inv q' \<and> tq_empty q' \<and> heap q' = []"
    using q'(1) h(1) active_iff [OF xs]
    by (intro exI [of _ xs] exI [of _ "q'\<lparr>heap := []\<rparr>"]) (simp add: get_all_timers_def)
qed

lemma queue3_inv: "tq_inv queue3"
proof -
  define op :: "nat \<Rightarrow> wait_op" where "op i = \<lparr>op_id = i, op_aborted = False\<rparr>" for i
  have step: "tq_inv (snd (enqueue_timer time t o1 q))" if "tq_inv q" "length (heap q) < 5" for time t o1 q
  proof -
    have l: "length (heap q) + 1 < size_max" using that(2) by (simp add: size_max_def)
    show ?thesis using enqueue_timer_spec(1) [OF that(1) l prod.collapse [symmetric]] .
  qed
  define q1 where "q1 = snd (enqueue_timer 30 3 (op 13) queue0)"
  define q2 where "q2 = snd (enqueue_timer 10 1 (op 11) q1)"
  have "length (heap q1) < 5" "length (heap q2) < 5" unfolding q2_def q1_def op_def by code_simp+
  then have "tq_inv q1" "tq_inv q2" using step queue0_inv by (simp_all add: q1_def q2_def)
  then show ?thesis using step [OF \<open>tq_inv q2\<close> \<open>length (heap q2) < 5\<close>] by (simp add: queue3_def q1_def q2_def op_def)
qed

theorem ready_timers_in_order_witness:
  "\<exists>es q'. get_ready_timers 20 [] queue3 = Some (concat (map (\<lambda>e. op_queue (data queue3 (snd e))) es), q') \<and> tq_inv q'
     \<and> mset es = {#(10 :: int, 1), (20, 2)#} \<and> sorted (map fst es) \<and> mset (heap q') = {#(30, 3)#}"
proof -
  have "heap queue3 = [(10, 1), (30, 3), (20, 2)]" by code_simp
  then have "filter_mset (\<lambda>e. fst e \<le> 20) (mset (heap queue3)) = {#(10, 1), (20, 2)#}"
    "filter_mset (\<lambda>e. 20 < fst e) (mset (heap queue3)) = {#(30, 3)#}" by simp_all
  moreover obtain es q' where "get_ready_timers 20 [] queue3 = Some ([] @ concat (map (\<lambda>e. op_queue (data queue3 (snd e))) es), q')"
      "tq_inv q'" "mset es = filter_mset (\<lambda>e. fst e \<le> 20) (mset (heap queue3))" "sorted (map fst es)"
      "mset (heap q') = filter_mset (\<lambda>e. 20 < fst e) (mset (heap queue3))"
    using ready_timers_in_order [OF queue3_inv, of 20 "[]", THEN conjunct1] by (elim exE conjE)
  ultimately show ?thesis by (intro exI [of _ es] exI [of _ q']) simp
qed

text \<open>
  The time the service may sleep: zero exactly if a timer is due, never more than the limit or a whole
  millisecond, and otherwise so that no timer expires a millisecond before the sleep ends; a sleep
  below the limit ends in the millisecond before the earliest timer.
\<close>
theorem wait_duration_bounds:
  assumes "tq_inv q" "heap q \<noteq> []" "1 \<le> m"
    "\<forall>e \<in># mset (heap q). - 4000000000000000000 < fst e \<and> fst e < 4000000000000000000"
    "- 4000000000000000000 < now" "now < 4000000000000000000"
  shows "\<exists>w. wait_duration_msec now m q = Inr w \<and> 0 \<le> w \<and> w \<le> m
    \<and> (w = 0 \<longleftrightarrow> (\<exists>e \<in># mset (heap q). fst e \<le> now))
    \<and> (0 < w \<longrightarrow> (\<forall>e \<in># mset (heap q). w * 1000 \<le> fst e - now \<or> w = 1))
    \<and> (0 < w \<and> w < m \<longrightarrow> (\<exists>e \<in># mset (heap q). fst e - now < (w + 1) * 1000))
    \<and> (\<exists>v. wait_duration_usec now m q = Inr v
         \<and> (v = m \<or> (\<exists>e \<in># mset (heap q). v = max 0 (fst e - now))) \<and> (\<forall>e \<in># mset (heap q). v \<le> max 0 (fst e - now)))"
proof -
  define e where "e = heap q ! 0"
  have e: "e \<in># mset (heap q)" "\<forall>f \<in># mset (heap q). fst e \<le> fst f"
    using tq.first_in [OF assms(1)] tq.first_least [OF assms(1)] assms(2) by (auto simp: e_def)
  have st: "subtract_times (fst e) now = Inr (fst e - now)"
    using assms(4-6) e(1) by (intro subtract_times_exact) auto
  have w: "wait_duration_msec now m q = to_msec (fst e - now) m" "wait_duration_usec now m q = to_usec (fst e - now) m"
    using st assms(2) by (simp_all add: wait_duration_msec_def wait_duration_usec_def e_def)
  show ?thesis
  proof (cases "fst e \<le> now")
    case True
    then have "wait_duration_msec now m q = Inr 0" "wait_duration_usec now m q = Inr 0"
      by (simp_all add: w to_msec_def to_usec_def)
    then show ?thesis using True e assms(3) by (auto intro!: bexI [of _ e])
  next
    case False
    have d: "fst e - now \<le> 9223372036854775807" "0 < fst e - now" using assms(4,5) e(1) False by auto
    obtain v where v: "to_msec (fst e - now) m = Inr v" "1 \<le> v" "v \<le> m" "v * 1000 \<le> fst e - now \<or> v = 1"
        "v < m \<longrightarrow> fst e - now < (v + 1) * 1000"
      using to_msec_bounds [OF assms(3) d] by (elim exE conjE)
    have "\<not> (\<exists>f \<in># mset (heap q). fst f \<le> now)" using e(2) False by fastforce
    moreover have "\<forall>f \<in># mset (heap q). v * 1000 \<le> fst f - now \<or> v = 1" using v(4) e(2) by fastforce
    moreover have "v < m \<longrightarrow> (\<exists>f \<in># mset (heap q). fst f - now < (v + 1) * 1000)" using v(5) e(1) by blast
    moreover have "\<exists>u. wait_duration_usec now m q = Inr u
         \<and> (u = m \<or> (\<exists>f \<in># mset (heap q). u = max 0 (fst f - now))) \<and> (\<forall>f \<in># mset (heap q). u \<le> max 0 (fst f - now))"
    proof (intro exI conjI)
      show "wait_duration_usec now m q = Inr (min (fst e - now) m)" by (simp add: w to_usec_bounds [OF assms(3) d])
      show "min (fst e - now) m = m \<or> (\<exists>f \<in># mset (heap q). min (fst e - now) m = max 0 (fst f - now))"
        using d e(1) by (auto simp: min_def max_def intro!: bexI [of _ e])
      show "\<forall>f \<in># mset (heap q). min (fst e - now) m \<le> max 0 (fst f - now)"
        using e(2) by (auto simp: min_def max_def)
    qed
    ultimately show ?thesis using v(1-3) w(1) by (intro exI [of _ v]) simp
  qed
qed

theorem wait_duration_bounds_witness:
  "\<exists>w. wait_duration_msec 5 1000 queue3 = Inr w \<and> 0 \<le> w \<and> w \<le> 1000 \<and> w \<noteq> 0"
proof -
  have h: "heap queue3 = [(10, 1), (30, 3), (20, 2)]" by code_simp
  have "\<exists>w. wait_duration_msec 5 1000 queue3 = Inr w \<and> 0 \<le> w \<and> w \<le> 1000 \<and> (w = 0 \<longleftrightarrow> (\<exists>e \<in># mset (heap queue3). fst e \<le> 5))"
    using wait_duration_bounds [OF queue3_inv, of 1000 5] unfolding h by (simp only: list.simps not_False_eq_True) auto
  then show ?thesis by (auto simp: h)
qed


text \<open>The flag of a timer object is set while operations wait.\<close>

definition impl_ok :: "timer_impl \<Rightarrow> timer_queue \<Rightarrow> bool" where
  "impl_ok impl q \<longleftrightarrow> (active q (timer_data impl) \<longrightarrow> might_have_pending_waits impl)
     \<and> (\<not> active q (timer_data impl) \<longrightarrow> op_queue (data q (timer_data impl)) = [])
     \<and> length (op_queue (data q (timer_data impl))) \<le> size_max"

lemma timer_cancel_spec:
  assumes "tq_inv q" "impl_ok impl q"
  shows "\<exists>q'. timer_cancel impl ops q = (length (op_queue (data q (timer_data impl))), impl\<lparr>might_have_pending_waits := False\<rparr>,
       ops @ map (\<lambda>op. op\<lparr>op_aborted := True\<rparr>) (op_queue (data q (timer_data impl))), q')
    \<and> tq_inv q' \<and> \<not> active q' (timer_data impl) \<and> op_queue (data q' (timer_data impl)) = []
    \<and> mset (heap q') = filter_mset (\<lambda>e. snd e \<noteq> timer_data impl) (mset (heap q))
    \<and> (\<forall>u. u \<noteq> timer_data impl \<longrightarrow> op_queue (data q' u) = op_queue (data q u))"
proof (cases "active q (timer_data impl)")
  case True
  then have p: "might_have_pending_waits impl" and l: "length (op_queue (data q (timer_data impl))) \<le> size_max"
    using assms(2) by (simp_all add: impl_ok_def)
  show ?thesis
    using cancel_timer_spec [OF assms(1) True, of size_max ops] l
    by (elim exE conjE) (simp add: timer_cancel_def p min_def)
next
  case False
  then have o: "op_queue (data q (timer_data impl)) = []" using assms(2) by (simp add: impl_ok_def)
  have "snd e \<noteq> timer_data impl" if "e \<in># mset (heap q)" for e
    using tq_inv_active [OF assms(1) that] False by metis
  then have f: "filter_mset (\<lambda>e. snd e \<noteq> timer_data impl) (mset (heap q)) = mset (heap q)"
    by (simp add: filter_mset_eq_conv)
  have "timer_cancel impl ops q = (0, impl\<lparr>might_have_pending_waits := False\<rparr>, ops, q)"
  proof (cases "might_have_pending_waits impl")
    case True
    then show ?thesis using False by (simp add: timer_cancel_def cancel_timer_def)
  next
    case m: False
    then have "impl\<lparr>might_have_pending_waits := False\<rparr> = impl" by (cases impl) simp
    then show ?thesis using m by (simp add: timer_cancel_def)
  qed
  then show ?thesis using assms(1) False o f by simp
qed

text \<open>
  C17: Setting a timer's expiry and waiting again replaces whatever it was waiting for: the operations of the old
  expiry are completed as aborted and counted, the timer's entry in the queue is the one of the new
  time, only the new operation waits on it, and no other timer is touched.
\<close>
theorem rearming_replaces:
  assumes "tq_inv q" "impl_ok impl q" "length (heap q) + 1 < size_max"
  shows "\<exists>q1 impl' b q2. expires_at impl time ops q = (length (op_queue (data q (timer_data impl))), impl',
         ops @ map (\<lambda>op. op\<lparr>op_aborted := True\<rparr>) (op_queue (data q (timer_data impl))), q1)
    \<and> async_wait impl' op q1 = (b, impl'\<lparr>might_have_pending_waits := True\<rparr>, q2)
    \<and> tq_inv q2 \<and> impl_ok (impl'\<lparr>might_have_pending_waits := True\<rparr>) q2
    \<and> mset (heap q2) = add_mset (time, timer_data impl) (filter_mset (\<lambda>e. snd e \<noteq> timer_data impl) (mset (heap q)))
    \<and> op_queue (data q2 (timer_data impl)) = [op]
    \<and> (\<forall>u. u \<noteq> timer_data impl \<longrightarrow> op_queue (data q2 u) = op_queue (data q u))"
proof -
  define t where "t = timer_data impl"
  obtain q1 where c: "timer_cancel impl ops q = (length (op_queue (data q t)), impl\<lparr>might_have_pending_waits := False\<rparr>,
        ops @ map (\<lambda>op. op\<lparr>op_aborted := True\<rparr>) (op_queue (data q t)), q1)"
      "tq_inv q1" "\<not> active q1 t" "op_queue (data q1 t) = []"
      "mset (heap q1) = filter_mset (\<lambda>e. snd e \<noteq> t) (mset (heap q))"
      "\<forall>u. u \<noteq> t \<longrightarrow> op_queue (data q1 u) = op_queue (data q u)"
    using timer_cancel_spec [OF assms(1,2), of ops] unfolding t_def by (elim exE conjE)
  define impl' where "impl' = impl\<lparr>might_have_pending_waits := False, expiry := time\<rparr>"
  have f: "timer_data impl' = t" "expiry impl' = time" by (simp_all add: impl'_def t_def)
  have e: "expires_at impl time ops q = (length (op_queue (data q t)), impl', 
        ops @ map (\<lambda>op. op\<lparr>op_aborted := True\<rparr>) (op_queue (data q t)), q1)"
    by (simp add: expires_at_def c(1) impl'_def)
  obtain b q2 where en: "enqueue_timer time t op q1 = (b, q2)" by fastforce
  have "length (heap q1) \<le> length (heap q)"
    using c(5) size_filter_mset_lesseq [of "\<lambda>e. snd e \<noteq> t" "mset (heap q)"] by (metis size_mset)
  then have l: "length (heap q1) + 1 < size_max" using assms(3) by simp
  note s = enqueue_timer_spec [OF c(2) l en]
  have w: "async_wait impl' op q1 = (b, impl'\<lparr>might_have_pending_waits := True\<rparr>, q2)"
    by (simp add: async_wait_def f en Let_def)
  have o: "op_queue (data q2 t) = [op]" using s(4) [of t] c(4) by simp
  have ok: "impl_ok (impl'\<lparr>might_have_pending_waits := True\<rparr>) q2"
    using s(3) [of t] o by (simp add: impl_ok_def f size_max_def)
  have m: "mset (heap q2) = add_mset (time, t) (filter_mset (\<lambda>e. snd e \<noteq> t) (mset (heap q)))"
    using s(2) c(3,5) by simp
  have u: "\<forall>u. u \<noteq> t \<longrightarrow> op_queue (data q2 u) = op_queue (data q u)" using s(4) c(6) by simp
  show ?thesis unfolding t_def [symmetric]
    by (intro exI conjI) (rule e, rule w, rule s(1), rule ok, rule m, rule o, rule u)
qed

theorem rearming_replaces_witness:
  "\<exists>b impl' q1 q2. expires_at \<lparr>expiry = 10, might_have_pending_waits = True, timer_data = 1\<rparr> 25 [] queue3
       = (1, impl', [\<lparr>op_id = 11, op_aborted = True\<rparr>], q1)
     \<and> async_wait impl' \<lparr>op_id = 14, op_aborted = False\<rparr> q1 = (b, impl'\<lparr>might_have_pending_waits := True\<rparr>, q2)
     \<and> mset (heap q2) = {#(25, 1), (20, 2), (30, 3)#}"
proof -
  define impl where "impl = \<lparr>expiry = 10, might_have_pending_waits = True, timer_data = 1\<rparr>"
  have h: "heap queue3 = [(10, 1), (30, 3), (20, 2)]" by code_simp
  have o: "op_queue (data queue3 1) = [\<lparr>op_id = 11, op_aborted = False\<rparr>]" by code_simp
  have ac: "active queue3 1" by code_simp
  have t: "timer_data impl = 1" by (simp add: impl_def)
  have ok: "impl_ok impl queue3" "length (heap queue3) + 1 < size_max"
    using ac o by (simp_all add: impl_ok_def impl_def h size_max_def del: One_nat_def)
  have f: "filter_mset (\<lambda>e. snd e \<noteq> 1) (mset (heap queue3)) = {#(20, 2), (30, 3)#}" by (simp add: h)
  show ?thesis
    using rearming_replaces [OF queue3_inv ok, of 25 "[]" "\<lparr>op_id = 14, op_aborted = False\<rparr>"]
    unfolding t o f impl_def [symmetric] by (simp del: set_mset_mset) blast
qed

end
