(* ===== verification/ReactorLoop.thy ===== *)
theory ReactorLoop imports Reactor ServiceLoop TimerOrder "HOL-Library.Code_Target_Numeral" begin

text \<open>
  The event loop with its reactor: the interface of \<open>ServiceLoop\<close> interpreted on the code of \<open>Reactor\<close>, for
  every kernel and every program. What waits in the reactor are the operations of the timers and of the
  descriptors; every operation of the reactor keeps the count of outstanding work in step with them.
\<close>

section \<open>Sums with finitely many terms\<close>

definition supp_sum :: "(nat \<Rightarrow> nat) \<Rightarrow> nat" where
  "supp_sum f = sum f {x. f x \<noteq> 0}"

lemma supp_sum_superset: "finite S \<Longrightarrow> {x. f x \<noteq> 0} \<subseteq> S \<Longrightarrow> supp_sum f = sum f S"
  unfolding supp_sum_def by (rule sum.mono_neutral_left) auto

lemma finite_support_upd: "finite {x. f x \<noteq> 0} \<Longrightarrow> finite {x. (f(a := v)) x \<noteq> (0 :: nat)}"
  by (rule finite_subset [of _ "insert a {x. f x \<noteq> 0}"]) auto

lemma supp_sum_upd: "finite {x. f x \<noteq> 0} \<Longrightarrow> supp_sum (f(a := v)) + f a = supp_sum f + v"
proof -
  assume f: "finite {x. f x \<noteq> 0}"
  let ?S = "insert a {x. f x \<noteq> 0}"
  have "supp_sum (f(a := v)) = sum (f(a := v)) ?S" using f by (intro supp_sum_superset) auto
  also have "\<dots> = (f(a := v)) a + sum (f(a := v)) (?S - {a})" using f by (intro sum.remove) auto
  also have "sum (f(a := v)) (?S - {a}) = sum f (?S - {a})" by (rule sum.cong) auto
  finally have 1: "supp_sum (f(a := v)) = v + sum f (?S - {a})" by (simp only: fun_upd_same)
  have "supp_sum f = sum f ?S" using f by (intro supp_sum_superset) auto
  also have "\<dots> = f a + sum f (?S - {a})" using f by (intro sum.remove) auto
  finally show ?thesis using 1 by simp
qed

lemma supp_sum_clear:
  assumes "finite {x. f x \<noteq> 0}" "finite A"
  shows "supp_sum f = supp_sum (\<lambda>x. if x \<in> A then 0 else f x) + sum f A"
proof -
  let ?S = "{x. f x \<noteq> 0} \<union> A" and ?g = "\<lambda>x. if x \<in> A then 0 else f x"
  have "supp_sum f = sum f ?S" using assms by (intro supp_sum_superset) auto
  also have "\<dots> = sum f (?S - A) + sum f A" using assms by (intro sum.subset_diff) auto
  also have "sum f (?S - A) = sum ?g (?S - A)" by (rule sum.cong) auto
  also have "\<dots> = supp_sum ?g" using assms by (intro supp_sum_superset [symmetric]) auto
  finally show ?thesis by simp
qed

lemma supp_sum_zero: "finite {x. f x \<noteq> 0} \<Longrightarrow> supp_sum f = 0 \<longleftrightarrow> (\<forall>x. f x = 0)"
  by (auto simp: supp_sum_def)

section \<open>What waits in the reactor\<close>

definition ops_at :: "timer_queue \<Rightarrow> timer \<Rightarrow> nat" where
  "ops_at q t = length (op_queue (data q t))"

definition tq_pending :: "timer_queue \<Rightarrow> nat" where
  "tq_pending q = supp_sum (ops_at q)"

definition desc_pending :: "descriptor_state \<Rightarrow> nat" where
  "desc_pending st = length (op_queues st ReadOp) + length (op_queues st WriteOp) + length (op_queues st ExceptOp)"

definition pending :: "('h, 'k, 'u) reactor \<Rightarrow> int" where
  "pending s = int (supp_sum (\<lambda>q. tq_pending (queues s q)) + supp_sum (\<lambda>d. desc_pending (descriptors s d)))"

text \<open>A timer that is not active has no operations; the heap fits into its vector.\<close>

definition tq_ok :: "timer_queue \<Rightarrow> bool" where
  "tq_ok q \<longleftrightarrow> tq_inv q \<and> length (heap q) \<le> heap_max \<and> (\<forall>t. \<not> active q t \<longrightarrow> op_queue (data q t) = [])"

text \<open>\<open>epoll_wait\<close> reports a descriptor at most once in one answer.\<close>

fun event_descriptors :: "epoll_event list \<Rightarrow> nat list" where
  "event_descriptors [] = []"
| "event_descriptors (ev # evs) = (case ev of EvDescriptor d e \<Rightarrow> d # event_descriptors evs | _ \<Rightarrow> event_descriptors evs)"

definition kernel_ok :: "'k kernel \<Rightarrow> bool" where
  "kernel_ok K \<longleftrightarrow> (\<forall>m k evs k'. k_epoll_wait K m k = Some (evs, k') \<longrightarrow> distinct (event_descriptors evs))"

definition reactor_ok :: "'k kernel \<Rightarrow> ('h, 'k, 'u) reactor \<Rightarrow> bool" where
  "reactor_ok K s \<longleftrightarrow> kernel_ok K \<and> (\<forall>q. tq_ok (queues s q)) \<and> finite {q. tq_pending (queues s q) \<noteq> 0}
     \<and> finite {d. desc_pending (descriptors s d) \<noteq> 0}"

lemma tq_ok_finite: "tq_ok q \<Longrightarrow> finite {t. ops_at q t \<noteq> 0}"
proof -
  assume q: "tq_ok q"
  then obtain xs where d: "dlist q xs" by (auto simp: tq_ok_def tq_inv_def)
  have "{t. ops_at q t \<noteq> 0} \<subseteq> set xs" using q active_iff [OF d] by (auto simp: tq_ok_def ops_at_def)
  then show ?thesis by (rule finite_subset) simp
qed

lemma heap_max_size: "heap_max + 2 < size_max"
  by (simp add: heap_max_def size_max_def)

lemma tq_enqueue:
  assumes "tq_ok q" "active q t \<or> length (heap q) < heap_max" "enqueue_timer time t p q = (b, q')"
  shows "tq_ok q'" "tq_pending q' = tq_pending q + 1"
proof -
  have i: "tq_inv q" "length (heap q) \<le> heap_max" "length (heap q) + 1 < size_max" "\<And>t. \<not> active q t \<Longrightarrow> op_queue (data q t) = []"
    using assms(1) heap_max_size by (auto simp: tq_ok_def)
  note e = enqueue_timer_spec [OF i(1,3) assms(3)]
  have "size (mset (heap q')) \<le> heap_max" using e(2) i(2) assms(2) by (auto split: if_splits)
  then show "tq_ok q'" using e(1,3,4) i(4) by (auto simp: tq_ok_def)
  have "ops_at q' = (ops_at q)(t := ops_at q t + 1)" using e(4) by (auto simp: ops_at_def)
  then show "tq_pending q' = tq_pending q + 1"
    using supp_sum_upd [OF tq_ok_finite [OF assms(1)], of t "ops_at q t + 1"] by (simp add: tq_pending_def)
qed

lemma tq_heap_index:
  assumes "tq_ok q" "\<not> active q t"
  shows "tq_ok (upd_data t (heap_index_update (\<lambda>_. n)) q)" "tq_pending (upd_data t (heap_index_update (\<lambda>_. n)) q) = tq_pending q"
proof -
  let ?q = "upd_data t (heap_index_update (\<lambda>_. n)) q"
  have i: "heap_order (heap q)" "index_ok q" "length (heap q) < size_max" "length (heap q) \<le> heap_max"
    "\<forall>t. \<not> active q t \<longrightarrow> op_queue (data q t) = []"
    using assms(1) by (auto simp: tq_ok_def tq_inv_def)
  obtain xs where d: "dlist q xs" "snd ` set (heap q) \<subseteq> set xs" "\<forall>t \<in> set xs. t \<notin> snd ` set (heap q) \<longrightarrow> heap_index (data q t) = size_max"
    using assms(1) by (auto simp: tq_ok_def tq_inv_def)
  have t: "t \<notin> set xs" using active_iff [OF d(1)] assms(2) by blast
  then have h: "t \<noteq> snd (heap q ! i)" if "i < length (heap q)" for i using d(2) that by (metis image_eqI nth_mem subsetD)
  have "dlist ?q xs" using d(1) dseg_frame [of xs "data ?q" "data q" None None] by (simp add: dlist_def upd_data_def)
  moreover have "index_ok ?q" using i(2) h by (auto simp: index_ok_def upd_data_def)
  moreover have "heap ?q = heap q" by (simp add: upd_data_def)
  moreover have "\<forall>u \<in> set xs. u \<notin> snd ` set (heap q) \<longrightarrow> heap_index (data ?q u) = size_max" using d(3) t by (auto simp: upd_data_def)
  ultimately have "tq_inv ?q" using i d(2) unfolding tq_inv_def by (metis (no_types, lifting))
  moreover have a: "active ?q u = active q u" "op_queue (data ?q u) = op_queue (data q u)" for u by (simp_all add: active_def upd_data_def)
  moreover have "heap ?q = heap q" by (simp add: upd_data_def)
  ultimately show "tq_ok ?q" using i by (simp add: tq_ok_def)
  have "ops_at ?q = ops_at q" by (rule ext) (simp add: ops_at_def a)
  then show "tq_pending ?q = tq_pending q" by (simp add: tq_pending_def)
qed

lemma tq_cancel:
  assumes "tq_ok q" "cancel_timer t m [] q = (n, ps, q')"
  shows "tq_ok q'" "tq_pending q' + length ps = tq_pending q"
proof -
  have i: "tq_inv q" "length (heap q) \<le> heap_max" "\<And>t. \<not> active q t \<Longrightarrow> op_queue (data q t) = []"
    using assms(1) by (auto simp: tq_ok_def)
  have "tq_ok q' \<and> tq_pending q' + length ps = tq_pending q"
  proof (cases "active q t")
    case False
    then show ?thesis using assms by (simp add: cancel_timer_def)
  next
    case True
    then have c: "ps = map (\<lambda>op. op\<lparr>op_aborted := True\<rparr>) (take m (op_queue (data q t)))" "tq_inv q'"
      "\<And>u. op_queue (data q' u) = (if u = t then drop m (op_queue (data q t)) else op_queue (data q u))"
      "mset (heap q') = (if length (op_queue (data q t)) \<le> m then filter_mset (\<lambda>e. snd e \<noteq> t) (mset (heap q)) else mset (heap q))"
      "\<And>u. active q' u \<longleftrightarrow> active q u \<and> (u = t \<longrightarrow> m < length (op_queue (data q t)))"
      using cancel_timer_spec [OF i(1) True, of m "[]"] assms(2) by auto
    have "size (mset (heap q')) \<le> heap_max"
      using c(4) i(2) size_filter_mset_lesseq [of "\<lambda>e. snd e \<noteq> t" "mset (heap q)"] by (auto split: if_splits)
    then have "tq_ok q'" using c(2,3,5) i(3) by (auto simp: tq_ok_def)
    moreover have "ops_at q' = (ops_at q)(t := ops_at q t - m)" using c(3) by (auto simp: ops_at_def)
    moreover have "length ps = min m (ops_at q t)" using c(1) by (simp add: ops_at_def)
    ultimately show ?thesis
      using supp_sum_upd [OF tq_ok_finite [OF assms(1)], of t "ops_at q t - m"] by (auto simp: tq_pending_def min_def)
  qed
  then show "tq_ok q'" "tq_pending q' + length ps = tq_pending q" by auto
qed

lemma tq_drain:
  assumes "tq_ok q"
  obtains ps q' where "get_ready_timers now [] q = Some (ps, q')" "tq_ok q'" "tq_pending q' + length ps = tq_pending q"
proof -
  have i: "tq_inv q" "length (heap q) \<le> heap_max" "\<And>t. \<not> active q t \<Longrightarrow> op_queue (data q t) = []"
    using assms by (auto simp: tq_ok_def)
  obtain es q' where r: "ready_loop now [] q = Some ([] @ concat (map (\<lambda>e. op_queue (data q (snd e))) es), q')" "tq_inv q'"
    "mset es = filter_mset (\<lambda>e. fst e \<le> now) (mset (heap q))" "mset (heap q') = filter_mset (\<lambda>e. now < fst e) (mset (heap q))"
    "\<forall>u. active q' u \<longleftrightarrow> active q u \<and> u \<notin> snd ` set es"
    "\<forall>u. op_queue (data q' u) = (if u \<in> snd ` set es then [] else op_queue (data q u))"
    using ready_loop_due [OF i(1), of now "[]"] by blast
  have g: "get_ready_timers now [] q = Some (concat (map (\<lambda>e. op_queue (data q (snd e))) es), q')"
  proof -
    have "get_ready_timers now [] q = ready_loop now [] q"
      by (cases "heap q = []") (simp_all add: get_ready_timers_def ready_loop.simps [of now "[]" q])
    then show ?thesis using r(1) by simp
  qed
  have "size (mset (heap q')) \<le> heap_max"
    using r(4) i(2) size_filter_mset_lesseq [of "\<lambda>e. now < fst e" "mset (heap q)"] by auto
  then have ok: "tq_ok q'" using r(2,5,6) i(3) by (auto simp: tq_ok_def)
  have "distinct (map snd (heap q))" using i(1) index_ok_distinct by (auto simp: tq_inv_def)
  then have "distinct (map snd es)"
    using r(3) by (metis distinct_map_filter mset_eq_imp_distinct_iff mset_filter mset_map)
  then have l: "length (concat (map (\<lambda>e. op_queue (data q (snd e))) es)) = sum (ops_at q) (snd ` set es)"
    by (induction es) (auto simp: ops_at_def)
  have "ops_at q' = (\<lambda>u. if u \<in> snd ` set es then 0 else ops_at q u)" using r(6) by (auto simp: ops_at_def)
  then have "tq_pending q' + length (concat (map (\<lambda>e. op_queue (data q (snd e))) es)) = tq_pending q"
    using supp_sum_clear [OF tq_ok_finite [OF assms], of "snd ` set es"] l by (simp add: tq_pending_def)
  then show thesis using that g ok by blast
qed

section \<open>Operations move work\<close>

text \<open>
  An operation keeps the state of the loop in order and changes the balance by \<open>\<delta>\<close>: starting work adds to
  it, queueing an operation, or letting it wait in the reactor, takes from it.
\<close>

definition moves :: "'k kernel \<Rightarrow> int \<Rightarrow> ('h, 'k, 'u) reactor \<Rightarrow> ('h, 'k, 'u) reactor \<Rightarrow> bool" where
  "moves K \<delta> s s' \<longleftrightarrow> (reactor_ok K s \<and> disciplined s \<longrightarrow>
     reactor_ok K s' \<and> disciplined s' \<and> length (call_stack s') = length (call_stack s) \<and> srv_stopped s' = srv_stopped s
     \<and> balance pending s' = balance pending s + \<delta>)"

lemma moves_refl: "moves K 0 s s"
  by (simp add: moves_def)

lemma moves_trans: "moves K \<delta> s s1 \<Longrightarrow> moves K \<epsilon> s1 s2 \<Longrightarrow> \<delta> + \<epsilon> = \<zeta> \<Longrightarrow> moves K \<zeta> s s2"
  by (auto simp: moves_def)

text \<open>Changes that the count does not see.\<close>

lemma moves_frame:
  assumes "srv_queue s' = srv_queue s" "outstanding_work s' = outstanding_work s" "has_task s' = has_task s"
    "call_stack s' = call_stack s" "srv_stopped s' = srv_stopped s" "queues s' = queues s"
    "\<And>d. op_queues (descriptors s' d) = op_queues (descriptors s d)"
  shows "moves K 0 s s'"
proof -
  have "desc_pending (descriptors s' d) = desc_pending (descriptors s d)" for d using assms(7) [of d] by (simp add: desc_pending_def)
  then show ?thesis
    using assms(1-6) by (simp add: moves_def disciplined_def private_ok_def balance_def pending_def reactor_ok_def)
qed

lemma moves_ctl: "moves K 0 s (snd (ctl K c s))"
  by (rule moves_frame) (simp_all add: ctl_def split: prod.splits)

lemma moves_interrupt: "moves K 0 s (epoll_interrupt K s)"
  unfolding epoll_interrupt_def by (rule moves_ctl)

lemma moves_wake: "moves K 0 s (wake_one_thread (epoll_interrupt K) s)"
proof -
  have "moves K 0 s (s\<lparr>task_interrupted := True\<rparr>)" by (rule moves_frame) simp_all
  then have "moves K 0 s (epoll_interrupt K (s\<lparr>task_interrupted := True\<rparr>))"
    by (rule moves_trans [OF _ moves_interrupt]) simp
  then show ?thesis using moves_refl [of K s] by (simp add: wake_one_thread_def interrupt_task_def)
qed

lemma moves_work_started: "moves K 1 s (work_started s)"
  by (simp add: moves_def work_started_def disciplined_def private_ok_def balance_def pending_def reactor_ok_def)

lemma disciplined_push:
  assumes "disciplined s" "list_all user_op ps"
  shows "disciplined (push_ops ps s)"
proof (cases "has_task s")
  case True
  then obtain pre post where "srv_queue s = pre @ TaskOp # post" "list_all (\<lambda>p. \<not> is_task p) pre" "list_all user_op post"
    using assms(1) by (auto simp: disciplined_def)
  then show ?thesis
    using True assms disciplined_private [OF assms(1)]
    by (intro disciplinedI [of _ pre "post @ ps"]) (simp_all add: push_ops_def private_ok_def)
next
  case False
  then show ?thesis using assms by (simp add: disciplined_def push_ops_def private_ok_def)
qed

lemma moves_push: "list_all user_op ps \<Longrightarrow> moves K (- count_ops ps) s (push_ops ps s)"
  using disciplined_push [of s ps]
  by (simp add: moves_def balance_def pending_def reactor_ok_def) (simp add: push_ops_def)

lemma moves_private:
  assumes "list_all user_op ps" "call_stack s \<noteq> []"
  shows "moves K (- count_ops ps) s (push_private ps s)"
  using assms
  by (cases "call_stack s")
    (auto simp: moves_def push_private_def upd_context_def disciplined_def private_ok_def balance_def pending_def reactor_ok_def)

lemma moves_private_work:
  assumes "call_stack s \<noteq> []"
  shows "moves K 1 s (upd_context (\<lambda>t. t\<lparr>private_work := private_work t + 1\<rparr>) s)"
  using assms
  by (cases "call_stack s")
    (auto simp: moves_def upd_context_def disciplined_def private_ok_def balance_def pending_def reactor_ok_def)

lemma moves_post:
  assumes "user_op p"
  shows "moves K 0 s (post_immediate_completion (epoll_interrupt K) p s)"
proof (cases "one_thread s \<and> call_stack s \<noteq> []")
  case True
  let ?s = "upd_context (\<lambda>t. t\<lparr>private_work := private_work t + 1\<rparr>) s"
  have "call_stack ?s \<noteq> []" using True by (auto simp: upd_context_def split: list.splits)
  then have "moves K (- 1) ?s (push_private [p] ?s)" using moves_private [of "[p]" ?s K] assms by simp
  moreover have "call_stack s \<noteq> []" using True by simp
  ultimately have "moves K 0 s (push_private [p] ?s)" by (intro moves_trans [OF moves_private_work, of s K "- 1"]) simp_all
  then show ?thesis using True by (simp add: post_immediate_completion_def)
next
  case False
  have "moves K (- 1) (work_started s) (push_ops [p] (work_started s))" using moves_push [of "[p]" K] assms by simp
  then have "moves K 0 s (push_ops [p] (work_started s))" by (rule moves_trans [OF moves_work_started]) simp
  then have "moves K 0 s (wake_one_thread (epoll_interrupt K) (push_ops [p] (work_started s)))"
    by (rule moves_trans [OF _ moves_wake]) simp
  then show ?thesis using False by (auto simp: post_immediate_completion_def)
qed

lemma moves_deferred:
  assumes "list_all user_op ps"
  shows "moves K (- count_ops ps) s (post_deferred_completions (epoll_interrupt K) ps s)"
proof -
  have "moves K (- count_ops ps) s (wake_one_thread (epoll_interrupt K) (push_ops ps s))"
    by (rule moves_trans [OF moves_push [OF assms] moves_wake]) simp
  then show ?thesis
    using moves_private [OF assms, of s K] moves_refl [of K s] by (simp add: post_deferred_completions_def)
qed

lemma disciplined_upd [simp]: "disciplined (upd_queue q tq s) = disciplined s" "disciplined (upd_descriptor d f s) = disciplined s"
  by (simp_all add: disciplined_def private_ok_def upd_queue_def upd_descriptor_def)

text \<open>Timers and descriptors: work waits in the reactor, or stops waiting.\<close>

lemma moves_queue:
  assumes "tq_ok tq"
  shows "moves K (int (tq_pending (queues s q)) - int (tq_pending tq)) s (upd_queue q tq s)"
proof -
  let ?f = "\<lambda>q. tq_pending (queues s q)" and ?s = "upd_queue q tq s"
  have g: "(\<lambda>q'. tq_pending (queues ?s q')) = ?f(q := tq_pending tq)" by (auto simp: upd_queue_def)
  have fin: "finite {q'. tq_pending (queues ?s q') \<noteq> 0}" if "finite {q. ?f q \<noteq> 0}"
    using finite_support_upd [OF that, of q "tq_pending tq"] by (simp only: g [symmetric])
  have sum: "supp_sum (\<lambda>q'. tq_pending (queues ?s q')) + ?f q = supp_sum ?f + tq_pending tq" if "finite {q. ?f q \<noteq> 0}"
    using supp_sum_upd [OF that, of q "tq_pending tq"] by (simp only: g [symmetric])
  have same: "descriptors ?s = descriptors s" "srv_queue ?s = srv_queue s" "outstanding_work ?s = outstanding_work s"
    "call_stack ?s = call_stack s" "srv_stopped ?s = srv_stopped s" by (simp_all add: upd_queue_def)
  have "reactor_ok K s \<Longrightarrow> reactor_ok K ?s"
    unfolding reactor_ok_def same using fin by (intro conjI allI) (simp_all add: upd_queue_def assms)
  moreover have "reactor_ok K s \<Longrightarrow> pending ?s + int (?f q) = pending s + int (tq_pending tq)"
    using sum by (simp add: reactor_ok_def pending_def same)
  ultimately show ?thesis by (auto simp: moves_def balance_def same)
qed

lemma moves_descriptor:
  "moves K (int (desc_pending (descriptors s d)) - int (desc_pending (f (descriptors s d)))) s (upd_descriptor d f s)"
proof -
  let ?f = "\<lambda>d. desc_pending (descriptors s d)" and ?v = "desc_pending (f (descriptors s d))" and ?s = "upd_descriptor d f s"
  have g: "(\<lambda>d'. desc_pending (descriptors ?s d')) = ?f(d := ?v)" by (auto simp: upd_descriptor_def)
  have fin: "finite {d'. desc_pending (descriptors ?s d') \<noteq> 0}" if "finite {d. ?f d \<noteq> 0}"
    using finite_support_upd [OF that, of d ?v] by (simp only: g [symmetric])
  have sum: "supp_sum (\<lambda>d'. desc_pending (descriptors ?s d')) + ?f d = supp_sum ?f + ?v" if "finite {d. ?f d \<noteq> 0}"
    using supp_sum_upd [OF that, of d ?v] by (simp only: g [symmetric])
  have same: "queues ?s = queues s" "srv_queue ?s = srv_queue s" "outstanding_work ?s = outstanding_work s"
    "call_stack ?s = call_stack s" "srv_stopped ?s = srv_stopped s" by (simp_all add: upd_descriptor_def)
  have "reactor_ok K s \<Longrightarrow> reactor_ok K ?s"
    unfolding reactor_ok_def same using fin by (intro conjI allI) simp_all
  moreover have "reactor_ok K s \<Longrightarrow> pending ?s + int (?f d) = pending s + int ?v"
    using sum by (simp add: reactor_ok_def pending_def same)
  ultimately show ?thesis by (auto simp: moves_def balance_def same)
qed

section \<open>The reactor's operations\<close>

text \<open>Reading the clocks and arming the timer descriptor only touch the kernel.\<close>

lemma and_then_fault: "r \<noteq> Inl e \<Longrightarrow> (\<And>a. f a \<noteq> Inl e) \<Longrightarrow> and_then r f \<noteq> Inl e"
  by (cases r) auto

lemma time_faults:
  "ia_result L v \<noteq> Inl (UB DoubleLink)" "ia_sub L M a b \<noteq> Inl (UB DoubleLink)"
  "to_tick_count h m s f \<noteq> Inl (UB DoubleLink)" "subtract_times a b \<noteq> Inl (UB DoubleLink)"
proof -
  show r: "ia_result L v \<noteq> Inl (UB DoubleLink)" for L v by (simp add: ia_result_def)
  show i: "ia_sub L M a b \<noteq> Inl (UB DoubleLink)" for L M a b by (simp add: ia_sub_def r)
  have a: "absolute_value L v \<noteq> Inl (UB DoubleLink)" for L v by (simp add: absolute_value_def r)
  show t: "to_tick_count h m s f \<noteq> Inl (UB DoubleLink)" for h m s f
    unfolding to_tick_count_def by (simp only: split: if_split) (intro conjI impI and_then_fault a r)
  show "subtract_times a b \<noteq> Inl (UB DoubleLink)"
    unfolding subtract_times_def td_make_def [abs_def] by (simp only: split: if_split) (intro conjI impI and_then_fault i r t; simp)
qed

lemma wait_duration_fault:
  "wait_duration_usec now m q \<noteq> Inl (UB DoubleLink)" "wait_duration_msec now m q \<noteq> Inl (UB DoubleLink)"
proof -
  have "total_microseconds d \<noteq> Inl (UB DoubleLink)" "total_milliseconds d \<noteq> Inl (UB DoubleLink)" for d
    by (simp_all add: total_microseconds_def total_milliseconds_def time_faults)
  then have "to_usec d m \<noteq> Inl (UB DoubleLink)" "to_msec d m \<noteq> Inl (UB DoubleLink)" for d
    unfolding to_usec_def to_msec_def by (simp_all only: split: if_split) (intro conjI impI and_then_fault; simp)+
  then show "wait_duration_usec now m q \<noteq> Inl (UB DoubleLink)" "wait_duration_msec now m q \<noteq> Inl (UB DoubleLink)"
    unfolding wait_duration_usec_def wait_duration_msec_def
    by (simp_all only: split: if_split) (intro conjI impI and_then_fault time_faults(4); simp)+
qed

lemma set_wait_moves:
  "set_wait K f qs m s = (r, s') \<Longrightarrow> moves K 0 s s' \<and> (\<exists>k. s' = s\<lparr>kern := k\<rparr>)
     \<and> ((\<forall>now m q. f now m q \<noteq> Inl (UB DoubleLink)) \<longrightarrow> r \<noteq> Inl (UB DoubleLink))"
proof (induction qs arbitrary: m s)
  case Nil
  then show ?case using moves_refl [of K s] by (auto intro: exI [of _ "kern s"])
next
  case (Cons q qs)
  obtain r1 s1 where 1: "queue_wait K f q m s = (r1, s1)" by (cases "queue_wait K f q m s")
  then have k: "\<exists>k. s1 = s\<lparr>kern := k\<rparr>" "(\<forall>now m q. f now m q \<noteq> Inl (UB DoubleLink)) \<longrightarrow> r1 \<noteq> Inl (UB DoubleLink)"
    by (auto simp: queue_wait_def split: if_splits prod.splits intro: exI [of _ "kern s"])
  then have m: "moves K 0 s s1" by (auto intro: moves_frame)
  show ?case
  proof (cases r1)
    case (Inl e)
    then show ?thesis using Cons.prems 1 k m by auto
  next
    case (Inr m')
    then have "set_wait K f qs m' s1 = (r, s')" using Cons.prems 1 by simp
    note ih = Cons.IH [OF this]
    have "moves K 0 s s'" by (rule moves_trans [OF m ih [THEN conjunct1]]) simp
    then show ?thesis using ih k(1) by auto
  qed
qed

lemma set_timerfd_moves:
  assumes "set_timerfd K s = (r, s')"
  shows "moves K 0 s s'" "\<exists>k. s' = s\<lparr>kern := k\<rparr>" "r \<noteq> Inl (UB DoubleLink)"
proof -
  obtain r1 s1 where 1: "set_wait K wait_duration_usec (queue_set s) (5 * 60 * 1000 * 1000) s = (r1, s1)"
    by (cases "set_wait K wait_duration_usec (queue_set s) (5 * 60 * 1000 * 1000) s")
  have w: "moves K 0 s s1" "\<exists>k. s1 = s\<lparr>kern := k\<rparr>" "r1 \<noteq> Inl (UB DoubleLink)"
    using set_wait_moves [OF 1] wait_duration_fault by auto
  have "moves K 0 s1 (s1\<lparr>kern := k\<rparr>)" for k by (rule moves_frame) simp_all
  then have "moves K 0 s (s1\<lparr>kern := k\<rparr>)" for k by (rule moves_trans [OF w(1)]) simp
  then have "moves K 0 s s' \<and> (\<exists>k. s' = s\<lparr>kern := k\<rparr>) \<and> r \<noteq> Inl (UB DoubleLink)"
    using assms 1 w by (cases r1) (auto simp: set_timerfd_def split: prod.splits)
  then show "moves K 0 s s'" "\<exists>k. s' = s\<lparr>kern := k\<rparr>" "r \<noteq> Inl (UB DoubleLink)" by auto
qed

lemma update_timeout_moves:
  assumes "update_timeout K s = (r, s')"
  shows "moves K 0 s s'" "r \<noteq> Inl (UB DoubleLink)"
  using assms set_timerfd_moves [of K s r s'] moves_interrupt [of K s] by (auto simp: update_timeout_def split: if_splits)

lemma schedule_timer_moves:
  assumes "schedule_timer K q time t p s = (r, s')"
  shows "moves K 0 s s' \<and> r \<noteq> Inl (UB DoubleLink)"
proof -
  consider (down) "r_shutdown s"
    | (full) "\<not> r_shutdown s" "\<not> active (queues s q) t" "length (heap (queues s q)) \<ge> heap_max"
    | (queued) "\<not> r_shutdown s" "active (queues s q) t \<or> length (heap (queues s q)) < heap_max"
    by linarith
  then show ?thesis
  proof cases
    case down
    then show ?thesis using assms moves_post [of "TimerOp p" K s] by (auto simp: schedule_timer_def)
  next
    case full
    note is_positive_infinity_def [simp]
    have "moves K 0 s s'" if "reactor_ok K s"
    proof -
      let ?d = "upd_data t (heap_index_update (\<lambda>_. length (heap (queues s q)))) (queues s q)"
      have q: "tq_ok (queues s q)" using that by (simp add: reactor_ok_def)
      have "tq_ok ?d \<and> tq_pending ?d = tq_pending (queues s q)" using tq_heap_index [OF q full(2)] by simp
      then show ?thesis using moves_queue [of ?d K s q] full assms by (auto simp: schedule_timer_def)
    qed
    then show ?thesis using full assms by (auto simp: schedule_timer_def moves_def)
  next
    case queued
    obtain b tq where e: "enqueue_timer time t p (queues s q) = (b, tq)" by (cases "enqueue_timer time t p (queues s q)")
    let ?s = "work_started (upd_queue q tq s)"
    have s: "schedule_timer K q time t p s = (if b then update_timeout K ?s else (Inr (), ?s))"
      using queued e by (auto simp: schedule_timer_def Let_def)
    have "moves K 0 s ?s" if "reactor_ok K s"
    proof -
      have q: "tq_ok (queues s q)" using that by (simp add: reactor_ok_def)
      have "moves K (- 1) s (upd_queue q tq s)" using moves_queue [OF tq_enqueue(1) [OF q queued(2) e], of K s q] tq_enqueue(2) [OF q queued(2) e] by simp
      then show ?thesis by (rule moves_trans [OF _ moves_work_started]) simp
    qed
    then have 1: "moves K 0 s ?s" by (auto simp: moves_def)
    show ?thesis
    proof (cases b)
      case True
      then have u: "update_timeout K ?s = (r, s')" using assms s by simp
      show ?thesis using moves_trans [OF 1 update_timeout_moves(1) [OF u]] update_timeout_moves(2) [OF u] by simp
    next
      case False
      then show ?thesis using assms s 1 by auto
    qed
  qed
qed

lemma cancel_timer_moves: "moves K 0 s (snd (reactor_cancel_timer K q t m s))"
proof -
  obtain n ps tq where c: "cancel_timer t m [] (queues s q) = (n, ps, tq)" by (cases "cancel_timer t m [] (queues s q)") auto
  have "moves K (int (length ps)) s (upd_queue q tq s)" if "reactor_ok K s"
  proof -
    have q: "tq_ok (queues s q)" using that by (simp add: reactor_ok_def)
    have "int (tq_pending (queues s q)) - int (tq_pending tq) = int (length ps)" using tq_cancel(2) [OF q c] by simp
    then show ?thesis using moves_queue [OF tq_cancel(1) [OF q c], of K s q] by simp
  qed
  then have 1: "moves K (int (length ps)) s (upd_queue q tq s)" by (auto simp: moves_def)
  have "moves K (- int (length ps)) (upd_queue q tq s) (post_deferred_completions (epoll_interrupt K) (map TimerOp ps) (upd_queue q tq s))"
    using moves_deferred [of "map TimerOp ps" K] by (simp add: list_all_iff)
  then show ?thesis using moves_trans [OF 1] c by (simp add: reactor_cancel_timer_def)
qed

text \<open>Descriptors.\<close>

lemma moves_enqueue_io: "moves K 0 s (enqueue_io d i p s)"
proof -
  let ?f = "\<lambda>st. st\<lparr>op_queues := (op_queues st)(i := op_queues st i @ [p])\<rparr>"
  have "desc_pending (?f st) = desc_pending st + 1" for st by (cases i) (simp_all add: desc_pending_def)
  then have "moves K (- 1) s (upd_descriptor d ?f s)" using moves_descriptor [of K s d ?f] by simp
  then show ?thesis unfolding enqueue_io_def by (rule moves_trans [OF _ moves_work_started]) simp
qed

text \<open>Updates of a descriptor that leave its queues alone.\<close>

lemma moves_descriptor_frame: "(\<And>st. op_queues (f st) = op_queues st) \<Longrightarrow> moves K 0 s (upd_descriptor d f s)"
  by (rule moves_frame) (auto simp: upd_descriptor_def)

lemma moves_kern: "moves K 0 s (s\<lparr>kern := k\<rparr>)"
  by (rule moves_frame) simp_all

lemma moves_zero: "moves K 0 s s1 \<Longrightarrow> moves K 0 s1 s2 \<Longrightarrow> moves K 0 s s2"
  by (erule moves_trans) auto

lemma start_op_moves: "moves K 0 s (start_op K i fd dd p spec s)"
proof (cases dd)
  case None
  then show ?thesis by (simp add: start_op_def moves_post)
next
  case (Some d)
  let ?st = "descriptors s d"
  consider (down) "d_shutdown ?st" | (busy) "\<not> d_shutdown ?st" "op_queues ?st i \<noteq> []"
    | (spec) "\<not> d_shutdown ?st" "op_queues ?st i = []" "spec \<and> (i \<noteq> ReadOp \<or> op_queues ?st ExceptOp = [])"
    | (plain) "\<not> d_shutdown ?st" "op_queues ?st i = []" "\<not> (spec \<and> (i \<noteq> ReadOp \<or> op_queues ?st ExceptOp = []))"
    by blast
  then show ?thesis
  proof cases
    case down
    then show ?thesis using Some by (simp add: start_op_def moves_post)
  next
    case busy
    then show ?thesis using Some by (simp add: start_op_def moves_enqueue_io)
  next
    case spec
    obtain finished p' k where k: "k_perform K p (kern s) = (finished, p', k)" by (cases "k_perform K p (kern s)") auto
    let ?s1 = "s\<lparr>kern := k\<rparr>" and ?ev = "registered_events ?st OR EPOLLOUT"
    obtain err s2 where c: "ctl K (Mod fd ?ev) ?s1 = (err, s2)" by (cases "ctl K (Mod fd ?ev) ?s1")
    have "moves K 0 s (snd (ctl K (Mod fd ?ev) ?s1))" by (rule moves_zero [OF moves_kern moves_ctl])
    then have 2: "moves K 0 s s2" using c by simp
    have 3: "moves K 0 s (upd_descriptor d (\<lambda>st. st\<lparr>registered_events := registered_events st OR ?ev\<rparr>) s2)"
      by (rule moves_zero [OF 2], rule moves_descriptor_frame) simp
    have 1: "moves K 0 s (post_immediate_completion (epoll_interrupt K) (IoOp p') ?s1)" "moves K 0 s (enqueue_io d i p' ?s1)"
      by (rule moves_zero [OF moves_kern moves_post], simp) (rule moves_zero [OF moves_kern moves_enqueue_io])
    have 4: "moves K 0 s (post_immediate_completion (epoll_interrupt K) (IoOp (p'\<lparr>io_ec := err\<rparr>)) s2)"
      by (rule moves_zero [OF 2 moves_post]) simp
    show ?thesis using Some spec k c 1 4 moves_zero [OF 3 moves_enqueue_io] by (simp add: start_op_def Let_def)
  next
    case plain
    let ?s1 = "if i = WriteOp then upd_descriptor d (\<lambda>st. st\<lparr>registered_events := registered_events st OR EPOLLOUT\<rparr>) s else s"
    have "moves K 0 s ?s1" by (auto intro: moves_descriptor_frame moves_refl)
    then have "moves K 0 s (snd (ctl K (Mod fd (registered_events (descriptors ?s1 d))) ?s1))" by (rule moves_zero [OF _ moves_ctl])
    then have "moves K 0 s (enqueue_io d i p (snd (ctl K (Mod fd (registered_events (descriptors ?s1 d))) ?s1)))"
      by (rule moves_zero [OF _ moves_enqueue_io])
    moreover have "start_op K i fd dd p spec s = enqueue_io d i p (snd (ctl K (Mod fd (registered_events (descriptors ?s1 d))) ?s1))"
      using plain by (auto simp: start_op_def Let_def Some)
    ultimately show ?thesis by simp
  qed
qed

lemma aborted_ops_length: "length (aborted_ops st) = desc_pending st"
  by (simp add: aborted_ops_def desc_pending_def)

lemma moves_abort:
  assumes "\<And>st. op_queues (f st) = (\<lambda>_. [])" "moves K 0 (upd_descriptor d f s) s1"
  shows "moves K 0 s (post_deferred_completions (epoll_interrupt K) (map IoOp (aborted_ops (descriptors s d))) s1)"
proof -
  let ?n = "int (desc_pending (descriptors s d))"
  have "moves K ?n s (upd_descriptor d f s)" using moves_descriptor [of K s d f] assms(1) by (simp add: desc_pending_def)
  then have "moves K ?n s s1" by (rule moves_trans [OF _ assms(2)]) simp
  moreover have "moves K (- ?n) s1 (post_deferred_completions (epoll_interrupt K) (map IoOp (aborted_ops (descriptors s d))) s1)"
    using moves_deferred [of "map IoOp (aborted_ops (descriptors s d))" K s1] by (simp add: list_all_iff aborted_ops_length)
  ultimately show ?thesis by (rule moves_trans) simp
qed

lemma cancel_io_moves: "moves K 0 s (cancel_io K dd s)"
  using moves_abort [of "\<lambda>st. st\<lparr>op_queues := \<lambda>_. []\<rparr>", OF _ moves_refl] moves_refl by (auto simp: cancel_io_def split: option.split)

lemma deregister_moves: "moves K 0 s (snd (deregister_descriptor K fd dd closing s))"
proof (cases "\<exists>d. dd = Some d \<and> \<not> d_shutdown (descriptors s d)")
  case True
  then obtain d where d: "dd = Some d" "\<not> d_shutdown (descriptors s d)" by auto
  let ?s1 = "if closing then s else snd (ctl K (Del fd) s)" and ?f = "\<lambda>st. st\<lparr>op_queues := \<lambda>_. [], descriptor := - 1, d_shutdown := True\<rparr>"
  have 1: "moves K 0 s ?s1" "descriptors ?s1 = descriptors s"
    by (auto intro: moves_refl moves_ctl) (simp add: ctl_def split: prod.splits)
  have "moves K 0 (upd_descriptor d ?f ?s1) (free_descriptor_state d (upd_descriptor d ?f ?s1))"
    by (rule moves_frame) (simp_all add: free_descriptor_state_def)
  from moves_zero [OF 1(1) moves_abort [OF _ this]] show ?thesis
    using d 1(2) by (simp add: deregister_descriptor_def Let_def)
next
  case False
  then show ?thesis using moves_refl [of K s] by (auto simp: deregister_descriptor_def split: option.split)
qed

lemma register_moves: "moves K 0 s (snd (snd (register_descriptor K fd s)))"
proof -
  obtain d s1 where a: "allocate_descriptor_state s = (d, s1)" by (cases "allocate_descriptor_state s")
  then have 1: "moves K 0 s s1" by (intro moves_frame) (auto simp: allocate_descriptor_state_def split: list.splits)
  let ?ev = "EPOLLIN OR EPOLLERR OR EPOLLHUP OR EPOLLPRI OR EPOLLET"
  let ?f = "\<lambda>st. st\<lparr>descriptor := fd, d_shutdown := False, registered_events := ?ev\<rparr>"
  have "moves K 0 s1 (upd_descriptor d ?f s1)" by (rule moves_descriptor_frame) simp
  from moves_zero [OF moves_zero [OF 1 this] moves_ctl] show ?thesis
    by (simp add: register_descriptor_def Let_def a case_prod_beta)
qed

text \<open>Starting the task, and stopping the service: the one action that changes \<open>stopped\<close>.\<close>

lemma init_task_moves: "moves K 0 s (init_task (epoll_interrupt K) s)"
proof (cases "\<not> srv_shutdown s \<and> \<not> has_task s")
  case True
  have "moves K 0 s (push_ops [TaskOp] (s\<lparr>has_task := True\<rparr>))"
  proof -
    have "disciplined (push_ops [TaskOp] (s\<lparr>has_task := True\<rparr>))" if "disciplined s"
      using True that by (intro disciplinedI [where pre = "srv_queue s" and post = "[]"])
        (auto simp: disciplined_def push_ops_def private_ok_def list_all_iff dest: user_not_task)
    then show ?thesis by (auto simp: moves_def push_ops_def balance_def pending_def reactor_ok_def)
  qed
  then show ?thesis using True moves_zero [OF _ moves_wake] by (auto simp: init_task_def)
next
  case False
  then show ?thesis using moves_refl [of K s] by (auto simp: init_task_def)
qed

definition settles :: "'k kernel \<Rightarrow> ('h, 'k, 'u) reactor \<Rightarrow> ('h, 'k, 'u) reactor \<Rightarrow> bool" where
  "settles K s s' \<longleftrightarrow> (reactor_ok K s \<and> disciplined s \<longrightarrow>
     reactor_ok K s' \<and> disciplined s' \<and> length (call_stack s') = length (call_stack s) \<and> balance pending s' = balance pending s)"

lemma settles_moves: "moves K 0 s s' \<Longrightarrow> settles K s s'"
  by (simp add: settles_def moves_def)

lemma settles_trans: "settles K s s1 \<Longrightarrow> settles K s1 s2 \<Longrightarrow> settles K s s2"
  by (auto simp: settles_def)

lemma settles_stop: "settles K s (service_stop (epoll_interrupt K) s)"
proof -
  have "settles K s (s\<lparr>srv_stopped := True\<rparr>)"
    by (simp add: settles_def disciplined_def private_ok_def balance_def pending_def reactor_ok_def)
  moreover have "settles K (s\<lparr>srv_stopped := True\<rparr>) (interrupt_task (epoll_interrupt K) (s\<lparr>srv_stopped := True\<rparr>))"
    using moves_wake [of K "s\<lparr>srv_stopped := True\<rparr>"] by (simp add: settles_moves wake_one_thread_def)
  ultimately show ?thesis unfolding service_stop_def stop_all_threads_def by (rule settles_trans)
qed

lemma action_moves:
  assumes "do_action K a s = (r, s')"
  shows "settles K s s'" "a \<noteq> AStop \<Longrightarrow> moves K 0 s s'" "r \<noteq> Inl (UB DoubleLink)"
proof -
  have "(settles K s s' \<and> (a \<noteq> AStop \<longrightarrow> moves K 0 s s')) \<and> r \<noteq> Inl (UB DoubleLink)"
  proof (cases a)
    case (ASchedule q time t p)
    then show ?thesis using assms schedule_timer_moves [of K q time t p s r s'] by (simp add: settles_moves)
  next
    case AStop
    then show ?thesis using assms settles_stop [of K s] by auto
  qed (use assms in \<open>auto simp: service_post_def moves_post cancel_timer_moves start_op_moves cancel_io_moves deregister_moves
        register_moves init_task_moves moves_refl settles_moves\<close>)
  then show "settles K s s'" "a \<noteq> AStop \<Longrightarrow> moves K 0 s s'" "r \<noteq> Inl (UB DoubleLink)" by auto
qed

lemma actions_moves:
  assumes "do_actions K as s = (r, s')"
  shows "settles K s s' \<and> (AStop \<notin> set as \<longrightarrow> moves K 0 s s') \<and> r \<noteq> Inl (UB DoubleLink)"
  using assms
proof (induction as arbitrary: s)
  case Nil
  then show ?case using moves_refl [of K s] settles_moves by auto
next
  case (Cons a as)
  obtain r1 s1 where 1: "do_action K a s = (r1, s1)" by (cases "do_action K a s")
  note m = action_moves [OF 1]
  show ?case
  proof (cases r1)
    case (Inl e)
    then show ?thesis using Cons.prems 1 m by auto
  next
    case (Inr u)
    then have "do_actions K as s1 = (r, s')" using Cons.prems 1 by simp
    note ih = Cons.IH [OF this]
    show ?thesis using settles_trans [OF m(1)] moves_zero [OF m(2)] ih by auto
  qed
qed

lemma handler_complete_moves:
  assumes "handler_complete K program p s = Some (r, s')"
  shows "settles K s s'" "AStop \<notin> set (fst (program p (user s))) \<Longrightarrow> moves K 0 s s'" "r \<noteq> Inl (UB DoubleLink)"
proof -
  obtain as u where p: "program p (user s) = (as, u)" by (cases "program p (user s)")
  have 0: "moves K 0 s (s\<lparr>user := u\<rparr>)" by (rule moves_frame) simp_all
  have "do_actions K as (s\<lparr>user := u\<rparr>) = (r, s')" using assms p by (simp add: handler_complete_def)
  note a = actions_moves [OF this]
  show "settles K s s'" using settles_trans [OF settles_moves [OF 0]] a by blast
  show "AStop \<notin> set (fst (program p (user s))) \<Longrightarrow> moves K 0 s s'" using moves_zero [OF 0] a p by simp
  show "r \<noteq> Inl (UB DoubleLink)" using a by blast
qed

section \<open>Ready descriptors\<close>

text \<open>Every finished operation of a descriptor leaves its queue.\<close>

lemma perform_ops_length: "perform_ops K ps k = (fin, rest, k') \<Longrightarrow> length fin + length rest = length ps"
  by (induction ps arbitrary: k fin rest k') (auto split: prod.splits if_splits)

lemma perform_queue_moves:
  assumes "perform_queue K d ev j (ps, s) = (ps', s')"
  shows "moves K (int (length ps') - int (length ps)) s s'"
proof (cases "ev AND (event_flag j OR EPOLLERR OR EPOLLHUP) \<noteq> 0")
  case True
  obtain fin rest k where p: "perform_ops K (op_queues (descriptors s d) j) (kern s) = (fin, rest, k)"
    by (cases "perform_ops K (op_queues (descriptors s d) j) (kern s)") auto
  let ?f = "\<lambda>st. st\<lparr>op_queues := (op_queues st)(j := rest)\<rparr>"
  have e: "ps' = ps @ fin" "s' = upd_descriptor d ?f (s\<lparr>kern := k\<rparr>)" using assms True p by (auto simp: perform_queue_def)
  have "desc_pending (?f (descriptors s d)) + length fin = desc_pending (descriptors s d)"
    using perform_ops_length [OF p] by (cases j) (simp_all add: desc_pending_def)
  then have "int (desc_pending (descriptors s d)) - int (desc_pending (?f (descriptors s d))) = int (length fin)" by linarith
  then have "moves K (int (length fin)) (s\<lparr>kern := k\<rparr>) (upd_descriptor d ?f (s\<lparr>kern := k\<rparr>))"
    using moves_descriptor [of K "s\<lparr>kern := k\<rparr>" d ?f] by simp
  from moves_trans [OF moves_kern this] show ?thesis by (simp add: e)
next
  case False
  then show ?thesis using assms moves_refl [of K s] by (auto simp: perform_queue_def)
qed

text \<open>\<open>perform_io\<close> always accounts for one completion.\<close>

lemma perform_io_moves:
  assumes "perform_io K d ev s = (first, s')"
  shows "moves K 1 s s'"
proof -
  obtain p1 s1 where 1: "perform_queue K d ev ExceptOp ([], s) = (p1, s1)" by (cases "perform_queue K d ev ExceptOp ([], s)")
  obtain p2 s2 where 2: "perform_queue K d ev WriteOp (p1, s1) = (p2, s2)" by (cases "perform_queue K d ev WriteOp (p1, s1)")
  obtain p3 s3 where 3: "perform_queue K d ev ReadOp (p2, s2) = (p3, s3)" by (cases "perform_queue K d ev ReadOp (p2, s2)")
  have "moves K (int (length p2)) s s2"
    by (rule moves_trans [OF perform_queue_moves [OF 1] perform_queue_moves [OF 2]]) simp
  then have m: "moves K (int (length p3)) s s3" by (rule moves_trans [OF _ perform_queue_moves [OF 3]]) simp
  show ?thesis
  proof (cases p3)
    case Nil
    then have "s' = work_started s3" using assms 1 2 3 by (simp add: perform_io_def)
    then show ?thesis using moves_trans [OF m moves_work_started] Nil by simp
  next
    case (Cons p rest)
    then have "s' = post_deferred_completions (epoll_interrupt K) (map IoOp rest) s3" using assms 1 2 3 by (simp add: perform_io_def)
    moreover have "moves K (- int (length rest)) s3 (post_deferred_completions (epoll_interrupt K) (map IoOp rest) s3)"
      using moves_deferred [of "map IoOp rest" K s3] by (simp add: list_all_iff)
    ultimately show ?thesis using moves_trans [OF m] Cons by simp
  qed
qed

lemma reactor_complete_law:
  assumes "reactor_complete K program p s = Some (r, s')" "\<not> is_task p" "disciplined s" "reactor_ok K s"
  shows "disciplined s' \<and> reactor_ok K s' \<and> length (call_stack s') = length (call_stack s)
    \<and> balance pending s' = balance pending s + (if user_op p then 0 else 1) \<and> r \<noteq> Inl (UB DoubleLink)"
proof (cases "user_op p")
  case True
  then have "handler_complete K program p s = Some (r, s')" using assms(1) by (cases p) (simp_all add: reactor_complete_def)
  from handler_complete_moves(1,3) [OF this] show ?thesis using assms(3,4) True by (simp add: settles_def)
next
  case False
  then obtain d where p: "p = DescriptorOp d" using assms(2) by (cases p) auto
  obtain first s1 where 1: "perform_io K d (task_result (descriptors s d)) s = (first, s1)"
    by (cases "perform_io K d (task_result (descriptors s d)) s")
  note m = perform_io_moves [OF 1]
  show ?thesis
  proof (cases first)
    case None
    then show ?thesis using assms 1 m p by (auto simp: reactor_complete_def descriptor_complete_def moves_def)
  next
    case (Some q)
    then have "handler_complete K program (IoOp q) s1 = Some (r, s')"
      using assms(1) 1 p by (simp add: reactor_complete_def descriptor_complete_def)
    from handler_complete_moves(1,3) [OF this] show ?thesis
      using m assms(3,4) False by (auto simp: settles_def moves_def)
  qed
qed

lemma reactor_complete_runs:
  assumes "reactor_complete K program p s = Some (r, s')" "\<And>p u. AStop \<notin> set (fst (program p u))" "reactor_ok K s" "disciplined s"
  shows "srv_stopped s' = srv_stopped s"
proof (cases "\<exists>d. p = DescriptorOp d")
  case False
  then have "handler_complete K program p s = Some (r, s')" using assms(1) by (cases p) (simp_all add: reactor_complete_def)
  from handler_complete_moves(2) [OF this] show ?thesis using assms(2-4) by (simp add: moves_def)
next
  case True
  then obtain d where p: "p = DescriptorOp d" by blast
  obtain first s1 where 1: "perform_io K d (task_result (descriptors s d)) s = (first, s1)"
    by (cases "perform_io K d (task_result (descriptors s d)) s")
  note m = perform_io_moves [OF 1]
  show ?thesis
  proof (cases first)
    case None
    then show ?thesis using assms 1 m p by (auto simp: reactor_complete_def descriptor_complete_def moves_def)
  next
    case (Some q)
    then have "handler_complete K program (IoOp q) s1 = Some (r, s')"
      using assms(1) 1 p by (simp add: reactor_complete_def descriptor_complete_def)
    from handler_complete_moves(2) [OF this] show ?thesis using m assms(2-4) by (auto simp: moves_def)
  qed
qed

section \<open>Running the reactor\<close>

text \<open>What the task does to the state of the loop: it fills the queue of the innermost context.\<close>

definition hands_out :: "'k kernel \<Rightarrow> ('h, 'k, 'u) reactor \<Rightarrow> ('h, 'k, 'u) reactor \<Rightarrow> bool" where
  "hands_out K s s' \<longleftrightarrow> (reactor_ok K s \<and> call_stack s \<noteq> [] \<longrightarrow>
     (\<exists>ps. call_stack s' = (hd (call_stack s))\<lparr>private_queue := private_queue (hd (call_stack s)) @ ps\<rparr> # tl (call_stack s)
        \<and> list_all (\<lambda>p. \<not> is_task p) ps)
     \<and> srv_queue s' = srv_queue s \<and> has_task s' = has_task s \<and> srv_stopped s' = srv_stopped s
     \<and> queue_set s' = queue_set s \<and> timer_fd s' = timer_fd s
     \<and> reactor_ok K s' \<and> balance pending s' = balance pending s)"

lemma hands_out_refl: "hands_out K s s"
  by (cases "call_stack s") (auto simp: hands_out_def intro: exI [of _ "[]"])

lemma hands_out_trans: "hands_out K s s1 \<Longrightarrow> hands_out K s1 s2 \<Longrightarrow> hands_out K s s2"
  unfolding hands_out_def by (clarsimp, rule exI, rule conjI, rule refl) simp

lemma hands_out_kern: "hands_out K s (s\<lparr>kern := k\<rparr>)"
  using hands_out_refl [of K s] by (simp add: hands_out_def reactor_ok_def balance_def pending_def)

lemma push_private_simps [simp]:
  "descriptors (push_private ps s) = descriptors s" "queues (push_private ps s) = queues s"
  "queue_set (push_private ps s) = queue_set s" "timer_fd (push_private ps s) = timer_fd s"
  "srv_queue (push_private ps s) = srv_queue s" "has_task (push_private ps s) = has_task s"
  "srv_stopped (push_private ps s) = srv_stopped s" "outstanding_work (push_private ps s) = outstanding_work s"
  by (simp_all add: push_private_def upd_context_def)

lemma upd_queue_simps [simp]:
  "descriptors (upd_queue q tq s) = descriptors s" "queue_set (upd_queue q tq s) = queue_set s" "timer_fd (upd_queue q tq s) = timer_fd s"
  "srv_queue (upd_queue q tq s) = srv_queue s" "has_task (upd_queue q tq s) = has_task s" "call_stack (upd_queue q tq s) = call_stack s"
  "srv_stopped (upd_queue q tq s) = srv_stopped s" "outstanding_work (upd_queue q tq s) = outstanding_work s"
  by (simp_all add: upd_queue_def)

lemma linked_push:
  "call_stack s \<noteq> [] \<Longrightarrow> linked d' (push_private [DescriptorOp d] (upd_descriptor d f s)) \<longleftrightarrow> d' = d \<or> linked d' s"
  by (cases "call_stack s") (auto simp: linked_def push_private_def upd_context_def upd_descriptor_def is_descriptor_def)

lemma hands_out_descriptor:
  assumes "\<And>st. op_queues (f st) = op_queues st"
  shows "hands_out K s (push_private [DescriptorOp d] (upd_descriptor d f s))"
proof -
  have "desc_pending (descriptors (upd_descriptor d f s) d') = desc_pending (descriptors s d')" for d'
    using assms by (simp add: upd_descriptor_def desc_pending_def)
  moreover have "queues (upd_descriptor d f s) = queues s" by (simp add: upd_descriptor_def)
  ultimately have "pending (push_private [DescriptorOp d] (upd_descriptor d f s)) = pending s"
    "reactor_ok K (push_private [DescriptorOp d] (upd_descriptor d f s)) = reactor_ok K s"
    by (simp_all add: pending_def reactor_ok_def)
  then show ?thesis
    by (cases "call_stack s")
      (auto simp: hands_out_def balance_def push_private_def upd_context_def upd_descriptor_def)
qed

lemma dispatch_events_hands_out:
  assumes "dispatch_events evs c s = (r, s')" "call_stack s \<noteq> []" "reactor_ok K s"
    "\<forall>d \<in> set (event_descriptors evs). \<not> linked d s" "distinct (event_descriptors evs)"
  shows "hands_out K s s' \<and> (\<exists>c'. r = Inr c')"
  using assms
proof (induction evs arbitrary: c s)
  case Nil
  then show ?case using hands_out_refl [of K s] by auto
next
  case (Cons ev evs)
  show ?case
  proof (cases ev)
    case (EvDescriptor d events)
    let ?f = "\<lambda>st. st\<lparr>task_result := events\<rparr>"
    let ?s = "push_private [DescriptorOp d] (upd_descriptor d ?f s)"
    have h: "hands_out K s ?s" by (rule hands_out_descriptor) simp
    have d: "dispatch_events evs c ?s = (r, s')" using Cons.prems(1,4) EvDescriptor by simp
    have "call_stack ?s \<noteq> []" "reactor_ok K ?s" using h Cons.prems(2,3) by (auto simp: hands_out_def)
    moreover have "\<forall>d \<in> set (event_descriptors evs). \<not> linked d ?s"
      using Cons.prems(2,4,5) EvDescriptor linked_push [of s _ d ?f] by auto
    ultimately show ?thesis
      using Cons.IH [OF d] Cons.prems(5) EvDescriptor hands_out_trans [OF h] by simp
  qed (use Cons in \<open>auto split: if_splits\<close>)
qed

lemma set_ready_hands_out:
  assumes "set_ready K qs s = Some s'" "call_stack s \<noteq> []" "reactor_ok K s"
  shows "hands_out K s s'"
  using assms
proof (induction qs arbitrary: s)
  case Nil
  then show ?case using hands_out_refl [of K s] by simp
next
  case (Cons q qs)
  show ?case
  proof (cases "heap (queues s q) = []")
    case True
    then show ?thesis using Cons by simp
  next
    case False
    obtain now k where c: "k_clock K (kern s) = (now, k)" by (cases "k_clock K (kern s)")
    have qok: "tq_ok (queues s q)" using Cons.prems(3) by (simp add: reactor_ok_def)
    obtain ps tq where r: "get_ready_timers now [] (queues s q) = Some (ps, tq)" "tq_ok tq" "tq_pending tq + length ps = tq_pending (queues s q)"
      by (rule tq_drain [OF qok])
    let ?s = "push_private (map TimerOp ps) (upd_queue q tq (s\<lparr>kern := k\<rparr>))"
    have s: "set_ready K qs ?s = Some s'" using Cons.prems(1) False c r(1) by simp
    let ?f = "\<lambda>q. tq_pending (queues s q)"
    have g: "(\<lambda>q'. tq_pending (queues ?s q')) = ?f(q := tq_pending tq)" by (auto simp: push_private_def upd_context_def upd_queue_def)
    have f: "finite {q. ?f q \<noteq> 0}" using Cons.prems(3) by (simp add: reactor_ok_def)
    have fin: "finite {q'. tq_pending (queues ?s q') \<noteq> 0}"
      using finite_support_upd [OF f, of q "tq_pending tq"] by (simp only: g [symmetric])
    have sum: "supp_sum (\<lambda>q'. tq_pending (queues ?s q')) + ?f q = supp_sum ?f + tq_pending tq"
      using supp_sum_upd [OF f, of q "tq_pending tq"] by (simp only: g [symmetric])
    have same: "descriptors ?s = descriptors s" "srv_queue ?s = srv_queue s" "outstanding_work ?s = outstanding_work s"
      "srv_stopped ?s = srv_stopped s" "has_task ?s = has_task s" "queue_set ?s = queue_set s" "timer_fd ?s = timer_fd s"
      "call_stack ?s = (hd (call_stack s))\<lparr>private_queue := private_queue (hd (call_stack s)) @ map TimerOp ps\<rparr> # tl (call_stack s)"
      using Cons.prems(2) by (auto simp: push_private_def upd_context_def upd_queue_def split: list.splits)
    have ok: "reactor_ok K ?s"
      unfolding reactor_ok_def same using fin Cons.prems(3) r(2)
      by (intro conjI allI) (auto simp: reactor_ok_def push_private_def upd_context_def upd_queue_def)
    have "pending ?s + int (length ps) = pending s" using sum r(3) by (simp add: pending_def same)
    then have "balance pending ?s = balance pending s"
      using Cons.prems(2) by (cases "call_stack s") (simp_all add: balance_def same)
    then have h: "hands_out K s ?s"
      unfolding hands_out_def using ok same by (intro impI conjI exI [of _ "map TimerOp ps"]) (simp_all add: list_all_iff)
    have "call_stack ?s \<noteq> []" using same(8) by simp
    then show ?thesis using hands_out_trans [OF h Cons.IH [OF s _ ok]] by simp
  qed
qed

lemma set_timerfd_hands_out:
  assumes "set_timerfd K s = (r, s')"
  shows "hands_out K s s' \<and> r \<noteq> Inl (UB DoubleLink)"
  using set_timerfd_moves(2,3) [OF assms] hands_out_kern [of K s] by auto

text \<open>One round of the reactor, on a loop whose queue holds no descriptor any more.\<close>

lemma epoll_run_hands_out:
  assumes "epoll_run K block s = Some (r, s')" "call_stack s \<noteq> []" "reactor_ok K s" "\<forall>d. \<not> linked d s"
  shows "hands_out K s s' \<and> r \<noteq> Inl (UB DoubleLink)"
proof -
  obtain r1 s1 where 1: "epoll_timeout K block s = (r1, s1)" by (cases "epoll_timeout K block s")
  have k1: "\<exists>k. s1 = s\<lparr>kern := k\<rparr>" "r1 \<noteq> Inl (UB DoubleLink)"
    using 1 set_wait_moves [of K wait_duration_msec "queue_set s" "5 * 60 * 1000" s r1 s1] wait_duration_fault
    by (auto simp: epoll_timeout_def get_timeout_def split: if_splits intro: exI [of _ "kern s"])
  then have h1: "hands_out K s s1" using hands_out_kern by auto
  show ?thesis
  proof (cases r1)
    case (Inl e)
    then show ?thesis using assms(1) 1 h1 k1 by (auto simp: epoll_run_def)
  next
    case (Inr m)
    obtain evs k where w: "k_epoll_wait K m (kern s1) = Some (evs, k)"
      using assms(1) 1 Inr by (auto simp: epoll_run_def Option.bind_eq_Some_conv)
    obtain r2 s2 where 2: "dispatch_events evs (timer_fd s1 = - 1) (s1\<lparr>kern := k\<rparr>) = (r2, s2)"
      by (cases "dispatch_events evs (timer_fd s1 = - 1) (s1\<lparr>kern := k\<rparr>)")
    have h: "hands_out K s (s1\<lparr>kern := k\<rparr>)" by (rule hands_out_trans [OF h1 hands_out_kern])
    have c: "call_stack (s1\<lparr>kern := k\<rparr>) \<noteq> []" "reactor_ok K (s1\<lparr>kern := k\<rparr>)" using h assms(2,3) by (auto simp: hands_out_def)
    have "\<forall>d. \<not> linked d (s1\<lparr>kern := k\<rparr>)" using assms(4) k1(1) by (auto simp: linked_def)
    moreover have "distinct (event_descriptors evs)" using assms(3) w by (auto simp: reactor_ok_def kernel_ok_def)
    ultimately have d: "hands_out K (s1\<lparr>kern := k\<rparr>) s2" "\<exists>c'. r2 = Inr c'"
      using dispatch_events_hands_out [OF 2 c] by auto
    have h2: "hands_out K s s2" by (rule hands_out_trans [OF h d(1)])
    obtain c' where c': "r2 = Inr c'" using d(2) by blast
    show ?thesis
    proof (cases c')
      case False
      then show ?thesis using assms(1) 1 2 Inr w c' h2 by (auto simp: epoll_run_def)
    next
      case True
      then have "check_timer_queues K s2 = Some (r, s')" using assms(1) 1 2 Inr w c' by (simp add: epoll_run_def)
      then obtain s3 where 3: "set_ready K (queue_set s2) s2 = Some s3"
        and e: "(if timer_fd s3 \<noteq> - 1 then set_timerfd K s3 else (Inr (), s3)) = (r, s')"
        by (auto simp: check_timer_queues_def Option.bind_eq_Some_conv)
      have "call_stack s2 \<noteq> []" "reactor_ok K s2" using h2 assms(2,3) by (auto simp: hands_out_def)
      then have h3: "hands_out K s s3" using hands_out_trans [OF h2 set_ready_hands_out [OF 3]] by simp
      show ?thesis
        using e h3 set_timerfd_hands_out [of K s3 r s'] hands_out_trans [OF h3] by (auto split: if_splits)
    qed
  qed
qed

section \<open>The interface holds for the reactor\<close>

lemma quiet_unlinked: "quiet s \<Longrightarrow> \<not> linked d s"
  by (auto simp: quiet_def private_ok_def linked_def list_all_iff list_ex_iff is_descriptor_def split: operation.splits)
    fastforce+

lemma pending_own: "task_io_service.more s = task_io_service.more s' \<Longrightarrow> pending s = pending s' \<and> reactor_ok K s = reactor_ok K s'"
  by (cases s; cases s') (simp add: pending_def reactor_ok_def)

interpretation loop: event_loop "epoll_run K" "epoll_interrupt K" "reactor_complete K program" pending "reactor_ok K"
  for K :: "'k kernel" and program :: "'h operation \<Rightarrow> 'u \<Rightarrow> 'h action list \<times> 'u"
proof
  fix s s' :: "('h, 'k, 'u) reactor"
  assume "task_io_service.more s = task_io_service.more s'"
  then show "pending s = pending s' \<and> reactor_ok K s = reactor_ok K s'" by (rule pending_own)
next
  fix s :: "('h, 'k, 'u) reactor"
  have "epoll_interrupt K s = s\<lparr>kern := snd (k_epoll_ctl K ModInterrupter (kern s))\<rparr>"
    by (simp add: epoll_interrupt_def ctl_def case_prod_beta)
  then show "\<exists>z. epoll_interrupt K s = s\<lparr>task_io_service.more := z\<rparr> \<and> pending (epoll_interrupt K s) = pending s
      \<and> (reactor_ok K s \<longrightarrow> reactor_ok K (epoll_interrupt K s))"
    by (cases s) (simp add: pending_def reactor_ok_def)
next
  fix b r t ts and s s' :: "('h, 'k, 'u) reactor"
  assume "epoll_run K b s = Some (r, s')" "quiet s" "reactor_ok K s" "call_stack s = t # ts" "private_queue t = []"
  then show "(\<exists>t'. call_stack s' = t' # ts \<and> 0 \<le> private_work t' \<and> list_all (\<lambda>p. \<not> is_task p) (private_queue t'))
        \<and> srv_queue s' = srv_queue s \<and> has_task s' = has_task s \<and> srv_stopped s' = srv_stopped s
        \<and> reactor_ok K s' \<and> balance pending s' = balance pending s \<and> r \<noteq> Inl (UB DoubleLink)"
    using epoll_run_hands_out [of K b s r s'] quiet_unlinked [of s] quiet_private [of s]
    by (auto simp: hands_out_def private_ok_def)
next
  fix p r and s s' :: "('h, 'k, 'u) reactor"
  assume "reactor_complete K program p s = Some (r, s')" "\<not> is_task p" "disciplined s" "reactor_ok K s" "at_rest s"
  then show "disciplined s' \<and> reactor_ok K s' \<and> length (call_stack s') = length (call_stack s)
      \<and> balance pending s' = balance pending s + (if user_op p then 0 else 1) \<and> r \<noteq> Inl (UB DoubleLink)"
    by (intro reactor_complete_law)
qed

text \<open>Programs that never stop the service.\<close>

definition unstopping :: "('h operation \<Rightarrow> 'u \<Rightarrow> 'h action list \<times> 'u) \<Rightarrow> 'h operation \<Rightarrow> 'u \<Rightarrow> 'h action list \<times> 'u" where
  "unstopping program p u = (filter (\<lambda>a. a \<noteq> AStop) (fst (program p u)), snd (program p u))"

lemma unstopping_id: "(\<And>p u. AStop \<notin> set (fst (program p u))) \<Longrightarrow> unstopping program = program"
proof (intro ext)
  fix p u
  assume "\<And>p u. AStop \<notin> set (fst (program p u))"
  then have "filter (\<lambda>a. a \<noteq> AStop) (fst (program p u)) = fst (program p u)" by (auto simp: filter_id_conv)
  then show "unstopping program p u = program p u" by (simp add: unstopping_def)
qed

interpretation idle: unstopped_loop "epoll_run K" "epoll_interrupt K" "reactor_complete K (unstopping program)" pending "reactor_ok K"
  for K :: "'k kernel" and program :: "'h operation \<Rightarrow> 'u \<Rightarrow> 'h action list \<times> 'u"
proof
  fix p r and s s' :: "('h, 'k, 'u) reactor"
  assume "reactor_complete K (unstopping program) p s = Some (r, s')" "disciplined s" "reactor_ok K s"
  then show "srv_stopped s' = srv_stopped s" by (intro reactor_complete_runs [of K "unstopping program" p s r s']) (simp_all add: unstopping_def)
next
  fix s :: "('h, 'k, 'u) reactor"
  show "0 \<le> pending s" by (simp add: pending_def)
qed

section \<open>The properties\<close>

lemma event_loop_settled:
  "disciplined s \<Longrightarrow> reactor_ok K s \<Longrightarrow> reactor_run K program s = Some (r, s') \<Longrightarrow> reactor_ok K s'"
  using loop.service_settled(1) [of s K program "(r, s')"] by (simp add: reactor_run_def loop.settled_def)

text \<open>
  A service to try the properties on: a kernel whose clock advances by a second whenever \<open>epoll_wait\<close> blocks, the
  timer descriptor being ready then, and a program whose first handler arms a timer for one and a half
  seconds and whose timer posts a second handler.
\<close>

definition kernel0 :: "int kernel" where
  "kernel0 = \<lparr>k_epoll_wait = \<lambda>m c. if m = 0 then Some ([], c) else Some ([EvTimerFd], c + 1000000), k_epoll_ctl = \<lambda>_ c. (0, c),
     k_timerfd_settime = \<lambda>_ _ _ c. c, k_clock = \<lambda>c. (c, c), k_perform = \<lambda>p c. (True, p, c)\<rparr>"

definition program0 :: "nat operation \<Rightarrow> unit \<Rightarrow> nat action list \<times> unit" where
  "program0 p u = (case p of
       HandlerOp h \<Rightarrow> if h = 0 then [ASchedule 0 1500000 7 \<lparr>op_id = 1, op_aborted = False\<rparr>] else []
     | TimerOp w \<Rightarrow> [APost 1]
     | _ \<Rightarrow> [], u)"

definition descriptor0 :: descriptor_state where
  "descriptor0 = \<lparr>descriptor = - 1, registered_events = 0, op_queues = \<lambda>_. [], d_shutdown = True, task_result = 0\<rparr>"

definition reactor0 :: "(nat, int, unit) reactor" where
  "reactor0 = service_post (epoll_interrupt kernel0) 0 (init_task (epoll_interrupt kernel0)
     (add_timer_queue 0 (epoll_reactor_new kernel0 3 (\<lambda>_. queue0) (\<lambda>_. descriptor0) 2 0 ())))"

lemma reactor0_fields:
  "srv_queue reactor0 = [TaskOp, HandlerOp 0]" "has_task reactor0" "call_stack reactor0 = []" "outstanding_work reactor0 = 1"
  "\<not> srv_stopped reactor0" "queue_set reactor0 = [0]" "timer_fd reactor0 = 3" "kern reactor0 = 0"
  by code_simp+

lemma reactor0_members: "queues reactor0 = (\<lambda>_. queue0)" "descriptors reactor0 = (\<lambda>_. descriptor0)"
  by (simp_all add: reactor0_def service_post_def post_immediate_completion_def wake_one_thread_def interrupt_task_def
      epoll_interrupt_def ctl_def kernel0_def push_ops_def work_started_def init_task_def add_timer_queue_def epoll_reactor_new_def
      task_io_service_new_def task_io_service.defs push_private_def upd_context_def)

lemma queue0_ok: "tq_ok queue0" "tq_pending queue0 = 0" "desc_pending descriptor0 = 0"
proof -
  have e: "op_queue (data queue0 t) = []" for t by (simp add: queue0_def timer_queue_new_def per_timer_data_def)
  then show "tq_ok queue0" using queue0_inv by (simp add: tq_ok_def)
  have "ops_at queue0 = (\<lambda>t. 0)" using e by (auto simp: ops_at_def)
  then show "tq_pending queue0 = 0" by (simp add: tq_pending_def supp_sum_def)
  show "desc_pending descriptor0 = 0" by (simp add: desc_pending_def descriptor0_def)
qed

lemma kernel0_ok: "kernel_ok kernel0"
  by (auto simp: kernel_ok_def kernel0_def split: if_splits)

lemma reactor0_ready:
  "disciplined reactor0" "reactor_ok kernel0 reactor0" "balance pending reactor0 = 0"
proof -
  show "disciplined reactor0"
    by (rule disciplinedI [of _ "[]" "[HandlerOp 0]"]) (simp_all add: reactor0_fields private_ok_def)
  show "reactor_ok kernel0 reactor0" by (simp add: reactor_ok_def reactor0_members queue0_ok kernel0_ok)
  show "balance pending reactor0 = 0"
    by (simp add: balance_def pending_def reactor0_fields reactor0_members queue0_ok supp_sum_def)
qed

lemma reactor0_run: "\<exists>s'. reactor_run kernel0 program0 reactor0 = Some (Inr 3, s') \<and> kern s' = 2000000"
proof -
  have "map_option (\<lambda>(r, s'). (r, kern s')) (reactor_run kernel0 program0 reactor0) = Some (Inr 3, 2000000)" by code_simp
  then show ?thesis by auto
qed

text \<open>
  C6: Running or polling a service with its reactor, for every kernel and every program, accounts for all
  work: the outstanding count minus what is queued or waits for a timer or a descriptor is the same
  after as before, the marker of the reactor is queued exactly once with only user operations
  behind it, no descriptor is ever linked into a queue twice, and the contexts that were entered are left.
\<close>

theorem event_loop_accounts:
  assumes "disciplined s" "reactor_ok K s"
    "reactor_run K program s = Some (r, s') \<or> reactor_poll K program s = Some (r, s')"
  shows "disciplined s' \<and> reactor_ok K s' \<and> balance pending s' = balance pending s
    \<and> length (call_stack s') = length (call_stack s) \<and> r \<noteq> Inl (UB DoubleLink)"
  using loop.service_settled(1,3) [OF assms(1,2), of program "(r, s')"] assms(3)
  by (auto simp: reactor_run_def reactor_poll_def loop.settled_def)

theorem event_loop_accounts_witness:
  "\<exists>s'. reactor_run kernel0 program0 reactor0 = Some (Inr 3, s') \<and> disciplined s' \<and> balance pending s' = 0 \<and> call_stack s' = []"
proof -
  obtain s' where r: "reactor_run kernel0 program0 reactor0 = Some (Inr 3, s')" using reactor0_run by blast
  then show ?thesis
    using event_loop_accounts [OF reactor0_ready(1,2), of program0 "Inr 3" s'] reactor0_ready(3) reactor0_fields(3) by simp
qed

text \<open>
  C7: If no handler stops the service, a run from the top level that returns without an exception has
  done all the work: no operation is queued, no timer and no descriptor has a pending one, and the
  outstanding count is zero.
\<close>

theorem run_returns_when_done:
  assumes "reactor_run K program s = Some (Inr n, s')" "disciplined s" "reactor_ok K s" "call_stack s = []"
    "balance pending s = 0" "\<not> srv_stopped s" "\<And>p u. AStop \<notin> set (fst (program p u))"
  shows "srv_stopped s' \<and> outstanding_work s' = 0 \<and> list_all (\<lambda>p. \<not> user_op p) (srv_queue s')
    \<and> (\<forall>q t. op_queue (data (queues s' q) t) = []) \<and> (\<forall>d. desc_pending (descriptors s' d) = 0)"
proof -
  have r: "service_run (epoll_run K) (epoll_interrupt K) (reactor_complete K (unstopping program)) s = Some (Inr n, s')"
    using assms(1) unstopping_id [OF assms(7)] by (simp add: reactor_run_def)
  note c = idle.run_completes [OF r assms(2-6)]
  have ok: "reactor_ok K s'" using event_loop_settled [OF assms(2,3,1)] by simp
  then have f: "finite {q. tq_pending (queues s' q) \<noteq> 0}" "finite {d. desc_pending (descriptors s' d) \<noteq> 0}" "\<And>q. tq_ok (queues s' q)"
    by (auto simp: reactor_ok_def)
  have "tq_pending (queues s' q) = 0" "desc_pending (descriptors s' d) = 0" for q d
    using c(3) supp_sum_zero [OF f(1)] supp_sum_zero [OF f(2)] by (auto simp: pending_def)
  moreover have "ops_at (queues s' q) t = 0" if "tq_pending (queues s' q) = 0" for q t
    using that supp_sum_zero [OF tq_ok_finite [OF f(3)]] by (simp add: tq_pending_def)
  ultimately show ?thesis using c by (simp add: ops_at_def)
qed

theorem run_returns_when_done_witness:
  "\<exists>s'. reactor_run kernel0 program0 reactor0 = Some (Inr 3, s') \<and> kern s' = 2000000 \<and> outstanding_work s' = 0
     \<and> op_queue (data (queues s' 0) 7) = []"
proof -
  obtain s' where r: "reactor_run kernel0 program0 reactor0 = Some (Inr 3, s')" "kern s' = 2000000" using reactor0_run by blast
  have "AStop \<notin> set (fst (program0 p u))" for p u by (simp add: program0_def split: operation.split)
  then show ?thesis
    using run_returns_when_done [OF r(1) reactor0_ready(1,2) reactor0_fields(3) reactor0_ready(3) reactor0_fields(5)] r by blast
qed

end
