(* ===== verification/ReactorTimers.thy ===== *)
theory ReactorTimers imports ReactorLoop begin

text \<open>
  The reactor's timer descriptor: whenever it is set, it fires when the earliest timer expires, as far as the
  two clocks involved allow, and every operation that does not set it leaves it early enough. The queues
  read the wall clock, which may be set at any time; the descriptor runs on the monotonic one.
\<close>

section \<open>Kernels that keep time\<close>

text \<open>
  When a descriptor set at time \<open>now\<close> fires: after the given span, or, with an absolute time in the past
  of its clock, at once.
\<close>

definition fire_time :: "ptime_rep \<Rightarrow> int \<Rightarrow> int \<Rightarrow> int \<Rightarrow> int" where
  "fire_time now flags sec nsec = (if flags = TFD_TIMER_ABSTIME then now else now + sec * 1000000 + nsec div 1000)"

definition in_range :: "ptime_rep \<Rightarrow> bool" where
  "in_range c \<longleftrightarrow> - 4000000000000000000 < c \<and> c < 4000000000000000000"

text \<open>Times a timer can be set to here: any time in the range of the clock, or \<open>pos_infin\<close>.\<close>

definition timer_time :: "ptime_rep \<Rightarrow> bool" where
  "timer_time c \<longleftrightarrow> in_range c \<or> base_time_is_positive_infinity c"

definition now_of :: "'k kernel \<Rightarrow> 'k \<Rightarrow> ptime_rep" where
  "now_of K k = fst (k_clock K k)"

text \<open>
  How a state of the kernel is read: when the timer descriptor fires next and what the monotonic clock shows, both in
  microseconds. The other members describe how exact a kernel is: the wall clock's offset from the monotonic clock,
  by how much it deviates from it, and how long a call takes that reads the clock or sets the descriptor.
\<close>

record 'k clocks =
  fires_at :: "'k \<Rightarrow> int"
  monotonic :: "'k \<Rightarrow> int"
  offset :: int
  deviation :: int
  call_time :: int

definition later :: "'k clocks \<Rightarrow> 'k \<Rightarrow> 'k \<Rightarrow> bool" where
  "later C k k' \<longleftrightarrow> fires_at C k' = fires_at C k \<and> monotonic C k \<le> monotonic C k'"

text \<open>
  What \<open>clock_gettime\<close>, \<open>gettimeofday\<close> and \<open>timerfd_settime\<close> promise: the monotonic clock never goes back and counts from
  an unspecified start in the past; the wall clock may show anything, within the range of the time type; a valid
  relative setting fires when its span has passed since the call, one with an absolute time when the clock has
  reached it, at once if it has; no other call changes that.
\<close>

definition clock_kernel :: "'k kernel \<Rightarrow> 'k clocks \<Rightarrow> bool" where
  "clock_kernel K C \<longleftrightarrow>
     (\<forall>k. 0 \<le> monotonic C k \<and> in_range (now_of K k) \<and> later C k (snd (k_clock K k)))
     \<and> (\<forall>f sec nsec k. let k' = k_timerfd_settime K f sec nsec k in monotonic C k \<le> monotonic C k'
          \<and> (0 \<le> sec \<longrightarrow> 0 \<le> nsec \<longrightarrow> nsec < 1000000000 \<longrightarrow> (sec, nsec) \<noteq> (0, 0) \<longrightarrow>
             fires_at C k' \<le> (if f = TFD_TIMER_ABSTIME then max (monotonic C k') (sec * 1000000 + nsec div 1000)
                             else monotonic C k' + sec * 1000000 + nsec div 1000)))
     \<and> (\<forall>c k. later C k (snd (k_epoll_ctl K c k)))
     \<and> (\<forall>p k. later C k (snd (snd (k_perform K p k))))
     \<and> (\<forall>m k evs k'. k_epoll_wait K m k = Some (evs, k') \<longrightarrow> later C k k')"

text \<open>The kernels on which the wall clock stays near the monotonic one, and calls return soon.\<close>

definition accurate :: "'k kernel \<Rightarrow> 'k clocks \<Rightarrow> bool" where
  "accurate K C \<longleftrightarrow>
     (\<forall>k. let (now, k') = k_clock K k in monotonic C k' \<le> monotonic C k + call_time C
        \<and> monotonic C k + offset C - deviation C \<le> now \<and> now \<le> monotonic C k' + offset C + deviation C)
     \<and> (\<forall>f sec nsec k. monotonic C (k_timerfd_settime K f sec nsec k) \<le> monotonic C k + call_time C)"

lemma clock_kernel_clock: "clock_kernel K C \<Longrightarrow> in_range (now_of K k) \<and> later C k (snd (k_clock K k))"
  by (simp add: clock_kernel_def)

lemma clock_read: "k_clock K k = (now_of K k, snd (k_clock K k))"
  by (simp add: now_of_def)

lemma later_refl: "later C k k"
  by (simp add: later_def)

lemma later_trans: "later C k k1 \<Longrightarrow> later C k1 k2 \<Longrightarrow> later C k k2"
  by (auto simp: later_def)

lemma accurate_clock:
  assumes "accurate K C"
  shows "monotonic C (snd (k_clock K k)) \<le> monotonic C k + call_time C" "monotonic C k + offset C - deviation C \<le> now_of K k"
    "now_of K k \<le> monotonic C (snd (k_clock K k)) + offset C + deviation C"
  using assms unfolding accurate_def now_of_def by (auto simp: case_prod_beta)

lemma call_time_nonneg: "clock_kernel K C \<Longrightarrow> accurate K C \<Longrightarrow> 0 \<le> call_time C"
  using accurate_clock(1) [of K C undefined] clock_kernel_clock [of K C undefined] by (simp add: later_def)

text \<open>
  The descriptor fires within five minutes, and on an accurate kernel before any timer of the set
  expires or when it already has. The slack is the deviation of the clocks and the time that setting the
  descriptor takes: it reads the clock at most once for each of \<open>n\<close> queues.
\<close>

definition slack :: "'k clocks \<Rightarrow> nat \<Rightarrow> int" where
  "slack C n = deviation C + (int n + 1) * call_time C"

definition early_enough :: "'k kernel \<Rightarrow> 'k clocks \<Rightarrow> nat \<Rightarrow> 'k \<Rightarrow> timer_queue \<Rightarrow> bool" where
  "early_enough K C n k q \<longleftrightarrow> (\<forall>e \<in> set (heap q). fires_at C k \<le> monotonic C k + 300000000
     \<and> (accurate K C \<longrightarrow> fires_at C k \<le> max (monotonic C k) (fst e - offset C + slack C n)))"

definition armed :: "'k kernel \<Rightarrow> 'k clocks \<Rightarrow> ('h, 'k, 'u) reactor \<Rightarrow> bool" where
  "armed K C s \<longleftrightarrow> timer_fd s \<noteq> - 1 \<and> (\<forall>q \<in> set (queue_set s).
     (\<forall>e \<in> set (heap (queues s q)). timer_time (fst e))
     \<and> early_enough K C (length (queue_set s)) (kern s) (queues s q))"

section \<open>Setting the descriptor\<close>

lemma to_usec_min:
  assumes "0 \<le> m" "d \<le> 9223372036854775807" "0 < d"
  shows "to_usec d m = Inr (min d m)"
  using assms sdiv_smod_nonneg(1) [of 1000000 1000000] sdiv_smod_nonneg(1) [of d 1]
  by (simp add: to_usec_def total_microseconds_def int64_result min_def)

text \<open>The waiting time for a timer that never expires is without end too, and clipped.\<close>

lemma subtract_times_infinite:
  assumes "base_time_is_positive_infinity c" "in_range now"
  shows "subtract_times c now = Inr 9223372036854775807"
proof -
  have c: "c = 9223372036854775807" using assms(1) by (simp add: base_time_is_positive_infinity_def ia_defs)
  have "\<not> is_special int64_limits now" using assms(2) by (intro not_special_int64) (simp_all add: in_range_def)
  then show ?thesis unfolding c
    by (simp add: subtract_times_def ia_sub_def is_special_def ia_defs td_special_def to_special_def from_special_def)
qed

lemma wait_of_entry:
  assumes "timer_time c" "in_range now" "0 \<le> m" "m \<le> 300000000"
  shows "and_then (subtract_times c now) (\<lambda>d. to_usec d m) = Inr (min m (max 0 (c - now)))"
proof (cases "in_range c")
  case True
  have s: "subtract_times c now = Inr (c - now)" using True assms(2) by (intro subtract_times_exact) (simp_all add: in_range_def)
  show ?thesis
  proof (cases "c \<le> now")
    case True
    then show ?thesis using assms(3) s by (simp add: to_usec_def)
  next
    case False
    have "c - now \<le> 9223372036854775807" using True assms(2) by (simp add: in_range_def)
    then show ?thesis using False s to_usec_min [OF assms(3), of "c - now"] by (simp add: min.commute)
  qed
next
  case False
  then have p: "base_time_is_positive_infinity c" using assms(1) by (simp add: timer_time_def)
  then have c: "c = 9223372036854775807" by (simp add: base_time_is_positive_infinity_def ia_defs)
  have "to_usec 9223372036854775807 m = Inr (min 9223372036854775807 m)" by (rule to_usec_min [OF assms(3)]) simp_all
  moreover have "min 9223372036854775807 m = m" "min m (max 0 (c - now)) = m"
    using assms(2,4) by (simp_all add: c in_range_def)
  ultimately show ?thesis using subtract_times_infinite [OF p assms(2)] by simp
qed

lemma wait_usec:
  assumes "tq_inv q" "heap q \<noteq> []" "0 \<le> m" "m \<le> 300000000" "\<forall>e \<in> set (heap q). timer_time (fst e)" "in_range now"
  shows "\<exists>e \<in> set (heap q). wait_duration_usec now m q = Inr (min m (max 0 (fst e - now))) \<and> (\<forall>f \<in> set (heap q). fst e \<le> fst f)"
proof -
  define e where "e = heap q ! 0"
  have e: "e \<in> set (heap q)" "\<forall>f \<in> set (heap q). fst e \<le> fst f"
    using tq.first_in [OF assms(1)] tq.first_least [OF assms(1)] assms(2) by (auto simp: e_def)
  then have "timer_time (fst e)" using assms(5) by blast
  from wait_of_entry [OF this assms(6,3,4)] show ?thesis
    using assms(2) e by (auto simp: wait_duration_usec_def e_def)
qed

text \<open>What the clock shows at the first \<open>n\<close> readings from a state on.\<close>

primrec readings :: "'k kernel \<Rightarrow> nat \<Rightarrow> 'k \<Rightarrow> ptime_rep list" where
  "readings K 0 k = []"
| "readings K (Suc n) k = now_of K k # readings K n (snd (k_clock K k))"

lemma readings_mono: "set (readings K n k) \<subseteq> set (readings K (Suc n) k)"
  by (induction n arbitrary: k) auto

lemma readings_still: "(\<And>k. snd (k_clock K k) = k) \<Longrightarrow> now \<in> set (readings K n k) \<Longrightarrow> now = now_of K k"
  by (induction n) auto

lemma readings_accurate:
  "clock_kernel K C \<Longrightarrow> accurate K C \<Longrightarrow> now \<in> set (readings K n k) \<Longrightarrow> monotonic C k + offset C - deviation C \<le> now"
proof (induction n arbitrary: k)
  case (Suc n)
  then show ?case
    using accurate_clock(2) [OF Suc.prems(2), of k] clock_kernel_clock [OF Suc.prems(1), of k] Suc.IH [OF Suc.prems(1,2), of "snd (k_clock K k)"]
    by (fastforce simp: later_def)
qed simp

definition good_queues :: "nat list \<Rightarrow> (nat \<Rightarrow> timer_queue) \<Rightarrow> bool" where
  "good_queues qs f \<longleftrightarrow> (\<forall>q \<in> set qs. tq_inv (f q) \<and> (\<forall>e \<in> set (heap (f q)). timer_time (fst e)))"

lemma set_wait_usec:
  assumes "clock_kernel K C" "good_queues qs (queues s)" "0 \<le> m" "m \<le> 300000000"
  shows "\<exists>v k. set_wait K wait_duration_usec qs m s = (Inr v, s\<lparr>kern := k\<rparr>) \<and> 0 \<le> v \<and> v \<le> m \<and> later C (kern s) k
    \<and> ((\<forall>k. snd (k_clock K k) = k) \<longrightarrow> k = kern s)
    \<and> (accurate K C \<longrightarrow> monotonic C k \<le> monotonic C (kern s) + int (length qs) * call_time C)
    \<and> (\<forall>q \<in> set qs. \<forall>e \<in> set (heap (queues s q)). \<exists>now \<in> set (readings K (length qs) (kern s)). v \<le> max 0 (fst e - now))
    \<and> (v = m \<or> (\<exists>q \<in> set qs. \<exists>e \<in> set (heap (queues s q)). \<exists>now \<in> set (readings K (length qs) (kern s)). v = max 0 (fst e - now)))"
  using assms(2-4)
proof (induction qs arbitrary: m s)
  case Nil
  then show ?case by (intro exI [of _ m] exI [of _ "kern s"]) (simp add: later_refl)
next
  case (Cons q qs)
  let ?now = "now_of K (kern s)" and ?k = "snd (k_clock K (kern s))"
  let ?R = "set (readings K (length (q # qs)) (kern s))"
  have good: "good_queues qs (queues s)" and q: "tq_inv (queues s q)" "\<forall>e \<in> set (heap (queues s q)). timer_time (fst e)"
    using Cons.prems(1) by (simp_all add: good_queues_def)
  show ?case
  proof (cases "heap (queues s q) = []")
    case True
    then have s: "set_wait K wait_duration_usec (q # qs) m s = set_wait K wait_duration_usec qs m s" by (simp add: queue_wait_def)
    have sub: "set (readings K (length qs) (kern s)) \<subseteq> ?R" using readings_mono [of K "length qs" "kern s"] by simp
    obtain v k where v: "set_wait K wait_duration_usec qs m s = (Inr v, s\<lparr>kern := k\<rparr>)" "0 \<le> v" "v \<le> m" "later C (kern s) k"
      "(\<forall>k. snd (k_clock K k) = k) \<longrightarrow> k = kern s"
      "accurate K C \<longrightarrow> monotonic C k \<le> monotonic C (kern s) + int (length qs) * call_time C"
      "\<forall>q \<in> set qs. \<forall>e \<in> set (heap (queues s q)). \<exists>now \<in> set (readings K (length qs) (kern s)). v \<le> max 0 (fst e - now)"
      "v = m \<or> (\<exists>q \<in> set qs. \<exists>e \<in> set (heap (queues s q)). \<exists>now \<in> set (readings K (length qs) (kern s)). v = max 0 (fst e - now))"
      using Cons.IH [OF good Cons.prems(2,3)] by blast
    have a: "accurate K C \<longrightarrow> monotonic C k \<le> monotonic C (kern s) + int (length (q # qs)) * call_time C"
      using v(6) call_time_nonneg [OF assms(1)] by (auto simp: algebra_simps)
    have b: "\<forall>p \<in> set (q # qs). \<forall>e \<in> set (heap (queues s p)). \<exists>now \<in> ?R. v \<le> max 0 (fst e - now)"
      using v(7) sub True by (metis empty_iff empty_set set_ConsD subsetD)
    have c: "v = m \<or> (\<exists>p \<in> set (q # qs). \<exists>e \<in> set (heap (queues s p)). \<exists>now \<in> ?R. v = max 0 (fst e - now))"
      using v(8) sub by (meson list.set_intros(2) subsetD)
    show ?thesis unfolding s by (intro exI [of _ v] exI [of _ k] conjI v(1-5) a b c)
  next
    case False
    have r: "in_range ?now" "later C (kern s) ?k" using clock_kernel_clock [OF assms(1)] by blast+
    obtain e where e: "e \<in> set (heap (queues s q))" "wait_duration_usec ?now m (queues s q) = Inr (min m (max 0 (fst e - ?now)))"
        "\<forall>f \<in> set (heap (queues s q)). fst e \<le> fst f"
      using wait_usec [OF q(1) False Cons.prems(2,3) q(2) r(1)] by blast
    let ?m = "min m (max 0 (fst e - ?now))" and ?s = "s\<lparr>kern := ?k\<rparr>"
    have "queue_wait K wait_duration_usec q m s = (Inr ?m, ?s)"
      using False e(2) clock_read [of K "kern s"] by (simp add: queue_wait_def case_prod_beta now_of_def)
    then have s: "set_wait K wait_duration_usec (q # qs) m s = set_wait K wait_duration_usec qs ?m ?s" by simp
    have m: "0 \<le> ?m" "?m \<le> 300000000" "good_queues qs (queues ?s)" using Cons.prems good by auto
    obtain v k where v: "set_wait K wait_duration_usec qs ?m ?s = (Inr v, ?s\<lparr>kern := k\<rparr>)" "0 \<le> v" "v \<le> ?m" "later C (kern ?s) k"
      "(\<forall>k. snd (k_clock K k) = k) \<longrightarrow> k = kern ?s"
      "accurate K C \<longrightarrow> monotonic C k \<le> monotonic C (kern ?s) + int (length qs) * call_time C"
      "\<forall>q \<in> set qs. \<forall>e \<in> set (heap (queues ?s q)). \<exists>now \<in> set (readings K (length qs) (kern ?s)). v \<le> max 0 (fst e - now)"
      "v = ?m \<or> (\<exists>q \<in> set qs. \<exists>e \<in> set (heap (queues ?s q)). \<exists>now \<in> set (readings K (length qs) (kern ?s)). v = max 0 (fst e - now))"
      using Cons.IH [OF m(3,1,2)] by blast
    have R: "?R = insert ?now (set (readings K (length qs) ?k))" by simp
    have l: "later C (kern s) k" by (rule later_trans [OF r(2)]) (use v(4) in simp)
    have st: "(\<forall>k. snd (k_clock K k) = k) \<longrightarrow> k = kern s" using v(5) by auto
    have a: "accurate K C \<longrightarrow> monotonic C k \<le> monotonic C (kern s) + int (length (q # qs)) * call_time C"
      using v(6) accurate_clock(1) [of K C "kern s"] by (auto simp: algebra_simps)
    have "v \<le> max 0 (fst f - ?now)" if "f \<in> set (heap (queues s q))" for f using v(3) e(3) that by fastforce
    then have b: "\<forall>p \<in> set (q # qs). \<forall>e \<in> set (heap (queues s p)). \<exists>now \<in> ?R. v \<le> max 0 (fst e - now)"
      using v(7) unfolding R by auto
    have "v = m \<or> v = max 0 (fst e - ?now) \<or> (\<exists>p \<in> set qs. \<exists>e \<in> set (heap (queues s p)). \<exists>now \<in> set (readings K (length qs) ?k). v = max 0 (fst e - now))"
      using v(8) by (auto simp: min_def split: if_splits)
    then have c: "v = m \<or> (\<exists>p \<in> set (q # qs). \<exists>e \<in> set (heap (queues s p)). \<exists>now \<in> ?R. v = max 0 (fst e - now))"
      using e(1) unfolding R by auto
    show ?thesis unfolding s
      by (intro exI [of _ v] exI [of _ k] conjI v(2) l st a b c) (use v(1,3) in simp_all)
  qed
qed

text \<open>The outcome of setting the descriptor, which moves no timer.\<close>

lemma timerfd_bounds:
  assumes "timerfd_value v = (flags, sec, nsec)" "0 \<le> v" "v \<le> 300000000"
  shows "0 \<le> sec" "sec \<le> 300" "0 \<le> nsec" "nsec < 1000000000" "(sec, nsec) \<noteq> (0, 0)"
    "flags = (if v = 0 then TFD_TIMER_ABSTIME else 0)" "fire_time now flags sec nsec = now + v"
proof -
  have t: "sec = v div 1000000" "nsec = (if v \<noteq> 0 then (v mod 1000000) * 1000 else 1)" "flags = (if v \<noteq> 0 then 0 else TFD_TIMER_ABSTIME)"
    using assms(1) by (auto simp: timerfd_value_def)
  show "0 \<le> sec" "sec \<le> 300" using assms(2,3) by (simp_all add: t)
  have "0 \<le> v mod 1000000" "v mod 1000000 < 1000000" by simp_all
  then show "0 \<le> nsec" "nsec < 1000000000" unfolding t by (simp_all only: split: if_split) linarith+
  show "(sec, nsec) \<noteq> (0, 0)" using assms(2) unfolding t by (cases "v = 0") (simp, force)
  show "flags = (if v = 0 then TFD_TIMER_ABSTIME else 0)" using t(3) by simp
  show "fire_time now flags sec nsec = now + v"
  proof (cases "v = 0")
    case True
    then show ?thesis using t by (simp add: fire_time_def)
  next
    case False
    then have "fire_time now flags sec nsec = now + (v div 1000000 * 1000000 + v mod 1000000)"
      using t by (simp add: fire_time_def TFD_TIMER_ABSTIME_def)
    then show ?thesis by (simp only: div_mult_mod_eq)
  qed
qed

lemma settime_fires:
  assumes "clock_kernel K C" "timerfd_value v = (flags, sec, nsec)" "0 \<le> v" "v \<le> 300000000"
  shows "fires_at C (k_timerfd_settime K flags sec nsec k) \<le> monotonic C (k_timerfd_settime K flags sec nsec k) + v"
    "monotonic C k \<le> monotonic C (k_timerfd_settime K flags sec nsec k)"
proof -
  note b = timerfd_bounds [OF assms(2-4)]
  let ?k = "k_timerfd_settime K flags sec nsec k"
  have c: "fires_at C ?k \<le> (if flags = TFD_TIMER_ABSTIME then max (monotonic C ?k) (sec * 1000000 + nsec div 1000)
      else monotonic C ?k + sec * 1000000 + nsec div 1000)" "0 \<le> monotonic C ?k"
    "monotonic C k \<le> monotonic C ?k"
    using assms(1) b(1,3-5) by (simp_all add: clock_kernel_def Let_def)
  show "fires_at C ?k \<le> monotonic C ?k + v"
  proof (cases "v = 0")
    case True
    then have "flags = TFD_TIMER_ABSTIME" "sec = 0" "nsec = 1" using assms(2) by (simp_all add: timerfd_value_def)
    then show ?thesis using c(1,2) True by simp
  next
    case False
    then have "fires_at C ?k \<le> fire_time (monotonic C ?k) flags sec nsec"
      using c(1) b(6) by (simp add: fire_time_def TFD_TIMER_ABSTIME_def)
    then show ?thesis by (simp only: b(7))
  qed
  show "monotonic C k \<le> monotonic C ?k" by (rule c(3))
qed

lemma set_timerfd_outcome:
  assumes "clock_kernel K C" "good_queues (queue_set s) (queues s)"
  obtains v flags sec nsec k where "set_timerfd K s = (Inr (), s\<lparr>kern := k_timerfd_settime K flags sec nsec k\<rparr>)"
    "timerfd_value v = (flags, sec, nsec)" "0 \<le> v" "v \<le> 300000000" "later C (kern s) k"
    "(\<forall>k. snd (k_clock K k) = k) \<longrightarrow> k = kern s"
    "accurate K C \<longrightarrow> monotonic C k \<le> monotonic C (kern s) + int (length (queue_set s)) * call_time C"
    "\<forall>q \<in> set (queue_set s). \<forall>e \<in> set (heap (queues s q)). \<exists>now \<in> set (readings K (length (queue_set s)) (kern s)). v \<le> max 0 (fst e - now)"
    "v = 300000000 \<or> (\<exists>q \<in> set (queue_set s). \<exists>e \<in> set (heap (queues s q)). \<exists>now \<in> set (readings K (length (queue_set s)) (kern s)).
       v = max 0 (fst e - now))"
proof -
  obtain v k where v: "set_wait K wait_duration_usec (queue_set s) 300000000 s = (Inr v, s\<lparr>kern := k\<rparr>)" "0 \<le> v" "v \<le> 300000000"
    "later C (kern s) k" "(\<forall>k. snd (k_clock K k) = k) \<longrightarrow> k = kern s"
    "accurate K C \<longrightarrow> monotonic C k \<le> monotonic C (kern s) + int (length (queue_set s)) * call_time C"
    "\<forall>q \<in> set (queue_set s). \<forall>e \<in> set (heap (queues s q)). \<exists>now \<in> set (readings K (length (queue_set s)) (kern s)). v \<le> max 0 (fst e - now)"
    "v = 300000000 \<or> (\<exists>q \<in> set (queue_set s). \<exists>e \<in> set (heap (queues s q)). \<exists>now \<in> set (readings K (length (queue_set s)) (kern s)).
       v = max 0 (fst e - now))"
    using set_wait_usec [OF assms, of 300000000, simplified]
    by (elim exE conjE) (rule that, (assumption | simp)+)
  obtain flags sec nsec where t: "timerfd_value v = (flags, sec, nsec)" by (cases "timerfd_value v") auto
  have s: "set_timerfd K s = (Inr (), s\<lparr>kern := k_timerfd_settime K flags sec nsec k\<rparr>)"
    using v(1) t by (simp add: set_timerfd_def)
  show thesis by (rule that [OF s t v(2,3,4) v(5-8)])
qed

lemma set_timerfd_armed:
  assumes "clock_kernel K C" "timer_fd s \<noteq> - 1" "good_queues (queue_set s) (queues s)" "set_timerfd K s = (r, s')"
  shows "armed K C s'" "r = Inr ()"
proof -
  let ?n = "length (queue_set s)"
  obtain v flags sec nsec k where s: "set_timerfd K s = (Inr (), s\<lparr>kern := k_timerfd_settime K flags sec nsec k\<rparr>)"
    and t: "timerfd_value v = (flags, sec, nsec)" "0 \<le> v" "v \<le> 300000000"
    and m: "accurate K C \<longrightarrow> monotonic C k \<le> monotonic C (kern s) + int ?n * call_time C"
    and e: "\<forall>q \<in> set (queue_set s). \<forall>e \<in> set (heap (queues s q)). \<exists>now \<in> set (readings K ?n (kern s)). v \<le> max 0 (fst e - now)"
    by (rule set_timerfd_outcome [OF assms(1,3)]) (rule that)
  let ?k = "k_timerfd_settime K flags sec nsec k"
  have s': "s' = s\<lparr>kern := ?k\<rparr>" and r: "r = Inr ()" using s assms(4) by simp_all
  show "r = Inr ()" by (rule r)
  note f = settime_fires(1) [OF assms(1) t, of k]
  have "fires_at C ?k \<le> max (monotonic C ?k) (fst x - offset C + slack C ?n)"
    if acc: "accurate K C" and q: "q \<in> set (queue_set s)" "x \<in> set (heap (queues s q))" for q x
  proof -
    obtain now where n: "now \<in> set (readings K ?n (kern s))" "v \<le> max 0 (fst x - now)" using e q by blast
    have "monotonic C (kern s) + offset C - deviation C \<le> now" by (rule readings_accurate [OF assms(1) acc n(1)])
    moreover have "monotonic C ?k \<le> monotonic C k + call_time C" using acc by (simp add: accurate_def)
    ultimately have "fires_at C ?k \<le> monotonic C ?k \<or>
        fires_at C ?k \<le> fst x - offset C + (deviation C + (int ?n * call_time C + call_time C))"
      using f n(2) mp [OF m acc] by linarith
    then show ?thesis by (auto simp: slack_def algebra_simps)
  qed
  moreover have "fires_at C ?k \<le> monotonic C ?k + 300000000" using f t(3) by linarith
  ultimately show "armed K C s'" using assms(2,3) by (auto simp: s' armed_def early_enough_def good_queues_def)
qed

section \<open>The operations keep it set\<close>

definition keeps :: "'k clocks \<Rightarrow> ('h, 'k, 'u) reactor \<Rightarrow> ('h, 'k, 'u) reactor \<Rightarrow> bool" where
  "keeps C s s' \<longleftrightarrow> queues s' = queues s \<and> queue_set s' = queue_set s \<and> timer_fd s' = timer_fd s
     \<and> later C (kern s) (kern s')"

lemma keeps_frame:
  "queues s' = queues s \<Longrightarrow> queue_set s' = queue_set s \<Longrightarrow> timer_fd s' = timer_fd s \<Longrightarrow> kern s' = kern s \<Longrightarrow> keeps C s s'"
  by (simp add: keeps_def later_refl)

lemma keeps_refl: "keeps C s s"
  by (rule keeps_frame) simp_all

lemma keeps_trans: "keeps C s s1 \<Longrightarrow> keeps C s1 s2 \<Longrightarrow> keeps C s s2"
  by (auto simp: keeps_def intro: later_trans)

text \<open>Taking timers out of a queue, or changing none, keeps the descriptor early enough.\<close>

lemma armed_mono:
  assumes "armed K C s" "later C (kern s) (kern s')" "timer_fd s' = timer_fd s" "queue_set s' = queue_set s"
    "\<And>q. set (heap (queues s' q)) \<subseteq> set (heap (queues s q))"
  shows "armed K C s'"
proof -
  have "early_enough K C (length (queue_set s)) (kern s') (queues s' q) \<and> (\<forall>e \<in> set (heap (queues s' q)). timer_time (fst e))"
    if "q \<in> set (queue_set s)" for q
    using assms(1,2) assms(5) [of q] that unfolding armed_def early_enough_def later_def by fastforce
  then show ?thesis using assms(1,3,4) by (auto simp: armed_def)
qed

lemma armed_keeps: "armed K C s \<Longrightarrow> keeps C s s' \<Longrightarrow> armed K C s'"
  by (erule armed_mono) (simp_all add: keeps_def)

text \<open>The operations of the scheduler.\<close>

lemma keeps_ctl: "clock_kernel K C \<Longrightarrow> keeps C s (snd (ctl K c s))"
  by (simp add: keeps_def ctl_def clock_kernel_def case_prod_beta)

lemma keeps_interrupt: "clock_kernel K C \<Longrightarrow> keeps C s (epoll_interrupt K s)"
  unfolding epoll_interrupt_def by (rule keeps_ctl)

lemma keeps_wake: "clock_kernel K C \<Longrightarrow> keeps C s (wake_one_thread (epoll_interrupt K) s)"
  using keeps_trans [OF keeps_frame keeps_interrupt, of "s\<lparr>task_interrupted := True\<rparr>" s K C]
  by (simp add: wake_one_thread_def interrupt_task_def keeps_refl)

lemma keeps_stop: "clock_kernel K C \<Longrightarrow> keeps C s (service_stop (epoll_interrupt K) s)"
  using keeps_trans [OF keeps_frame keeps_wake, of "s\<lparr>srv_stopped := True\<rparr>" s K C]
  by (simp add: service_stop_def stop_all_threads_def wake_one_thread_def)

lemma kern_simps [simp]:
  "kern (push_ops ps s) = kern s" "kern (push_private ps s) = kern s" "kern (work_started s) = kern s" "kern (upd_context f s) = kern s"
  "queues (push_ops ps s) = queues s" "queues (work_started s) = queues s" "queues (upd_context f s) = queues s"
  "queue_set (push_ops ps s) = queue_set s" "queue_set (work_started s) = queue_set s" "queue_set (upd_context f s) = queue_set s"
  "timer_fd (push_ops ps s) = timer_fd s" "timer_fd (work_started s) = timer_fd s" "timer_fd (upd_context f s) = timer_fd s"
  "kern (upd_descriptor d g s) = kern s" "queues (upd_descriptor d g s) = queues s" "queue_set (upd_descriptor d g s) = queue_set s"
  "timer_fd (upd_descriptor d g s) = timer_fd s" "kern (upd_queue q tq s) = kern s" "queues (upd_queue q tq s) = (queues s)(q := tq)"
  by (simp_all add: push_ops_def push_private_def work_started_def upd_context_def upd_descriptor_def upd_queue_def)

lemma keeps_post: "clock_kernel K C \<Longrightarrow> keeps C s (post_immediate_completion (epoll_interrupt K) p s)"
  using keeps_trans [OF keeps_frame keeps_wake, of "push_ops [p] (work_started s)" s K C]
  by (simp add: post_immediate_completion_def keeps_frame)

lemma keeps_deferred: "clock_kernel K C \<Longrightarrow> keeps C s (post_deferred_completions (epoll_interrupt K) ps s)"
  using keeps_trans [OF keeps_frame keeps_wake, of "push_ops ps s" s K C]
  by (simp add: post_deferred_completions_def keeps_frame keeps_refl)

lemma keeps_init: "clock_kernel K C \<Longrightarrow> keeps C s (init_task (epoll_interrupt K) s)"
  using keeps_trans [OF keeps_frame keeps_wake, of "push_ops [TaskOp] (s\<lparr>has_task := True\<rparr>)" s K C]
  by (simp add: init_task_def keeps_refl)


text \<open>The operations on descriptors.\<close>

lemma keeps_perform: "clock_kernel K C \<Longrightarrow> k_perform K p (kern s) = (b, p', k) \<Longrightarrow> keeps C s (s\<lparr>kern := k\<rparr>)"
  unfolding clock_kernel_def keeps_def by (simp, metis snd_conv)

lemma keeps_enqueue_io: "keeps C s (enqueue_io d i p s)"
  by (rule keeps_frame) (simp_all add: enqueue_io_def)

lemma keeps_upd_descriptor: "keeps C s (upd_descriptor d f s)"
  by (rule keeps_frame) simp_all

lemma keeps_start_op:
  assumes "clock_kernel K C"
  shows "keeps C s (start_op K i fd dd p spec s)"
proof (cases dd)
  case None
  then show ?thesis using assms by (simp add: start_op_def keeps_post)
next
  case (Some d)
  let ?st = "descriptors s d"
  obtain finished p' k where k: "k_perform K p (kern s) = (finished, p', k)" by (cases "k_perform K p (kern s)") auto
  note 1 = keeps_perform [OF assms k]
  let ?s1 = "s\<lparr>kern := k\<rparr>" and ?ev = "registered_events ?st OR EPOLLOUT"
  obtain err s2 where c: "ctl K (Mod fd ?ev) ?s1 = (err, s2)" by (cases "ctl K (Mod fd ?ev) ?s1")
  have 2: "keeps C s s2" using keeps_trans [OF 1 keeps_ctl [OF assms]] c by (metis snd_conv)
  let ?s3 = "if i = WriteOp then upd_descriptor d (\<lambda>st. st\<lparr>registered_events := registered_events st OR EPOLLOUT\<rparr>) s else s"
  have "keeps C s ?s3" by (simp add: keeps_refl keeps_upd_descriptor)
  from keeps_trans [OF keeps_trans [OF this keeps_ctl [OF assms]] keeps_enqueue_io]
  have 3: "keeps C s (enqueue_io d i p (snd (ctl K (Mod fd (registered_events (descriptors ?s3 d))) ?s3)))" .
  have 4: "keeps C s (enqueue_io d j p' (upd_descriptor d f s2))" for f j
    by (rule keeps_trans [OF keeps_trans [OF 2 keeps_upd_descriptor] keeps_enqueue_io])
  consider (off) "d_shutdown ?st \<or> op_queues ?st i \<noteq> []"
    | (spec) "\<not> d_shutdown ?st" "op_queues ?st i = []" "spec \<and> (i \<noteq> ReadOp \<or> op_queues ?st ExceptOp = [])"
    | (plain) "\<not> d_shutdown ?st" "op_queues ?st i = []" "\<not> (spec \<and> (i \<noteq> ReadOp \<or> op_queues ?st ExceptOp = []))"
    by blast
  then show ?thesis
  proof cases
    case off
    then show ?thesis using Some keeps_post [OF assms, of s] keeps_enqueue_io [of C s] by (auto simp: start_op_def Let_def)
  next
    case spec
    then show ?thesis
      using Some k c 4 keeps_trans [OF 2 keeps_post [OF assms]] keeps_trans [OF 1 keeps_post [OF assms]] keeps_trans [OF 1 keeps_enqueue_io]
      by (simp add: start_op_def Let_def)
  next
    case plain
    then have "start_op K i fd dd p spec s = enqueue_io d i p (snd (ctl K (Mod fd (registered_events (descriptors ?s3 d))) ?s3))"
      by (auto simp: start_op_def Let_def Some)
    then show ?thesis using 3 by simp
  qed
qed

lemma keeps_cancel_io: "clock_kernel K C \<Longrightarrow> keeps C s (cancel_io K dd s)"
  using keeps_trans [OF keeps_upd_descriptor keeps_deferred] keeps_refl by (auto simp: cancel_io_def split: option.split)

lemma keeps_deregister: "clock_kernel K C \<Longrightarrow> keeps C s (snd (deregister_descriptor K fd dd closing s))"
proof -
  assume K: "clock_kernel K C"
  let ?s1 = "if closing then s else snd (ctl K (Del fd) s)"
  have 1: "keeps C s ?s1" using keeps_ctl [OF K] keeps_refl by auto
  have "keeps C s (free_descriptor_state d (upd_descriptor d f ?s1))" for d f
    by (rule keeps_trans [OF 1 keeps_frame]) (simp_all add: free_descriptor_state_def)
  from keeps_trans [OF this keeps_deferred [OF K]] show ?thesis
    using keeps_refl [of C s] by (auto simp: deregister_descriptor_def Let_def split: option.split)
qed

lemma keeps_register: "clock_kernel K C \<Longrightarrow> keeps C s (snd (snd (register_descriptor K fd s)))"
proof -
  assume K: "clock_kernel K C"
  obtain d s1 where a: "allocate_descriptor_state s = (d, s1)" by (cases "allocate_descriptor_state s")
  then have "keeps C s s1" by (intro keeps_frame) (auto simp: allocate_descriptor_state_def split: list.splits)
  from keeps_trans [OF keeps_trans [OF this keeps_upd_descriptor] keeps_ctl [OF K]] show ?thesis
    by (simp add: register_descriptor_def Let_def a case_prod_beta)
qed

lemma perform_ops_later:
  "clock_kernel K C \<Longrightarrow> perform_ops K ps k = (fin, rest, k') \<Longrightarrow> later C k k'"
proof (induction ps arbitrary: k fin rest k')
  case (Cons p ps)
  obtain b p' k1 where k: "k_perform K p k = (b, p', k1)" by (cases "k_perform K p k") auto
  have 1: "later C k k1" using Cons.prems(1) k unfolding clock_kernel_def by (metis snd_conv)
  show ?case
  proof (cases b)
    case True
    obtain f r k2 where "perform_ops K ps k1 = (f, r, k2)" by (cases "perform_ops K ps k1") auto
    then show ?thesis using Cons k True later_trans [OF 1] by auto
  next
    case False
    then show ?thesis using Cons.prems k 1 by auto
  qed
qed (simp add: later_refl)

lemma keeps_perform_queue:
  assumes "clock_kernel K C"
  shows "keeps C (snd x) (snd (perform_queue K d ev j x))"
proof -
  obtain ps s where x: "x = (ps, s)" by (cases x)
  obtain fin rest k where p: "perform_ops K (op_queues (descriptors s d) j) (kern s) = (fin, rest, k)"
    by (cases "perform_ops K (op_queues (descriptors s d) j) (kern s)") auto
  have "keeps C s (s\<lparr>kern := k\<rparr>)" using perform_ops_later [OF assms p] by (simp add: keeps_def)
  then show ?thesis using keeps_trans [OF _ keeps_upd_descriptor] keeps_refl p x by (auto simp: perform_queue_def)
qed

lemma keeps_perform_io:
  assumes "clock_kernel K C"
  shows "keeps C s (snd (perform_io K d ev s))"
proof -
  note q = keeps_perform_queue [OF assms, of _ d ev]
  let ?x = "perform_queue K d ev WriteOp (perform_queue K d ev ExceptOp ([], s))"
  have "keeps C (snd ([] :: io_op list, s)) (snd (perform_queue K d ev ReadOp ?x))"
    by (rule keeps_trans [OF keeps_trans [OF q q] q])
  moreover obtain ps s1 where 1: "perform_queue K d ev ReadOp ?x = (ps, s1)" by (cases "perform_queue K d ev ReadOp ?x")
  ultimately have 2: "keeps C s s1" by simp
  have "keeps C s (work_started s1)" by (rule keeps_trans [OF 2 keeps_frame]) simp_all
  moreover have "keeps C s (post_deferred_completions (epoll_interrupt K) qs s1)" for qs
    by (rule keeps_trans [OF 2 keeps_deferred [OF assms]])
  ultimately show ?thesis using 1 by (simp add: perform_io_def split: list.split)
qed

text \<open>Timers: a new entry that is not the first of its heap expires after the first one.\<close>

lemma enqueue_not_first:
  assumes "tq_ok q" "\<not> active q t" "length (heap q) < heap_max"
    "enqueue_timer time t p q = (False, q')"
  shows "\<exists>e \<in> set (heap q). fst e \<le> time"
proof -
  have i: "tq_inv q" "length (heap q) + 1 < size_max" "op_queue (data q t) = []"
    using assms(1-3) heap_max_size by (auto simp: tq_ok_def)
  note e = enqueue_timer_spec [OF i(1,2) assms(4)]
  have n: "heap_index (data q' t) \<noteq> 0" using e(5) i(3) by simp
  have o: "heap_order (heap q')" "index_ok q'" using e(1) by (auto simp: tq_inv_def)
  have m: "mset (heap q') = add_mset (time, t) (mset (heap q))" using e(2) assms(2) by simp
  then have "(time, t) \<in> set (heap q')" by (metis set_mset_mset union_single_eq_member)
  then obtain i where i: "i < length (heap q')" "heap q' ! i = (time, t)" by (auto simp: in_set_conv_nth)
  then have "heap_index (data q' t) = i" using o(2) by (auto simp: index_ok_def)
  then have le: "fst (heap q' ! 0) \<le> time" using heap_least [OF o(1) i(1)] i(2) by simp
  have "0 < length (heap q')" using i(1) by linarith
  then have "snd (heap q' ! 0) \<noteq> t" using o(2) n by (auto simp: index_ok_def)
  moreover have "heap q' ! 0 \<in># mset (heap q')" using i(1) by (metis gr_zeroI list.size(3) not_less_zero nth_mem set_mset_mset)
  ultimately have "heap q' ! 0 \<in> set (heap q)" using m by auto
  then show ?thesis using le by blast
qed

text \<open>The timers a program arms have times inside the range of the clock, or never expire.\<close>

definition timed_action :: "'h action \<Rightarrow> bool" where
  "timed_action a \<longleftrightarrow> (case a of ASchedule q time t p \<Rightarrow> timer_time time | _ \<Rightarrow> True)"

lemma enqueue_armed:
  assumes "clock_kernel K C" "tq_ok (queues s q)" "timer_time time" "armed K C s"
    "active (queues s q) t \<or> length (heap (queues s q)) < heap_max"
    "enqueue_timer time t p (queues s q) = (b, tq)"
  shows "\<forall>e \<in> set (heap tq). e \<in> set (heap (queues s q)) \<or> timer_time (fst e)"
    "\<not> b \<Longrightarrow> armed K C (work_started (upd_queue q tq s))"
proof -
  have i: "tq_inv (queues s q)" "length (heap (queues s q)) + 1 < size_max"
    using assms(2) heap_max_size by (auto simp: tq_ok_def)
  let ?new = "\<not> active (queues s q) t"
  have m: "mset (heap tq) = (if ?new then add_mset (time, t) (mset (heap (queues s q))) else mset (heap (queues s q)))"
    using enqueue_timer_spec(2) [OF i assms(6)] by auto
  then have h: "set (heap tq) = (if ?new then insert (time, t) (set (heap (queues s q))) else set (heap (queues s q)))"
    by (metis set_mset_add_mset_insert set_mset_mset)
  then show "\<forall>e \<in> set (heap tq). e \<in> set (heap (queues s q)) \<or> timer_time (fst e)" using assms(3) by (auto split: if_splits)
  assume b: "\<not> b"
  let ?s = "work_started (upd_queue q tq s)"
  let ?n = "length (queue_set s)"
  have "timer_time (fst e) \<and> fires_at C (kern s) \<le> monotonic C (kern s) + 300000000
      \<and> (accurate K C \<longrightarrow> fires_at C (kern s) \<le> max (monotonic C (kern s)) (fst e - offset C + slack C ?n))" if q: "q' \<in> set (queue_set s)" and e: "e \<in> set (heap (queues ?s q'))" for q' e
  proof (cases "e \<in> set (heap (queues s q'))")
    case True
    then show ?thesis using assms(4) q by (auto simp: armed_def early_enough_def)
  next
    case False
    then have n: "q' = q" "?new" "e = (time, t)" using e h by (auto split: if_splits)
    then obtain f where f: "f \<in> set (heap (queues s q))" "fst f \<le> time"
      using enqueue_not_first [OF assms(2), of t time p tq] assms(5,6) b by auto
    then show ?thesis using assms(3,4) q n by (fastforce simp: armed_def early_enough_def)
  qed
  then show "armed K C ?s" using assms(4) by (auto simp: armed_def early_enough_def)
qed

lemma schedule_timer_armed:
  assumes "clock_kernel K C" "reactor_ok K s" "timer_time time" "armed K C s"
    "schedule_timer K q time t p s = (r, s')"
  shows "armed K C s'"
proof -
  consider (down) "r_shutdown s"
    | (full) "\<not> r_shutdown s" "\<not> active (queues s q) t" "length (heap (queues s q)) \<ge> heap_max"
    | (queued) "\<not> r_shutdown s" "active (queues s q) t \<or> length (heap (queues s q)) < heap_max"
    by linarith
  then show ?thesis
  proof cases
    case down
    then show ?thesis using assms(5) armed_keeps [OF assms(4) keeps_post [OF assms(1)]] by (auto simp: schedule_timer_def)
  next
    case full
    then have "s' = upd_queue q (upd_data t (heap_index_update (\<lambda>_. length (heap (queues s q)))) (queues s q)) s"
      using assms(5) by (auto simp: schedule_timer_def is_positive_infinity_def)
    then show ?thesis by (intro armed_mono [OF assms(4)]) (auto simp: later_refl upd_data_def)
  next
    case queued
    obtain b tq where e: "enqueue_timer time t p (queues s q) = (b, tq)" by (cases "enqueue_timer time t p (queues s q)")
    let ?s = "work_started (upd_queue q tq s)"
    have s: "(if b then update_timeout K ?s else (Inr (), ?s)) = (r, s')"
      using assms(5) queued e by (auto simp: schedule_timer_def Let_def)
    have tq: "tq_ok (queues s q')" for q' using assms(2) by (simp add: reactor_ok_def)
    note a = enqueue_armed [OF assms(1) tq assms(3,4) queued(2) e]
    show ?thesis
    proof (cases b)
      case False
      then show ?thesis using a(2) s by auto
    next
      case True
      have "tq_inv tq" using tq_enqueue(1) [OF tq queued(2) e] by (simp add: tq_ok_def)
      then have "tq_inv (queues ?s q') \<and> (\<forall>e \<in> set (heap (queues ?s q')). timer_time (fst e))" if "q' \<in> set (queue_set ?s)" for q'
        using a(1) tq [of q'] assms(4) that by (auto simp: armed_def tq_ok_def)
      moreover have "timer_fd ?s \<noteq> - 1" using assms(4) by (simp add: armed_def)
      ultimately show ?thesis using set_timerfd_armed(1) [OF assms(1), of ?s r s'] s True by (simp add: update_timeout_def good_queues_def)
    qed
  qed
qed

lemma cancel_timer_armed:
  assumes "clock_kernel K C" "reactor_ok K s" "armed K C s"
  shows "armed K C (snd (reactor_cancel_timer K q t m s))"
proof -
  obtain n ps tq where c: "cancel_timer t m [] (queues s q) = (n, ps, tq)" by (cases "cancel_timer t m [] (queues s q)") auto
  have i: "tq_inv (queues s q)" using assms(2) by (simp add: reactor_ok_def tq_ok_def)
  have "set (heap tq) \<subseteq> set (heap (queues s q))"
  proof (cases "active (queues s q) t")
    case True
    then have "mset (heap tq) \<subseteq># mset (heap (queues s q))" using cancel_timer_spec [OF i True, of m "[]"] c by (auto split: if_splits)
    then show ?thesis by (metis set_mset_mono set_mset_mset)
  next
    case False
    then show ?thesis using c by (simp add: cancel_timer_def)
  qed
  then have "armed K C (upd_queue q tq s)" by (intro armed_mono [OF assms(3)]) (auto simp: later_refl)
  from armed_keeps [OF this keeps_deferred [OF assms(1)]] show ?thesis using c by (simp add: reactor_cancel_timer_def)
qed

section \<open>Handlers and rounds\<close>

lemma action_armed:
  assumes "clock_kernel K C" "reactor_ok K s" "timed_action a" "armed K C s" "do_action K a s = (r, s')"
  shows "armed K C s'"
proof (cases a)
  case (ASchedule q time t p)
  then show ?thesis using schedule_timer_armed [OF assms(1,2) _ assms(4)] assms(3,5) by (simp add: timed_action_def)
next
  case (ACancelTimer q t m)
  then show ?thesis using cancel_timer_armed [OF assms(1,2,4)] assms(5) by auto
next
  case (APost h)
  then show ?thesis using armed_keeps [OF assms(4) keeps_post [OF assms(1)]] assms(5) by (auto simp: service_post_def)
qed (use assms(4,5) armed_keeps [OF assms(4)] keeps_stop [OF assms(1), of s] keeps_start_op [OF assms(1), of s]
      keeps_cancel_io [OF assms(1), of s] keeps_deregister [OF assms(1), of s] keeps_register [OF assms(1), of s]
      keeps_init [OF assms(1), of s] in auto)

lemma actions_armed:
  assumes "clock_kernel K C" "list_all timed_action as" "do_actions K as s = (r, s')"
    "reactor_ok K s" "disciplined s" "armed K C s"
  shows "armed K C s'"
  using assms(2-6)
proof (induction as arbitrary: s)
  case (Cons a as)
  obtain r1 s1 where 1: "do_action K a s = (r1, s1)" by (cases "do_action K a s")
  have a: "armed K C s1" using action_armed [OF assms(1) Cons.prems(3) _ Cons.prems(5) 1] Cons.prems(1) by simp
  have "reactor_ok K s1" "disciplined s1" using action_moves(1) [OF 1] Cons.prems(3,4) by (simp_all add: settles_def)
  then show ?case using Cons.IH [of s1] Cons.prems(1,2) 1 a by (cases r1) auto
qed simp

text \<open>Programs that give their timers times inside the range.\<close>

definition timed_program :: "('h operation \<Rightarrow> 'u \<Rightarrow> 'h action list \<times> 'u) \<Rightarrow> bool" where
  "timed_program program \<longleftrightarrow> (\<forall>p u. list_all timed_action (fst (program p u)))"

lemma handler_armed:
  assumes "clock_kernel K C" "timed_program program" "handler_complete K program p s = Some (r, s')"
    "reactor_ok K s" "disciplined s" "armed K C s"
  shows "armed K C s'"
proof -
  obtain as u where p: "program p (user s) = (as, u)" by (cases "program p (user s)")
  have 1: "list_all timed_action as" using assms(2) p unfolding timed_program_def by (metis fst_conv)
  have "moves K 0 s (s\<lparr>user := u\<rparr>)" by (rule moves_frame) simp_all
  then have 2: "reactor_ok K (s\<lparr>user := u\<rparr>)" "disciplined (s\<lparr>user := u\<rparr>)" using assms(4,5) by (simp_all add: moves_def)
  have 3: "armed K C (s\<lparr>user := u\<rparr>)" by (rule armed_keeps [OF assms(6) keeps_frame]) simp_all
  have "do_actions K as (s\<lparr>user := u\<rparr>) = (r, s')" using assms(3) p by (simp add: handler_complete_def)
  from actions_armed [OF assms(1) 1 this 2 3] show ?thesis .
qed

lemma complete_armed:
  assumes "clock_kernel K C" "timed_program program" "reactor_complete K program p s = Some (r, s')"
    "reactor_ok K s" "disciplined s" "armed K C s"
  shows "armed K C s'"
proof (cases "\<exists>d. p = DescriptorOp d")
  case True
  then obtain d where p: "p = DescriptorOp d" by blast
  obtain first s1 where 1: "perform_io K d (task_result (descriptors s d)) s = (first, s1)"
    by (cases "perform_io K d (task_result (descriptors s d)) s")
  have m: "reactor_ok K s1" "disciplined s1" using perform_io_moves [OF 1] assms(4,5) by (simp_all add: moves_def)
  have a: "armed K C s1" using armed_keeps [OF assms(6) keeps_perform_io [OF assms(1)]] 1 by (metis snd_conv)
  show ?thesis
  proof (cases first)
    case None
    then show ?thesis using assms(3) 1 p a by (simp add: reactor_complete_def descriptor_complete_def)
  next
    case (Some q)
    then have "handler_complete K program (IoOp q) s1 = Some (r, s')"
      using assms(3) 1 p by (simp add: reactor_complete_def descriptor_complete_def)
    from handler_armed [OF assms(1,2) this m a] show ?thesis .
  qed
next
  case False
  then have "handler_complete K program p s = Some (r, s')" using assms(3) by (cases p) (simp_all add: reactor_complete_def)
  from handler_armed [OF assms(1,2) this assms(4-6)] show ?thesis .
qed

lemma dispatch_armed:
  "dispatch_events evs c s = (r, s') \<Longrightarrow> keeps C s s'"
proof (induction evs arbitrary: c s)
  case (Cons ev evs)
  show ?case
  proof (cases ev)
    case (EvDescriptor d events)
    let ?s = "push_private [DescriptorOp d] (upd_descriptor d (\<lambda>st. st\<lparr>task_result := events\<rparr>) s)"
    have k: "keeps C s ?s" by (rule keeps_frame) simp_all
    show ?thesis
    proof (cases "linked d s")
      case True
      then show ?thesis using Cons.prems EvDescriptor keeps_refl [of C s] by simp
    next
      case False
      then have "dispatch_events evs c ?s = (r, s')" using Cons.prems EvDescriptor by simp
      from keeps_trans [OF k Cons.IH [OF this]] show ?thesis .
    qed
  qed (use Cons in \<open>auto split: if_splits\<close>)
qed (simp add: keeps_refl)

lemma drain_subset:
  assumes "tq_inv q" "get_ready_timers now [] q = Some (ps, q')"
  shows "set (heap q') \<subseteq> set (heap q)"
proof (cases "heap q = []")
  case False
  obtain es :: "heap_entry list" and q1 where "ready_loop now [] q = Some ([] @ concat (map (\<lambda>e. op_queue (data q (snd e))) es), q1)"
      "mset (heap q1) = filter_mset (\<lambda>e. now < fst e) (mset (heap q))"
    using ready_loop_due [OF assms(1), of now "[]"] by blast
  then have "mset (heap q') \<subseteq># mset (heap q)" using assms(2) False by (simp add: get_ready_timers_def)
  then show ?thesis by (metis set_mset_mono set_mset_mset)
qed (use assms in \<open>simp add: get_ready_timers_def\<close>)

lemma set_ready_armed:
  assumes "clock_kernel K C" "set_ready K qs s = Some s'" "\<forall>q. tq_ok (queues s q)" "armed K C s"
  shows "armed K C s'"
  using assms(2-4)
proof (induction qs arbitrary: s)
  case (Cons q qs)
  let ?k = "snd (k_clock K (kern s))"
  have c: "k_clock K (kern s) = (now_of K (kern s), ?k)" "later C (kern s) ?k"
    using clock_kernel_clock [OF assms(1), of "kern s"] clock_read [of K "kern s"] by simp_all
  show ?case
  proof (cases "heap (queues s q) = []")
    case False
    have q: "tq_ok (queues s q)" using Cons.prems(2) by blast
    obtain ps tq where r: "get_ready_timers (now_of K (kern s)) [] (queues s q) = Some (ps, tq)" "tq_ok tq" by (rule tq_drain [OF q])
    let ?s = "push_private (map TimerOp ps) (upd_queue q tq (s\<lparr>kern := ?k\<rparr>))"
    have sub: "set (heap tq) \<subseteq> set (heap (queues s q))" using drain_subset [OF _ r(1)] q by (simp add: tq_ok_def)
    have "armed K C ?s" by (rule armed_mono [OF Cons.prems(3)]) (use sub c(2) in \<open>auto simp: upd_queue_def\<close>)
    moreover have "\<forall>q. tq_ok (queues ?s q)" using Cons.prems(2) r(2) by simp
    moreover have "set_ready K qs ?s = Some s'"
      using Cons.prems(1) False r(1) by (subst (asm) set_ready.simps, subst (asm) c(1)) simp
    ultimately show ?thesis using Cons.IH by blast
  qed (use Cons in simp)
qed simp

lemma epoll_run_armed:
  assumes "clock_kernel K C" "epoll_run K block s = Some (r, s')" "call_stack s \<noteq> []" "reactor_ok K s" "\<forall>d. \<not> linked d s"
    "armed K C s"
  shows "armed K C s'"
proof -
  let ?m = "if block then - 1 else 0 :: int"
  have t: "epoll_timeout K block s = (Inr ?m, s)" using assms(6) by (simp add: epoll_timeout_def armed_def)
  obtain evs k where w: "k_epoll_wait K ?m (kern s) = Some (evs, k)" using assms(2) t by (auto simp: epoll_run_def Option.bind_eq_Some_conv)
  let ?s = "s\<lparr>kern := k\<rparr>"
  obtain r2 s2 where 2: "dispatch_events evs (timer_fd s = - 1) ?s = (r2, s2)" by (cases "dispatch_events evs (timer_fd s = - 1) ?s")
  have "later C (kern s) k" using assms(1) w by (simp add: clock_kernel_def)
  then have "keeps C s ?s" by (simp add: keeps_def)
  from armed_keeps [OF assms(6) keeps_trans [OF this dispatch_armed [OF 2]]] have a: "armed K C s2" .
  have d: "distinct (event_descriptors evs)" using assms(4) w by (auto simp: reactor_ok_def kernel_ok_def)
  have "hands_out K s ?s" by (rule hands_out_kern)
  then have "hands_out K ?s s2" "reactor_ok K ?s" "call_stack ?s \<noteq> []"
    using dispatch_events_hands_out [OF 2] assms(3-5) d by (auto simp: hands_out_def linked_def)
  then have ok: "reactor_ok K s2" by (auto simp: hands_out_def)
  show ?thesis
  proof (cases "r2 = Inr True")
    case True
    then have "check_timer_queues K s2 = Some (r, s')" using assms(2) t w 2 by (simp add: epoll_run_def)
    then obtain s3 where 3: "set_ready K (queue_set s2) s2 = Some s3" "(if timer_fd s3 \<noteq> - 1 then set_timerfd K s3 else (Inr (), s3)) = (r, s')"
      by (auto simp: check_timer_queues_def Option.bind_eq_Some_conv)
    have q: "\<forall>q. tq_ok (queues s2 q)" using ok by (simp add: reactor_ok_def)
    have a3: "armed K C s3" by (rule set_ready_armed [OF assms(1) 3(1) q a])
    have "call_stack s2 \<noteq> []" using \<open>hands_out K ?s s2\<close> \<open>reactor_ok K ?s\<close> \<open>call_stack ?s \<noteq> []\<close> by (auto simp: hands_out_def)
    then have "reactor_ok K s3" using set_ready_hands_out [OF 3(1) _ ok] ok by (auto simp: hands_out_def)
    then have "\<forall>q. tq_inv (queues s3 q)" by (simp add: reactor_ok_def tq_ok_def)
    then show ?thesis using set_timerfd_armed(1) [OF assms(1), of s3 r s'] a3 3(2) by (auto simp: armed_def good_queues_def)
  next
    case False
    then show ?thesis using assms(2) t w 2 a by (cases r2) (auto simp: epoll_run_def)
  qed
qed

section \<open>Every run and poll\<close>

definition timed :: "('h operation \<Rightarrow> 'u \<Rightarrow> 'h action list \<times> 'u) \<Rightarrow> 'h operation \<Rightarrow> 'u \<Rightarrow> 'h action list \<times> 'u" where
  "timed program p u = (filter timed_action (fst (program p u)), snd (program p u))"

lemma timed_program: "timed_program (timed program)"
  by (simp add: timed_program_def timed_def list_all_iff)

lemma timed_id: "timed_program program \<Longrightarrow> timed program = program"
  by (intro ext) (simp add: timed_program_def timed_def list_all_iff filter_id_conv prod_eq_iff)

definition timed_ok :: "'k kernel \<Rightarrow> 'k clocks \<Rightarrow> ('h, 'k, 'u) reactor \<Rightarrow> bool" where
  "timed_ok K C s \<longleftrightarrow> reactor_ok K s \<and> clock_kernel K C \<and> armed K C s"

interpretation armed: event_loop "epoll_run K" "epoll_interrupt K" "reactor_complete K (timed program)" pending "timed_ok K C"
  for K :: "'k kernel" and C :: "'k clocks" and program :: "'h operation \<Rightarrow> 'u \<Rightarrow> 'h action list \<times> 'u"
proof
  fix s s' :: "('h, 'k, 'u) reactor"
  assume "task_io_service.more s = task_io_service.more s'"
  moreover from this have "armed K C s = armed K C s'" by (cases s; cases s') (simp add: armed_def)
  ultimately show "pending s = pending s' \<and> timed_ok K C s = timed_ok K C s'"
    using pending_own [of s s' K] by (simp add: timed_ok_def)
next
  fix s :: "('h, 'k, 'u) reactor"
  have "clock_kernel K C \<Longrightarrow> armed K C s \<Longrightarrow> armed K C (epoll_interrupt K s)"
    by (rule armed_keeps [OF _ keeps_interrupt])
  then show "\<exists>z. epoll_interrupt K s = s\<lparr>task_io_service.more := z\<rparr> \<and> pending (epoll_interrupt K s) = pending s
      \<and> (timed_ok K C s \<longrightarrow> timed_ok K C (epoll_interrupt K s))"
    using loop.irq_frame [of K s] by (auto simp: timed_ok_def)
next
  fix b r t ts and s s' :: "('h, 'k, 'u) reactor"
  assume r: "epoll_run K b s = Some (r, s')" "quiet s" "timed_ok K C s" "call_stack s = t # ts" "private_queue t = []"
  then have "armed K C s'"
    using epoll_run_armed [of K C b s r s'] quiet_unlinked [of s] by (auto simp: timed_ok_def)
  then show "(\<exists>t'. call_stack s' = t' # ts \<and> 0 \<le> private_work t' \<and> list_all (\<lambda>p. \<not> is_task p) (private_queue t'))
        \<and> srv_queue s' = srv_queue s \<and> has_task s' = has_task s \<and> srv_stopped s' = srv_stopped s
        \<and> timed_ok K C s' \<and> balance pending s' = balance pending s \<and> r \<noteq> Inl (UB DoubleLink)"
    using loop.rn_law [OF r(1,2) _ r(4,5)] r(3) by (simp add: timed_ok_def)
next
  fix p r and s s' :: "('h, 'k, 'u) reactor"
  assume c: "reactor_complete K (timed program) p s = Some (r, s')" "\<not> is_task p" "disciplined s" "timed_ok K C s" "at_rest s"
  then have "armed K C s'"
    using complete_armed [OF _ timed_program c(1) _ c(3)] by (auto simp: timed_ok_def)
  then show "disciplined s' \<and> timed_ok K C s' \<and> length (call_stack s') = length (call_stack s)
      \<and> balance pending s' = balance pending s + (if user_op p then 0 else 1) \<and> r \<noteq> Inl (UB DoubleLink)"
    using loop.cp_law [OF c(1-3) _ c(5)] c(4) by (simp add: timed_ok_def)
qed

section \<open>The properties\<close>

text \<open>
  A kernel to try them on: its state is a clock and the time its timer descriptor fires; waiting takes until
  then, and each reading or setting takes a microsecond. Its wall clock is a millisecond ahead.
\<close>

definition clamp :: "int \<Rightarrow> int" where "clamp c = max 0 (min c 1000000000000000000)"

definition kernel1 :: "(int \<times> int) kernel" where
  "kernel1 = \<lparr>k_epoll_wait = \<lambda>m (c, f). if m = 0 then Some ([], c, f) else Some ([EvTimerFd], max c f, f),
     k_epoll_ctl = \<lambda>_ k. (0, k),
     k_timerfd_settime = \<lambda>flags sec nsec (c, f). (c + 1, fire_time (clamp (c + 1)) flags sec nsec),
     k_clock = \<lambda>(c, f). (clamp (c + 1) + 1000, c + 1, f), k_perform = \<lambda>p k. (True, p, k)\<rparr>"

definition clocks1 :: "(int \<times> int) clocks" where
  "clocks1 = \<lparr>fires_at = snd, monotonic = \<lambda>k. clamp (fst k), offset = 1000, deviation = 0, call_time = 1\<rparr>"

lemma kernel1_timed: "clock_kernel kernel1 clocks1"
proof -
  have "clamp c \<le> clamp (c + 1)" "clamp c \<le> clamp (max c f)" "0 \<le> clamp c" "in_range (clamp (c + 1) + 1000)" for c f
    by (auto simp: clamp_def in_range_def)
  then show ?thesis
    by (auto simp: clock_kernel_def kernel1_def clocks1_def later_def now_of_def fire_time_def split: if_splits)
qed

lemma kernel1_accurate: "accurate kernel1 clocks1"
  by (auto simp: accurate_def kernel1_def clocks1_def clamp_def)

lemma kernel1_clock: "\<forall>k. in_range (now_of kernel1 k)"
  using clock_kernel_clock [OF kernel1_timed] by blast

definition reactor1 :: "(nat, int \<times> int, unit) reactor" where
  "reactor1 = service_post (epoll_interrupt kernel1) 0 (init_task (epoll_interrupt kernel1)
     (add_timer_queue 0 (epoll_reactor_new kernel1 3 (\<lambda>_. queue0) (\<lambda>_. descriptor0) 2 (0, 0) ())))"

lemma reactor1_fields:
  "srv_queue reactor1 = [TaskOp, HandlerOp 0]" "has_task reactor1" "call_stack reactor1 = []" "timer_fd reactor1 = 3" "queue_set reactor1 = [0]"
  by code_simp+

lemma reactor1_members: "queues reactor1 = (\<lambda>_. queue0)" "descriptors reactor1 = (\<lambda>_. descriptor0)"
  by (simp_all add: reactor1_def service_post_def post_immediate_completion_def wake_one_thread_def interrupt_task_def
      epoll_interrupt_def ctl_def kernel1_def push_ops_def work_started_def init_task_def add_timer_queue_def epoll_reactor_new_def
      task_io_service_new_def task_io_service.defs push_private_def upd_context_def)

lemma reactor1_ready:
  "disciplined reactor1" "reactor_ok kernel1 reactor1" "armed kernel1 clocks1 reactor1" "timed_program program0"
proof -
  show "disciplined reactor1"
    by (rule disciplinedI [of _ "[]" "[HandlerOp 0]"]) (simp_all add: reactor1_fields private_ok_def)
  have "kernel_ok kernel1" by (auto simp: kernel_ok_def kernel1_def split: if_splits)
  then show "reactor_ok kernel1 reactor1" by (simp add: reactor_ok_def reactor1_members queue0_ok)
  have "heap queue0 = []" by code_simp
  then show "armed kernel1 clocks1 reactor1" by (simp add: armed_def early_enough_def reactor1_members reactor1_fields)
  show "timed_program program0"
    by (simp add: timed_program_def program0_def timed_action_def timer_time_def in_range_def split: operation.split)
qed

text \<open>Any kernel whose clock stays in range keeps the time of clocks that stand still.\<close>

lemma still_clocks:
  "(\<And>k. in_range (now_of K k)) \<Longrightarrow>
     clock_kernel K \<lparr>fires_at = \<lambda>_. 0, monotonic = \<lambda>_. 0, offset = 0, deviation = 0, call_time = 0\<rparr>"
  by (simp add: clock_kernel_def later_def Let_def pos_imp_zdiv_nonneg_iff)

text \<open>
  C18: Setting the timer descriptor always succeeds and arms it, with a setting in the bounds of
  \<open>timerfd_settime\<close>: its span is at most five minutes, for no timer of the reactor's queues longer than what the wall
  clock showed to be left of it (nothing for a timer that is due), and exactly what is left of the
  earliest of them if that is sooner than five minutes. Each queue reads the clock for itself; if the clock
  stands still meanwhile, all this holds of the one time it shows.
\<close>

theorem timer_descriptor_set:
  assumes "\<forall>k. in_range (now_of K k)" "\<forall>q \<in> set (queue_set s). tq_inv (queues s q) \<and> (\<forall>e \<in> set (heap (queues s q)). timer_time (fst e))"
  shows "\<exists>flags sec nsec k. set_timerfd K s = (Inr (), s\<lparr>kern := k_timerfd_settime K flags sec nsec k\<rparr>)
    \<and> 0 \<le> sec \<and> sec \<le> 300 \<and> 0 \<le> nsec \<and> nsec < 1000000000 \<and> (sec, nsec) \<noteq> (0, 0)
    \<and> (let span = fire_time 0 flags sec nsec; shown = set (readings K (length (queue_set s)) (kern s)) in
        0 \<le> span \<and> span \<le> 300000000
        \<and> (\<forall>q \<in> set (queue_set s). \<forall>e \<in> set (heap (queues s q)). \<exists>now \<in> shown. span \<le> max 0 (fst e - now))
        \<and> (span = 300000000 \<or> (\<exists>q \<in> set (queue_set s). \<exists>e \<in> set (heap (queues s q)). \<exists>now \<in> shown. span = max 0 (fst e - now))))
    \<and> ((\<forall>k. snd (k_clock K k) = k) \<longrightarrow> k = kern s \<and>
       (let now = now_of K (kern s); f = fire_time now flags sec nsec in
        now \<le> f \<and> f \<le> now + 300000000
        \<and> (\<forall>q \<in> set (queue_set s). \<forall>e \<in> set (heap (queues s q)). f \<le> max now (fst e))
        \<and> (f = now + 300000000 \<or> (\<exists>q \<in> set (queue_set s). \<exists>e \<in> set (heap (queues s q)). f = max now (fst e)))))"
proof -
  let ?R = "set (readings K (length (queue_set s)) (kern s))" and ?now = "now_of K (kern s)"
  have g: "good_queues (queue_set s) (queues s)" using assms(2) by (simp add: good_queues_def)
  have c: "clock_kernel K \<lparr>fires_at = \<lambda>_. 0, monotonic = \<lambda>_. 0, offset = 0, deviation = 0, call_time = 0\<rparr>"
    using assms(1) by (simp add: still_clocks)
  obtain v flags sec nsec k where
    v: "set_timerfd K s = (Inr (), s\<lparr>kern := k_timerfd_settime K flags sec nsec k\<rparr>)"
    "timerfd_value v = (flags, sec, nsec)" "0 \<le> v" "v \<le> 300000000"
    "(\<forall>k. snd (k_clock K k) = k) \<longrightarrow> k = kern s"
    "\<forall>q \<in> set (queue_set s). \<forall>e \<in> set (heap (queues s q)). \<exists>now \<in> ?R. v \<le> max 0 (fst e - now)"
    "v = 300000000 \<or> (\<exists>q \<in> set (queue_set s). \<exists>e \<in> set (heap (queues s q)). \<exists>now \<in> ?R. v = max 0 (fst e - now))"
    by (rule set_timerfd_outcome [OF c g]) (rule that)
  note t = timerfd_bounds [OF v(2-4)]
  have m: "max ?now x = ?now + max 0 (x - ?now)" for x by simp
  have "k = kern s \<and> ?now \<le> ?now + v \<and> ?now + v \<le> ?now + 300000000
      \<and> (\<forall>q \<in> set (queue_set s). \<forall>e \<in> set (heap (queues s q)). ?now + v \<le> max ?now (fst e))
      \<and> (?now + v = ?now + 300000000 \<or> (\<exists>q \<in> set (queue_set s). \<exists>e \<in> set (heap (queues s q)). ?now + v = max ?now (fst e)))"
    if still: "\<forall>k. snd (k_clock K k) = k"
  proof -
    have R: "now = ?now" if "now \<in> ?R" for now by (rule readings_still [OF _ that]) (use still in blast)
    have "\<forall>q \<in> set (queue_set s). \<forall>e \<in> set (heap (queues s q)). v \<le> max 0 (fst e - ?now)" using v(6) R by blast
    moreover have "v = 300000000 \<or> (\<exists>q \<in> set (queue_set s). \<exists>e \<in> set (heap (queues s q)). v = max 0 (fst e - ?now))" using v(7) R by blast
    ultimately show ?thesis using v(3,4) mp [OF v(5) still] unfolding m by simp
  qed
  then show ?thesis unfolding Let_def
    by (intro exI [of _ flags] exI [of _ sec] exI [of _ nsec] exI [of _ k] conjI v(1) t(1-5)) (use v(3,4,6,7) t(7) in simp_all)
qed

text \<open>Three timers, the first of which expires after 10 microseconds.\<close>

definition reactor2 :: "(nat, int \<times> int, unit) reactor" where
  "reactor2 = reactor1\<lparr>queues := (\<lambda>_. queue3), kern := (- 1000, 0)\<rparr>"

theorem timer_descriptor_set_witness:
  "\<exists>flags sec nsec k. set_timerfd kernel1 reactor2 = (Inr (), reactor2\<lparr>kern := k_timerfd_settime kernel1 flags sec nsec k\<rparr>)
    \<and> sec \<le> 300 \<and> fire_time 0 flags sec nsec = 0 \<and> length (heap (queues reactor2 0)) = 3"
proof -
  have h: "heap queue3 = [(10, 1), (30, 3), (20, 2)]" by code_simp
  have "readings kernel1 (Suc 0) (- 1000, 0) = [1000]" by (simp add: now_of_def kernel1_def clamp_def)
  then have r: "set (readings kernel1 (length (queue_set reactor2)) (kern reactor2)) = {1000}"
    by (simp add: reactor2_def reactor1_fields)
  have "\<forall>q \<in> set (queue_set reactor2). tq_inv (queues reactor2 q) \<and> (\<forall>e \<in> set (heap (queues reactor2 q)). timer_time (fst e))"
    using queue3_inv by (simp add: reactor2_def h timer_time_def in_range_def)
  from timer_descriptor_set [OF kernel1_clock this] obtain flags sec nsec k where
    s: "set_timerfd kernel1 reactor2 = (Inr (), reactor2\<lparr>kern := k_timerfd_settime kernel1 flags sec nsec k\<rparr>)" "sec \<le> 300"
    and f: "let span = fire_time 0 flags sec nsec; shown = set (readings kernel1 (length (queue_set reactor2)) (kern reactor2)) in
        0 \<le> span \<and> span \<le> 300000000
        \<and> (\<forall>q \<in> set (queue_set reactor2). \<forall>e \<in> set (heap (queues reactor2 q)). \<exists>now \<in> shown. span \<le> max 0 (fst e - now))
        \<and> (span = 300000000 \<or> (\<exists>q \<in> set (queue_set reactor2). \<exists>e \<in> set (heap (queues reactor2 q)). \<exists>now \<in> shown. span = max 0 (fst e - now)))"
    by (elim exE conjE) (rule that)
  have "fire_time 0 flags sec nsec = 0" using f unfolding r by (simp add: Let_def reactor2_def reactor1_fields h)
  moreover have "length (heap (queues reactor2 0)) = 3" by (simp add: reactor2_def h)
  ultimately show ?thesis using s by blast
qed

text \<open>
  C8: If the handlers set their timers to times in range, or to \<open>pos_infin\<close>, then however often the service is run or
  polled, the timer descriptor stays armed. Whatever happens to the wall clock, while there is a
  timer the descriptor fires within five minutes; and as long as it has not fired on a kernel whose wall clock
  follows the monotonic one, no timer is late on the wall clock by more than the clocks' deviation and the time
  that the calls take which read them.
\<close>

theorem timers_stay_armed:
  assumes "clock_kernel K C" "timed_program program" "disciplined s" "reactor_ok K s" "armed K C s"
    "reactor_run K program s = Some (r, s') \<or> reactor_poll K program s = Some (r, s')"
  shows "armed K C s' \<and> (\<forall>q \<in> set (queue_set s'). \<forall>e \<in> set (heap (queues s' q)).
     fires_at C (kern s') \<le> monotonic C (kern s') + 300000000
     \<and> (accurate K C \<longrightarrow> monotonic C (kern s') < fires_at C (kern s') \<longrightarrow>
        now_of K (kern s') < fst e + 2 * deviation C + (int (length (queue_set s')) + 2) * call_time C))"
proof -
  have "timed_ok K C s" using assms(1,4,5) by (simp add: timed_ok_def)
  then have "timed_ok K C s'"
    using armed.service_settled(1,3) [OF assms(3), of K C program "(r, s')"] assms(6) timed_id [OF assms(2)]
    by (auto simp: reactor_run_def reactor_poll_def armed.settled_def)
  then have a: "armed K C s'" by (simp add: timed_ok_def)
  have "now_of K (kern s') < fst e + 2 * deviation C + (int (length (queue_set s')) + 2) * call_time C"
    if "accurate K C" "monotonic C (kern s') < fires_at C (kern s')"
      "fires_at C (kern s') \<le> max (monotonic C (kern s')) (fst e - offset C + slack C (length (queue_set s')))" for e :: heap_entry
    using that accurate_clock(1,3) [OF that(1), of "kern s'"] by (simp add: slack_def algebra_simps)
  then show ?thesis using a by (auto simp: armed_def early_enough_def)
qed

text \<open>After a poll the timer of the first handler is pending; a run waits until it has expired.\<close>

theorem timers_stay_armed_witness:
  "(\<exists>s'. reactor_poll kernel1 program0 reactor1 = Some (Inr 1, s') \<and> (1500000, 7) \<in> set (heap (queues s' 0))
      \<and> fst (kern s') = 2 \<and> snd (kern s') = 1499001 \<and> now_of kernel1 (kern s') < 1500000 + 3)
    \<and> (\<exists>s'. reactor_run kernel1 program0 reactor1 = Some (Inr 3, s') \<and> fst (kern s') = 1499003 \<and> armed kernel1 clocks1 s')"
proof
  note stay = timers_stay_armed [OF kernel1_timed reactor1_ready(4,1,2,3)]
  have "map_option (\<lambda>(r, s'). (r, kern s', heap (queues s' 0), queue_set s')) (reactor_poll kernel1 program0 reactor1)
      = Some (Inr 1, (2, 1499001), [(1500000, 7)], [0])" by code_simp
  then obtain s' where s: "reactor_poll kernel1 program0 reactor1 = Some (Inr 1, s')" "kern s' = (2, 1499001)"
    "heap (queues s' 0) = [(1500000, 7)]" "queue_set s' = [0]" by auto
  have "monotonic clocks1 (kern s') < fires_at clocks1 (kern s')" by (simp add: s clocks1_def clamp_def)
  then have "now_of kernel1 (kern s') < 1500000 + 3"
    using stay [of "Inr 1" s'] kernel1_accurate by (simp add: s(1,3,4)) (simp add: clocks1_def)
  then show "\<exists>s'. reactor_poll kernel1 program0 reactor1 = Some (Inr 1, s') \<and> (1500000, 7) \<in> set (heap (queues s' 0))
      \<and> fst (kern s') = 2 \<and> snd (kern s') = 1499001 \<and> now_of kernel1 (kern s') < 1500000 + 3"
    using s by auto
next
  have "map_option (\<lambda>(r, s'). (r, fst (kern s'))) (reactor_run kernel1 program0 reactor1) = Some (Inr 3, 1499003)" by code_simp
  then obtain s' where "reactor_run kernel1 program0 reactor1 = Some (Inr 3, s')" "fst (kern s') = 1499003" by auto
  then show "\<exists>s'. reactor_run kernel1 program0 reactor1 = Some (Inr 3, s') \<and> fst (kern s') = 1499003 \<and> armed kernel1 clocks1 s'"
    using timers_stay_armed [OF kernel1_timed reactor1_ready(4,1,2,3), of "Inr 3" s'] by blast
qed

end
