(* ===== verification/Loopback.thy ===== *)
theory Loopback imports GroupWorker begin

text \<open>
  The loopback backend (\<open>backend/loopback.cpp\<close>), the handlers of a group whose backends are
  loopbacks, and the example program that uses it (\<open>example/loopback/main.cpp\<close>): its callbacks
  and its \<open>main\<close>. Both contracts of \<open>GroupWorker\<close> are interpreted on these handlers.
\<close>

section \<open>The backend\<close>

text \<open>Whether each of the two pointer members is set; \<open>NULL\<close> after construction.\<close>

record loopback =
  lb_groupc :: bool
  lb_gdao :: bool

text \<open>The world of the example: the group, the live backend objects, the callbacks' multimap.\<close>

record lworld = gcore +
  lbs :: "nat \<Rightarrow> loopback option"
  node2message :: "(string \<times> string) list"

definition Loopback_new :: loopback where
  "Loopback_new = \<lparr>lb_groupc = False, lb_gdao = False\<rparr>"

definition Loopback_initialize :: "loopback \<Rightarrow> loopback" where
  "Loopback_initialize l = l\<lparr>lb_groupc := True, lb_gdao := True\<rparr>"

text \<open>
  The loop of \<open>OnLocalNodeAvailable\<close>; \<open>it\<close> is the rows from the iterator on. Neither branch of
  the body moves the iterator.
\<close>

partial_function (option) available_loop ::
  "loopback \<Rightarrow> localnode \<Rightarrow> localnode_row list \<Rightarrow> 'z gcore_scheme \<Rightarrow> (unit result \<times> 'z gcore_scheme) option" where
  "available_loop l n it s = (case it of
     [] \<Rightarrow> Some (Inr (), s)
   | r # rs \<Rightarrow>
       if getNodeUUID (ln_node (lr_node r)) = getNodeUUID (ln_node n) then available_loop l n it s
       else if \<not> lb_groupc l then Some (Inl (UB EmptyPointer), s)
       else available_loop l n it
         (s\<lparr>io_queue := LocalNode_OnNodeAvailable (lr_node r) (ln_node n) (ln_node (lr_node r)) (io_queue s)\<rparr>))"

declare available_loop.simps [code]

partial_function (option) unavailable_loop ::
  "loopback \<Rightarrow> localnode \<Rightarrow> localnode_row list \<Rightarrow> 'z gcore_scheme \<Rightarrow> (unit result \<times> 'z gcore_scheme) option" where
  "unavailable_loop l n it s = (case it of
     [] \<Rightarrow> Some (Inr (), s)
   | r # rs \<Rightarrow>
       if getNodeUUID (ln_node (lr_node r)) = getNodeUUID (ln_node n) then unavailable_loop l n it s
       else if \<not> lb_groupc l then Some (Inl (UB EmptyPointer), s)
       else unavailable_loop l n it
         (s\<lparr>io_queue := LocalNode_OnNodeUnavailable (lr_node r) (ln_node n) (ln_node (lr_node r)) (io_queue s)\<rparr>))"

declare unavailable_loop.simps [code]

definition Loopback_OnLocalNodeAvailable ::
  "loopback \<Rightarrow> localnode \<Rightarrow> 'z gcore_scheme \<Rightarrow> (unit result \<times> 'z gcore_scheme) option" where
  "Loopback_OnLocalNodeAvailable l n s =
     (if \<not> lb_gdao l then Some (Inl (UB EmptyPointer), s) else available_loop l n (dao_begin_uuid s) s)"

definition Loopback_OnLocalNodeUnavailable ::
  "loopback \<Rightarrow> localnode \<Rightarrow> 'z gcore_scheme \<Rightarrow> (unit result \<times> 'z gcore_scheme) option" where
  "Loopback_OnLocalNodeUnavailable l n s =
     (if \<not> lb_gdao l then Some (Inl (UB EmptyPointer), s) else unavailable_loop l n (dao_begin_uuid s) s)"

definition Loopback_OnLocalNodeWritesToGroup :: "loopback \<Rightarrow> packet \<Rightarrow> 'z gcore_scheme \<Rightarrow> unit result \<times> 'z gcore_scheme" where
  "Loopback_OnLocalNodeWritesToGroup l p s =
     (if \<not> lb_gdao l then (Inl (UB EmptyPointer), s)
      else case dao_findByUUID (getNodeUUID (getReceiver p)) s of
          Inl e \<Rightarrow> (Inl e, s)
        | Inr r \<Rightarrow>
            if \<not> lb_groupc l then (Inl (UB EmptyPointer), s)
            else (Inr (), s\<lparr>io_queue := LocalNode_OnRead (lr_node r) p (io_queue s)\<rparr>))"

definition Loopback_Worker :: "'z gcore_scheme \<Rightarrow> 'z gcore_scheme" where
  "Loopback_Worker s = s"

section \<open>The handlers of a group of loopbacks\<close>

text \<open>A handler runs on the object it was bound to; \<open>user\<close> is what the user's callbacks do.\<close>

definition with_loopback :: "nat \<Rightarrow> (loopback \<Rightarrow> 'z lworld_scheme \<Rightarrow> (unit result \<times> 'z lworld_scheme) option) \<Rightarrow>
    'z lworld_scheme \<Rightarrow> (unit result \<times> 'z lworld_scheme) option" where
  "with_loopback b f s = (case lbs s b of None \<Rightarrow> Some (Inl (UB EmptyPointer), s) | Some l \<Rightarrow> f l s)"

fun loopback_exec :: "(cb_call \<Rightarrow> 'z lworld_scheme \<Rightarrow> unit result \<times> 'z lworld_scheme) \<Rightarrow> handler \<Rightarrow>
    'z lworld_scheme \<Rightarrow> (unit result \<times> 'z lworld_scheme) option" where
  "loopback_exec user (HWorker b) s = with_loopback b (\<lambda>l s. Some (Inr (), Loopback_Worker s)) s"
| "loopback_exec user (HNodeAvailable b n) s = with_loopback b (\<lambda>l. Loopback_OnLocalNodeAvailable l n) s"
| "loopback_exec user (HNodeUnavailable b n) s = with_loopback b (\<lambda>l. Loopback_OnLocalNodeUnavailable l n) s"
| "loopback_exec user (HWrite b p) s = with_loopback b (\<lambda>l s. Some (Loopback_OnLocalNodeWritesToGroup l p s)) s"
| "loopback_exec user (HCallback c) s = Some (user c s)"
| "loopback_exec user HStop s = Some (Inr (), s\<lparr>io_stopped := True\<rparr>)"

text \<open>\<open>new Loopback()\<close> at address \<open>b\<close> and the \<open>initialize\<close> that \<open>attachBackend\<close> calls on it.\<close>

definition loopback_init :: "nat \<Rightarrow> 'z lworld_scheme \<Rightarrow> unit result \<times> 'z lworld_scheme" where
  "loopback_init b s = (Inr (), s\<lparr>lbs := (lbs s)(b \<mapsto> Loopback_initialize Loopback_new)\<rparr>)"

section \<open>The example\<close>

text \<open>The entries the constructor inserts; \<open>multimap::find\<close> is the first entry with the key.\<close>

definition LoopbackCallbacks_messages :: "(string \<times> string) list" where
  "LoopbackCallbacks_messages =
    [(''Carol->Carlos'', ''Hello node!''), (''Carlos->Carol'', ''Greetings back to you!''), (''Carol->Carlos'', ''''),
     (''Carol->'', ''Hello node!''), (''->Carol'', ''Hi, howre u?''), (''Carol->'', ''Fine thx''), (''->Carol'', ''''),
     (''Carlos->'', ''Ehlo!''), (''->Carlos'', ''Oh, nice, a second node to communicate, howre u?''),
     (''Carlos->'', ''Great, things seem to work''), (''->Carlos'', ''good to hear''), (''Carlos->'', ''''),
     (''Carol->Carlos'', ''ure leaving? too bad''), (''Carlos->Carol'', ''maybe im back soon, bye''),
     (''Carol->Carlos'', ''cya''), (''Carlos->Carol'', ''''), (''->Carlos'', ''hope to cya soon''),
     (''Carlos->'', ''me too, bye''), (''->Carlos'', ''''),
     (''Carol->'', ''ure leaving too, omfg shall i handle the work all alone now?''),
     (''->Carol'', ''im sure another node will be online soon, cause everything is working so great ^^''),
     (''Carol->'', ''me hopes, cya''), (''->Carol'', ''cu'')]"

definition shown_alias :: "inode \<Rightarrow> string" where
  "shown_alias n = (let a = getAlias n in if a = uuid_insert default_fmt (getNodeUUID n) then [] else a)"

fun erase_first :: "string \<Rightarrow> (string \<times> string) list \<Rightarrow> (string \<times> string) list" where
  "erase_first k [] = []"
| "erase_first k (e # es) = (if fst e = k then es else e # erase_first k es)"

definition handleCommunication :: "inode \<Rightarrow> inode \<Rightarrow> 'z lworld_scheme \<Rightarrow> unit result \<times> 'z lworld_scheme" where
  "handleCommunication src dst s =
     (let key = shown_alias dst @ ''->'' @ shown_alias src in
      case map_of (node2message s) key of
        None \<Rightarrow> (Inr (), s)
      | Some msg \<Rightarrow>
          let (res, s1) = (if length msg > 0
                then GroupCore_write (fst (payload_set msg (Packet_new dst src))) s else (Inr (), s)) in
          case res of
            Inl e \<Rightarrow> (Inl e, s1)
          | Inr _ \<Rightarrow> (Inr (), s1\<lparr>node2message := erase_first key (node2message s1)\<rparr>))"

text \<open>
  The callbacks print and hand the two nodes on. A bound \<open>OnNodeAvailable\<close> has one node too few
  to be called with; no handler of this backend comes to post one.
\<close>

fun LoopbackCallbacks :: "cb_call \<Rightarrow> 'z lworld_scheme \<Rightarrow> unit result \<times> 'z lworld_scheme" where
  "LoopbackCallbacks (CbRead i p) s = handleCommunication (getSender p) (getReceiver p) s"
| "LoopbackCallbacks (CbNodeAvailable i [src, dst]) s = handleCommunication src dst s"
| "LoopbackCallbacks (CbNodeUnavailable i [src, dst]) s = handleCommunication src dst s"
| "LoopbackCallbacks _ s = (Inr (), s)"

abbreviation "example_exec \<equiv> loopback_exec LoopbackCallbacks"

definition lworld_new :: "string \<Rightarrow> lworld result" where
  "lworld_new nm = (case GroupCore_new nm of Inl e \<Rightarrow> Inl e
     | Inr g \<Rightarrow> Inr (gcore.extend g \<lparr>lbs = (\<lambda>_. None), node2message = LoopbackCallbacks_messages\<rparr>))"

text \<open>Calls in sequence: the first that does not return normally is the outcome.\<close>

definition then_op :: "('a result \<times> 's) option \<Rightarrow> ('a \<Rightarrow> 's \<Rightarrow> ('b result \<times> 's) option) \<Rightarrow> ('b result \<times> 's) option" where
  "then_op x f = Option.bind x (\<lambda>(r, s). case r of Inl e \<Rightarrow> Some (Inl e, s) | Inr a \<Rightarrow> f a s)"

text \<open>
  \<open>main\<close>: \<open>g k\<close> and \<open>t k\<close> are the random numbers and the clock of the \<open>k\<close>-th call. The type
  name is \<open>typeid(GScale::Backend::Loopback).name()\<close>.
\<close>

definition example_main :: "core \<Rightarrow> byte list \<Rightarrow> (nat \<Rightarrow> nat \<Rightarrow> u64) \<Rightarrow> (nat \<Rightarrow> int) \<Rightarrow> lworld \<Rightarrow> (int result \<times> lworld) option" where
  "example_main c blk0 g t s0 =
     then_op (Some (GroupCore_attachBackend (loopback_init 0) 0 ''N6GScale7Backend8LoopbackE'' 0 s0)) (\<lambda>_ s1.
     then_op (GroupCore_connect c blk0 (g 0) (t 0) ''Carol'' 0 s1) (\<lambda>carol s2.
     then_op (GroupCore_connect c blk0 (g 1) (t 1) ''Carlos'' 0 s2) (\<lambda>carlos s3.
     then_op (GroupCore_connect_nameless c blk0 (g 2) (t 2) 0 s3) (\<lambda>nameless s4.
     then_op (GroupCore_runWorker example_exec None s4) (\<lambda>_ s5.
     let s6 = GroupCore_disconnect (t 3) carlos s5;
         s7 = GroupCore_disconnect (t 4) nameless s6;
         s8 = GroupCore_disconnect (t 5) carol s7
     in then_op (GroupCore_runWorker example_exec None s8) (\<lambda>_ s9. Some (Inr 0, s9)))))))"

section \<open>Lemmas\<close>

lemma available_loop_diverges: "available_loop l n it s = Some x \<Longrightarrow> it \<noteq> [] \<Longrightarrow> lb_groupc l \<Longrightarrow> False"
proof (induction l n it s x rule: available_loop.raw_induct [rotated, consumes 1, case_names step])
  case (step loop l n it s x)
  then show ?case by (cases x) (auto split: list.splits if_splits dest: step(1))
qed

lemma unavailable_loop_diverges: "unavailable_loop l n it s = Some x \<Longrightarrow> it \<noteq> [] \<Longrightarrow> lb_groupc l \<Longrightarrow> False"
proof (induction l n it s x rule: unavailable_loop.raw_induct [rotated, consumes 1, case_names step])
  case (step loop l n it s x)
  then show ?case by (cases x) (auto split: list.splits if_splits dest: step(1))
qed

lemma queue_unchanged: "\<exists>q. s = s\<lparr>io_queue := q\<rparr>"
  by (rule exI [of _ "io_queue s"]) simp

lemma available_loop_frame: "available_loop l n it s = Some x \<Longrightarrow> \<exists>q. snd x = s\<lparr>io_queue := q\<rparr>"
proof (induction l n it s x rule: available_loop.raw_induct [rotated, consumes 1, case_names step])
  case (step loop l n it s x)
  then show ?case
    by (cases x) (auto split: list.splits if_splits intro: queue_unchanged dest!: step(1))
qed

lemma unavailable_loop_frame: "unavailable_loop l n it s = Some x \<Longrightarrow> \<exists>q. snd x = s\<lparr>io_queue := q\<rparr>"
proof (induction l n it s x rule: unavailable_loop.raw_induct [rotated, consumes 1, case_names step])
  case (step loop l n it s x)
  then show ?case
    by (cases x) (auto split: list.splits if_splits intro: queue_unchanged dest!: step(1))
qed

lemma dao_begin_empty [simp]: "dao_begin_uuid s = [] \<longleftrightarrow> localnodes s = []"
  by (metis dao_begin_uuid_def length_0_conv length_sort)

lemma available_loop_outcome:
  "lb_groupc l \<Longrightarrow> available_loop l n it s = (if it = [] then Some (Inr (), s) else None)"
  using available_loop_diverges [of l n it s]
  by (cases "available_loop l n it s") (auto simp: available_loop.simps [of l n "[]"])

lemma unavailable_loop_outcome:
  "lb_groupc l \<Longrightarrow> unavailable_loop l n it s = (if it = [] then Some (Inr (), s) else None)"
  using unavailable_loop_diverges [of l n it s]
  by (cases "unavailable_loop l n it s") (auto simp: unavailable_loop.simps [of l n "[]"])

lemmas loop_outcome = available_loop_outcome unavailable_loop_outcome

section \<open>The contracts\<close>

lemma with_loopback_Some:
  "with_loopback b f s = Some x \<Longrightarrow> (\<exists>l. lbs s b = Some l \<and> f l s = Some x) \<or> x = (Inl (UB EmptyPointer), s)"
  by (auto simp: with_loopback_def split: option.splits)

lemma OnLocalNodeAvailable_frame: "Loopback_OnLocalNodeAvailable l n s = Some x \<Longrightarrow> \<exists>q. snd x = s\<lparr>io_queue := q\<rparr>"
  by (auto simp: Loopback_OnLocalNodeAvailable_def intro: queue_unchanged dest: available_loop_frame split: if_splits)

lemma OnLocalNodeUnavailable_frame: "Loopback_OnLocalNodeUnavailable l n s = Some x \<Longrightarrow> \<exists>q. snd x = s\<lparr>io_queue := q\<rparr>"
  by (auto simp: Loopback_OnLocalNodeUnavailable_def intro: queue_unchanged dest: unavailable_loop_frame split: if_splits)

lemma OnLocalNodeWritesToGroup_frame: "\<exists>q. snd (Loopback_OnLocalNodeWritesToGroup l p s) = s\<lparr>io_queue := q\<rparr>"
  by (auto simp: Loopback_OnLocalNodeWritesToGroup_def intro: queue_unchanged split: sum.split)

lemmas loopback_frames =
  OnLocalNodeAvailable_frame OnLocalNodeUnavailable_frame OnLocalNodeWritesToGroup_frame

lemma library_inv_messages [simp]:
  "library_inv (s\<lparr>node2message := m\<rparr>) = library_inv s" "library_inv (s\<lparr>lbs := f\<rparr>) = library_inv s"
  by (simp_all add: library_inv_def group_inv_def nodes_idle_def)

lemma library_inv_user: "library_inv s \<Longrightarrow> library_inv (snd (LoopbackCallbacks c s))"
proof (induction c s rule: LoopbackCallbacks.induct)
  have comm: "library_inv (snd (handleCommunication src dst s))" if "library_inv s" for src dst and s :: "'a lworld_scheme"
    using library_inv_write [OF that, of "fst (payload_set (the (map_of (node2message s) (shown_alias dst @ ''->'' @ shown_alias src))) (Packet_new dst src))"] that
    by (auto simp: handleCommunication_def Let_def split: option.split prod.split sum.split)
  { case 1 then show ?case by (simp add: comm) }
  { case 2 then show ?case by (simp add: comm) }
  { case 3 then show ?case by (simp add: comm) }
qed simp_all

lemma library_inv_loopback:
  assumes "library_inv s" "example_exec h s = Some (res, s')"
  shows "library_inv s'"
proof -
  show ?thesis
  proof (cases h)
    case (HCallback c)
    then show ?thesis using assms library_inv_user [OF assms(1), of c] by auto
  next
    case (HNodeAvailable b n)
    then show ?thesis using assms
      by (auto dest!: with_loopback_Some OnLocalNodeAvailable_frame)
  next
    case (HNodeUnavailable b n)
    then show ?thesis using assms
      by (auto dest!: with_loopback_Some OnLocalNodeUnavailable_frame)
  next
    case (HWrite b p)
    have "library_inv (snd (Loopback_OnLocalNodeWritesToGroup l p s))" for l
      using OnLocalNodeWritesToGroup_frame [of l p s] assms(1) by auto
    then show ?thesis using assms HWrite
      by (auto dest!: with_loopback_Some) (metis snd_conv)
  next
    case (HWorker b)
    then show ?thesis using assms by (auto simp: Loopback_Worker_def dest!: with_loopback_Some)
  next
    case HStop
    then show ?thesis using assms by auto
  qed
qed

interpretation loopback_runtime: handler_runtime example_exec "range loopback_init"
proof
  fix s :: "'a lworld_scheme" and h res s'
  assume "library_inv s" "example_exec h s = Some (res, s')"
  then show "library_inv s'" by (rule library_inv_loopback)
qed (auto simp: loopback_init_def)

text \<open>No handler, callback or operation of a group of loopbacks queues the handler that delivers a packet.\<close>

definition no_writes :: "'z gcore_scheme \<Rightarrow> bool" where
  "no_writes s \<longleftrightarrow> (\<forall>b p. HWrite b p \<notin> set (io_queue s))"

lemma user_frame:
  "localnodes (snd (LoopbackCallbacks c s)) = localnodes s \<and> io_queue (snd (LoopbackCallbacks c s)) = io_queue s"
proof (induction c s rule: LoopbackCallbacks.induct)
  have comm: "localnodes (snd (handleCommunication src dst s)) = localnodes s \<and>
      io_queue (snd (handleCommunication src dst s)) = io_queue s" for src dst and s :: "'a lworld_scheme"
    by (auto simp: handleCommunication_def Let_def write_eq split: option.split prod.split sum.split)
  { case 1 show ?case by (simp add: comm) }
  { case 2 show ?case by (simp add: comm) }
  { case 3 show ?case by (simp add: comm) }
qed simp_all

lemma loopback_step_without_nodes:
  assumes "localnodes s = []"
  shows "\<exists>res s'. example_exec h s = Some (res, s') \<and> localnodes s' = [] \<and> io_queue s' = io_queue s"
  using assms user_frame [of _ s]
  by (cases h) (auto simp: prod_eq_iff with_loopback_def Loopback_OnLocalNodeAvailable_def Loopback_OnLocalNodeUnavailable_def
      available_loop.simps [of _ _ "[]"] unavailable_loop.simps [of _ _ "[]"] dao_begin_uuid_def
      Loopback_OnLocalNodeWritesToGroup_def dao_findByUUID_def mi_find_def Loopback_Worker_def
      split: option.split)

lemma available_loop_no_writes: "available_loop l n it s = Some x \<Longrightarrow> no_writes s \<Longrightarrow> no_writes (snd x)"
proof (induction l n it s x rule: available_loop.raw_induct [rotated, consumes 1, case_names step])
  case (step loop l n it s x)
  then show ?case
    by (cases x) (force split: list.splits if_splits simp: no_writes_def LocalNode_OnNodeAvailable_def dest!: step(1))
qed

lemma unavailable_loop_no_writes: "unavailable_loop l n it s = Some x \<Longrightarrow> no_writes s \<Longrightarrow> no_writes (snd x)"
proof (induction l n it s x rule: unavailable_loop.raw_induct [rotated, consumes 1, case_names step])
  case (step loop l n it s x)
  then show ?case
    by (cases x) (force split: list.splits if_splits simp: no_writes_def LocalNode_OnNodeUnavailable_def dest!: step(1))
qed

lemma exec_no_writes:
  assumes "no_writes s" "example_exec h s = Some (res, s')"
  shows "no_writes s'"
proof (cases h)
  case (HCallback c)
  then have "s' = snd (LoopbackCallbacks c s)" using assms(2) by simp
  then show ?thesis using assms(1) user_frame [of c s] by (simp add: no_writes_def)
next
  case (HNodeAvailable b n)
  then show ?thesis using assms available_loop_no_writes [of _ n _ s "(res, s')"]
    by (auto simp: Loopback_OnLocalNodeAvailable_def dest!: with_loopback_Some split: if_splits)
next
  case (HNodeUnavailable b n)
  then show ?thesis using assms unavailable_loop_no_writes [of _ n _ s "(res, s')"]
    by (auto simp: Loopback_OnLocalNodeUnavailable_def dest!: with_loopback_Some split: if_splits)
qed (use assms in \<open>auto simp: no_writes_def Loopback_OnLocalNodeWritesToGroup_def LocalNode_OnRead_def Loopback_Worker_def
      dest!: with_loopback_Some split: if_splits sum.splits\<close>)

lemma run_no_writes:
  assumes "no_writes s" "GroupCore_runWorker example_exec tm s = Some (res, s')"
  shows "no_writes s'"
  using assms(2)
proof (cases rule: runWorker_cases)
  case (1 tm' t)
  have "no_writes t"
  proof (rule io_run_preserves [OF 1(1)])
    show "no_writes s'" if "no_writes s" "example_exec h s = Some (res, s')" for h s res s'
      using that by (rule exec_no_writes)
  qed (use assms(1) in \<open>auto simp: no_writes_def post_all_eq\<close>)
  then show ?thesis
    using 1(2) by (auto simp: Let_def no_writes_def post_def drop_unreferenced_eq drop_disabled_eq split: sum.splits if_splits)
qed

lemma step_no_writes: "group_step example_exec (range loopback_init) s s' \<Longrightarrow> no_writes s \<Longrightarrow> no_writes s'"
proof (induction rule: group_step.induct)
  case (connected c blk0 g t a cbs s res s')
  then show ?case
    by (cases "the (LocalNode_new c blk0 g a cbs)")
      (auto simp: no_writes_def GroupCore_connect_def Let_def post_all_eq split: if_splits)
next
  case (written p s s')
  then show ?case by (auto simp: write_eq no_writes_def split: if_splits)
next
  case (attached init s en ty b)
  then show ?case by (auto simp: GroupCore_attachBackend_def loopback_init_def no_writes_def)
next
  case (ran tm s res s')
  then show ?case by (rule run_no_writes [rotated])
qed (auto simp: disconnect_eq GroupCore_detachBackend_def no_writes_def split: option.splits)

lemma reachable_no_writes:
  "group_reachable example_exec (range loopback_init) starts s \<Longrightarrow> (\<And>s. s \<in> starts \<Longrightarrow> no_writes s) \<Longrightarrow> no_writes s"
  by (induction rule: group_reachable.induct) (auto intro: step_no_writes)

interpretation loopback_idle: terminating_runtime example_exec "\<lambda>s. localnodes s = []"
  "\<lambda>s. length (io_queue s)"
proof
  fix s :: "'a lworld_scheme" and h hs
  assume "localnodes s = []" "io_queue s = h # hs"
  then show "\<exists>res s'. example_exec h (s\<lparr>io_queue := hs\<rparr>) = Some (res, s') \<and> localnodes s' = [] \<and>
      length (io_queue s') < length (io_queue s)"
    using loopback_step_without_nodes [of "s\<lparr>io_queue := hs\<rparr>" h] by auto
qed (simp add: post_all_eq)

lemma worker_hangs:
  assumes "io_queue s = HNodeAvailable b n # q" "lbs s b = Some l" "lb_groupc l" "localnodes s \<noteq> []" "tm \<noteq> Some 0"
    and "lb_gdao l"
  shows "GroupCore_runWorker (loopback_exec user) tm s = None"
  using assms
  by (simp add: GroupCore_runWorker_def Let_def post_all_eq io_run_handler with_loopback_def
      Loopback_OnLocalNodeAvailable_def available_loop_outcome)

lemma initialized [simp]:
  "lb_groupc (Loopback_initialize l)" "lb_gdao (Loopback_initialize l)"
  by (simp_all add: Loopback_initialize_def)

lemma first_attach:
  assumes "lworld_new nm = Inr s0"
  obtains s1 where "GroupCore_attachBackend (loopback_init 0) en ty 0 s0 = (Inr (), s1)" "group_inv s1"
    "backends s1 = [BackendRow_enable (BackendRow 0 ty)]" "lbs s1 0 = Some (Loopback_initialize Loopback_new)"
    "io_queue s1 = []" "localnodes s1 = []" "connectcount s1 = 0"
proof -
  from assms have s0: "backends s0 = []" "io_queue s0 = []" "localnodes s0 = []" "connectcount s0 = 0" "gname s0 \<noteq> []"
    by (auto simp: lworld_new_def GroupCore_new_def gcore.extend_def split: if_splits)
  show ?thesis
    by (rule that [of "s0\<lparr>lbs := (lbs s0)(0 \<mapsto> Loopback_initialize Loopback_new),
          backends := [BackendRow_enable (BackendRow 0 ty)]\<rparr>"])
      (simp_all add: GroupCore_attachBackend_def s0 mi_find_def mi_insert_def loopback_init_def group_inv_def mi_unique_def)
qed

lemma enabled_row [simp]: "br_enabled (BackendRow_enable r)" "br_backend (BackendRow_enable (BackendRow b ty)) = b"
  by (simp_all add: BackendRow_enable_def BackendRow_def)

section \<open>Properties\<close>

text \<open>
  A packet handed to an initialised loopback reaches exactly the addressed node: one read
  callback of the node with the receiver's uuid is queued, last, with that packet; if the group
  has no such node the call throws \<open>ENOENT\<close> with the uuid's text and nothing is queued.
\<close>

theorem loopback_delivers:
  assumes inv: "group_inv s" and l: "l = Loopback_initialize Loopback_new"
  shows "(\<forall>r \<in> set (localnodes s). getNodeUUID (ln_node (lr_node r)) = getNodeUUID (getReceiver p) \<longrightarrow>
      Loopback_OnLocalNodeWritesToGroup l p s =
        (Inr (), s\<lparr>io_queue := io_queue s @ [HCallback (CbRead (getCallback (lr_node r)) p)]\<rparr>)) \<and>
    ((\<forall>r \<in> set (localnodes s). getNodeUUID (ln_node (lr_node r)) \<noteq> getNodeUUID (getReceiver p)) \<longrightarrow>
      Loopback_OnLocalNodeWritesToGroup l p s =
        (Inl (Throw (GException (''node uuid not found:'' @ to_string (getNodeUUID (getReceiver p))) ENOENT)), s))"
proof -
  have ptr: "lb_gdao l" "lb_groupc l" by (simp_all add: l Loopback_initialize_def)
  have "dao_findByUUID u s = Inr r" if "r \<in> set (localnodes s)" "getNodeUUID (ln_node (lr_node r)) = u" for r u
    using findByUUID_iff [OF inv] that by (simp add: LocalNodeRow_nodeuuid_def)
  moreover have "dao_findByUUID u s = Inl (Throw (GException (''node uuid not found:'' @ to_string u) ENOENT))"
    if "\<forall>r \<in> set (localnodes s). getNodeUUID (ln_node (lr_node r)) \<noteq> u" for u
    using by_uuid.find_None_iff [OF group_invD(1) [OF inv], of u] that uuid_insert_default [of u]
    by (simp add: dao_findByUUID_def LocalNodeRow_nodeuuid_def)
  ultimately show ?thesis
    by (auto simp: Loopback_OnLocalNodeWritesToGroup_def ptr LocalNode_OnRead_def getCallback_def)
qed

theorem loopback_delivers_witness:
  "\<exists>s. lworld_new ''chat'' = Inr s \<and> fst (Loopback_OnLocalNodeWritesToGroup (Loopback_initialize Loopback_new) Packet_default s) =
     Inl (Throw (GException (''node uuid not found:'' @ to_string nil_uuid) ENOENT))"
proof -
  obtain s where s: "lworld_new ''chat'' = Inr s" "group_inv s" "localnodes s = []"
    by (simp add: lworld_new_def GroupCore_new_def group_inv_def gcore.extend_def)
  from loopback_delivers [OF s(2) refl, of Packet_default] s(1,3) show ?thesis
    by (simp add: Packet_default_def Packet_new_def getReceiver_def getNodeUUID_def getNilNode_def INode_host_uuid_def)
qed

text \<open>
  Announcing a node to an initialised loopback returns exactly when the group has no node at
  all; with any node in the table, the announced one included, the loop never advances. The same
  holds for the announcement of a node that leaves.
\<close>

theorem loopback_announce_returns_iff:
  assumes "l = Loopback_initialize Loopback_new"
  shows "(Loopback_OnLocalNodeAvailable l n s \<noteq> None \<longleftrightarrow> localnodes s = []) \<and>
    (Loopback_OnLocalNodeUnavailable l n s \<noteq> None \<longleftrightarrow> localnodes s = [])"
  using assms
  by (simp add: Loopback_OnLocalNodeAvailable_def Loopback_OnLocalNodeUnavailable_def Loopback_initialize_def
      loop_outcome)

theorem loopback_announce_returns_iff_witness:
  "\<exists>s. lworld_new ''chat'' = Inr s \<and>
     Loopback_OnLocalNodeAvailable (Loopback_initialize Loopback_new) \<lparr>ln_node = getNilNode, ln_cbs = 0\<rparr> s \<noteq> None"
proof -
  obtain s where s: "lworld_new ''chat'' = Inr s" "localnodes s = []"
    by (simp add: lworld_new_def GroupCore_new_def gcore.extend_def)
  from loopback_announce_returns_iff [OF refl, of "\<lparr>ln_node = getNilNode, ln_cbs = 0\<rparr>" s] s show ?thesis by blast
qed

text \<open>
  C35: In a group with an attached loopback and an idle queue, connecting one node makes the next
  worker call diverge, with or without a time limit (the timer is only served between handlers).
\<close>

theorem connect_hangs_loopback_group:
  assumes inv: "group_inv s" and cc: "connectcount s < 2 ^ 31 - 1"
    and new: "LocalNode_new c blk0 g a cbs = Some (Inr n)"
    and en: "filter br_enabled (backends s) = b # bs" "lbs s (br_backend b) = Some (Loopback_initialize Loopback_new)"
    and q: "io_queue s = []" and tm: "tm \<noteq> Some 0"
  shows "\<exists>s1. GroupCore_connect c blk0 g t a cbs s = Some (Inr n, s1) \<and>
    GroupCore_runWorker (loopback_exec user) tm s1 = None"
proof -
  let ?row = "LocalNodeRow (of_int (connectcount s + 1)) n t"
  let ?s = "s\<lparr>connectcount := connectcount s + 1, localnodes := mi_insert node_clash ?row (localnodes s),
      io_queue := io_queue s @ map (\<lambda>b. HNodeAvailable (br_backend b) n) (filter br_enabled (backends s))\<rparr>"
  have "localnodes ?s \<noteq> []" by (cases "localnodes s") (auto simp: mi_insert_def)
  then have "GroupCore_runWorker (loopback_exec user) tm ?s = None"
    using en q tm by (intro worker_hangs [of ?s "br_backend b" n _ "Loopback_initialize Loopback_new"]) (simp_all add: initialized)
  with connect_eq [OF cc new, of t] show ?thesis by blast
qed

theorem connect_hangs_loopback_group_witness:
  "\<exists>s0 s1 s2 n. lworld_new ''chat'' = Inr s0 \<and>
     GroupCore_attachBackend (loopback_init 0) 0 ''L'' 0 s0 = (Inr (), s1) \<and>
     GroupCore_connect Core_new [] (\<lambda>_. 0) 5 [] 7 s1 = Some (Inr n, s2) \<and>
     GroupCore_runWorker example_exec (Some 9) s2 = None"
proof -
  obtain s0 where s0: "lworld_new ''chat'' = Inr s0"
    by (simp add: lworld_new_def GroupCore_new_def)
  obtain s1 where s1: "GroupCore_attachBackend (loopback_init 0) 0 ''L'' 0 s0 = (Inr (), s1)" "group_inv s1"
      "backends s1 = [BackendRow_enable (BackendRow 0 ''L'')]" "lbs s1 0 = Some (Loopback_initialize Loopback_new)"
      "io_queue s1 = []" "connectcount s1 = 0"
    using s0 by (rule first_attach)
  have "filter br_enabled (backends s1) = [BackendRow_enable (BackendRow 0 ''L'')]"
      "lbs s1 (br_backend (BackendRow_enable (BackendRow 0 ''L''))) = Some (Loopback_initialize Loopback_new)"
      "connectcount s1 < 2 ^ 31 - 1"
    by (simp_all add: s1)
  from connect_hangs_loopback_group [OF s1(2) this(3) LocalNode_new_nameless this(1,2) s1(5), of "Some 9"] s0 s1(1)
  show ?thesis by fastforce
qed

text \<open>
  C2: On every history of a group of loopbacks, the group's invariant holds (ids and uuids are
  unique, no id exceeds the counter), and whenever a worker call returns normally the group is
  empty: every connected node is dropped, since nothing ever counts a reference to it.
\<close>

theorem loopback_worker_drops_all_nodes:
  assumes reach: "group_reachable example_exec (range loopback_init) {s. \<exists>nm. lworld_new nm = Inr s} s"
  shows "group_inv s \<and> (\<forall>tm s'. GroupCore_runWorker example_exec tm s = Some (Inr (), s') \<longrightarrow> localnodes s' = [])"
proof -
  have "library_inv s" if "lworld_new nm = Inr s" for nm s
    using that by (auto simp: lworld_new_def GroupCore_new_def library_inv_def group_inv_def nodes_idle_def gcore.extend_def
        split: sum.splits if_splits)
  then have "library_inv s"
    by (intro loopback_runtime.reachable_inv [OF reach]) auto
  then show ?thesis
    using loopback_runtime.worker_empties by (auto simp: library_inv_def)
qed

theorem loopback_worker_drops_all_nodes_witness:
  "\<exists>s0 s1 s2 n. lworld_new ''chat'' = Inr s0 \<and>
     GroupCore_connect Core_new [] (\<lambda>_. 0) 5 [] 7 s0 = Some (Inr n, s1) \<and> localnodes s1 \<noteq> [] \<and>
     GroupCore_runWorker example_exec None s1 = Some (Inr (), s2) \<and> localnodes s2 = [] \<and> group_inv s2"
proof -
  obtain s0 where s0: "lworld_new ''chat'' = Inr s0" "connectcount s0 = 0" "localnodes s0 = []" "backends s0 = []" "io_queue s0 = []"
    by (simp add: lworld_new_def GroupCore_new_def gcore.extend_def)
  have "connectcount s0 < 2 ^ 31 - 1" by (simp add: s0)
  from connect_eq [OF this LocalNode_new_nameless, of Core_new "[]" "\<lambda>_. 0" 5 7] obtain n s1 where
    s1: "GroupCore_connect Core_new [] (\<lambda>_. 0) 5 [] 7 s0 = Some (Inr n, s1)" "localnodes s1 \<noteq> []" "backends s1 = []" "io_queue s1 = []"
    by (simp add: s0 mi_insert_def)
  then obtain s2 where s2: "GroupCore_runWorker example_exec None s1 = Some (Inr (), s2)"
    by (simp add: GroupCore_runWorker_def Let_def post_all_eq io_run_empty)
  let ?reach = "group_reachable example_exec (range loopback_init) {s. \<exists>nm. lworld_new nm = Inr s}"
  have r0: "?reach s0" using s0(1) by (auto intro: group_reachable.start)
  have r1: "?reach s1" using r0 group_step.connected [OF s1(1)] by (rule group_reachable.step)
  have r2: "?reach s2" using r1 group_step.ran [OF s2] by (rule group_reachable.step)
  from loopback_worker_drops_all_nodes [OF r1] s2 have "localnodes s2 = []" by blast
  moreover have "group_inv s2" using loopback_worker_drops_all_nodes [OF r2] by blast
  ultimately show ?thesis using s0(1) s1(1,2) s2 by blast
qed

text \<open>
  C36: What becomes of the packets of a group of loopbacks, on every history of it. A write puts the packet at the
  end of the send queue, with the types of the enabled backends as its references, and is defined exactly when no
  backend is enabled: otherwise the iterator it posts from is \<open>end()\<close>, and no handler has been queued for the
  packet. The loop itself would do its work from the position of the new row: one handler with the packet for every
  enabled backend, in order. So the handler that hands a packet to a backend never stands in the queue.
\<close>

theorem written_packets_stay:
  assumes reach: "group_reachable example_exec (range loopback_init) {s. \<exists>nm. lworld_new nm = Inr s} s"
  shows "(\<forall>b p. HWrite b p \<notin> set (io_queue s)) \<and>
    (\<exists>s'. GroupCore_write p s = (if \<exists>b \<in> set (backends s). br_enabled b then Inl (UB EndDeref) else Inr (), s') \<and>
      sendqueue s' = sendqueue s @ [\<lparr>pr_packet = p, pr_backendref = {br_type b |b. b \<in> set (backends s) \<and> br_enabled b}\<rparr>] \<and>
      io_queue s' = io_queue s \<and> localnodes s' = localnodes s \<and> backends s' = backends s \<and>
      write_loop (length (sendqueue s)) (enabled_backends s') s' =
        (Inr (), s'\<lparr>io_queue := io_queue s @ map (\<lambda>b. HWrite (br_backend b) p) (filter br_enabled (backends s))\<rparr>))"
proof
  have "no_writes s" by (rule reachable_no_writes [OF reach]) (auto simp: lworld_new_def GroupCore_new_def gcore.extend_def
        no_writes_def split: sum.splits if_splits)
  then show "\<forall>b p. HWrite b p \<notin> set (io_queue s)" by (auto simp: no_writes_def)
  let ?r = "\<lparr>pr_packet = p, pr_backendref = {br_type b |b. b \<in> set (backends s) \<and> br_enabled b}\<rparr>"
  let ?s = "s\<lparr>sendqueue := sendqueue s @ [?r]\<rparr>"
  have "GroupCore_write p s = (if \<exists>b \<in> set (backends s). br_enabled b then Inl (UB EndDeref) else Inr (), ?s)"
    by (simp add: write_eq filter_empty_conv image_def conj_commute)
  moreover have "write_loop (length (sendqueue s)) (enabled_backends ?s) ?s =
      (Inr (), ?s\<lparr>io_queue := io_queue s @ map (\<lambda>b. HWrite (br_backend b) p) (filter br_enabled (backends s))\<rparr>)"
    using write_loop_row [of "length (sendqueue s)" ?s "enabled_backends ?s"] by (simp add: enabled_backends_filter)
  ultimately show "\<exists>s'. GroupCore_write p s = (if \<exists>b \<in> set (backends s). br_enabled b then Inl (UB EndDeref) else Inr (), s') \<and>
      sendqueue s' = sendqueue s @ [?r] \<and> io_queue s' = io_queue s \<and> localnodes s' = localnodes s \<and> backends s' = backends s \<and>
      write_loop (length (sendqueue s)) (enabled_backends s') s' =
        (Inr (), s'\<lparr>io_queue := io_queue s @ map (\<lambda>b. HWrite (br_backend b) p) (filter br_enabled (backends s))\<rparr>)"
    by (intro exI [of _ ?s]) simp
qed

theorem written_packets_stay_witness:
  "\<exists>s0 s1 s2. lworld_new ''chat'' = Inr s0 \<and>
     GroupCore_attachBackend (loopback_init 0) 0 ''L'' 0 s0 = (Inr (), s1) \<and>
     GroupCore_write Packet_default s1 = (Inl (UB EndDeref), s2) \<and> length (sendqueue s2) = 1"
proof -
  obtain s0 where s0: "lworld_new ''chat'' = Inr s0" "sendqueue s0 = []"
    by (simp add: lworld_new_def GroupCore_new_def gcore.extend_def)
  obtain s1 where s1: "GroupCore_attachBackend (loopback_init 0) 0 ''L'' 0 s0 = (Inr (), s1)"
      "backends s1 = [BackendRow_enable (BackendRow 0 ''L'')]"
    using s0(1) by (rule first_attach)
  let ?reach = "group_reachable example_exec (range loopback_init) {s. \<exists>nm. lworld_new nm = Inr s}"
  have "?reach s0" using s0(1) by (auto intro: group_reachable.start)
  moreover have "group_step example_exec (range loopback_init) s0 s1"
    using group_step.attached [of "loopback_init 0" "range loopback_init" example_exec s0 0 "''L''" 0] s1(1) by simp
  ultimately have "?reach s1" by (rule group_reachable.step)
  from written_packets_stay [OF this, of Packet_default] obtain s2 where
    "GroupCore_write Packet_default s1 = (Inl (UB EndDeref), s2)" "length (sendqueue s2) = length (sendqueue s1) + 1"
    by (auto simp: s1(2))
  moreover have "sendqueue s1 = sendqueue s0"
    using s1(1) by (auto simp: GroupCore_attachBackend_def loopback_init_def split: if_splits)
  ultimately show ?thesis using s0 s1(1) by auto
qed

text \<open>
  The repository's loopback example never gets past its first \<open>runWorker\<close>, whatever the
  clock, the random numbers and the uninitialised memory are.
\<close>

theorem example_never_finishes:
  assumes "lworld_new ''chat-example'' = Inr s0" and "length blk0 = 64"
  shows "example_main Core_new blk0 g t s0 = None"
proof -
  let ?ty = "''N6GScale7Backend8LoopbackE''"
  obtain s1 where s1: "GroupCore_attachBackend (loopback_init 0) 0 ?ty 0 s0 = (Inr (), s1)"
      "backends s1 = [BackendRow_enable (BackendRow 0 ?ty)]" "lbs s1 0 = Some (Loopback_initialize Loopback_new)"
      "io_queue s1 = []" "localnodes s1 = []" "connectcount s1 = 0"
    using assms(1) by (rule first_attach)
  have wf: "wf_uuid (getHostUUID_core Core_new)" by (simp add: wf_uuid_def getHostUUID_core_def Core_new_def)
  obtain carol carlos where new: "LocalNode_new Core_new blk0 (g 0) ''Carol'' 0 = Some (Inr carol)"
      "LocalNode_new Core_new blk0 (g 1) ''Carlos'' 0 = Some (Inr carlos)"
    using LocalNode_new_alias [OF wf, of "''Carol''" blk0] LocalNode_new_alias [OF wf, of "''Carlos''" blk0] assms(2)
    by auto
  obtain s2 where s2: "GroupCore_connect Core_new blk0 (g 0) (t 0) ''Carol'' 0 s1 = Some (Inr carol, s2)"
      "connectcount s2 = 1" "localnodes s2 \<noteq> []" "io_queue s2 = [HNodeAvailable 0 carol]" "backends s2 = backends s1" "lbs s2 = lbs s1"
    using connect_eq [OF _ new(1), of s1 "t 0"] s1 by (simp add: mi_insert_def)
  obtain s3 where s3: "GroupCore_connect Core_new blk0 (g 1) (t 1) ''Carlos'' 0 s2 = Some (Inr carlos, s3)"
      "connectcount s3 = 2" "localnodes s3 \<noteq> []" "io_queue s3 = [HNodeAvailable 0 carol, HNodeAvailable 0 carlos]"
      "backends s3 = backends s1" "lbs s3 = lbs s1"
    using connect_eq [OF _ new(2), of s2 "t 1"] s1 s2 by (auto simp: mi_insert_def)
  obtain nameless s4 where s4: "GroupCore_connect_nameless Core_new blk0 (g 2) (t 2) 0 s3 = Some (Inr nameless, s4)"
      "localnodes s4 \<noteq> []" "io_queue s4 = [HNodeAvailable 0 carol, HNodeAvailable 0 carlos, HNodeAvailable 0 nameless]"
      "lbs s4 = lbs s1"
    using connect_eq [OF _ LocalNode_new_nameless, of s3 Core_new blk0 "g 2" "t 2" 0] s1 s3
    by (auto simp: mi_insert_def GroupCore_connect_nameless_def)
  have "GroupCore_runWorker example_exec None s4 = None"
    using s4 s1(3) by (intro worker_hangs [of s4 0 carol _ "Loopback_initialize Loopback_new"]) simp_all
  then show ?thesis by (simp add: example_main_def then_op_def s1(1) s2(1) s3(1) s4(1) del: One_nat_def)
qed

theorem example_never_finishes_witness:
  "\<exists>s0. lworld_new ''chat-example'' = Inr s0 \<and> example_main Core_new (replicate 64 0) (\<lambda>_ _. 0) (\<lambda>k. int k) s0 = None"
proof -
  obtain s0 where "lworld_new ''chat-example'' = Inr s0"
    by (simp add: lworld_new_def GroupCore_new_def)
  with example_never_finishes [OF this, of "replicate 64 0"] show ?thesis by auto
qed

text \<open>
  In a group without nodes the handlers of a loopback always end, so the worker returns,
  whatever handlers are queued.
\<close>

theorem loopback_worker_returns_without_nodes:
  assumes "localnodes s = []"
  shows "\<exists>res s'. GroupCore_runWorker example_exec tm s = Some (res, s')"
  using loopback_idle.worker_returns [OF assms] by auto

theorem loopback_worker_returns_without_nodes_witness:
  "\<exists>s res s'. lworld_new ''chat'' = Inr s \<and>
     GroupCore_runWorker example_exec None (GroupCore_disconnect 3 \<lparr>ln_node = getNilNode, ln_cbs = 0\<rparr> s) = Some (res, s')"
proof -
  obtain s where s: "lworld_new ''chat'' = Inr s" "localnodes s = []"
    by (simp add: lworld_new_def GroupCore_new_def gcore.extend_def)
  have "localnodes (GroupCore_disconnect 3 \<lparr>ln_node = getNilNode, ln_cbs = 0\<rparr> s) = []"
    by (simp add: disconnect_eq s mi_find_def)
  from loopback_worker_returns_without_nodes [OF this, of None] s show ?thesis by blast
qed

end
