(* ===== verification/WorkerLoop.thy ===== *)
theory WorkerLoop imports ReactorTimers Loopback begin

text \<open>
  The worker of a group on the real event loop: \<open>GroupCore\<close> describes the \<open>io_service\<close> of a group as the
  queue of its handlers. Here the group rides on the service with its reactor (\<open>Scheduler\<close>, \<open>Reactor\<close>), and
  running that service refines running the queue.
\<close>

section \<open>A group on a service\<close>

text \<open>
  The state of the group is the program's state of the service; its fields \<open>io_queue\<close> and \<open>io_stopped\<close> are
  unused there, the queue and the flag of the service taking their place.
\<close>

type_synonym ('k, 'g) host = "(handler, 'k, 'g gcore_scheme) reactor"
type_synonym 'g exec = "handler \<Rightarrow> 'g gcore_scheme \<Rightarrow> (unit result \<times> 'g gcore_scheme) option"

text \<open>The wait of the worker's timer has \<open>io_service::stop\<close> as its handler.\<close>

definition handler_of :: "handler operation \<Rightarrow> handler option" where
  "handler_of p = (case p of HandlerOp h \<Rightarrow> Some h | TimerOp _ \<Rightarrow> Some HStop | _ \<Rightarrow> None)"

fun posted :: "handler operation list \<Rightarrow> handler list" where
  "posted [] = []"
| "posted (p # ps) = (case handler_of p of Some h \<Rightarrow> h # posted ps | None \<Rightarrow> posted ps)"

definition host_group :: "('k, 'g) host \<Rightarrow> 'g gcore_scheme" where
  "host_group S = (user S)\<lparr>io_queue := posted (srv_queue S), io_stopped := srv_stopped S\<rparr>"

definition post_handlers :: "'k kernel \<Rightarrow> handler list \<Rightarrow> ('k, 'g) host \<Rightarrow> ('k, 'g) host" where
  "post_handlers K hs S = fold (service_post (epoll_interrupt K)) hs S"

text \<open>Completing a handler: \<open>stop\<close>, or the group's own handler, which posts what it leaves in \<open>io_queue\<close>.\<close>

definition group_complete :: "'k kernel \<Rightarrow> 'g exec \<Rightarrow> handler operation \<Rightarrow> ('k, 'g) host \<Rightarrow>
    (unit result \<times> ('k, 'g) host) option" where
  "group_complete K exec p S = (case p of
     HandlerOp h \<Rightarrow>
       if h = HStop then Some (Inr (), service_stop (epoll_interrupt K) S)
       else map_option (\<lambda>(r, g). (r, post_handlers K (io_queue g) (S\<lparr>user := g\<lparr>io_queue := [], io_stopped := False\<rparr>\<rparr>)))
         (exec h ((user S)\<lparr>io_queue := [], io_stopped := False\<rparr>))
   | TimerOp w \<Rightarrow> Some (Inr (), service_stop (epoll_interrupt K) S)
   | _ \<Rightarrow> Some (Inr (), S))"

definition group_run :: "'k kernel \<Rightarrow> 'g exec \<Rightarrow> ('k, 'g) host \<Rightarrow> (nat result \<times> ('k, 'g) host) option" where
  "group_run K exec = service_run (epoll_run K) (epoll_interrupt K) (group_complete K exec)"

text \<open>
  The service of a group: the marker of the reactor is queued once if there is a reactor, everything else in the
  queue is a handler or a wait, each of which counts as work, and no timer waits but the one the worker may
  have started, \<open>w\<close>, which counts as work too.
\<close>

definition is_handler :: "handler operation \<Rightarrow> bool" where
  "is_handler p \<longleftrightarrow> handler_of p \<noteq> None"

definition hosted_with :: "heap_entry option \<Rightarrow> ('k, 'g) host \<Rightarrow> bool" where
  "hosted_with w S \<longleftrightarrow> \<not> one_thread S \<and> list_all (\<lambda>p. is_task p \<or> is_handler p) (srv_queue S)
     \<and> length (filter is_task (srv_queue S)) = (if has_task S then 1 else 0)
     \<and> outstanding_work S = int (length (posted (srv_queue S))) + (if w = None then 0 else 1)
     \<and> (\<forall>q. heap (queues S q) = (if q = 0 then (case w of None \<Rightarrow> [] | Some e \<Rightarrow> [e]) else []))
     \<and> list_all (\<lambda>t. private_queue t = [] \<and> private_work t = 0) (call_stack S)"

abbreviation hosted :: "('k, 'g) host \<Rightarrow> bool" where
  "hosted \<equiv> hosted_with None"

text \<open>A kernel that answers when it is polled, and reports no descriptor as none is registered.\<close>

definition polls :: "'k kernel \<Rightarrow> bool" where
  "polls K \<longleftrightarrow> (\<forall>k. \<exists>evs k'. k_epoll_wait K 0 k = Some (evs, k') \<and> event_descriptors evs = [])"

text \<open>A handler adds to the queue whatever is in it, and does not look at it.\<close>

definition posts_only :: "'g exec \<Rightarrow> bool" where
  "posts_only exec \<longleftrightarrow> (\<forall>h s q b. h \<noteq> HStop \<longrightarrow> exec h (s\<lparr>io_queue := q, io_stopped := b\<rparr>) =
     map_option (\<lambda>(r, s'). (r, s'\<lparr>io_queue := q @ io_queue s', io_stopped := b\<rparr>)) (exec h (s\<lparr>io_queue := [], io_stopped := False\<rparr>)))"

lemma posts_onlyD: "posts_only exec \<Longrightarrow> h \<noteq> HStop \<Longrightarrow> exec h (s\<lparr>io_queue := q, io_stopped := b\<rparr>) =
     map_option (\<lambda>(r, s'). (r, s'\<lparr>io_queue := q @ io_queue s', io_stopped := b\<rparr>)) (exec h (s\<lparr>io_queue := [], io_stopped := False\<rparr>))"
  unfolding posts_only_def by blast

text \<open>
  The worker call itself: the workers of the enabled backends are dispatched, the timer is constructed at an address
  \<open>t\<close> of the stack (the first one creates the timer service, whose queue is number 0 here; \<open>i\<close> is what the memory
  holds), and with a time limit it is set and waited for. The stopped flag is reset, the service runs, and the
  timer is destroyed, also by an exception; without one the rows are dropped.
\<close>

fun dispatch_all :: "'k kernel \<Rightarrow> 'g exec \<Rightarrow> handler list \<Rightarrow> ('k, 'g) host \<Rightarrow> (unit result \<times> ('k, 'g) host) option" where
  "dispatch_all K exec [] S = Some (Inr (), S)"
| "dispatch_all K exec (h # hs) S =
     Option.bind (service_dispatch (epoll_interrupt K) (\<lambda>h. group_complete K exec (HandlerOp h)) h S)
       (\<lambda>res. case fst res of Inl e \<Rightarrow> Some (Inl e, snd res) | Inr _ \<Rightarrow> dispatch_all K exec hs (snd res))"

definition use_timer_service :: "'k kernel \<Rightarrow> ('k, 'g) host \<Rightarrow> ('k, 'g) host" where
  "use_timer_service K S = (if 0 \<in> set (queue_set S) then S else add_timer_queue 0 (init_task (epoll_interrupt K) S))"

definition construct_timer :: "timer \<Rightarrow> nat \<Rightarrow> ('k, 'g) host \<Rightarrow> ('k, 'g) host" where
  "construct_timer t i S = upd_queue 0 (upd_data t (\<lambda>_. per_timer_data i) (queues S 0)) S"

text \<open>
  \<open>expires_from_now\<close> and \<open>async_wait\<close> of the new timer, on which nothing waits that its new expiry could cancel. The
  second result is \<open>might_have_pending_waits\<close>.
\<close>

definition the_wait :: "timer \<Rightarrow> wait_op" where
  "the_wait t = \<lparr>op_id = t, op_aborted = False\<rparr>"

definition start_timer :: "'k kernel \<Rightarrow> timer \<Rightarrow> (int \<times> int) option \<Rightarrow> ('k, 'g) host \<Rightarrow> unit result \<times> bool \<times> ('k, 'g) host" where
  "start_timer K t timeout S =
     (case timeout of
        None \<Rightarrow> (Inr (), False, S)
      | Some (tv_sec, tv_usec) \<Rightarrow>
          (case and_then (seconds_of tv_sec) (\<lambda>a. and_then (microseconds_of tv_usec) (td_add a)) of
             Inl e \<Rightarrow> (Inl e, False, S)
           | Inr d \<Rightarrow>
               (let (now, k) = k_clock K (kern S); S1 = S\<lparr>kern := k\<rparr> in
                case add_time_duration now d of
                  Inl e \<Rightarrow> (Inl e, False, S1)
                | Inr time \<Rightarrow> (let (r, S2) = schedule_timer K 0 time t (the_wait t) S1 in (r, True, S2)))))"

definition destroy_timer :: "'k kernel \<Rightarrow> timer \<Rightarrow> bool \<Rightarrow> ('k, 'g) host \<Rightarrow> ('k, 'g) host" where
  "destroy_timer K t waits S = (if waits then snd (reactor_cancel_timer K 0 t size_max S) else S)"

definition host_runWorker :: "'k kernel \<Rightarrow> 'g exec \<Rightarrow> timer \<Rightarrow> nat \<Rightarrow> (int \<times> int) option \<Rightarrow> ('k, 'g) host \<Rightarrow>
    (unit result \<times> ('k, 'g) host) option" where
  "host_runWorker K exec t i timeout S =
     Option.bind (dispatch_all K exec (map (\<lambda>b. HWorker (br_backend b)) (enabled_backends (host_group S))) S)
       (\<lambda>res. case fst res of
          Inl e \<Rightarrow> Some (Inl e, snd res)
        | Inr _ \<Rightarrow>
            (case start_timer K t timeout (construct_timer t i (use_timer_service K (snd res))) of
               (Inl e, waits, S1) \<Rightarrow> Some (Inl e, destroy_timer K t waits S1)
             | (Inr _, waits, S1) \<Rightarrow>
                 (let S2 = (if service_stopped S1 then service_reset S1 else S1) in
                  map_option (\<lambda>(r, S3). let S4 = destroy_timer K t waits S3 in
                     case r of
                       Inl e \<Rightarrow> (Inl e, S4)
                     | Inr _ \<Rightarrow> (Inr (), S4\<lparr>user := drop_disabled (drop_unreferenced (user S4))\<rparr>))
                    (group_run K exec S2))))"

section \<open>The reactor has nothing to do\<close>

lemma posted_append [simp]: "posted (ps @ qs) = posted ps @ posted qs"
  by (induction ps) (auto split: option.split)

lemma handler_of_simps [simp]: "handler_of (HandlerOp h) = Some h" "handler_of (TimerOp w) = Some HStop" "handler_of TaskOp = None"
  by (simp_all add: handler_of_def)

lemma handler_of_task: "handler_of p = Some h \<Longrightarrow> \<not> is_task p"
  by (auto simp: is_task_def split: operation.splits)

lemma complete_of:
  "handler_of p = Some h \<Longrightarrow> complete_op irq (group_complete K exec) p S = complete_op irq (group_complete K exec) (HandlerOp h) S"
  by (cases p) (simp_all add: handler_of_def complete_op_def group_complete_def)

lemma set_wait_idle: "\<forall>q \<in> set qs. heap (queues s q) = [] \<Longrightarrow> set_wait K f qs m s = (Inr m, s)"
  by (induction qs arbitrary: m) (simp_all add: queue_wait_def)

lemma set_ready_idle: "\<forall>q \<in> set qs. heap (queues s q) = [] \<Longrightarrow> set_ready K qs s = Some s"
  by (induction qs) simp_all

lemma dispatch_idle: "event_descriptors evs = [] \<Longrightarrow> \<exists>c'. dispatch_events evs c s = (Inr c', s)"
  by (induction evs arbitrary: c) (auto split: epoll_event.splits)

lemma epoll_run_idle:
  assumes "polls K" "\<forall>q \<in> set (queue_set s). heap (queues s q) = []"
  shows "\<exists>k. epoll_run K False s = Some (Inr (), s\<lparr>kern := k\<rparr>)"
proof -
  obtain evs k where w: "k_epoll_wait K 0 (kern s) = Some (evs, k)" "event_descriptors evs = []"
    using assms(1) unfolding polls_def by blast
  let ?s = "s\<lparr>kern := k\<rparr>"
  obtain c where d: "dispatch_events evs (timer_fd s = - 1) ?s = (Inr c, ?s)" using dispatch_idle [OF w(2)] by blast
  have r: "set_ready K (queue_set s) ?s = Some ?s" "set_wait K wait_duration_usec (queue_set s) m ?s = (Inr m, ?s)" for m
    using assms(2) by (simp_all add: set_ready_idle set_wait_idle)
  have e: "epoll_run K False s = (if c then check_timer_queues K ?s else Some (Inr (), ?s))"
    using w(1) d by (cases "timer_fd s = - 1") (simp_all add: epoll_run_def epoll_timeout_def)
  have "\<exists>k'. check_timer_queues K ?s = Some (Inr (), s\<lparr>kern := k'\<rparr>)"
    using r by (auto simp: check_timer_queues_def set_timerfd_def split: prod.splits)
  then show ?thesis using e by (cases c) auto
qed

text \<open>Waking the service and stopping it changes the kernel and flags.\<close>

lemma wake_kern: "\<exists>k b. wake_one_thread (epoll_interrupt K) S = S\<lparr>kern := k, task_interrupted := b\<rparr>"
proof (cases "\<not> task_interrupted S \<and> has_task S")
  case True
  obtain r k where "k_epoll_ctl K ModInterrupter (kern S) = (r, k)" by (cases "k_epoll_ctl K ModInterrupter (kern S)")
  then have "wake_one_thread (epoll_interrupt K) S = S\<lparr>kern := k, task_interrupted := True\<rparr>"
    using True by (simp add: wake_one_thread_def interrupt_task_def epoll_interrupt_def ctl_def)
  then show ?thesis by blast
next
  case False
  then have "wake_one_thread (epoll_interrupt K) S = S\<lparr>kern := kern S, task_interrupted := task_interrupted S\<rparr>"
    by (auto simp: wake_one_thread_def interrupt_task_def)
  then show ?thesis by blast
qed

lemma stop_kern: "\<exists>k b. service_stop (epoll_interrupt K) S = S\<lparr>srv_stopped := True, kern := k, task_interrupted := b\<rparr>"
  using wake_kern [of K "S\<lparr>srv_stopped := True\<rparr>"] by (simp add: service_stop_def stop_all_threads_def wake_one_thread_def)

lemma finish_kern:
  "\<exists>k b. work_finished (epoll_interrupt K) S = S\<lparr>outstanding_work := outstanding_work S - 1,
     srv_stopped := srv_stopped S \<or> outstanding_work S = 1, kern := k, task_interrupted := b\<rparr>"
proof (cases "outstanding_work S = 1")
  case True
  then show ?thesis
    using stop_kern [of K "S\<lparr>outstanding_work := 0\<rparr>"] by (auto simp: work_finished_def)
next
  case False
  then have "work_finished (epoll_interrupt K) S = S\<lparr>outstanding_work := outstanding_work S - 1,
     srv_stopped := srv_stopped S \<or> outstanding_work S = 1, kern := kern S, task_interrupted := task_interrupted S\<rparr>"
    by (simp add: work_finished_def)
  then show ?thesis by blast
qed

lemma cleanup_kern:
  assumes "call_stack S = t # ts" "private_queue t = []" "private_work t = 0"
  shows "\<exists>k b. work_cleanup (epoll_interrupt K) S = S\<lparr>outstanding_work := outstanding_work S - 1,
     srv_stopped := srv_stopped S \<or> outstanding_work S = 1, kern := k, task_interrupted := b\<rparr>"
proof -
  obtain k b where f: "work_finished (epoll_interrupt K) S = S\<lparr>outstanding_work := outstanding_work S - 1,
     srv_stopped := srv_stopped S \<or> outstanding_work S = 1, kern := k, task_interrupted := b\<rparr>"
    using finish_kern [of K S] by blast
  have "t\<lparr>private_work := 0, private_queue := []\<rparr> = t" using assms(2,3) by (cases t) simp
  then have "work_cleanup (epoll_interrupt K) S = S\<lparr>outstanding_work := outstanding_work S - 1,
     srv_stopped := srv_stopped S \<or> outstanding_work S = 1, kern := k, task_interrupted := b\<rparr>"
    using assms f by (cases S) (simp add: work_cleanup_def Let_def push_ops_def)
  then show ?thesis by blast
qed

lemma post_kern:
  assumes "\<not> one_thread S"
  shows "\<exists>k b. service_post (epoll_interrupt K) h S = S\<lparr>outstanding_work := outstanding_work S + 1,
     srv_queue := srv_queue S @ [HandlerOp h], kern := k, task_interrupted := b\<rparr>"
  using assms wake_kern [of K "push_ops [HandlerOp h] (work_started S)"]
  by (simp add: service_post_def post_immediate_completion_def push_ops_def work_started_def)

lemma post_handlers_kern:
  assumes "\<not> one_thread S"
  shows "\<exists>k b. post_handlers K hs S = S\<lparr>outstanding_work := outstanding_work S + int (length hs),
     srv_queue := srv_queue S @ map HandlerOp hs, kern := k, task_interrupted := b\<rparr>"
  using assms
proof (induction hs arbitrary: S)
  case Nil
  have "post_handlers K [] S = S\<lparr>outstanding_work := outstanding_work S + int (length ([] :: handler list)), srv_queue := srv_queue S @ map HandlerOp [],
     kern := kern S, task_interrupted := task_interrupted S\<rparr>" by (simp add: post_handlers_def)
  then show ?case by blast
next
  case (Cons h hs)
  obtain k b where s: "service_post (epoll_interrupt K) h S = S\<lparr>outstanding_work := outstanding_work S + 1,
     srv_queue := srv_queue S @ [HandlerOp h], kern := k, task_interrupted := b\<rparr>"
    using post_kern [OF Cons.prems] by blast
  have e: "post_handlers K (h # hs) S = post_handlers K hs (service_post (epoll_interrupt K) h S)" by (simp add: post_handlers_def)
  show ?case
    unfolding e s using Cons.IH [of "S\<lparr>outstanding_work := outstanding_work S + 1,
     srv_queue := srv_queue S @ [HandlerOp h], kern := k, task_interrupted := b\<rparr>"] Cons.prems by (simp add: add_ac)
qed

section \<open>One round\<close>

text \<open>What a round leaves alone is what \<open>hosted_with\<close> and \<open>host_group\<close> do not see.\<close>

lemma host_frame [simp]:
  "hosted_with w (S\<lparr>kern := k\<rparr>) = hosted_with w S" "hosted_with w (S\<lparr>task_interrupted := b\<rparr>) = hosted_with w S"
  "hosted_with w (S\<lparr>srv_stopped := c\<rparr>) = hosted_with w S" "hosted_with w (S\<lparr>user := g\<rparr>) = hosted_with w S"
  "host_group (S\<lparr>kern := k\<rparr>) = host_group S" "host_group (S\<lparr>task_interrupted := b\<rparr>) = host_group S"
  "host_group (S\<lparr>outstanding_work := n\<rparr>) = host_group S" "host_group (S\<lparr>call_stack := ts\<rparr>) = host_group S"
  "host_group (S\<lparr>srv_stopped := c\<rparr>) = (host_group S)\<lparr>io_stopped := c\<rparr>"
  by (simp_all add: hosted_with_def host_group_def)

text \<open>What no handler of a group touches: the service's timers and flags.\<close>

definition same_service :: "('k, 'g) host \<Rightarrow> ('k, 'g) host \<Rightarrow> bool" where
  "same_service S S' \<longleftrightarrow> queue_set S' = queue_set S \<and> has_task S' = has_task S \<and> r_shutdown S' = r_shutdown S
     \<and> srv_shutdown S' = srv_shutdown S \<and> timer_fd S' = timer_fd S"

definition same_timers :: "('k, 'g) host \<Rightarrow> ('k, 'g) host \<Rightarrow> bool" where
  "same_timers S S' \<longleftrightarrow> same_service S S' \<and> queues S' = queues S \<and> call_stack S' = call_stack S"

lemma same_timers_refl [simp]: "same_timers S S"
  by (simp add: same_timers_def same_service_def)

lemma same_timers_trans: "same_timers S T \<Longrightarrow> same_timers T U \<Longrightarrow> same_timers S U"
  by (auto simp: same_timers_def same_service_def)

lemma posted_handlers [simp]: "posted (map HandlerOp hs) = hs"
  by (induction hs) simp_all

lemma handlers_kinds [simp]:
  "list_all (\<lambda>p. is_task p \<or> is_handler p) (map HandlerOp hs)" "filter is_task (map HandlerOp hs) = []"
  by (induction hs) (simp_all add: is_handler_def)

abbreviation (input) "host_round K exec \<equiv> do_run_one (epoll_run K) (epoll_interrupt K) (group_complete K exec)"

text \<open>A marker at the front of the queue polls the reactor and goes to its end.\<close>

lemma marker_round:
  fixes S :: "('k, 'g) host"
  assumes "polls K" "hosted S" "call_stack S \<noteq> []" "\<not> srv_stopped S" "srv_queue S = TaskOp # rest" "rest \<noteq> []"
  shows "\<exists>k. host_round K exec S = host_round K exec (S\<lparr>srv_queue := rest @ [TaskOp], kern := k, task_interrupted := True\<rparr>)"
proof -
  obtain t ts where t: "call_stack S = t # ts" using assms(3) by (cases "call_stack S") auto
  let ?S = "S\<lparr>srv_queue := rest, task_interrupted := True\<rparr>"
  have idle: "\<forall>q \<in> set (queue_set ?S). heap (queues ?S q) = []" using assms(2) by (simp add: hosted_with_def)
  obtain k where k: "epoll_run K False ?S = Some (Inr (), ?S\<lparr>kern := k\<rparr>)" using epoll_run_idle [OF assms(1) idle] by blast
  have p: "private_queue t = []" "private_work t = 0" using assms(2) t by (simp_all add: hosted_with_def)
  have "t\<lparr>private_work := 0, private_queue := []\<rparr> = t" using p by (cases t) simp
  then have c: "task_cleanup (?S\<lparr>kern := k\<rparr>) = S\<lparr>srv_queue := rest @ [TaskOp], kern := k, task_interrupted := True\<rparr>"
    using t p by (cases S) (simp add: task_cleanup_def)
  have "host_round K exec S = host_round K exec (S\<lparr>srv_queue := rest @ [TaskOp], kern := k, task_interrupted := True\<rparr>)"
    using assms(4-6) k c by (subst do_run_one.simps) (simp add: run_task_def is_task_def)
  then show ?thesis by blast
qed

text \<open>So a handler at the front, behind the marker or not, is completed next.\<close>

lemma next_handler:
  fixes S :: "('k, 'g) host"
  assumes "polls K" "hosted S" "call_stack S \<noteq> []" "\<not> srv_stopped S" "posted (srv_queue S) = h # hs"
  obtains S1 p rest where "host_round K exec S = host_round K exec S1" "hosted S1" "same_timers S S1" "host_group S1 = host_group S"
    "\<not> srv_stopped S1" "srv_queue S1 = p # rest" "handler_of p = Some h" "posted rest = hs"
proof (cases "srv_queue S")
  case Nil
  then show thesis using assms(5) by simp
next
  case (Cons p rest)
  have q: "is_task p \<or> is_handler p" "list_all (\<lambda>p. is_task p \<or> is_handler p) rest" "length (filter is_task (p # rest)) = (if has_task S then 1 else 0)"
    using assms(2) Cons by (simp_all add: hosted_with_def)
  show thesis
  proof (cases "is_task p")
    case False
    then obtain h' where "handler_of p = Some h'" using q(1) by (auto simp: is_handler_def)
    then show thesis using that [of S p rest] assms Cons by simp
  next
    case True
    then have p: "p = TaskOp" "posted rest = h # hs" using assms(5) Cons by (auto simp: is_task_def split: operation.splits)
    then obtain p' rest' where r: "rest = p' # rest'" by (cases rest) auto
    have n: "\<not> is_task p'" using q(3) True r by (auto split: if_splits)
    then obtain h' where h': "handler_of p' = Some h'" using q(2) r by (auto simp: is_handler_def)
    obtain k where k: "host_round K exec S = host_round K exec (S\<lparr>srv_queue := rest @ [TaskOp], kern := k, task_interrupted := True\<rparr>)"
      using marker_round [OF assms(1-4), of rest exec] Cons p(1) r by auto
    let ?T = "S\<lparr>srv_queue := rest @ [TaskOp], kern := k, task_interrupted := True\<rparr>"
    have "hosted ?T" "host_group ?T = host_group S" "same_timers S ?T"
      using assms(2) Cons p(1) by (simp_all add: hosted_with_def host_group_def same_timers_def same_service_def)
    then show thesis using that [of ?T p' "rest' @ [TaskOp]"] k h' p(2) r assms(4) by simp
  qed
qed

lemma complete_host:
  fixes S :: "('k, 'g) host"
  assumes "\<not> one_thread S" "call_stack S = t # ts" "private_queue t = []" "private_work t = 0"
  shows "\<exists>k b. complete_op (epoll_interrupt K) (group_complete K exec) (HandlerOp HStop) S =
      Some (Inr (), S\<lparr>srv_stopped := True, outstanding_work := outstanding_work S - 1, kern := k, task_interrupted := b\<rparr>)"
    and "h \<noteq> HStop \<Longrightarrow> exec h ((user S)\<lparr>io_queue := [], io_stopped := False\<rparr>) = None \<Longrightarrow>
      complete_op (epoll_interrupt K) (group_complete K exec) (HandlerOp h) S = None"
    and "h \<noteq> HStop \<Longrightarrow> exec h ((user S)\<lparr>io_queue := [], io_stopped := False\<rparr>) = Some (r, g) \<Longrightarrow>
      \<exists>k b. complete_op (epoll_interrupt K) (group_complete K exec) (HandlerOp h) S =
        Some (r, S\<lparr>user := g\<lparr>io_queue := [], io_stopped := False\<rparr>, outstanding_work := outstanding_work S + int (length (io_queue g)) - 1,
          srv_queue := srv_queue S @ map HandlerOp (io_queue g),
          srv_stopped := srv_stopped S \<or> outstanding_work S + int (length (io_queue g)) = 1, kern := k, task_interrupted := b\<rparr>)"
proof -
  let ?S = "if srv_queue S \<noteq> [] \<and> \<not> one_thread S then wake_one_thread (epoll_interrupt K) S else S"
  obtain k b where 1: "?S = S\<lparr>kern := k, task_interrupted := b\<rparr>"
    using wake_kern [of K S] that [where k = "kern S" and b = "task_interrupted S"] assms(1) by (cases "srv_queue S = []") auto
  have c: "complete_op (epoll_interrupt K) (group_complete K exec) (HandlerOp h) S = map_option (\<lambda>(r, s'). (r, work_cleanup (epoll_interrupt K) s'))
      (group_complete K exec (HandlerOp h) (S\<lparr>kern := k, task_interrupted := b\<rparr>))" for h
    unfolding complete_op_def Let_def 1 ..
  show "\<exists>k b. complete_op (epoll_interrupt K) (group_complete K exec) (HandlerOp HStop) S =
      Some (Inr (), S\<lparr>srv_stopped := True, outstanding_work := outstanding_work S - 1, kern := k, task_interrupted := b\<rparr>)"
  proof -
    obtain k1 b1 where 2: "service_stop (epoll_interrupt K) (S\<lparr>kern := k, task_interrupted := b\<rparr>) = S\<lparr>srv_stopped := True, kern := k1, task_interrupted := b1\<rparr>"
      using stop_kern [of K "S\<lparr>kern := k, task_interrupted := b\<rparr>"] by auto
    obtain k2 b2 where 3: "work_cleanup (epoll_interrupt K) (S\<lparr>srv_stopped := True, kern := k1, task_interrupted := b1\<rparr>) =
        S\<lparr>srv_stopped := True, outstanding_work := outstanding_work S - 1, kern := k2, task_interrupted := b2\<rparr>"
      using cleanup_kern [of "S\<lparr>srv_stopped := True, kern := k1, task_interrupted := b1\<rparr>" t ts K] assms by (cases S) auto
    show ?thesis by (intro exI [of _ k2] exI [of _ b2]) (simp add: c group_complete_def 2 3)
  qed
  assume h: "h \<noteq> HStop"
  show "exec h ((user S)\<lparr>io_queue := [], io_stopped := False\<rparr>) = None \<Longrightarrow>
      complete_op (epoll_interrupt K) (group_complete K exec) (HandlerOp h) S = None"
    using h by (simp add: c group_complete_def)
  assume e: "exec h ((user S)\<lparr>io_queue := [], io_stopped := False\<rparr>) = Some (r, g)"
  let ?T = "S\<lparr>kern := k, task_interrupted := b, user := g\<lparr>io_queue := [], io_stopped := False\<rparr>\<rparr>"
  obtain k1 b1 where 2: "post_handlers K (io_queue g) ?T = ?T\<lparr>outstanding_work := outstanding_work S + int (length (io_queue g)),
      srv_queue := srv_queue S @ map HandlerOp (io_queue g), kern := k1, task_interrupted := b1\<rparr>"
    using post_handlers_kern [of ?T K "io_queue g"] assms(1) by auto
  let ?U = "?T\<lparr>outstanding_work := outstanding_work S + int (length (io_queue g)),
      srv_queue := srv_queue S @ map HandlerOp (io_queue g), kern := k1, task_interrupted := b1\<rparr>"
  obtain k2 b2 where 3: "work_cleanup (epoll_interrupt K) ?U = ?U\<lparr>outstanding_work := outstanding_work S + int (length (io_queue g)) - 1,
      srv_stopped := srv_stopped S \<or> outstanding_work S + int (length (io_queue g)) = 1, kern := k2, task_interrupted := b2\<rparr>"
    using cleanup_kern [of ?U t ts K] assms by auto
  have "group_complete K exec (HandlerOp h) (S\<lparr>kern := k, task_interrupted := b\<rparr>) = Some (r, ?U)"
    using h e 2 by (simp add: group_complete_def)
  then have "complete_op (epoll_interrupt K) (group_complete K exec) (HandlerOp h) S = Some (r, work_cleanup (epoll_interrupt K) ?U)"
    by (simp add: c)
  moreover have "work_cleanup (epoll_interrupt K) ?U = S\<lparr>user := g\<lparr>io_queue := [], io_stopped := False\<rparr>,
      outstanding_work := outstanding_work S + int (length (io_queue g)) - 1, srv_queue := srv_queue S @ map HandlerOp (io_queue g),
      srv_stopped := srv_stopped S \<or> outstanding_work S + int (length (io_queue g)) = 1, kern := k2, task_interrupted := b2\<rparr>"
    unfolding 3 by (cases S) simp
  ultimately show "\<exists>k b. complete_op (epoll_interrupt K) (group_complete K exec) (HandlerOp h) S =
        Some (r, S\<lparr>user := g\<lparr>io_queue := [], io_stopped := False\<rparr>, outstanding_work := outstanding_work S + int (length (io_queue g)) - 1,
          srv_queue := srv_queue S @ map HandlerOp (io_queue g),
          srv_stopped := srv_stopped S \<or> outstanding_work S + int (length (io_queue g)) = 1, kern := k, task_interrupted := b\<rparr>)"
    by (intro exI [of _ k2] exI [of _ b2]) (simp only:)
qed

text \<open>The last piece of work done leaves the service stopped.\<close>

definition settle :: "bool \<Rightarrow> 'g gcore_scheme \<Rightarrow> 'g gcore_scheme" where
  "settle waits s = (if \<not> waits \<and> io_queue s = [] then s\<lparr>io_stopped := True\<rparr> else s)"

text \<open>A round does what the queue's model does with its first handler.\<close>

lemma popped_round:
  fixes S :: "('k, 'g) host"
  assumes "posts_only exec" "hosted_with w S" "call_stack S \<noteq> []" "\<not> srv_stopped S" "srv_queue S = p # rest" "handler_of p = Some h"
  shows "h = HStop \<Longrightarrow> \<exists>S'. host_round K exec S = Some (Inr 1, S') \<and> hosted_with w S' \<and> same_timers S S'
      \<and> host_group S' = (host_group S)\<lparr>io_queue := posted rest, io_stopped := True\<rparr>"
    and "h \<noteq> HStop \<Longrightarrow> exec h ((host_group S)\<lparr>io_queue := posted rest\<rparr>) = None \<Longrightarrow> host_round K exec S = None"
    and "h \<noteq> HStop \<Longrightarrow> exec h ((host_group S)\<lparr>io_queue := posted rest\<rparr>) = Some (r, s') \<Longrightarrow>
      \<exists>S'. host_round K exec S = Some (map_sum id (\<lambda>_. 1) r, S')
        \<and> hosted_with w S' \<and> same_timers S S' \<and> host_group S' = settle (w \<noteq> None) s' \<and> \<not> io_stopped s'"
proof -
  let ?one = "host_round K exec S" and ?hs = "posted rest" and ?n = "if w = None then 0 else 1 :: int"
  obtain t ts where t: "call_stack S = t # ts" using assms(3) by (cases "call_stack S") auto
  let ?T = "S\<lparr>srv_queue := rest\<rparr>"
  have one: "?one = map_option (\<lambda>(r, s'). (map_sum id (\<lambda>_. 1) r, s'))
        (complete_op (epoll_interrupt K) (group_complete K exec) (HandlerOp h) ?T)"
    using assms(4,5) handler_of_task [OF assms(6)] by (simp add: do_run_one.simps [of _ _ _ S] complete_of [OF assms(6)])
  have T: "\<not> one_thread ?T" "call_stack ?T = t # ts" "private_queue t = []" "private_work t = 0"
    using assms(2) t by (simp_all add: hosted_with_def)
  note c = complete_host [OF T, where K = K and exec = exec]
  have w: "outstanding_work S = int (length ?hs) + 1 + ?n" using assms(2,5,6) by (simp add: hosted_with_def)
  have kinds: "list_all (\<lambda>p. is_task p \<or> is_handler p) rest" "length (filter is_task rest) = (if has_task S then 1 else 0)"
    using assms(2,5) handler_of_task [OF assms(6)] by (simp_all add: hosted_with_def)
  have h0: "list_all (\<lambda>t. private_queue t = [] \<and> private_work t = 0) (call_stack S)"
    "\<forall>q. heap (queues S q) = (if q = 0 then (case w of None \<Rightarrow> [] | Some e \<Rightarrow> [e]) else [])" "\<not> one_thread S"
    using assms(2) by (simp_all add: hosted_with_def)
  have ex: "exec h ((host_group S)\<lparr>io_queue := ?hs\<rparr>) = map_option (\<lambda>(r, s'). (r, s'\<lparr>io_queue := ?hs @ io_queue s', io_stopped := False\<rparr>))
      (exec h ((user S)\<lparr>io_queue := [], io_stopped := False\<rparr>))" if "h \<noteq> HStop"
  proof -
    have u: "(host_group S)\<lparr>io_queue := ?hs\<rparr> = (user S)\<lparr>io_queue := ?hs, io_stopped := False\<rparr>" using assms(4) by (simp add: host_group_def)
    show ?thesis unfolding u by (rule posts_onlyD [OF assms(1) that])
  qed
  show "\<exists>S'. ?one = Some (Inr 1, S') \<and> hosted_with w S' \<and> same_timers S S'
      \<and> host_group S' = (host_group S)\<lparr>io_queue := ?hs, io_stopped := True\<rparr>" if "h = HStop"
  proof -
    obtain k1 b1 where s: "complete_op (epoll_interrupt K) (group_complete K exec) (HandlerOp HStop) ?T =
        Some (Inr (), ?T\<lparr>srv_stopped := True, outstanding_work := outstanding_work ?T - 1, kern := k1, task_interrupted := b1\<rparr>)"
      (is "_ = Some (_, ?S)") using c(1) by blast
    have "?one = Some (Inr 1, ?S)" unfolding one that s by simp
    moreover have "hosted_with w ?S" using kinds w h0 by (simp add: hosted_with_def)
    moreover have "host_group ?S = (host_group S)\<lparr>io_queue := ?hs, io_stopped := True\<rparr>" by (simp add: host_group_def)
    moreover have "same_timers S ?S" by (simp add: same_timers_def same_service_def)
    ultimately show ?thesis by (intro exI [of _ ?S]) simp
  qed
  show "?one = None" if "h \<noteq> HStop" "exec h ((host_group S)\<lparr>io_queue := ?hs\<rparr>) = None"
    using c(2) that ex one by simp
  show "\<exists>S'. ?one = Some (map_sum id (\<lambda>_. 1) r, S') \<and> hosted_with w S' \<and> same_timers S S'
      \<and> host_group S' = settle (w \<noteq> None) s' \<and> \<not> io_stopped s'"
    if h: "h \<noteq> HStop" and e: "exec h ((host_group S)\<lparr>io_queue := ?hs\<rparr>) = Some (r, s')"
  proof -
    obtain g where g: "exec h ((user S)\<lparr>io_queue := [], io_stopped := False\<rparr>) = Some (r, g)"
      "s' = g\<lparr>io_queue := ?hs @ io_queue g, io_stopped := False\<rparr>"
      using trans [OF ex [OF h, symmetric] e] by (cases "exec h ((user S)\<lparr>io_queue := [], io_stopped := False\<rparr>)") auto
    obtain k1 b1 where s: "complete_op (epoll_interrupt K) (group_complete K exec) (HandlerOp h) ?T =
        Some (r, ?T\<lparr>user := g\<lparr>io_queue := [], io_stopped := False\<rparr>, outstanding_work := outstanding_work ?T + int (length (io_queue g)) - 1,
          srv_queue := srv_queue ?T @ map HandlerOp (io_queue g),
          srv_stopped := srv_stopped ?T \<or> outstanding_work ?T + int (length (io_queue g)) = 1, kern := k1, task_interrupted := b1\<rparr>)"
      (is "_ = Some (_, ?S)") using c(3) [OF h] g(1) by auto
    have "?one = Some (map_sum id (\<lambda>_. 1) r, ?S)" unfolding one s by simp
    moreover have "hosted_with w ?S" using kinds w h0 by (simp add: hosted_with_def)
    moreover have "int (length ?hs) + ?n + int (length (io_queue g)) = 0 \<longleftrightarrow> w = None \<and> ?hs = [] \<and> io_queue g = []"
      by (cases ?hs; cases "io_queue g"; simp)
    then have "host_group ?S = settle (w \<noteq> None) s'"
      using w assms(4) by (auto simp: host_group_def g(2) settle_def)
    moreover have "same_timers S ?S" by (simp add: same_timers_def same_service_def)
    moreover have "\<not> io_stopped s'" by (simp add: g(2))
    ultimately show ?thesis by (intro exI [of _ ?S]) simp
  qed
qed

lemma hosted_round:
  fixes S :: "('k, 'g) host"
  assumes "polls K" "posts_only exec" "hosted S" "call_stack S \<noteq> []" "\<not> srv_stopped S" "io_queue (host_group S) = h # hs"
  shows "h = HStop \<Longrightarrow> \<exists>S'. host_round K exec S = Some (Inr 1, S')
      \<and> hosted S' \<and> same_timers S S' \<and> host_group S' = (host_group S)\<lparr>io_queue := hs, io_stopped := True\<rparr>"
    and "h \<noteq> HStop \<Longrightarrow> exec h ((host_group S)\<lparr>io_queue := hs\<rparr>) = None \<Longrightarrow> host_round K exec S = None"
    and "h \<noteq> HStop \<Longrightarrow> exec h ((host_group S)\<lparr>io_queue := hs\<rparr>) = Some (r, s') \<Longrightarrow>
      \<exists>S'. host_round K exec S = Some (map_sum id (\<lambda>_. 1) r, S')
        \<and> hosted S' \<and> same_timers S S' \<and> host_group S' = settle False s' \<and> \<not> io_stopped s'"
proof -
  have q: "posted (srv_queue S) = h # hs" using assms(6) by (simp add: host_group_def)
  obtain S1 p rest where 1: "host_round K exec S = host_round K exec S1" "hosted S1" "same_timers S S1" "host_group S1 = host_group S"
    "\<not> srv_stopped S1" "srv_queue S1 = p # rest" "handler_of p = Some h" "posted rest = hs"
    by (rule next_handler [OF assms(1,3-5) q])
  have c: "call_stack S1 \<noteq> []" using 1(3) assms(4) by (simp add: same_timers_def)
  note round = popped_round [OF assms(2) 1(2) c 1(5-7), unfolded 1(4,8)]
  note trans = same_timers_trans [OF 1(3)]
  show "\<exists>S'. host_round K exec S = Some (Inr 1, S') \<and> hosted S' \<and> same_timers S S'
      \<and> host_group S' = (host_group S)\<lparr>io_queue := hs, io_stopped := True\<rparr>" if "h = HStop"
    unfolding 1(1) using round(1) [OF that] trans by blast
  show "host_round K exec S = None" if "h \<noteq> HStop" "exec h ((host_group S)\<lparr>io_queue := hs\<rparr>) = None"
    unfolding 1(1) by (rule round(2) [OF that])
  show "\<exists>S'. host_round K exec S = Some (map_sum id (\<lambda>_. 1) r, S') \<and> hosted S' \<and> same_timers S S'
      \<and> host_group S' = settle False s' \<and> \<not> io_stopped s'" if "h \<noteq> HStop" "exec h ((host_group S)\<lparr>io_queue := hs\<rparr>) = Some (r, s')"
    unfolding 1(1) using round(3) [OF that] trans by auto
qed

section \<open>The refinement\<close>

text \<open>A run of the queue, as a result and a group.\<close>

definition queue_run :: "'g exec \<Rightarrow> 'g gcore_scheme \<Rightarrow> (unit result \<times> 'g gcore_scheme) option" where
  "queue_run exec s = map_option (\<lambda>(r, tm, s'). (r, s')) (io_run exec None s)"

definition host_outcome :: "nat result \<times> ('k, 'g) host \<Rightarrow> unit result \<times> 'g gcore_scheme" where
  "host_outcome x = (map_sum id (\<lambda>_. ()) (fst x), host_group (snd x))"

lemma queue_run_stopped: "io_stopped s \<Longrightarrow> queue_run exec s = Some (Inr (), s)"
  by (simp add: queue_run_def io_run_stopped)

lemma queue_run_empty: "io_queue s = [] \<Longrightarrow> queue_run exec s = Some (Inr (), s\<lparr>io_stopped := True\<rparr>)"
  by (cases "io_stopped s") (simp_all add: queue_run_def io_run_stopped io_run_empty)

lemma queue_run_stop: "\<not> io_stopped s \<Longrightarrow> io_queue s = HStop # hs \<Longrightarrow>
    queue_run exec s = Some (Inr (), s\<lparr>io_queue := hs, io_stopped := True\<rparr>)"
  by (simp add: queue_run_def io_run_stop_handler)

lemma queue_run_handler:
  assumes "\<not> io_stopped s" "io_queue s = h # hs" "h \<noteq> HStop"
  shows "queue_run exec s = Option.bind (exec h (s\<lparr>io_queue := hs\<rparr>)) (\<lambda>res. case fst res of
      Inr _ \<Rightarrow> queue_run exec (snd res)
    | Inl e \<Rightarrow> Some (Inl e, settle False (snd res)))"
  using io_run_handler [of s None h hs exec] assms
  by (cases "exec h (s\<lparr>io_queue := hs\<rparr>)") (auto simp: queue_run_def tick_def settle_def split: sum.split)

text \<open>The last handler may have left the service stopped, which running the empty queue would do next.\<close>

lemma queue_run_settled: "\<not> io_stopped s \<Longrightarrow> queue_run exec (settle False s) = queue_run exec s"
  by (simp add: settle_def queue_run_empty queue_run_stopped)

lemma gcore_stopped: "io_stopped s \<Longrightarrow> s\<lparr>io_stopped := True\<rparr> = s"
  by (cases s) simp

lemma queue_run_rule [consumes 1, case_names stopped stop raise step]:
  assumes "queue_run exec s = Some x"
    and "\<And>s. io_stopped s \<or> io_queue s = [] \<Longrightarrow> P s (Inr (), s\<lparr>io_stopped := True\<rparr>)"
    and "\<And>s hs. \<not> io_stopped s \<Longrightarrow> io_queue s = HStop # hs \<Longrightarrow> P s (Inr (), s\<lparr>io_queue := hs, io_stopped := True\<rparr>)"
    and "\<And>s h hs e s'. \<not> io_stopped s \<Longrightarrow> io_queue s = h # hs \<Longrightarrow> h \<noteq> HStop \<Longrightarrow> exec h (s\<lparr>io_queue := hs\<rparr>) = Some (Inl e, s') \<Longrightarrow>
        P s (Inl e, settle False s')"
    and "\<And>s h hs s' x. \<not> io_stopped s \<Longrightarrow> io_queue s = h # hs \<Longrightarrow> h \<noteq> HStop \<Longrightarrow> exec h (s\<lparr>io_queue := hs\<rparr>) = Some (Inr (), s') \<Longrightarrow>
        queue_run exec s' = Some x \<Longrightarrow> P s' x \<Longrightarrow> P s x"
  shows "P s x"
proof -
  have "exec' = exec \<longrightarrow> tm = None \<longrightarrow> io_run exec tm s = Some y \<and> P s (fst y, snd (snd y))" if "io_run exec' tm s = Some y" for exec' tm y
  proof (rule io_run.raw_induct [where P = "\<lambda>exec' tm s y. exec' = exec \<longrightarrow> tm = None \<longrightarrow>
      io_run exec tm s = Some y \<and> P s (fst y, snd (snd y))", OF _ that])
    fix run exec' tm s y
    assume IH: "\<And>exec' tm s y. run exec' tm s = Some y \<Longrightarrow> exec' = exec \<longrightarrow> tm = None \<longrightarrow>
        io_run exec tm s = Some y \<and> P s (fst y, snd (snd y))"
      and b: "(if io_stopped s then Some (Inr (), tm, s)
      else if tm = Some 0 then Some (Inr (), None, s\<lparr>io_stopped := True\<rparr>)
      else case io_queue s of
          [] \<Rightarrow> Some (Inr (), None, s\<lparr>io_stopped := True\<rparr>)
        | h # hs \<Rightarrow>
            if h = HStop then Some (Inr (), tick tm, s\<lparr>io_queue := hs, io_stopped := True\<rparr>)
            else Option.bind (exec' h (s\<lparr>io_queue := hs\<rparr>)) (\<lambda>res.
              case fst res of
                Inr _ \<Rightarrow> run exec' (tick tm) (snd res)
              | Inl e \<Rightarrow> Some (Inl e, tick tm,
                  if tick tm = None \<and> io_queue (snd res) = [] then (snd res)\<lparr>io_stopped := True\<rparr> else snd res))) = Some y"
    show "exec' = exec \<longrightarrow> tm = None \<longrightarrow> io_run exec tm s = Some y \<and> P s (fst y, snd (snd y))"
    proof (intro impI)
      assume e: "exec' = exec" "tm = None"
      have tick: "tick None = None" by (simp add: tick_def)
      consider (idle) "io_stopped s \<or> io_queue s = []" | (stop) hs where "\<not> io_stopped s" "io_queue s = HStop # hs"
        | (go) h hs where "\<not> io_stopped s" "io_queue s = h # hs" "h \<noteq> HStop"
        by (cases "io_queue s") auto
      then show "io_run exec tm s = Some y \<and> P s (fst y, snd (snd y))"
      proof cases
        case idle
        show ?thesis
        proof (cases "io_stopped s")
          case True
          then show ?thesis using assms(2) [OF idle, unfolded gcore_stopped [OF True]] b e by (auto simp: io_run.simps [of _ _ s])
        next
          case False
          then show ?thesis using assms(2) [OF idle] idle b e by (auto simp: io_run.simps [of _ _ s])
        qed
      next
        case stop
        then show ?thesis using assms(3) [OF stop] b e by (auto simp: io_run.simps [of _ _ s])
      next
        case go
        obtain r s' where r: "exec h (s\<lparr>io_queue := hs\<rparr>) = Some (r, s')" using go b e by (auto simp: bind_eq_Some_conv)
        show ?thesis
        proof (cases r)
          case (Inl er)
          then show ?thesis using assms(4) [OF go] go r b e tick by (auto simp: io_run.simps [of _ _ s] settle_def)
        next
          case (Inr u)
          then have "run exec None s' = Some y" using go r b e tick by simp
          then have i: "io_run exec None s' = Some y" "P s' (fst y, snd (snd y))" using IH by auto
          have "queue_run exec s' = Some (fst y, snd (snd y))" using i(1) by (cases y) (simp add: queue_run_def)
          then have "P s (fst y, snd (snd y))" using assms(5) [OF go] r Inr i(2) by simp
          moreover have "io_run exec None s = io_run exec None s'"
            unfolding io_run_handler [OF go(1) option.distinct(1) go(2,3)] r by (simp add: Inr tick)
          ultimately show ?thesis using i(1) e(2) by simp
        qed
      qed
    qed
  qed
  note all = this
  obtain y where y: "io_run exec None s = Some y" "x = (fst y, snd (snd y))"
    using assms(1) by (auto simp: queue_run_def split: prod.splits)
  show ?thesis using all [OF y(1)] y(2) by blast
qed

definition ready :: "('k, 'g) host \<Rightarrow> bool" where
  "ready S \<longleftrightarrow> hosted S \<and> call_stack S \<noteq> [] \<and> (io_queue (host_group S) = [] \<longrightarrow> io_stopped (host_group S))"

lemma host_stopped [simp]: "io_stopped (host_group S) = srv_stopped S"
  by (simp add: host_group_def)

lemma round_stopped: "srv_stopped S \<Longrightarrow> do_run_one rn irq cp S = Some (Inr 0, S)"
  by (simp add: do_run_one.simps)

lemma queue_to_loop:
  assumes "queue_run exec s = Some x" "polls K" "posts_only exec"
  shows "\<forall>(S :: ('k, 'g) host) n. ready S \<longrightarrow> host_group S = s \<longrightarrow> (\<exists>y. service_loop (host_round K exec) n S = Some y \<and> host_outcome y = x
     \<and> hosted (snd y) \<and> same_timers S (snd y))"
  using assms(1)
proof (induction rule: queue_run_rule)
  case (stopped s)
  show ?case
  proof (intro allI impI)
    fix S :: "('k, 'g) host" and n
    assume S: "ready S" "host_group S = s"
    then have st: "srv_stopped S" using stopped by (auto simp: ready_def)
    have "io_stopped s" using st S(2) host_stopped [of S] by simp
    note gcore_stopped [OF this]
    then show "\<exists>y. service_loop (host_round K exec) n S = Some y \<and> host_outcome y = (Inr (), s\<lparr>io_stopped := True\<rparr>)
        \<and> hosted (snd y) \<and> same_timers S (snd y)"
      using S round_stopped [OF st] by (intro exI [of _ "(Inr n, S)"]) (simp add: service_loop.simps host_outcome_def ready_def)
  qed
next
  case (stop s hs)
  show ?case
  proof (intro allI impI)
    fix S :: "('k, 'g) host" and n
    assume S: "ready S" "host_group S = s"
    have h: "hosted S" "call_stack S \<noteq> []" "\<not> srv_stopped S" "io_queue (host_group S) = HStop # hs" using S stop by (auto simp: ready_def)
    obtain S' where 1: "host_round K exec S = Some (Inr 1, S')" "hosted S'" "same_timers S S'"
        "host_group S' = (host_group S)\<lparr>io_queue := hs, io_stopped := True\<rparr>"
      using hosted_round(1) [OF assms(2,3) h] by blast
    have st: "srv_stopped S'" using host_stopped [of S'] 1(4) by simp
    show "\<exists>y. service_loop (host_round K exec) n S = Some y \<and> host_outcome y = (Inr (), s\<lparr>io_queue := hs, io_stopped := True\<rparr>)
        \<and> hosted (snd y) \<and> same_timers S (snd y)"
      using 1 S(2) round_stopped [OF st]
      by (simp add: service_loop.simps [of _ _ S] service_loop.simps [of _ _ S'] host_outcome_def)
  qed
next
  case (raise s h hs e s')
  show ?case
  proof (intro allI impI)
    fix S :: "('k, 'g) host" and n
    assume S: "ready S" "host_group S = s"
    have h: "hosted S" "call_stack S \<noteq> []" "\<not> srv_stopped S" "io_queue (host_group S) = h # hs" using S raise by (auto simp: ready_def)
    obtain S' where 1: "host_round K exec S = Some (Inl e, S')" "hosted S'" "same_timers S S'"
        "host_group S' = settle False s'"
      using hosted_round(3) [OF assms(2,3) h raise(3), of "Inl e" s'] raise(4) S(2) by auto
    then show "\<exists>y. service_loop (host_round K exec) n S = Some y \<and> host_outcome y = (Inl e, settle False s')
        \<and> hosted (snd y) \<and> same_timers S (snd y)"
      by (simp add: service_loop.simps [of _ _ S] host_outcome_def)
  qed
next
  case (step s h hs s' x)
  show ?case
  proof (intro allI impI)
    fix S :: "('k, 'g) host" and n
    assume S: "ready S" "host_group S = s"
    let ?n = "if n \<noteq> size_max then n + 1 else n"
    have h: "hosted S" "call_stack S \<noteq> []" "\<not> srv_stopped S" "io_queue (host_group S) = h # hs" using S step by (auto simp: ready_def)
    obtain S' where 1: "host_round K exec S = Some (Inr 1, S')" "hosted S'" "same_timers S S'"
        "host_group S' = settle False s'" "\<not> io_stopped s'"
      using hosted_round(3) [OF assms(2,3) h step(3), of "Inr ()" s'] step(4) S(2) by auto
    have l: "service_loop (host_round K exec) n S = service_loop (host_round K exec) ?n S'"
      using 1(1) by (simp add: service_loop.simps [of _ n S])
    have "\<exists>y. service_loop (host_round K exec) ?n S' = Some y \<and> host_outcome y = x \<and> hosted (snd y) \<and> same_timers S' (snd y)"
    proof (cases "io_queue s' = []")
      case True
      then have x: "x = (Inr (), s'\<lparr>io_stopped := True\<rparr>)" using step(5) queue_run_empty [OF True, of exec] by simp
      have st: "srv_stopped S'" using host_stopped [of S'] 1(4) True by (simp add: settle_def)
      then show ?thesis using 1 True x round_stopped [OF st]
        by (intro exI [of _ "(Inr ?n, S')"]) (simp add: service_loop.simps [of _ _ S'] host_outcome_def settle_def)
    next
      case False
      then have "ready S'" "host_group S' = s'" using 1 h(2) by (simp_all add: ready_def same_timers_def settle_def)
      then show ?thesis using step(6) by blast
    qed
    then show "\<exists>y. service_loop (host_round K exec) n S = Some y \<and> host_outcome y = x \<and> hosted (snd y) \<and> same_timers S (snd y)"
      using l same_timers_trans [OF 1(3)] by auto
  qed
qed

lemma loop_to_queue:
  fixes S :: "('k, 'g) host"
  assumes "service_loop (host_round K exec) n S = Some y" "polls K" "posts_only exec"
  shows "ready S \<longrightarrow> queue_run exec (host_group S) \<noteq> None"
  using assms(1)
proof (induction rule: service_loop_rule)
  case (step loop n S y)
  show ?case
  proof
    assume S: "ready S"
    show "queue_run exec (host_group S) \<noteq> None"
    proof (cases "srv_stopped S")
      case True
      then show ?thesis by (simp add: queue_run_stopped)
    next
      case False
      then obtain h hs where q: "io_queue (host_group S) = h # hs" using S by (cases "io_queue (host_group S)") (auto simp: ready_def)
      have h: "hosted S" "call_stack S \<noteq> []" using S by (simp_all add: ready_def)
      note round = hosted_round [OF assms(2,3) h False q]
      have ns: "\<not> io_stopped (host_group S)" using False by simp
      show ?thesis
      proof (cases "h = HStop")
        case True
        then show ?thesis using queue_run_stop [OF ns] q by simp
      next
        case other: False
        note run = queue_run_handler [OF ns q other]
        obtain r s' where e: "exec h ((host_group S)\<lparr>io_queue := hs\<rparr>) = Some (r, s')"
          using round(2) [OF other] step(2) by (cases "exec h ((host_group S)\<lparr>io_queue := hs\<rparr>)") auto
        obtain S' where 1: "host_round K exec S = Some (map_sum id (\<lambda>_. 1) r, S')" "hosted S'" "same_timers S S'"
            "host_group S' = settle False s'" "\<not> io_stopped s'"
          using round(3) [OF other e] by blast
        show ?thesis
        proof (cases r)
          case (Inl e')
          then show ?thesis by (simp add: run e)
        next
          case (Inr u)
          then have "loop (if n \<noteq> size_max then n + 1 else n) S' = Some y" using step(2) 1(1) by simp
          moreover have "ready S'" using 1(2-4) h(2) by (auto simp: ready_def same_timers_def settle_def split: if_splits)
          ultimately have "queue_run exec (host_group S') \<noteq> None" using step(1) by blast
          then show ?thesis using queue_run_settled [OF 1(5), of exec] 1(4) Inr by (simp add: run e)
        qed
      qed
    qed
  qed
qed

lemma loop_refines_queue:
  fixes S :: "('k, 'g) host"
  assumes "polls K" "posts_only exec" "ready S"
  shows "map_option host_outcome (service_loop (host_round K exec) n S) = queue_run exec (host_group S)"
    and "service_loop (host_round K exec) n S = Some y \<Longrightarrow> hosted (snd y) \<and> same_timers S (snd y)"
proof -
  have "map_option host_outcome (service_loop (host_round K exec) n S) = queue_run exec (host_group S)
    \<and> (service_loop (host_round K exec) n S = Some y \<longrightarrow> hosted (snd y) \<and> same_timers S (snd y))"
  proof (cases "queue_run exec (host_group S)")
    case None
    then have "service_loop (host_round K exec) n S = None"
      using loop_to_queue [of K exec n S, OF _ assms(1,2)] assms(3) by (cases "service_loop (host_round K exec) n S") auto
    then show ?thesis using None by simp
  next
    case (Some x)
    from queue_to_loop [OF this assms(1,2)] assms(3)
    obtain z where "service_loop (host_round K exec) n S = Some z" "host_outcome z = x" "hosted (snd z)" "same_timers S (snd z)"
      by blast
    then show ?thesis using Some by auto
  qed
  then show "map_option host_outcome (service_loop (host_round K exec) n S) = queue_run exec (host_group S)"
    and "service_loop (host_round K exec) n S = Some y \<Longrightarrow> hosted (snd y) \<and> same_timers S (snd y)" by auto
qed

text \<open>Entering a run, with or without work.\<close>

lemma group_run_refines:
  fixes S :: "('k, 'g) host"
  assumes "polls K" "posts_only exec" "hosted S"
  shows "map_option host_outcome (group_run K exec S) = queue_run exec (host_group S)"
    and "group_run K exec S = Some y \<Longrightarrow> hosted (snd y) \<and> same_timers S (snd y)"
proof -
  have w: "outstanding_work S = 0 \<longleftrightarrow> io_queue (host_group S) = []" using assms(3) by (simp add: hosted_with_def host_group_def)
  have "map_option host_outcome (group_run K exec S) = queue_run exec (host_group S)
    \<and> (group_run K exec S = Some y \<longrightarrow> hosted (snd y) \<and> same_timers S (snd y))"
  proof (cases "outstanding_work S = 0")
    case True
    obtain k b where s: "service_stop (epoll_interrupt K) S = S\<lparr>srv_stopped := True, kern := k, task_interrupted := b\<rparr>"
      using stop_kern [of K S] by blast
    have "group_run K exec S = Some (Inr 0, S\<lparr>srv_stopped := True, kern := k, task_interrupted := b\<rparr>)"
      using True s by (simp add: group_run_def service_run_def)
    then show ?thesis using queue_run_empty [of "host_group S" exec] w True assms(3) by (auto simp: host_outcome_def same_timers_def same_service_def)
  next
    case False
    let ?S = "S\<lparr>call_stack := \<lparr>private_queue = [], private_work = 0\<rparr> # call_stack S\<rparr>"
    have r: "ready ?S" using assms(3) w False by (simp add: ready_def hosted_with_def)
    have g: "group_run K exec S = map_option (\<lambda>(r, s'). (r, s'\<lparr>call_stack := tl (call_stack s')\<rparr>)) (service_loop (host_round K exec) 0 ?S)"
      using False by (simp add: group_run_def service_run_def with_context_def)
    have "host_outcome (case z of (r, s') \<Rightarrow> (r, s'\<lparr>call_stack := tl (call_stack s')\<rparr>)) = host_outcome z" for z :: "nat result \<times> ('k, 'g) host"
      by (simp add: host_outcome_def split: prod.split)
    then have 1: "map_option host_outcome (group_run K exec S) = queue_run exec (host_group S)"
      using loop_refines_queue(1) [OF assms(1,2) r, of 0] by (simp add: g option.map_comp o_def)
    have "hosted (snd y) \<and> same_timers S (snd y)" if y: "group_run K exec S = Some y"
    proof -
      obtain z where z: "service_loop (host_round K exec) 0 ?S = Some z" "snd y = (snd z)\<lparr>call_stack := tl (call_stack (snd z))\<rparr>"
        using y by (auto simp: g)
      show ?thesis using loop_refines_queue(2) [OF assms(1,2) r z(1)] by (auto simp: z(2) hosted_with_def same_timers_def same_service_def)
    qed
    then show ?thesis using 1 by blast
  qed
  then show "map_option host_outcome (group_run K exec S) = queue_run exec (host_group S)"
    and "group_run K exec S = Some y \<Longrightarrow> hosted (snd y) \<and> same_timers S (snd y)" by auto
qed

section \<open>The worker\<close>

lemma post_host:
  assumes "hosted S"
  shows "hosted (post_non_private_immediate_completion (epoll_interrupt K) (HandlerOp h) S)"
    "call_stack (post_non_private_immediate_completion (epoll_interrupt K) (HandlerOp h) S) = call_stack S"
    "host_group (post_non_private_immediate_completion (epoll_interrupt K) (HandlerOp h) S) = post h (host_group S)"
    "same_timers S (post_non_private_immediate_completion (epoll_interrupt K) (HandlerOp h) S)"
proof -
  obtain k b where "post_non_private_immediate_completion (epoll_interrupt K) (HandlerOp h) S =
      S\<lparr>outstanding_work := outstanding_work S + 1, srv_queue := srv_queue S @ [HandlerOp h], kern := k, task_interrupted := b\<rparr>"
    using wake_kern [of K "push_ops [HandlerOp h] (work_started S)"]
    by (auto simp: post_non_private_immediate_completion_def post_non_private_deferred_completion_def push_ops_def work_started_def)
  then show "hosted (post_non_private_immediate_completion (epoll_interrupt K) (HandlerOp h) S)"
    "call_stack (post_non_private_immediate_completion (epoll_interrupt K) (HandlerOp h) S) = call_stack S"
    "host_group (post_non_private_immediate_completion (epoll_interrupt K) (HandlerOp h) S) = post h (host_group S)"
    "same_timers S (post_non_private_immediate_completion (epoll_interrupt K) (HandlerOp h) S)"
    using assms by (simp_all add: hosted_with_def host_group_def post_def is_handler_def same_timers_def same_service_def)
qed

lemma dispatch_all_host:
  "hosted S \<Longrightarrow> call_stack S = [] \<Longrightarrow> \<exists>S'. dispatch_all K exec hs S = Some (Inr (), S') \<and> hosted S' \<and> call_stack S' = []
     \<and> host_group S' = fold post hs (host_group S) \<and> same_timers S S'"
proof (induction hs arbitrary: S)
  case (Cons h hs)
  let ?S = "post_non_private_immediate_completion (epoll_interrupt K) (HandlerOp h) S"
  show ?case using Cons.IH [of ?S] post_host [OF Cons.prems(1), of K h] Cons.prems(2) same_timers_trans [of S ?S] by (auto simp: service_dispatch_def)
qed simp

lemma timer_service_host:
  assumes "hosted S" "call_stack S = []"
  shows "hosted (use_timer_service K S)" "call_stack (use_timer_service K S) = []" "host_group (use_timer_service K S) = host_group S"
proof -
  obtain k b where "wake_one_thread (epoll_interrupt K) (push_ops [TaskOp] (S\<lparr>has_task := True\<rparr>)) =
      push_ops [TaskOp] (S\<lparr>has_task := True\<rparr>)\<lparr>kern := k, task_interrupted := b\<rparr>"
    using wake_kern [of K "push_ops [TaskOp] (S\<lparr>has_task := True\<rparr>)"] by auto
  then have "hosted (init_task (epoll_interrupt K) S) \<and> call_stack (init_task (epoll_interrupt K) S) = []
      \<and> host_group (init_task (epoll_interrupt K) S) = host_group S"
    using assms by (simp add: init_task_def push_ops_def hosted_with_def host_group_def)
  then show "hosted (use_timer_service K S)" "call_stack (use_timer_service K S) = []" "host_group (use_timer_service K S) = host_group S"
    using assms by (simp_all add: use_timer_service_def add_timer_queue_def hosted_with_def host_group_def)
qed

lemma drop_host: "host_group (S\<lparr>user := drop_disabled (drop_unreferenced (user S))\<rparr>) = drop_disabled (drop_unreferenced (host_group S))"
  by (simp add: host_group_def drop_disabled_def drop_unreferenced_def)

lemma io_run_untimed: "io_run exec tm s = Some x \<Longrightarrow> tm = None \<Longrightarrow> fst (snd x) = None"
proof (induction exec tm s x rule: io_run.raw_induct [rotated, consumes 1, case_names step])
  case (step run exec tm s x)
  then show ?case
    by (cases x) (auto simp: tick_def bind_eq_Some_conv split: if_splits list.splits sum.splits dest: step(1))
qed

lemma runWorker_queue_run:
  "GroupCore_runWorker exec None s = map_option (\<lambda>(r, s'). case r of Inl e \<Rightarrow> (Inl e, s') | Inr _ \<Rightarrow> (Inr (), drop_disabled (drop_unreferenced s')))
     (queue_run exec ((post_all (\<lambda>b. HWorker (br_backend b)) s)\<lparr>io_stopped := False\<rparr>))"
  using io_run_untimed [of exec None "(post_all (\<lambda>b. HWorker (br_backend b)) s)\<lparr>io_stopped := False\<rparr>"]
  by (cases "io_run exec None ((post_all (\<lambda>b. HWorker (br_backend b)) s)\<lparr>io_stopped := False\<rparr>)")
    (auto simp: GroupCore_runWorker_def queue_run_def Let_def split: prod.split sum.split)

section \<open>Groups of loopbacks\<close>

text \<open>The handlers of the loopback backend with the example's callbacks are such handlers.\<close>

lemma available_loop_same: "available_loop l n it s = Some x \<Longrightarrow> it \<noteq> [] \<Longrightarrow>
    getNodeUUID (ln_node (lr_node (hd it))) = getNodeUUID (ln_node n) \<Longrightarrow> False"
proof (induction l n it s x rule: available_loop.raw_induct [rotated, consumes 1, case_names step])
  case (step loop l n it s x)
  then show ?case by (cases x) (auto split: list.splits dest: step(1))
qed

lemma unavailable_loop_same: "unavailable_loop l n it s = Some x \<Longrightarrow> it \<noteq> [] \<Longrightarrow>
    getNodeUUID (ln_node (lr_node (hd it))) = getNodeUUID (ln_node n) \<Longrightarrow> False"
proof (induction l n it s x rule: unavailable_loop.raw_induct [rotated, consumes 1, case_names step])
  case (step loop l n it s x)
  then show ?case by (cases x) (auto split: list.splits dest: step(1))
qed

lemma loop_results:
  "available_loop l n it s = (if it = [] then Some (Inr (), s)
     else if lb_groupc l \<or> getNodeUUID (ln_node (lr_node (hd it))) = getNodeUUID (ln_node n) then None else Some (Inl (UB EmptyPointer), s))"
  "unavailable_loop l n it s = (if it = [] then Some (Inr (), s)
     else if lb_groupc l \<or> getNodeUUID (ln_node (lr_node (hd it))) = getNodeUUID (ln_node n) then None else Some (Inl (UB EmptyPointer), s))"
proof -
  show "available_loop l n it s = (if it = [] then Some (Inr (), s)
     else if lb_groupc l \<or> getNodeUUID (ln_node (lr_node (hd it))) = getNodeUUID (ln_node n) then None else Some (Inl (UB EmptyPointer), s))"
  proof (cases "it = [] \<or> \<not> lb_groupc l \<and> getNodeUUID (ln_node (lr_node (hd it))) \<noteq> getNodeUUID (ln_node n)")
    case True
    then show ?thesis by (subst available_loop.simps) (auto split: list.split)
  next
    case False
    then have "available_loop l n it s = None"
      using available_loop_diverges [of l n it s] available_loop_same [of l n it s] by (cases "available_loop l n it s") auto
    then show ?thesis using False by auto
  qed
  show "unavailable_loop l n it s = (if it = [] then Some (Inr (), s)
     else if lb_groupc l \<or> getNodeUUID (ln_node (lr_node (hd it))) = getNodeUUID (ln_node n) then None else Some (Inl (UB EmptyPointer), s))"
  proof (cases "it = [] \<or> \<not> lb_groupc l \<and> getNodeUUID (ln_node (lr_node (hd it))) \<noteq> getNodeUUID (ln_node n)")
    case True
    then show ?thesis by (subst unavailable_loop.simps) (auto split: list.split)
  next
    case False
    then have "unavailable_loop l n it s = None"
      using unavailable_loop_diverges [of l n it s] unavailable_loop_same [of l n it s] by (cases "unavailable_loop l n it s") auto
    then show ?thesis using False by auto
  qed
qed

lemma dao_queue [simp]:
  "dao_begin_uuid (s\<lparr>io_queue := q, io_stopped := b\<rparr>) = dao_begin_uuid s"
  "dao_findByUUID u (s\<lparr>io_queue := q, io_stopped := b\<rparr>) = dao_findByUUID u s"
  by (simp_all add: dao_begin_uuid_def dao_findByUUID_def)

lemma loopback_posts_only: "posts_only example_exec"
  unfolding posts_only_def
proof (intro allI impI)
  fix h q b and s :: "'z lworld_scheme"
  let ?t = "s\<lparr>io_queue := q, io_stopped := b\<rparr>" and ?u = "s\<lparr>io_queue := [], io_stopped := False\<rparr>"
  let ?add = "\<lambda>(r, s'). (r, s'\<lparr>io_queue := q @ io_queue s', io_stopped := b\<rparr>)"
  assume h: "h \<noteq> HStop"
  have lb: "lbs ?t x = lbs s x" "lbs ?u x = lbs s x" for x by simp_all
  show "example_exec h ?t = map_option ?add (example_exec h ?u)"
  proof (cases h)
    case (HCallback c)
    have "handleCommunication src dst ?t = ?add (handleCommunication src dst ?u)" for src dst
    proof (cases "map_of (node2message s) (shown_alias dst @ ''->'' @ shown_alias src)")
      case None
      have "handleCommunication src dst ?t = (Inr (), ?t)" "handleCommunication src dst ?u = (Inr (), ?u)"
        using None by (simp_all add: handleCommunication_def Let_def)
      then show ?thesis by simp
    next
      case (Some msg)
      then show ?thesis
        by (cases s; cases "msg = []"; cases "enabled_backends s")
          (simp_all add: handleCommunication_def write_eq Let_def)
    qed
    then have "LoopbackCallbacks c ?t = ?add (LoopbackCallbacks c ?u)"
      by (cases "(c, ?t)" rule: LoopbackCallbacks.cases) auto
    then show ?thesis using HCallback by simp
  next
    case (HWrite x p)
    then show ?thesis
      by (auto simp: with_loopback_def Loopback_OnLocalNodeWritesToGroup_def LocalNode_OnRead_def split: option.split sum.split)
  qed (use h in \<open>auto simp: with_loopback_def Loopback_Worker_def Loopback_OnLocalNodeAvailable_def
      Loopback_OnLocalNodeUnavailable_def loop_results split: option.split\<close>)
qed

end
