(* ===== verification/WorkerTimeout.thy ===== *)
theory WorkerTimeout imports WorkerLoop begin

text \<open>
  The worker of a group with a time limit. Its timer waits in the reactor while the handlers run; when it expires,
  \<open>io_service::stop\<close> joins the queue behind them. The queue model of \<open>GroupCore\<close> counts handlers instead: here the
  real run is shown to be one of the model's runs.
\<close>

section \<open>Calls that do not wait\<close>

text \<open>
  The states of the kernel reached without \<open>epoll_wait\<close>, and the service states reached that way by
  operations that only add to the end of the queue.
\<close>

inductive brief :: "'k kernel \<Rightarrow> 'k \<Rightarrow> 'k \<Rightarrow> bool" for K where
  none: "brief K k k"
| clock: "brief K k k' \<Longrightarrow> brief K k (snd (k_clock K k'))"
| ctl: "brief K k k' \<Longrightarrow> brief K k (snd (k_epoll_ctl K c k'))"
| settime: "brief K k k' \<Longrightarrow> brief K k (k_timerfd_settime K f sec nsec k')"

declare brief.intros [intro]

lemma brief_trans: "brief K k1 k2 \<Longrightarrow> brief K k k1 \<Longrightarrow> brief K k k2"
  by (induction rule: brief.induct) auto

definition extends :: "'k kernel \<Rightarrow> ('k, 'g) host \<Rightarrow> ('k, 'g) host \<Rightarrow> bool" where
  "extends K S S' \<longleftrightarrow> brief K (kern S) (kern S') \<and> one_thread S' = one_thread S \<and> (\<exists>ps. srv_queue S' = srv_queue S @ ps)"

lemma extends_refl: "kern S' = kern S \<Longrightarrow> one_thread S' = one_thread S \<Longrightarrow> srv_queue S' = srv_queue S \<Longrightarrow> extends K S S'"
  by (auto simp: extends_def)

lemma extends_push: "kern S' = kern S \<Longrightarrow> one_thread S' = one_thread S \<Longrightarrow> srv_queue S' = srv_queue S @ ps \<Longrightarrow> extends K S S'"
  by (auto simp: extends_def)

lemma extends_trans: "extends K S1 S2 \<Longrightarrow> extends K S S1 \<Longrightarrow> extends K S S2"
  by (auto simp: extends_def intro: brief_trans)

lemma extends_interrupt: "extends K S (interrupt_task (epoll_interrupt K) S)"
  by (auto simp: extends_def interrupt_task_def epoll_interrupt_def ctl_def case_prod_beta)

lemma extends_wake: "extends K S (wake_one_thread (epoll_interrupt K) S)"
  by (simp add: wake_one_thread_def extends_interrupt)

lemma extends_stop: "extends K S (service_stop (epoll_interrupt K) S)"
  unfolding service_stop_def stop_all_threads_def by (rule extends_trans [OF extends_interrupt]) (rule extends_refl; simp)

lemma extends_finished: "extends K S (work_finished (epoll_interrupt K) S)"
proof -
  have w: "extends K S (S\<lparr>outstanding_work := n\<rparr>)" for n by (rule extends_refl) simp_all
  then show ?thesis using extends_trans [OF extends_stop w] by (simp add: work_finished_def Let_def)
qed

lemma extends_cleanup: "extends K S (work_cleanup (epoll_interrupt K) S)"
proof (cases "call_stack S")
  case Nil
  then show ?thesis by (simp add: work_cleanup_def extends_refl)
next
  case (Cons t ts)
  let ?S = "if private_work t > 1 then S\<lparr>outstanding_work := outstanding_work S + (private_work t - 1)\<rparr>
    else if private_work t < 1 then work_finished (epoll_interrupt K) S else S"
  have "extends K S ?S" using extends_finished [of K S] by (simp add: extends_refl)
  moreover have "extends K ?S (push_ops (private_queue t) (?S\<lparr>call_stack := t\<lparr>private_work := 0, private_queue := []\<rparr> # ts\<rparr>))"
    by (rule extends_push [where ps = "private_queue t"]) (simp_all add: push_ops_def)
  ultimately show ?thesis unfolding work_cleanup_def Let_def Cons list.case by (rule extends_trans [rotated])
qed

lemma extends_post: "\<not> one_thread S \<Longrightarrow> extends K S (service_post (epoll_interrupt K) h S)"
  unfolding service_post_def post_immediate_completion_def
  by (auto intro!: extends_trans [OF extends_wake] extends_push simp: push_ops_def work_started_def)

lemma extends_handlers: "\<not> one_thread S \<Longrightarrow> extends K S (post_handlers K hs S)"
proof (induction hs arbitrary: S)
  case Nil
  then show ?case by (simp add: post_handlers_def extends_refl)
next
  case (Cons h hs)
  have e: "extends K S (service_post (epoll_interrupt K) h S)" by (rule extends_post [OF Cons.prems])
  then have "\<not> one_thread (service_post (epoll_interrupt K) h S)" using Cons.prems by (simp add: extends_def)
  from extends_trans [OF Cons.IH [OF this] e] show ?case by (simp add: post_handlers_def)
qed

lemma extends_complete:
  assumes "complete_op (epoll_interrupt K) (group_complete K exec) p S = Some (r, S')" "\<not> one_thread S"
  shows "extends K S S'"
proof -
  let ?S = "if srv_queue S \<noteq> [] \<and> \<not> one_thread S then wake_one_thread (epoll_interrupt K) S else S"
  have 1: "extends K S ?S" by (simp add: extends_wake extends_refl)
  then have ns: "\<not> one_thread ?S" using assms(2) by (simp add: extends_def)
  obtain S2 where 2: "group_complete K exec p ?S = Some (r, S2)" "S' = work_cleanup (epoll_interrupt K) S2"
    using assms(1) by (auto simp: complete_op_def Let_def)
  have user: "extends K ?S (post_handlers K hs (?S\<lparr>user := g\<rparr>))" for hs g
    by (rule extends_trans [OF extends_handlers]) (use ns in \<open>simp_all add: extends_refl\<close>)
  have "extends K ?S S2"
    using 2(1) extends_stop [of K ?S] user extends_refl [of ?S ?S] by (auto simp: group_complete_def split: operation.splits if_splits)
  then show ?thesis unfolding 2(2) using extends_trans [OF extends_cleanup extends_trans] 1 by blast
qed

lemma extends_dispatch:
  assumes "dispatch_all K exec hs S = Some (r, S')" "call_stack S = []"
  shows "extends K S S'"
  using assms
proof (induction hs arbitrary: S)
  case Nil
  then show ?case by (simp add: extends_refl)
next
  case (Cons h hs)
  let ?S = "post_non_private_immediate_completion (epoll_interrupt K) (HandlerOp h) S"
  have e: "extends K S ?S" unfolding post_non_private_immediate_completion_def post_non_private_deferred_completion_def
    by (rule extends_trans [OF extends_wake]) (rule extends_push; simp add: push_ops_def work_started_def)
  have "call_stack ?S = []"
    using Cons.prems(2) wake_kern [of K "push_ops [HandlerOp h] (work_started S)"]
    by (auto simp: post_non_private_immediate_completion_def post_non_private_deferred_completion_def push_ops_def work_started_def)
  then show ?case using Cons.IH [of ?S] Cons.prems extends_trans [OF _ e] by (simp add: service_dispatch_def)
qed

lemma extends_timer_service: "extends K S (use_timer_service K S)"
proof -
  have "extends K S (push_ops [TaskOp] (S\<lparr>has_task := True\<rparr>))" by (rule extends_push) (simp_all add: push_ops_def)
  from extends_trans [OF extends_wake this] have "extends K S (init_task (epoll_interrupt K) S)" by (simp add: init_task_def extends_refl)
  then show ?thesis by (auto simp: use_timer_service_def add_timer_queue_def extends_refl extends_def)
qed

section \<open>The worker's timer\<close>

text \<open>The timer is the only one of its queue, or that queue has none.\<close>

definition lone_timer :: "ptime_rep \<Rightarrow> timer \<Rightarrow> timer_queue \<Rightarrow> bool" where
  "lone_timer e t q \<longleftrightarrow> heap q = [(e, t)] \<and> timers q = Some t
     \<and> data q t = \<lparr>op_queue = [the_wait t], heap_index = 0, next_timer = None, prev_timer = None\<rparr>"

definition no_timer :: "timer \<Rightarrow> timer_queue \<Rightarrow> bool" where
  "no_timer t q \<longleftrightarrow> heap q = [] \<and> timers q = None \<and> prev_timer (data q t) = None"

definition done_queue :: "timer \<Rightarrow> timer_queue \<Rightarrow> timer_queue" where
  "done_queue t q = remove_timer t (upd_data t (op_queue_update (\<lambda>_. [])) q)"

lemma no_timer_inactive: "no_timer t q \<Longrightarrow> \<not> active q t"
  by (simp add: no_timer_def active_def)

lemma lone_done: "lone_timer e t q \<Longrightarrow> no_timer t (done_queue t q)"
  by (simp add: lone_timer_def no_timer_def done_queue_def remove_timer_def remove_from_heap_def unlink_timer_def upd_data_def Let_def)

lemma lone_ready:
  assumes "lone_timer e t q"
  shows "get_ready_timers now [] q = Some (if e \<le> now then ([the_wait t], done_queue t q) else ([], q))"
proof -
  have h: "heap q = [(e, t)]" "op_queue (data q t) = [the_wait t]" using assms by (simp_all add: lone_timer_def)
  have e: "heap (done_queue t q) = []" using lone_done [OF assms] by (simp add: no_timer_def)
  show ?thesis
    using h e by (simp add: get_ready_timers_def ready_loop.simps [of _ _ q] ready_loop.simps [of _ _ "done_queue t q"]
        is_less_def flip: done_queue_def)
qed

lemma lone_cancel:
  assumes "lone_timer e t q"
  shows "\<exists>n q'. cancel_timer t size_max [] q = (n, [\<lparr>op_id = t, op_aborted = True\<rparr>], q') \<and> no_timer t q'"
proof -
  have d: "op_queue (data q t) = [the_wait t]" "active q t" using assms by (simp_all add: lone_timer_def active_def)
  have "size_max \<noteq> 0" by (simp add: size_max_def)
  then have "cancel_timer t size_max [] q = (1, [\<lparr>op_id = t, op_aborted = True\<rparr>], done_queue t q)"
    using d by (simp add: cancel_timer_def the_wait_def done_queue_def)
  then show ?thesis using lone_done [OF assms] by blast
qed

lemma enqueue_lone:
  assumes "heap q = []" "timers q = None"
  shows "\<exists>q'. enqueue_timer e t (the_wait t) (upd_data t (\<lambda>_. per_timer_data i) q) = (True, q') \<and> lone_timer e t q'
    \<and> \<not> active (upd_data t (\<lambda>_. per_timer_data i) q) t"
  using assms
  by (simp add: enqueue_timer_def enqueue_heap_def link_timer_def upd_data_def active_def per_timer_data_def is_positive_infinity_def
      lone_timer_def up_heap.simps Let_def)

section \<open>Waiting for the timer\<close>

text \<open>The kernel reports no descriptor, as none is registered, and its clock shows times that can be subtracted.\<close>

definition quiet_kernel :: "'k kernel \<Rightarrow> bool" where
  "quiet_kernel K \<longleftrightarrow> (\<forall>m k evs k'. k_epoll_wait K m k = Some (evs, k') \<longrightarrow> event_descriptors evs = [])
     \<and> (\<forall>k. in_range (now_of K k))"

lemma quiet_clock: "quiet_kernel K \<Longrightarrow> in_range (now_of K k)"
  by (simp add: quiet_kernel_def)

definition few_timers :: "timer_queue \<Rightarrow> bool" where
  "few_timers q \<longleftrightarrow> heap q = [] \<or> (\<exists>e t. heap q = [(e, t)] \<and> in_range e)"

lemma wait_some:
  assumes "few_timers q" "heap q \<noteq> []" "in_range now"
  shows "\<exists>v. wait_duration_usec now m q = Inr v" "\<exists>v. wait_duration_msec now m q = Inr v"
proof -
  obtain e t where h: "heap q = [(e, t)]" "in_range e" using assms(1,2) by (auto simp: few_timers_def)
  have d: "subtract_times e now = Inr (e - now)" using h(2) assms(3) by (intro subtract_times_exact) (simp_all add: in_range_def)
  have b: "e - now \<le> 9223372036854775807" using h(2) assms(3) by (simp add: in_range_def)
  show "\<exists>v. wait_duration_usec now m q = Inr v"
    using h(1) d b by (auto simp: wait_duration_usec_def to_usec_def total_microseconds_def int64_result ticks_per_second_def res_adjust_def)
  have "(e - now) sdiv 1000 = (e - now) div 1000" if "0 < e - now" using that by (intro sdiv_smod_nonneg(1)) simp_all
  moreover have "(e - now) div 1000 \<le> e - now" "0 \<le> (e - now) div 1000" if "0 < e - now"
    using that by (simp_all add: div_le_dividend zdiv_mono2 pos_imp_zdiv_nonneg_iff)
  ultimately show "\<exists>v. wait_duration_msec now m q = Inr v"
    using h(1) d b sdiv_smod_nonneg(1) [of 1000000 1000]
    by (auto simp: wait_duration_msec_def to_msec_def total_milliseconds_def int64_result ticks_per_second_def res_adjust_def)
qed

lemma set_wait_some:
  assumes "quiet_kernel K" "\<And>now m q. in_range now \<Longrightarrow> few_timers q \<Longrightarrow> heap q \<noteq> [] \<Longrightarrow> \<exists>v. f now m q = Inr v"
    "\<forall>q. few_timers (queues s q)"
  shows "\<exists>v k. set_wait K f qs m s = (Inr v, s\<lparr>kern := k\<rparr>) \<and> brief K (kern s) k"
  using assms(3)
proof (induction qs arbitrary: m s)
  case Nil
  then show ?case by (intro exI [of _ m] exI [of _ "kern s"]) (simp add: none)
next
  case (Cons q qs)
  show ?case
  proof (cases "heap (queues s q) = []")
    case True
    then show ?thesis using Cons by (simp add: queue_wait_def)
  next
    case False
    obtain v where v: "f (now_of K (kern s)) m (queues s q) = Inr v"
      using assms(2) [OF quiet_clock [OF assms(1)]] Cons.prems False by blast
    let ?s = "s\<lparr>kern := snd (k_clock K (kern s))\<rparr>"
    have "set_wait K f (q # qs) m s = set_wait K f qs v ?s"
      using False v by (simp add: queue_wait_def case_prod_beta now_of_def)
    moreover obtain v' k where "set_wait K f qs v ?s = (Inr v', ?s\<lparr>kern := k\<rparr>)" "brief K (kern ?s) k" using Cons.IH [of ?s v] Cons.prems by auto
    moreover have "brief K (kern s) (kern ?s)" by (simp add: clock none)
    ultimately show ?thesis by (intro exI [of _ v'] exI [of _ k]) (simp only:, simp add: brief_trans)
  qed
qed

lemma set_timerfd_kern:
  assumes "quiet_kernel K" "\<forall>q. few_timers (queues s q)"
  shows "\<exists>k. set_timerfd K s = (Inr (), s\<lparr>kern := k\<rparr>) \<and> brief K (kern s) k"
proof -
  have "\<exists>v k. set_wait K wait_duration_usec (queue_set s) 300000000 s = (Inr v, s\<lparr>kern := k\<rparr>) \<and> brief K (kern s) k"
    by (rule set_wait_some [OF assms(1) _ assms(2)]) (rule wait_some(1))
  then obtain v k where "set_wait K wait_duration_usec (queue_set s) 300000000 s = (Inr v, s\<lparr>kern := k\<rparr>)" "brief K (kern s) k" by blast
  then show ?thesis by (auto simp: set_timerfd_def split: prod.split)
qed

lemma epoll_timeout_kern:
  assumes "quiet_kernel K" "\<forall>q. few_timers (queues s q)"
  shows "\<exists>m k. epoll_timeout K b s = (Inr m, s\<lparr>kern := k\<rparr>) \<and> brief K (kern s) k"
proof -
  have id: "\<exists>k. s = s\<lparr>kern := k\<rparr> \<and> brief K (kern s) k" by (intro exI [of _ "kern s"]) (simp add: none)
  have "\<exists>v k. set_wait K wait_duration_msec (queue_set s) 300000 s = (Inr v, s\<lparr>kern := k\<rparr>) \<and> brief K (kern s) k"
    by (rule set_wait_some [OF assms(1) _ assms(2)]) (rule wait_some(2))
  then obtain v k where "set_wait K wait_duration_msec (queue_set s) 300000 s = (Inr v, s\<lparr>kern := k\<rparr>)" "brief K (kern s) k" by blast
  then show ?thesis using id by (auto simp: epoll_timeout_def get_timeout_def)
qed

lemma dispatch_quiet: "event_descriptors evs = [] \<Longrightarrow> timer_fd s = - 1 \<longrightarrow> c \<Longrightarrow> dispatch_events evs c s = (Inr (c \<or> EvTimerFd \<in> set evs), s)"
  by (induction evs arbitrary: c) (auto split: epoll_event.splits)

text \<open>When the timer expires, its wait joins the private queue of the thread that runs the reactor.\<close>

definition expire :: "timer \<Rightarrow> ('k, 'g) host \<Rightarrow> ('k, 'g) host" where
  "expire t s = push_private [TimerOp (the_wait t)] (upd_queue 0 (done_queue t (queues s 0)) s)"

lemma set_ready_lone:
  fixes s :: "('k, 'g) host"
  assumes "lone_timer e t (queues s 0)" "\<forall>q. q \<noteq> 0 \<longrightarrow> heap (queues s q) = []" "call_stack s \<noteq> []"
  shows "\<exists>s' k. set_ready K qs s = Some s' \<and> brief K (kern s) k
    \<and> (s' = s\<lparr>kern := k\<rparr> \<and> (0 \<in> set qs \<longrightarrow> \<not> e \<le> now_of K (kern s)) \<or> s' = expire t (s\<lparr>kern := k\<rparr>))"
  using assms
proof (induction qs arbitrary: s)
  case Nil
  then show ?case by (intro exI [of _ s] exI [of _ "kern s"]) (simp add: none)
next
  case (Cons q qs)
  show ?case
  proof (cases "q = 0")
    case False
    then show ?thesis using Cons by simp
  next
    case True
    let ?k = "snd (k_clock K (kern s))" and ?now = "now_of K (kern s)"
    have b: "brief K (kern s) ?k" by (rule clock [OF none])
    have h: "heap (queues s 0) \<noteq> []" using Cons.prems(1) by (simp add: lone_timer_def)
    have r: "set_ready K (q # qs) s = set_ready K qs (push_private (map TimerOp ps) (upd_queue 0 tq (s\<lparr>kern := ?k\<rparr>)))"
      if "get_ready_timers ?now [] (queues s 0) = Some (ps, tq)" for ps tq
      using h True that by (simp add: case_prod_beta now_of_def)
    show ?thesis
    proof (cases "e \<le> ?now")
      case True
      let ?e = "expire t (s\<lparr>kern := ?k\<rparr>)"
      have "\<forall>q. heap (queues ?e q) = []" using Cons.prems(2) lone_done [OF Cons.prems(1)] by (simp add: expire_def no_timer_def)
      then have "set_ready K (q # qs) s = Some ?e"
        using r lone_ready [OF Cons.prems(1), of ?now] True set_ready_idle [of qs ?e K] by (simp add: expire_def upd_queue_def)
      then show ?thesis using b by blast
    next
      case False
      have "push_private [] (upd_queue 0 (queues s 0) (s\<lparr>kern := ?k\<rparr>)) = s\<lparr>kern := ?k\<rparr>"
        using Cons.prems(3) by (cases s; cases "call_stack s") (simp_all add: push_private_def upd_context_def upd_queue_def)
      then have "set_ready K (q # qs) s = set_ready K qs (s\<lparr>kern := ?k\<rparr>)"
        using r lone_ready [OF Cons.prems(1), of ?now] False by simp
      then show ?thesis
        using Cons.IH [of "s\<lparr>kern := ?k\<rparr>"] Cons.prems False brief_trans [OF _ b] by auto
    qed
  qed
qed

lemma few_lone:
  "lone_timer e t (queues s 0) \<Longrightarrow> in_range e \<Longrightarrow> \<forall>q. q \<noteq> 0 \<longrightarrow> heap (queues s q) = [] \<Longrightarrow> few_timers (queues s q)"
  by (cases "q = 0") (auto simp: few_timers_def lone_timer_def)

text \<open>
  A poll of the reactor that returns leaves the timer waiting or expires it. When the timer still waits, the kernel did
  not report the timer descriptor, or the clock did not show its time yet.
\<close>

lemma epoll_run_lone:
  fixes s :: "('k, 'g) host"
  assumes "quiet_kernel K" "lone_timer e t (queues s 0)" "in_range e" "\<forall>q. q \<noteq> 0 \<longrightarrow> heap (queues s q) = []" "call_stack s \<noteq> []"
  shows "\<exists>m k1. brief K (kern s) k1 \<and> (case k_epoll_wait K m k1 of
      None \<Rightarrow> epoll_run K b s = None
    | Some (evs, k2) \<Rightarrow> \<exists>k. brief K k2 k \<and> (epoll_run K b s = Some (Inr (), s\<lparr>kern := k\<rparr>)
          \<and> (0 \<in> set (queue_set s) \<longrightarrow> \<not> ((timer_fd s = - 1 \<or> EvTimerFd \<in> set evs) \<and> e \<le> now_of K k2))
        \<or> epoll_run K b s = Some (Inr (), expire t (s\<lparr>kern := k\<rparr>))))"
proof -
  have few: "\<forall>q. few_timers (queues s q)" using few_lone [OF assms(2-4)] by blast
  obtain m k1 where 1: "epoll_timeout K b s = (Inr m, s\<lparr>kern := k1\<rparr>)" "brief K (kern s) k1"
    using epoll_timeout_kern [OF assms(1) few] by blast
  have "case k_epoll_wait K m k1 of
      None \<Rightarrow> epoll_run K b s = None
    | Some (evs, k2) \<Rightarrow> \<exists>k. brief K k2 k \<and> (epoll_run K b s = Some (Inr (), s\<lparr>kern := k\<rparr>)
          \<and> (0 \<in> set (queue_set s) \<longrightarrow> \<not> ((timer_fd s = - 1 \<or> EvTimerFd \<in> set evs) \<and> e \<le> now_of K k2))
        \<or> epoll_run K b s = Some (Inr (), expire t (s\<lparr>kern := k\<rparr>)))"
  proof (cases "k_epoll_wait K m k1")
    case None
    then show ?thesis using 1 by (simp add: epoll_run_def)
  next
    case (Some ek)
    obtain evs k2 where ek: "ek = (evs, k2)" by (cases ek)
    let ?s = "s\<lparr>kern := k2\<rparr>" and ?c = "timer_fd s = - 1 \<or> EvTimerFd \<in> set evs"
    have "event_descriptors evs = []" using assms(1) Some ek unfolding quiet_kernel_def by blast
    then have c: "dispatch_events evs (timer_fd s = - 1) ?s = (Inr ?c, ?s)" by (intro dispatch_quiet) simp_all
    have e: "epoll_run K b s = (if ?c then check_timer_queues K ?s else Some (Inr (), ?s))"
      using 1 Some ek c by (simp add: epoll_run_def)
    have "\<exists>k. brief K k2 k \<and> (epoll_run K b s = Some (Inr (), s\<lparr>kern := k\<rparr>)
          \<and> (0 \<in> set (queue_set s) \<longrightarrow> \<not> (?c \<and> e \<le> now_of K k2)) \<or> epoll_run K b s = Some (Inr (), expire t (s\<lparr>kern := k\<rparr>)))"
    proof (cases ?c)
      case False
      then show ?thesis using e by (intro exI [of _ k2]) (simp add: none)
    next
      case True
      obtain s3 k3 where 3: "set_ready K (queue_set s) ?s = Some s3" "brief K k2 k3"
          "s3 = s\<lparr>kern := k3\<rparr> \<and> (0 \<in> set (queue_set s) \<longrightarrow> \<not> e \<le> now_of K k2) \<or> s3 = expire t (s\<lparr>kern := k3\<rparr>)"
        using set_ready_lone [of e t ?s K "queue_set s"] assms(2,4,5) by auto
      have "heap (done_queue t (queues s 0)) = []" using lone_done [OF assms(2)] by (simp add: no_timer_def)
      then have "\<forall>q. few_timers (queues s3 q)" using 3(3) few assms(4) by (auto simp: expire_def few_timers_def)
      then obtain k' where k': "set_timerfd K s3 = (Inr (), s3\<lparr>kern := k'\<rparr>)" "brief K (kern s3) k'" using set_timerfd_kern [OF assms(1)] by blast
      have "\<exists>k. epoll_run K b s = Some (Inr (), s3\<lparr>kern := k\<rparr>) \<and> brief K (kern s3) k"
        using e True 3(1) k' none [of K "kern s3"]
        by (cases "timer_fd s3 = - 1") (auto simp: check_timer_queues_def intro: exI [of _ "kern s3"])
      then obtain k where k: "epoll_run K b s = Some (Inr (), s3\<lparr>kern := k\<rparr>)" "brief K (kern s3) k" by blast
      have x: "(expire t (s\<lparr>kern := k3\<rparr>))\<lparr>kern := k\<rparr> = expire t (s\<lparr>kern := k\<rparr>)"
        by (cases s) (simp add: expire_def push_private_def upd_context_def upd_queue_def)
      have "kern s3 = k3" using 3(3) by (auto simp: expire_def push_private_def upd_context_def upd_queue_def)
      then have "brief K k2 k" using k(2) 3(2) by (simp add: brief_trans)
      then show ?thesis using 3(3) k(1) x by (intro exI [of _ k]) auto
    qed
    then show ?thesis by (simp add: Some ek)
  qed
  then show ?thesis using 1(2) by blast
qed

section \<open>A round while the timer waits\<close>

definition waiting :: "ptime_rep \<Rightarrow> timer \<Rightarrow> ('k, 'g) host \<Rightarrow> bool" where
  "waiting e t S \<longleftrightarrow> hosted_with (Some (e, t)) S \<and> lone_timer e t (queues S 0) \<and> in_range e \<and> has_task S \<and> call_stack S \<noteq> []"

definition expired :: "timer \<Rightarrow> ('k, 'g) host \<Rightarrow> bool" where
  "expired t S \<longleftrightarrow> hosted S \<and> no_timer t (queues S 0) \<and> has_task S \<and> call_stack S \<noteq> []"

text \<open>The marker at the front: the reactor runs, and the timer goes on waiting or its handler is queued last.\<close>

lemma waiting_marker:
  fixes S :: "('k, 'g) host"
  assumes "quiet_kernel K" "waiting e t S" "srv_queue S = TaskOp # rest"
    "run_task (epoll_run K) b (S\<lparr>srv_queue := rest, task_interrupted := c\<rparr>) = Some (r, S')"
  shows "r = Inr () \<and> srv_stopped S' = srv_stopped S \<and> same_service S S' \<and> call_stack S' = call_stack S
    \<and> (waiting e t S' \<and> host_group S' = host_group S \<or> expired t S' \<and> host_group S' = post HStop (host_group S))"
proof -
  let ?S = "S\<lparr>srv_queue := rest, task_interrupted := c\<rparr>"
  have w: "hosted_with (Some (e, t)) S" "lone_timer e t (queues S 0)" "in_range e" "has_task S" "call_stack S \<noteq> []"
    using assms(2) by (simp_all add: waiting_def)
  obtain x xs where x: "call_stack S = x # xs" using w(5) by (cases "call_stack S") auto
  have p: "private_queue x = []" "private_work x = 0" using w(1) x by (simp_all add: hosted_with_def)
  then have x0: "x\<lparr>private_work := 0, private_queue := []\<rparr> = x" by (cases x) simp
  obtain s' where s': "epoll_run K b ?S = Some (r, s')" "S' = task_cleanup s'" using assms(4) by (auto simp: run_task_def)
  have "r = Inr () \<and> (\<exists>k. s' = ?S\<lparr>kern := k\<rparr> \<or> s' = expire t (?S\<lparr>kern := k\<rparr>))"
    using epoll_run_lone [OF assms(1), of e t ?S b] w s'(1) by (auto simp: hosted_with_def split: option.splits)
  then obtain k where r: "r = Inr ()" and k: "s' = ?S\<lparr>kern := k\<rparr> \<or> s' = expire t (?S\<lparr>kern := k\<rparr>)" by blast
  have kinds: "list_all (\<lambda>p. is_task p \<or> is_handler p) rest" "length (filter is_task rest) = 0"
    using w(1,4) assms(3) by (simp_all add: hosted_with_def is_task_def)
  from k show ?thesis
  proof
    assume "s' = ?S\<lparr>kern := k\<rparr>"
    then have S': "S' = S\<lparr>srv_queue := rest @ [TaskOp], kern := k, task_interrupted := True\<rparr>"
      using x p x0 s'(2) by (cases S) (simp add: task_cleanup_def)
    have "waiting e t S'" using w kinds assms(3) by (simp add: S' waiting_def hosted_with_def is_task_def)
    moreover have "host_group S' = host_group S" using assms(3) by (simp add: S' host_group_def)
    ultimately show ?thesis using r by (simp add: S' same_service_def)
  next
    assume "s' = expire t (?S\<lparr>kern := k\<rparr>)"
    then have S': "S' = S\<lparr>srv_queue := rest @ [TimerOp (the_wait t), TaskOp], kern := k, task_interrupted := True,
        queues := (queues S)(0 := done_queue t (queues S 0))\<rparr>"
      using x p x0 s'(2) by (cases S) (simp add: task_cleanup_def expire_def push_private_def upd_context_def upd_queue_def)
    have "expired t S'" using w kinds assms(3) lone_done [OF w(2)]
      by (simp add: S' expired_def hosted_with_def is_task_def is_handler_def no_timer_def)
    moreover have "host_group S' = post HStop (host_group S)" using assms(3) by (simp add: S' host_group_def post_def)
    ultimately show ?thesis using r by (simp add: S' same_service_def)
  qed
qed

text \<open>
  A round while the timer waits completes a handler, which leaves the timer waiting, or is one of the state in which
  the timer's handler has joined the queue.
\<close>

definition fires_in :: "'k kernel \<Rightarrow> 'g exec \<Rightarrow> timer \<Rightarrow> ('k, 'g) host \<Rightarrow> ('k, 'g) host \<Rightarrow> bool" where
  "fires_in K exec t S F \<longleftrightarrow> expired t F \<and> same_service S F \<and> call_stack F = call_stack S
     \<and> host_group F = post HStop (host_group S) \<and> \<not> srv_stopped F \<and> host_round K exec S = host_round K exec F"

definition handles :: "'g exec \<Rightarrow> ptime_rep \<Rightarrow> timer \<Rightarrow> ('k, 'g) host \<Rightarrow> nat result \<Rightarrow> ('k, 'g) host \<Rightarrow> bool" where
  "handles exec e t S r S' \<longleftrightarrow> waiting e t S' \<and> same_service S S' \<and> call_stack S' = call_stack S
     \<and> (\<exists>h hs. io_queue (host_group S) = h # hs
        \<and> (if h = HStop then r = Inr 1 \<and> host_group S' = (host_group S)\<lparr>io_queue := hs, io_stopped := True\<rparr>
           else \<exists>r'. exec h ((host_group S)\<lparr>io_queue := hs\<rparr>) = Some (r', host_group S') \<and> r = map_sum id (\<lambda>_. 1) r'
             \<and> \<not> srv_stopped S'))"

lemma waiting_handler:
  fixes S :: "('k, 'g) host"
  assumes "posts_only exec" "waiting e t S" "\<not> srv_stopped S" "srv_queue S = p # rest" "\<not> is_task p"
    "host_round K exec S = Some (r, S')"
  shows "handles exec e t S r S'"
proof -
  have w: "hosted_with (Some (e, t)) S" "call_stack S \<noteq> []" using assms(2) by (simp_all add: waiting_def)
  obtain h where h: "handler_of p = Some h" using w(1) assms(4,5) by (auto simp: hosted_with_def is_handler_def)
  have q: "io_queue (host_group S) = h # posted rest" using h assms(4) by (simp add: host_group_def)
  note round = popped_round [OF assms(1) w assms(3,4) h, where K = K]
  have k: "waiting e t S'" "same_service S S'" "call_stack S' = call_stack S" if "hosted_with (Some (e, t)) S'" "same_timers S S'"
    using that assms(2) by (auto simp: waiting_def same_timers_def same_service_def)
  show ?thesis
  proof (cases "h = HStop")
    case True
    then show ?thesis using round(1) assms(6) k q by (auto simp: handles_def)
  next
    case False
    obtain r' s' where e: "exec h ((host_group S)\<lparr>io_queue := posted rest\<rparr>) = Some (r', s')"
      using round(2) [OF False] assms(6) by (cases "exec h ((host_group S)\<lparr>io_queue := posted rest\<rparr>)") auto
    obtain S1 where 1: "host_round K exec S = Some (map_sum id (\<lambda>_. 1) r', S1)" "hosted_with (Some (e, t)) S1" "same_timers S S1"
        "host_group S1 = settle True s'" "\<not> io_stopped s'"
      using round(3) [OF False e] by auto
    have S': "S1 = S'" "r = map_sum id (\<lambda>_. 1) r'" using 1(1) assms(6) by simp_all
    have s': "host_group S' = s'" "\<not> srv_stopped S'" using 1(4,5) host_stopped [of S'] by (simp_all add: S' settle_def)
    show ?thesis using k 1(2,3) q e s' False unfolding S'(1) by (auto simp: handles_def S'(2))
  qed
qed

lemma waiting_round:
  fixes S :: "('k, 'g) host"
  assumes "host_round K exec S = Some x" "quiet_kernel K" "posts_only exec"
  shows "host_round K exec S = Some x \<and> (waiting e t S \<longrightarrow> \<not> srv_stopped S \<longrightarrow>
     handles exec e t S (fst x) (snd x) \<or> (\<exists>F. fires_in K exec t S F))"
  using assms(1)
proof (induction rule: do_run_one_rule)
  case (step one S x)
  from step(2) show ?case
  proof (cases rule: round_cases)
    case stopped
    then show ?thesis by (simp add: round_stopped)
  next
    case (complete p rest r s')
    have "host_round K exec S = Some x" using complete by (simp add: do_run_one.simps [of _ _ _ S])
    then show ?thesis
      using waiting_handler [OF assms(3) _ complete(1-3), of e t K "fst x" "snd x"] by auto
  next
    case (task p rest res)
    have p: "p = TaskOp" using task(3) by (cases p) (simp_all add: is_task_def)
    have same: "host_round K exec S = (case fst res of Inl e \<Rightarrow> Some (Inl e, snd res) | Inr _ \<Rightarrow> host_round K exec (snd res))"
      using task(1-4) by (simp add: do_run_one.simps [of _ _ _ S])
    have one: "one s = Some y \<Longrightarrow> host_round K exec s = Some y" for s y using step(1) by blast
    have x: "host_round K exec S = Some x" using task(5) same one by (cases "fst res") auto
    moreover have "handles exec e t S (fst x) (snd x) \<or> (\<exists>F. fires_in K exec t S F)" if w: "waiting e t S"
    proof -
      let ?T = "snd res"
      note m = waiting_marker [OF assms(2) w task(2) [unfolded p], of "rest = []" "rest \<noteq> []" "fst res" ?T, simplified prod.collapse, OF task(4)]
      have T: "fst res = Inr ()" "\<not> srv_stopped ?T" "same_service S ?T" "call_stack ?T = call_stack S"
        "waiting e t ?T \<and> host_group ?T = host_group S \<or> expired t ?T \<and> host_group ?T = post HStop (host_group S)"
        using m task(1) by simp_all
      have r: "host_round K exec S = host_round K exec ?T" using same T(1) by simp
      have o: "one ?T = Some x" using task(5) T(1) by simp
      from T(5) show ?thesis
      proof
        assume a: "expired t ?T \<and> host_group ?T = post HStop (host_group S)"
        have "fires_in K exec t S ?T" using a T(2-4) r by (simp add: fires_in_def)
        then show ?thesis by blast
      next
        assume a: "waiting e t ?T \<and> host_group ?T = host_group S"
        then have "handles exec e t ?T (fst x) (snd x) \<or> (\<exists>F. fires_in K exec t ?T F)" using step(1) [OF o] T(2) by blast
        then show ?thesis
        proof
          assume h: "handles exec e t ?T (fst x) (snd x)"
          have g: "host_group ?T = host_group S" using a by blast
          have "same_service S (snd x)" using h T(3) by (auto simp: handles_def same_service_def)
          then have "handles exec e t S (fst x) (snd x)" using h unfolding handles_def g T(4) by blast
          then show ?thesis ..
        next
          assume "\<exists>F. fires_in K exec t ?T F"
          then obtain F where "fires_in K exec t ?T F" ..
          then have "fires_in K exec t S F" using a T(3,4) r by (auto simp: fires_in_def same_service_def)
          then show ?thesis by blast
        qed
      qed
    qed
    ultimately show ?thesis by blast
  qed
qed

section \<open>A run while the timer waits\<close>

text \<open>
  The queue model's view: handlers run while the timer waits, then either the run ends or \<open>stop\<close> joins the queue and
  the run goes on without a timer. The second component of the result tells whether the timer still waits.
\<close>

inductive timed_run :: "'g exec \<Rightarrow> 'g gcore_scheme \<Rightarrow> unit result \<Rightarrow> bool \<Rightarrow> 'g gcore_scheme \<Rightarrow> bool" for exec where
  stopped: "io_stopped s \<Longrightarrow> timed_run exec s (Inr ()) True s"
| expiry: "\<not> io_stopped s \<Longrightarrow> queue_run exec (post HStop s) = Some (r, s') \<Longrightarrow> timed_run exec s r False s'"
| stop: "\<not> io_stopped s \<Longrightarrow> io_queue s = HStop # hs \<Longrightarrow> timed_run exec s (Inr ()) True (s\<lparr>io_queue := hs, io_stopped := True\<rparr>)"
| raise: "\<not> io_stopped s \<Longrightarrow> io_queue s = h # hs \<Longrightarrow> h \<noteq> HStop \<Longrightarrow> exec h (s\<lparr>io_queue := hs\<rparr>) = Some (Inl e, s') \<Longrightarrow>
    timed_run exec s (Inl e) True s'"
| step: "\<not> io_stopped s \<Longrightarrow> io_queue s = h # hs \<Longrightarrow> h \<noteq> HStop \<Longrightarrow> exec h (s\<lparr>io_queue := hs\<rparr>) = Some (Inr (), s1) \<Longrightarrow>
    timed_run exec s1 r b s' \<Longrightarrow> timed_run exec s r b s'"

definition timed_outcome :: "'g exec \<Rightarrow> ptime_rep \<Rightarrow> timer \<Rightarrow> ('k, 'g) host \<Rightarrow> nat result \<times> ('k, 'g) host \<Rightarrow> bool" where
  "timed_outcome exec e t S y \<longleftrightarrow> same_service S (snd y) \<and> call_stack (snd y) = call_stack S
     \<and> (waiting e t (snd y) \<and> timed_run exec (host_group S) (map_sum id (\<lambda>_. ()) (fst y)) True (host_group (snd y))
       \<or> expired t (snd y) \<and> timed_run exec (host_group S) (map_sum id (\<lambda>_. ()) (fst y)) False (host_group (snd y)))"

lemma expired_outcome:
  fixes S :: "('k, 'g) host"
  assumes "polls K" "posts_only exec" "fires_in K exec t S F" "\<not> srv_stopped S" "service_loop (host_round K exec) n F = Some y"
  shows "timed_outcome exec e t S y"
proof -
  have F: "expired t F" "same_service S F" "call_stack F = call_stack S" "host_group F = post HStop (host_group S)"
    using assms(3) by (simp_all add: fires_in_def)
  have "ready F" using F by (simp add: ready_def expired_def post_def)
  note l = loop_refines_queue [OF assms(1,2) this]
  have y: "hosted (snd y)" "same_timers F (snd y)" using l(2) [OF assms(5)] by simp_all
  have "queue_run exec (host_group F) = Some (host_outcome y)" using l(1) [of n] assms(5) by simp
  then have "timed_run exec (host_group S) (map_sum id (\<lambda>_. ()) (fst y)) False (host_group (snd y))"
    using assms(4) by (intro timed_run.expiry) (simp_all add: F(4) host_outcome_def)
  moreover have "expired t (snd y)" using y F(1) by (auto simp: expired_def same_timers_def same_service_def)
  ultimately show ?thesis using y(2) F(2,3) by (auto simp: timed_outcome_def same_timers_def same_service_def)
qed

lemma waiting_loop:
  fixes S :: "('k, 'g) host"
  assumes "service_loop (host_round K exec) n S = Some y" "polls K" "quiet_kernel K" "posts_only exec"
  shows "service_loop (host_round K exec) n S = Some y \<and> (waiting e t S \<longrightarrow> timed_outcome exec e t S y)"
  using assms(1)
proof (induction rule: service_loop_rule)
  case (step loop n S y)
  obtain res where r: "host_round K exec S = Some res"
    and x: "(case fst res of Inl e \<Rightarrow> Some (Inl e, snd res)
      | Inr k \<Rightarrow> if k = 0 then Some (Inr n, snd res) else loop (if n \<noteq> size_max then n + 1 else n) (snd res)) = Some y"
    using step(2) by (auto simp: Option.bind_eq_Some_conv)
  have loop: "loop n s = Some y \<Longrightarrow> service_loop (host_round K exec) n s = Some y" for n s y using step(1) by blast
  have full: "service_loop (host_round K exec) n T = Some y" if "host_round K exec T = Some res" for T
    using x that loop by (cases "fst res") (auto simp: service_loop.simps [of _ n T] split: if_splits)
  have "timed_outcome exec e t S y" if w: "waiting e t S"
  proof (cases "srv_stopped S")
    case True
    then have "y = (Inr n, S)" using r x by (auto simp: round_stopped)
    then show ?thesis using w True timed_run.stopped [of "host_group S" exec] by (simp add: timed_outcome_def same_service_def)
  next
    case False
    from waiting_round [OF r assms(3,4), of e t] w False
    consider (handles) "handles exec e t S (fst res) (snd res)" | (fires) F where "fires_in K exec t S F" by blast
    then show ?thesis
    proof cases
      case fires
      then have "host_round K exec F = Some res" using r by (simp add: fires_in_def)
      from expired_outcome [OF assms(2,4) fires False full [OF this]] show ?thesis .
    next
      case handles
      then obtain h hs where h: "waiting e t (snd res)" "same_service S (snd res)" "call_stack (snd res) = call_stack S"
        "io_queue (host_group S) = h # hs"
        "if h = HStop then fst res = Inr 1 \<and> host_group (snd res) = (host_group S)\<lparr>io_queue := hs, io_stopped := True\<rparr>
         else \<exists>r'. exec h ((host_group S)\<lparr>io_queue := hs\<rparr>) = Some (r', host_group (snd res)) \<and> fst res = map_sum id (\<lambda>_. 1) r'
           \<and> \<not> srv_stopped (snd res)"
        by (auto simp: handles_def)
      have ns: "\<not> io_stopped (host_group S)" using False by simp
      show ?thesis
      proof (cases "h = HStop")
        case True
        then have g: "fst res = Inr 1" "host_group (snd res) = (host_group S)\<lparr>io_queue := hs, io_stopped := True\<rparr>" using h(5) by simp_all
        have "srv_stopped (snd res)" using g(2) host_stopped [of "snd res"] by simp
        then have "y = (Inr (if n \<noteq> size_max then n + 1 else n), snd res)"
          using x g(1) loop [of "if n \<noteq> size_max then n + 1 else n" "snd res" y]
          by (auto simp: service_loop.simps [of _ _ "snd res"] round_stopped)
        then show ?thesis using h(1-3) timed_run.stop [OF ns h(4) [unfolded True], of exec] g(2) by (simp add: timed_outcome_def)
      next
        case other: False
        then obtain r' where e: "exec h ((host_group S)\<lparr>io_queue := hs\<rparr>) = Some (r', host_group (snd res))" "fst res = map_sum id (\<lambda>_. 1) r'"
          using h(5) by auto
        show ?thesis
        proof (cases r')
          case (Inl er)
          then have "y = (Inl er, snd res)" using x e(2) by simp
          then show ?thesis
            using h(1-3) timed_run.raise [of "host_group S" h hs exec er "host_group (snd res)"] ns h(4) other e(1) Inl
            by (simp add: timed_outcome_def)
        next
          case (Inr u)
          then have "loop (if n \<noteq> size_max then n + 1 else n) (snd res) = Some y" using x e(2) by simp
          then have o: "timed_outcome exec e t (snd res) y" using step(1) h(1) by blast
          have st: "timed_run exec (host_group (snd res)) q b z \<Longrightarrow> timed_run exec (host_group S) q b z" for q b z
            using timed_run.step [OF ns h(4) other] e(1) Inr by simp
          show ?thesis using o h(2,3) st by (auto simp: timed_outcome_def same_service_def)
        qed
      qed
    qed
  qed
  then show ?case using full [OF r] by blast
qed

section \<open>The queue's model of it\<close>

lemma exec_elsewhere:
  assumes "posts_only exec" "h \<noteq> HStop" "\<not> io_stopped s" "exec h (s\<lparr>io_queue := q\<rparr>) = Some (r, s')"
  obtains new where "io_queue s' = q @ new" "\<And>p. exec h (s\<lparr>io_queue := p\<rparr>) = Some (r, s'\<lparr>io_queue := p @ new\<rparr>)"
proof -
  have f: "s\<lparr>io_queue := p, io_stopped := False\<rparr> = s\<lparr>io_queue := p\<rparr>" for p using assms(3) by (cases s) simp
  have e: "exec h (s\<lparr>io_queue := p\<rparr>) = map_option (\<lambda>(r, s'). (r, s'\<lparr>io_queue := p @ io_queue s', io_stopped := False\<rparr>))
      (exec h (s\<lparr>io_queue := []\<rparr>))" for p
    using posts_onlyD [OF assms(1,2), where s = s and q = p and b = False] unfolding f .
  obtain s1 where s1: "exec h (s\<lparr>io_queue := []\<rparr>) = Some (r, s1)" "s' = s1\<lparr>io_queue := q @ io_queue s1, io_stopped := False\<rparr>"
    using e [of q] assms(4) by (cases "exec h (s\<lparr>io_queue := []\<rparr>)") auto
  have "s1\<lparr>io_queue := io_queue s1, io_stopped := False\<rparr> = s1" using e [of "[]"] s1(1) by simp
  then have "\<not> io_stopped s1" by (cases s1) simp
  then have "s1\<lparr>io_queue := x, io_stopped := False\<rparr> = s1\<lparr>io_queue := x\<rparr>" for x by (cases s1) simp
  then show thesis by (intro that [of "io_queue s1"]) (use e s1 in simp_all)
qed

text \<open>A \<open>stop\<close> in the middle of the queue does not change what the handlers before it do.\<close>

lemma stop_in_queue:
  assumes "queue_run exec s = Some x" "posts_only exec"
  shows "\<forall>a b. io_queue s = a @ HStop # b \<longrightarrow> (\<exists>n tm g. io_run exec (Some n) (s\<lparr>io_queue := a @ b\<rparr>) = Some (fst x, tm, g)
    \<and> (if tm = None then snd x = g else \<exists>q1 q2. io_queue (snd x) = q1 @ HStop # q2 \<and> g = (snd x)\<lparr>io_queue := q1 @ q2\<rparr>))"
  using assms(1)
proof (induction rule: queue_run_rule)
  case (stopped s)
  show ?case
  proof (intro allI impI)
    fix a b assume q: "io_queue s = a @ HStop # b"
    then have st: "io_stopped s" using stopped by simp
    show "\<exists>n tm g. io_run exec (Some n) (s\<lparr>io_queue := a @ b\<rparr>) = Some (fst (Inr () :: unit result, s\<lparr>io_stopped := True\<rparr>), tm, g)
      \<and> (if tm = None then snd (Inr () :: unit result, s\<lparr>io_stopped := True\<rparr>) = g
         else \<exists>q1 q2. io_queue (snd (Inr () :: unit result, s\<lparr>io_stopped := True\<rparr>)) = q1 @ HStop # q2
           \<and> g = (snd (Inr () :: unit result, s\<lparr>io_stopped := True\<rparr>))\<lparr>io_queue := q1 @ q2\<rparr>)"
      unfolding gcore_stopped [OF st]
      using q st by (intro exI [of _ 0] exI [of _ "Some 0"] exI [of _ "s\<lparr>io_queue := a @ b\<rparr>"]) (auto simp: io_run_stopped)
  qed
next
  case (stop s hs)
  show ?case
  proof (intro allI impI)
    fix a b assume q: "io_queue s = a @ HStop # b"
    show "\<exists>n tm g. io_run exec (Some n) (s\<lparr>io_queue := a @ b\<rparr>) = Some (fst (Inr () :: unit result, s\<lparr>io_queue := hs, io_stopped := True\<rparr>), tm, g)
      \<and> (if tm = None then snd (Inr () :: unit result, s\<lparr>io_queue := hs, io_stopped := True\<rparr>) = g
         else \<exists>q1 q2. io_queue (snd (Inr () :: unit result, s\<lparr>io_queue := hs, io_stopped := True\<rparr>)) = q1 @ HStop # q2
           \<and> g = (snd (Inr () :: unit result, s\<lparr>io_queue := hs, io_stopped := True\<rparr>))\<lparr>io_queue := q1 @ q2\<rparr>)"
    proof (cases a)
      case Nil
      then show ?thesis using stop q
        by (intro exI [of _ 0] exI [of _ None] exI [of _ "s\<lparr>io_queue := b, io_stopped := True\<rparr>"]) (simp add: io_run_expired)
    next
      case (Cons h a')
      then have h: "h = HStop" "hs = a' @ HStop # b" using stop q by simp_all
      have "io_run exec (Some 1) (s\<lparr>io_queue := a @ b\<rparr>) = Some (Inr (), Some 0, s\<lparr>io_queue := a' @ b, io_stopped := True\<rparr>)"
        using stop(1) Cons h(1) by (simp add: io_run_stop_handler tick_def)
      moreover have "\<exists>q1 q2. hs = q1 @ HStop # q2 \<and> (s\<lparr>io_queue := a' @ b, io_stopped := True\<rparr> = s\<lparr>io_stopped := True, io_queue := q1 @ q2\<rparr>)"
        using h(2) by (intro exI [of _ a'] exI [of _ b]) simp
      ultimately show ?thesis
        by (intro exI [of _ 1] exI [of _ "Some 0"] exI [of _ "s\<lparr>io_queue := a' @ b, io_stopped := True\<rparr>"]) simp
    qed
  qed
next
  case (raise s h hs er s')
  show ?case
  proof (intro allI impI)
    fix a b assume q: "io_queue s = a @ HStop # b"
    obtain a' where a: "a = h # a'" "hs = a' @ HStop # b" using raise(2,3) q by (cases a) auto
    obtain new where n: "io_queue s' = hs @ new" "\<And>p. exec h (s\<lparr>io_queue := p\<rparr>) = Some (Inl er, s'\<lparr>io_queue := p @ new\<rparr>)"
      by (rule exec_elsewhere [OF assms(2) raise(3,1,4)]) (rule that)
    have e: "exec h (s\<lparr>io_queue := a' @ b\<rparr>) = Some (Inl er, s'\<lparr>io_queue := a' @ b @ new\<rparr>)" using n(2) [of "a' @ b"] by simp
    have "io_run exec (Some 1) (s\<lparr>io_queue := a @ b\<rparr>) = Some (Inl er, Some 0, s'\<lparr>io_queue := a' @ b @ new\<rparr>)"
      using raise(1,3) a(1) e by (simp add: io_run_handler tick_def)
    moreover have "settle False s' = s'" "io_queue s' = a' @ HStop # b @ new" using n(1) a(2) by (simp_all add: settle_def)
    ultimately show "\<exists>n tm g. io_run exec (Some n) (s\<lparr>io_queue := a @ b\<rparr>) = Some (fst (Inl er :: unit result, settle False s'), tm, g)
      \<and> (if tm = None then snd (Inl er :: unit result, settle False s') = g
         else \<exists>q1 q2. io_queue (snd (Inl er :: unit result, settle False s')) = q1 @ HStop # q2
           \<and> g = (snd (Inl er :: unit result, settle False s'))\<lparr>io_queue := q1 @ q2\<rparr>)"
      by (intro exI [of _ 1] exI [of _ "Some 0"] exI [of _ "s'\<lparr>io_queue := a' @ b @ new\<rparr>"]) auto
  qed
next
  case (step s h hs s' x)
  show ?case
  proof (intro allI impI)
    fix a b assume q: "io_queue s = a @ HStop # b"
    obtain a' where a: "a = h # a'" "hs = a' @ HStop # b" using step(2,3) q by (cases a) auto
    obtain new where n: "io_queue s' = hs @ new" "\<And>p. exec h (s\<lparr>io_queue := p\<rparr>) = Some (Inr (), s'\<lparr>io_queue := p @ new\<rparr>)"
      by (rule exec_elsewhere [OF assms(2) step(3,1,4)]) (rule that)
    have e: "exec h (s\<lparr>io_queue := a' @ b\<rparr>) = Some (Inr (), s'\<lparr>io_queue := a' @ b @ new\<rparr>)" using n(2) [of "a' @ b"] by simp
    have "io_queue s' = a' @ HStop # (b @ new)" using n(1) a(2) by simp
    then obtain n tm g where i: "io_run exec (Some n) (s'\<lparr>io_queue := a' @ b @ new\<rparr>) = Some (fst x, tm, g)"
      "if tm = None then snd x = g else \<exists>q1 q2. io_queue (snd x) = q1 @ HStop # q2 \<and> g = (snd x)\<lparr>io_queue := q1 @ q2\<rparr>"
      using step(6) by blast
    have "io_run exec (Some (Suc n)) (s\<lparr>io_queue := a @ b\<rparr>) = Some (fst x, tm, g)"
      using step(1,3) a(1) e i(1) by (simp add: io_run_handler tick_def)
    then show "\<exists>n tm g. io_run exec (Some n) (s\<lparr>io_queue := a @ b\<rparr>) = Some (fst x, tm, g)
      \<and> (if tm = None then snd x = g else \<exists>q1 q2. io_queue (snd x) = q1 @ HStop # q2 \<and> g = (snd x)\<lparr>io_queue := q1 @ q2\<rparr>)"
      using i(2) by blast
  qed
qed

lemma timed_run_model:
  assumes "timed_run exec s r waits s'" "posts_only exec"
  shows "\<exists>n tm g. io_run exec (Some n) s = Some (r, tm, g)
    \<and> (if waits then tm \<noteq> None \<and> g = s' else if tm = None then g = s'
       else \<exists>q1 q2. io_queue s' = q1 @ HStop # q2 \<and> g = s'\<lparr>io_queue := q1 @ q2\<rparr>)"
  using assms(1)
proof (induction rule: timed_run.induct)
  case (stopped s)
  then show ?case by (intro exI [of _ 0] exI [of _ "Some 0"] exI [of _ s]) (simp add: io_run_stopped)
next
  case (expiry s r s')
  have q: "io_queue (post HStop s) = io_queue s @ HStop # []" "(post HStop s)\<lparr>io_queue := io_queue s @ []\<rparr> = s" by (simp_all add: post_def)
  from mp [OF spec [OF spec [OF stop_in_queue [OF expiry(2) assms(2)]]] q(1)] obtain n tm g where
    "io_run exec (Some n) s = Some (r, tm, g)"
    "if tm = None then s' = g else \<exists>q1 q2. io_queue s' = q1 @ HStop # q2 \<and> g = s'\<lparr>io_queue := q1 @ q2\<rparr>"
    unfolding q(2) fst_conv snd_conv by (elim exE conjE) (rule that)
  then show ?case by (intro exI [of _ n] exI [of _ tm] exI [of _ g]) auto
next
  case (stop s hs)
  then show ?case
    by (intro exI [of _ 1] exI [of _ "Some 0"] exI [of _ "s\<lparr>io_queue := hs, io_stopped := True\<rparr>"]) (simp add: io_run_stop_handler tick_def)
next
  case (raise s h hs e s')
  then show ?case by (intro exI [of _ 1] exI [of _ "Some 0"] exI [of _ s']) (simp add: io_run_handler tick_def)
next
  case (step s h hs s1 r b s')
  then obtain n tm g where "io_run exec (Some n) s1 = Some (r, tm, g)"
    "if b then tm \<noteq> None \<and> g = s' else if tm = None then g = s'
       else \<exists>q1 q2. io_queue s' = q1 @ HStop # q2 \<and> g = s'\<lparr>io_queue := q1 @ q2\<rparr>" by blast
  then show ?case using step(1-4) by (intro exI [of _ "Suc n"] exI [of _ tm] exI [of _ g]) (simp add: io_run_handler tick_def)
qed

section \<open>Starting and destroying the timer\<close>

text \<open>
  What the worker needs of the service to start its timer: it is not being shut down, its timer queue is empty, and
  if it has that queue it has its reactor.
\<close>

definition timer_ready :: "('k, 'g) host \<Rightarrow> bool" where
  "timer_ready S \<longleftrightarrow> \<not> srv_shutdown S \<and> \<not> r_shutdown S \<and> timers (queues S 0) = None \<and> (0 \<in> set (queue_set S) \<longrightarrow> has_task S)"

lemma limit_exact:
  assumes "\<bar>tv_sec\<bar> \<le> 2147483647" "\<bar>tv_usec\<bar> \<le> 1000000000000000000"
  shows "and_then (seconds_of tv_sec) (\<lambda>a. and_then (microseconds_of tv_usec) (td_add a)) = Inr (tv_sec * 1000000 + tv_usec)"
proof -
  have c: "cast_s32 tv_sec = tv_sec" using assms(1) by (simp add: cast_s32_def)
  have s: "seconds_of tv_sec = Inr (tv_sec * 1000000)"
    using assms(1) by (cases "tv_sec < 0")
      (simp_all add: c seconds_of_def td_make_def to_tick_count_def absolute_value_def int64_result ia_result_def res_adjust_def)
  have u: "microseconds_of tv_usec = Inr tv_usec"
    using assms(2) sdiv_smod_nonneg(1) [of 1000000 1000000]
    by (simp add: microseconds_of_def subsecond_duration_def int64_result ticks_per_second_def res_adjust_def)
  have "\<not> is_special int64_limits (tv_sec * 1000000)" "\<not> is_special int64_limits tv_usec"
    using assms by (intro not_special_int64; simp)+
  then have "td_add (tv_sec * 1000000) tv_usec = Inr (tv_sec * 1000000 + tv_usec)"
    using assms by (simp add: td_add_def ia_add_def int64_result)
  then show ?thesis by (simp add: s u)
qed

lemma add_exact:
  assumes "\<bar>now\<bar> \<le> 2900000000000000000" "\<bar>d\<bar> \<le> 1010000000000000000"
  shows "add_time_duration now d = Inr (now + d)" "in_range (now + d)"
proof -
  have "\<not> is_special int64_limits now" "\<not> td_is_special d" unfolding td_is_special_def using assms by (intro not_special_int64; simp)+
  then show "add_time_duration now d = Inr (now + d)" using assms by (simp add: add_time_duration_def int64_result)
  show "in_range (now + d)" unfolding in_range_def using assms by linarith
qed

lemma timer_service_reactor:
  assumes "timer_ready S"
  shows "has_task (use_timer_service K S)" "0 \<in> set (queue_set (use_timer_service K S))" "timer_ready (use_timer_service K S)"
    "timer_fd (use_timer_service K S) = timer_fd S"
proof -
  obtain k b where "wake_one_thread (epoll_interrupt K) (push_ops [TaskOp] (S\<lparr>has_task := True\<rparr>)) =
      push_ops [TaskOp] (S\<lparr>has_task := True\<rparr>)\<lparr>kern := k, task_interrupted := b\<rparr>"
    using wake_kern [of K "push_ops [TaskOp] (S\<lparr>has_task := True\<rparr>)"] by auto
  then show "has_task (use_timer_service K S)" "0 \<in> set (queue_set (use_timer_service K S))" "timer_ready (use_timer_service K S)"
    "timer_fd (use_timer_service K S) = timer_fd S"
    using assms by (auto simp: use_timer_service_def add_timer_queue_def init_task_def push_ops_def timer_ready_def)
qed

lemma start_waiting:
  fixes S :: "('k, 'g) host"
  assumes "quiet_kernel K" "\<bar>tv_sec\<bar> \<le> 2147483647" "\<bar>tv_usec\<bar> \<le> 1000000000000000000" "hosted S" "timer_ready S" "\<bar>now_of K (kern S)\<bar> \<le> 2900000000000000000"
  shows "\<exists>e S'. start_timer K t (Some (tv_sec, tv_usec)) (construct_timer t i S) = (Inr (), True, S')
    \<and> e = now_of K (kern S) + (tv_sec * 1000000 + tv_usec) \<and> brief K (kern S) (kern S')
    \<and> hosted_with (Some (e, t)) S' \<and> lone_timer e t (queues S' 0) \<and> in_range e \<and> same_service S S' \<and> call_stack S' = call_stack S
    \<and> host_group S' = host_group S"
proof -
  define d where "d = tv_sec * 1000000 + tv_usec"
  have d: "and_then (seconds_of tv_sec) (\<lambda>a. and_then (microseconds_of tv_usec) (td_add a)) = Inr d" "\<bar>d\<bar> \<le> 1010000000000000000"
    unfolding d_def using assms(2,3) by (rule limit_exact) (use assms(2,3) in linarith)
  let ?now = "now_of K (kern S)" and ?k = "snd (k_clock K (kern S))"
  note e = add_exact [OF assms(6) d(2)]
  let ?e = "?now + d" and ?q = "upd_data t (\<lambda>_. per_timer_data i) (queues S 0)"
  let ?S1 = "(construct_timer t i S)\<lparr>kern := ?k\<rparr>"
  have q: "heap (queues S 0) = []" "timers (queues S 0) = None" using assms(4,5) by (simp_all add: hosted_with_def timer_ready_def)
  obtain q' where q': "enqueue_timer ?e t (the_wait t) ?q = (True, q')" "lone_timer ?e t q'" "\<not> active ?q t"
    using enqueue_lone [OF q] by blast
  have st: "start_timer K t (Some (tv_sec, tv_usec)) (construct_timer t i S) =
      (let (r, S2) = schedule_timer K 0 ?e t (the_wait t) ?S1 in (r, True, S2))"
    using d(1) e(1) by (simp add: start_timer_def case_prod_beta now_of_def construct_timer_def upd_queue_def Let_def)
  let ?S2 = "work_started (upd_queue 0 q' ?S1)"
  have q1: "queues ?S1 0 = ?q" "\<not> r_shutdown ?S1" "heap ?q = []"
    using assms(5) q(1) by (simp_all add: construct_timer_def upd_queue_def timer_ready_def upd_data_def)
  moreover have "heap_max \<noteq> 0" by (simp add: heap_max_def)
  ultimately have sc: "schedule_timer K 0 ?e t (the_wait t) ?S1 = update_timeout K ?S2"
    using q'(1) by (simp add: schedule_timer_def)
  have "\<exists>k. update_timeout K ?S2 = (Inr (), ?S2\<lparr>kern := k\<rparr>) \<and> brief K (kern ?S2) k"
  proof (cases "timer_fd ?S2 = - 1")
    case True
    obtain v k where "k_epoll_ctl K ModInterrupter (kern ?S2) = (v, k)" by (cases "k_epoll_ctl K ModInterrupter (kern ?S2)")
    then have "update_timeout K ?S2 = (Inr (), ?S2\<lparr>kern := snd (k_epoll_ctl K ModInterrupter (kern ?S2))\<rparr>)"
      using True by (simp add: update_timeout_def epoll_interrupt_def ctl_def)
    then show ?thesis using ctl [OF none, of K "kern ?S2" ModInterrupter] by blast
  next
    case False
    have few: "\<forall>q. few_timers (queues ?S2 q)"
      using assms(4) q'(2) e(2) by (auto simp: few_timers_def lone_timer_def hosted_with_def construct_timer_def upd_queue_def work_started_def)
    show ?thesis unfolding update_timeout_def if_P [OF False] by (rule set_timerfd_kern [OF assms(1) few])
  qed
  then obtain k where k: "update_timeout K ?S2 = (Inr (), ?S2\<lparr>kern := k\<rparr>)" "brief K (kern ?S2) k" by blast
  let ?S' = "?S2\<lparr>kern := k\<rparr>"
  have "heap q' = [(?e, t)]" using q'(2) by (simp add: lone_timer_def)
  then have "hosted_with (Some (?e, t)) ?S'" using assms(4)
    by (simp add: hosted_with_def construct_timer_def upd_queue_def work_started_def)
  moreover have "lone_timer ?e t (queues ?S' 0)" using q'(2) by simp
  moreover have "same_service S ?S'" "call_stack ?S' = call_stack S" "host_group ?S' = host_group S"
    by (simp_all add: same_service_def construct_timer_def upd_queue_def work_started_def host_group_def)
  moreover have "brief K (kern S) ?k" by (rule clock [OF none])
  then have "brief K (kern S) (kern ?S')" using k(2) by (auto simp: work_started_def upd_queue_def intro: brief_trans)
  ultimately show ?thesis using st sc k(1) e(2) by (intro exI [of _ ?e] exI [of _ ?S']) (simp add: d_def)
qed

text \<open>Destroying a timer that waits queues its handler; destroying one that has expired changes nothing.\<close>

lemma destroy_waiting:
  assumes "hosted_with (Some (e, t)) S" "lone_timer e t (queues S 0)" "call_stack S = []"
  shows "hosted (destroy_timer K t True S)" "host_group (destroy_timer K t True S) = post HStop (host_group S)"
    "no_timer t (queues (destroy_timer K t True S) 0)" "same_service S (destroy_timer K t True S)"
    "call_stack (destroy_timer K t True S) = []"
proof -
  obtain n q' where c: "cancel_timer t size_max [] (queues S 0) = (n, [\<lparr>op_id = t, op_aborted = True\<rparr>], q')" "no_timer t q'"
    using lone_cancel [OF assms(2)] by blast
  let ?S = "S\<lparr>queues := (queues S)(0 := q'), srv_queue := srv_queue S @ [TimerOp \<lparr>op_id = t, op_aborted = True\<rparr>]\<rparr>"
  obtain k b where k: "wake_one_thread (epoll_interrupt K) ?S = ?S\<lparr>kern := k, task_interrupted := b\<rparr>"
    using wake_kern [of K ?S] by blast
  have d: "destroy_timer K t True S = ?S\<lparr>kern := k, task_interrupted := b\<rparr>"
    using c assms(3) k by (simp add: destroy_timer_def reactor_cancel_timer_def post_deferred_completions_def upd_queue_def push_ops_def)
  have h: "heap q' = []" using c(2) by (simp add: no_timer_def)
  show "hosted (destroy_timer K t True S)" unfolding d using assms(1) h by (simp add: hosted_with_def is_handler_def is_task_def)
  show "host_group (destroy_timer K t True S) = post HStop (host_group S)" unfolding d by (simp add: host_group_def post_def)
  show "no_timer t (queues (destroy_timer K t True S) 0)" unfolding d using c(2) by simp
  show "same_service S (destroy_timer K t True S)" unfolding d by (simp add: same_service_def)
  show "call_stack (destroy_timer K t True S) = []" unfolding d using assms(3) by simp
qed

lemma destroy_expired: "no_timer t (queues S 0) \<Longrightarrow> destroy_timer K t True S = S"
  using no_timer_inactive [of t "queues S 0"]
  by (simp add: destroy_timer_def reactor_cancel_timer_def cancel_timer_def post_deferred_completions_def upd_queue_def)

section \<open>The run returns\<close>

text \<open>
  Time passes: \<open>\<rho>\<close> bounds how often the kernel can be waited for before it reports the timer descriptor, if there
  is one, at a time when the clock shows \<open>e\<close>. No other call takes that back.
\<close>

definition passes :: "'k kernel \<Rightarrow> int \<Rightarrow> ('k \<Rightarrow> nat) \<Rightarrow> ptime_rep \<Rightarrow> bool" where
  "passes K fd \<rho> e \<longleftrightarrow>
     (\<forall>m k. \<exists>evs k'. k_epoll_wait K m k = Some (evs, k')
        \<and> (\<rho> k' < \<rho> k \<or> (fd = - 1 \<or> EvTimerFd \<in> set evs) \<and> e \<le> now_of K k'))
     \<and> (\<forall>k k'. brief K k k' \<longrightarrow> \<rho> k' \<le> \<rho> k)"

lemma epoll_run_passes:
  fixes s :: "('k, 'g) host"
  assumes "quiet_kernel K" "passes K (timer_fd s) \<rho> e" "lone_timer e t (queues s 0)" "in_range e"
    "\<forall>q. q \<noteq> 0 \<longrightarrow> heap (queues s q) = []" "call_stack s \<noteq> []" "0 \<in> set (queue_set s)"
  shows "\<exists>k. epoll_run K b s = Some (Inr (), s\<lparr>kern := k\<rparr>) \<and> \<rho> k < \<rho> (kern s) \<or> epoll_run K b s = Some (Inr (), expire t (s\<lparr>kern := k\<rparr>))"
proof -
  have w: "\<exists>evs k'. k_epoll_wait K m k = Some (evs, k')
      \<and> (\<rho> k' < \<rho> k \<or> (timer_fd s = - 1 \<or> EvTimerFd \<in> set evs) \<and> e \<le> now_of K k')" for m k
    using assms(2) unfolding passes_def by blast
  have b: "brief K k k' \<Longrightarrow> \<rho> k' \<le> \<rho> k" for k k' using assms(2) unfolding passes_def by blast
  obtain m k1 where 1: "brief K (kern s) k1" "case k_epoll_wait K m k1 of
      None \<Rightarrow> epoll_run K b s = None
    | Some (evs, k2) \<Rightarrow> \<exists>k. brief K k2 k \<and> (epoll_run K b s = Some (Inr (), s\<lparr>kern := k\<rparr>)
          \<and> (0 \<in> set (queue_set s) \<longrightarrow> \<not> ((timer_fd s = - 1 \<or> EvTimerFd \<in> set evs) \<and> e \<le> now_of K k2))
        \<or> epoll_run K b s = Some (Inr (), expire t (s\<lparr>kern := k\<rparr>)))"
    using epoll_run_lone [OF assms(1,3-6)] by blast
  obtain evs k2 where 2: "k_epoll_wait K m k1 = Some (evs, k2)"
      "\<rho> k2 < \<rho> k1 \<or> (timer_fd s = - 1 \<or> EvTimerFd \<in> set evs) \<and> e \<le> now_of K k2"
    using w [of m k1] by blast
  obtain k where k: "brief K k2 k" "epoll_run K b s = Some (Inr (), s\<lparr>kern := k\<rparr>)
          \<and> \<not> ((timer_fd s = - 1 \<or> EvTimerFd \<in> set evs) \<and> e \<le> now_of K k2)
        \<or> epoll_run K b s = Some (Inr (), expire t (s\<lparr>kern := k\<rparr>))"
    using 1(2) 2(1) assms(7) by auto
  have "\<rho> k1 \<le> \<rho> (kern s)" "\<rho> k \<le> \<rho> k2" using b 1(1) k(1) by blast+
  then have "\<rho> k < \<rho> (kern s)" if "\<rho> k2 < \<rho> k1" using that by linarith
  then show ?thesis using 2(2) k(2) by blast
qed

lemma stop_returns:
  assumes "posts_only exec"
  shows "io_queue s = a @ HStop # b \<Longrightarrow> \<forall>n. io_run exec (Some n) (s\<lparr>io_queue := a @ b\<rparr>) \<noteq> None \<Longrightarrow> queue_run exec s \<noteq> None"
proof (induction a arbitrary: s b)
  case Nil
  then show ?case by (cases "io_stopped s") (simp_all add: queue_run_stopped queue_run_stop)
next
  case (Cons h a)
  consider (stopped) "io_stopped s" | (stop) "\<not> io_stopped s" "h = HStop" | (run) "\<not> io_stopped s" "h \<noteq> HStop" by blast
  then show ?case
  proof cases
    case stopped
    then show ?thesis by (simp add: queue_run_stopped)
  next
    case stop
    then show ?thesis using queue_run_stop [of s "a @ HStop # b" exec] Cons.prems(1) by simp
  next
    case run
    let ?t = "s\<lparr>io_queue := (h # a) @ b\<rparr>"
    have t: "\<not> io_stopped ?t" "io_queue ?t = h # (a @ b)" using run(1) by simp_all
    have tk: "tick (Some (Suc n)) = Some n" for n by (simp add: tick_def)
    note go = io_run_handler [OF t(1) _ t(2) run(2), of "Some (Suc _)" exec, unfolded tk, simplified]
    have all: "io_run exec (Some n) ?t \<noteq> None" for n using Cons.prems(2) by blast
    obtain r s2 where e: "exec h (s\<lparr>io_queue := a @ b\<rparr>) = Some (r, s2)"
      using all [of "Suc 0"] go by (cases "exec h (s\<lparr>io_queue := a @ b\<rparr>)") auto
    obtain new where n: "io_queue s2 = (a @ b) @ new" "\<And>p. exec h (s\<lparr>io_queue := p\<rparr>) = Some (r, s2\<lparr>io_queue := p @ new\<rparr>)"
      by (rule exec_elsewhere [OF assms run(2,1) e]) (rule that)
    let ?u = "s2\<lparr>io_queue := (a @ HStop # b) @ new\<rparr>"
    have q: "io_queue s = h # (a @ HStop # b)" using Cons.prems(1) by simp
    note qr = queue_run_handler [OF run(1) q run(2), of exec, unfolded n(2)]
    show ?thesis
    proof (cases r)
      case (Inl er)
      then show ?thesis by (simp add: qr)
    next
      case (Inr u)
      have "?u\<lparr>io_queue := a @ (b @ new)\<rparr> = s2" using n(1) by simp
      moreover have "io_run exec (Some n) s2 \<noteq> None" for n using all [of "Suc n"] go e Inr by simp
      ultimately have "queue_run exec ?u \<noteq> None" using Cons.IH [of ?u "b @ new"] by simp
      then show ?thesis by (simp add: qr Inr)
    qed
  qed
qed

lemma expired_returns:
  fixes S F :: "('k, 'g) host"
  assumes "polls K" "posts_only exec" "expired t F" "host_group F = post HStop (host_group S)"
    "\<forall>n. io_run exec (Some n) (host_group S) \<noteq> None"
  shows "\<exists>y. service_loop (host_round K exec) n F = Some y"
proof -
  have r: "ready F" using assms(3,4) by (simp add: ready_def expired_def post_def)
  have q: "io_queue (host_group F) = io_queue (host_group S) @ HStop # []"
    "(host_group F)\<lparr>io_queue := io_queue (host_group S) @ []\<rparr> = host_group S"
    using assms(4) by (simp_all add: post_def)
  have "queue_run exec (host_group F) \<noteq> None"
    by (rule stop_returns [OF assms(2) q(1)]) (use assms(5) q(2) in simp)
  then show ?thesis using loop_refines_queue(1) [OF assms(1,2) r, of n] by auto
qed

text \<open>The marker moves to the front while the handlers before it run, and each poll of the reactor lets time pass.\<close>

abbreviation (input) "before_marker S \<equiv> length (takeWhile (\<lambda>p. \<not> is_task p) (srv_queue S))"

lemma waiting_returns:
  fixes S :: "('k, 'g) host"
  assumes "quiet_kernel K" "polls K" "posts_only exec" "passes K fd \<rho> e"
  shows "waiting e t S \<Longrightarrow> timer_fd S = fd \<Longrightarrow> 0 \<in> set (queue_set S) \<Longrightarrow> \<forall>n. io_run exec (Some n) (host_group S) \<noteq> None \<Longrightarrow>
    \<exists>y. service_loop (host_round K exec) n S = Some y"
proof (induction S arbitrary: n rule: wf_induct_rule [OF wf_measures [of "[\<lambda>S. \<rho> (kern S), \<lambda>S. before_marker S]"]])
  case (1 S)
  note IH = 1(1) and w = 1(2) and fd = 1(3,4) and ret = 1(5)
  have S: "hosted_with (Some (e, t)) S" "has_task S" "call_stack S \<noteq> []" "lone_timer e t (queues S 0)" "in_range e"
    using w by (simp_all add: waiting_def)
  show ?case
  proof (cases "srv_stopped S")
    case True
    then show ?thesis by (simp add: service_loop.simps round_stopped)
  next
    case ns: False
    have f: "length (filter is_task (srv_queue S)) = 1" using S(1,2) by (simp add: hosted_with_def)
    then obtain p rest where q: "srv_queue S = p # rest" by (cases "srv_queue S") auto
    show ?thesis
    proof (cases "is_task p")
      case True
      then have p: "p = TaskOp" by (cases p) (simp_all add: is_task_def)
      let ?b = "rest = []" and ?S = "S\<lparr>srv_queue := rest, task_interrupted := rest \<noteq> []\<rparr>"
      obtain k where k: "epoll_run K ?b ?S = Some (Inr (), ?S\<lparr>kern := k\<rparr>) \<and> \<rho> k < \<rho> (kern S)
          \<or> epoll_run K ?b ?S = Some (Inr (), expire t (?S\<lparr>kern := k\<rparr>))"
        using epoll_run_passes [OF assms(1), of ?S \<rho> e t ?b] assms(4) S fd by (auto simp: hosted_with_def)
      then obtain s' where s': "epoll_run K ?b ?S = Some (Inr (), s')" by blast
      let ?T = "task_cleanup s'"
      have rt: "run_task (epoll_run K) ?b ?S = Some (Inr (), ?T)" using s' by (simp add: run_task_def)
      note T = waiting_marker [OF assms(1) w q [unfolded p] rt]
      have same: "service_loop (host_round K exec) n S = service_loop (host_round K exec) n ?T"
        using ns q True rt by (simp add: service_loop.simps [of _ n] do_run_one.simps [of _ _ _ S] del: run_task_def)
      from T consider (expired) "expired t ?T" "host_group ?T = post HStop (host_group S)"
        | (waiting) "waiting e t ?T" "host_group ?T = host_group S" by blast
      then show ?thesis
      proof cases
        case expired
        then show ?thesis unfolding same using expired_returns [OF assms(2,3) expired ret] by blast
      next
        case waiting
        have "kern ?T = kern s'" "queues ?T = queues s'" by (simp_all add: task_cleanup_def split: list.split)
        moreover have "s' \<noteq> expire t (?S\<lparr>kern := k\<rparr>)"
        proof
          assume "s' = expire t (?S\<lparr>kern := k\<rparr>)"
          then have "queues ?T 0 = done_queue t (queues S 0)" using calculation(2) by (simp add: expire_def)
          then show False using lone_done [OF S(4)] waiting(1) by (simp add: no_timer_def waiting_def lone_timer_def)
        qed
        ultimately have "\<rho> (kern ?T) < \<rho> (kern S)" using k s' by auto
        then show ?thesis
          unfolding same using IH [of ?T] waiting fd ret T by (simp add: same_service_def)
      qed
    next
      case False
      then obtain h where h: "handler_of p = Some h" using S(1) q by (auto simp: hosted_with_def is_handler_def)
      note round = popped_round [OF assms(3) S(1,3) ns q h, where K = K]
      have hq: "io_queue (host_group S) = h # posted rest" using h q by (simp add: host_group_def)
      have "\<exists>r S'. host_round K exec S = Some (r, S')"
      proof (cases "h = HStop")
        case True
        then show ?thesis using round(1) by blast
      next
        case other: False
        have "exec h ((host_group S)\<lparr>io_queue := posted rest\<rparr>) \<noteq> None"
          using spec [OF ret, of 1] io_run_handler [of "host_group S" "Some 1" h "posted rest" exec] ns hq other
          by (cases "exec h ((host_group S)\<lparr>io_queue := posted rest\<rparr>)") simp_all
        then show ?thesis using round(3) [OF other] by (cases "exec h ((host_group S)\<lparr>io_queue := posted rest\<rparr>)") auto
      qed
      then obtain r S' where r: "host_round K exec S = Some (r, S')" by blast
      have H: "handles exec e t S r S'" by (rule waiting_handler [OF assms(3) w ns q False r])
      obtain r' where "complete_op (epoll_interrupt K) (group_complete K exec) p (S\<lparr>srv_queue := rest\<rparr>) = Some (r', S')"
        using r ns q False by (auto simp: do_run_one.simps [of _ _ _ S])
      then have "extends K (S\<lparr>srv_queue := rest\<rparr>) S'" by (rule extends_complete) (use S(1) in \<open>simp add: hosted_with_def\<close>)
      then obtain ps where x: "brief K (kern S) (kern S')" "srv_queue S' = rest @ ps" by (auto simp: extends_def)
      have "filter is_task rest \<noteq> []" using f q False by auto
      then have "\<exists>x \<in> set rest. is_task x" by (simp add: filter_empty_conv)
      then have "before_marker S' < before_marker S" using x(2) q False by (auto simp: takeWhile_append1)
      moreover have "\<rho> (kern S') \<le> \<rho> (kern S)" using assms(4) x(1) unfolding passes_def by blast
      ultimately have smaller: "(S', S) \<in> measures [\<lambda>S. \<rho> (kern S), \<lambda>S. before_marker S]" by auto
      have l: "service_loop (host_round K exec) n S = (case r of Inl e \<Rightarrow> Some (Inl e, S')
          | Inr k \<Rightarrow> if k = 0 then Some (Inr n, S') else service_loop (host_round K exec) (if n \<noteq> size_max then n + 1 else n) S')"
        using r by (cases r) (simp_all add: service_loop.simps [of _ n S])
      have H': "waiting e t S'" "same_service S S'"
        "if h = HStop then r = Inr 1 \<and> host_group S' = (host_group S)\<lparr>io_queue := posted rest, io_stopped := True\<rparr>
         else \<exists>r'. exec h ((host_group S)\<lparr>io_queue := posted rest\<rparr>) = Some (r', host_group S') \<and> r = map_sum id (\<lambda>_. 1) r'"
        using H hq by (auto simp: handles_def)
      show ?thesis
      proof (cases "h = HStop")
        case True
        then have "srv_stopped S'" using H'(3) host_stopped [of S'] by simp
        then show ?thesis unfolding l using True H'(3) by (simp add: service_loop.simps [of _ _ S'] round_stopped)
      next
        case other: False
        then obtain r' where e: "exec h ((host_group S)\<lparr>io_queue := posted rest\<rparr>) = Some (r', host_group S')" "r = map_sum id (\<lambda>_. 1) r'"
          using H'(3) by auto
        show ?thesis
        proof (cases r')
          case (Inl er)
          then show ?thesis by (simp add: l e(2))
        next
          case (Inr u)
          have "io_run exec (Some m) (host_group S') \<noteq> None" for m
            using spec [OF ret, of "Suc m"] io_run_handler [of "host_group S" "Some (Suc m)" h "posted rest" exec] ns hq other e(1) Inr
            by (simp add: tick_def)
          then show ?thesis
            using IH [OF smaller H'(1)] H'(2) fd by (simp add: l e(2) Inr same_service_def)
        qed
      qed
    qed
  qed
qed

section \<open>The worker with a time limit\<close>

text \<open>The worker up to its run: the handlers are queued, the timer waits and the stopped flag is reset.\<close>

definition entered :: "'k kernel \<Rightarrow> timer \<Rightarrow> int \<Rightarrow> ('k, 'g) host \<Rightarrow> ptime_rep \<Rightarrow> ('k, 'g) host \<Rightarrow> bool" where
  "entered K t d S e S1 \<longleftrightarrow> hosted_with (Some (e, t)) S1 \<and> lone_timer e t (queues S1 0) \<and> in_range e \<and> has_task S1
     \<and> 0 \<in> set (queue_set S1) \<and> call_stack S1 = [] \<and> timer_fd S1 = timer_fd S \<and> \<not> r_shutdown S1 \<and> \<not> srv_shutdown S1
     \<and> host_group S1 = (post_all (\<lambda>b. HWorker (br_backend b)) (host_group S))\<lparr>io_stopped := False\<rparr>
     \<and> (\<exists>k. brief K (kern S) k \<and> e = now_of K k + d)"

text \<open>The worker after its run: the timer is destroyed and, without an exception, the rows are dropped.\<close>

definition leave_worker :: "'k kernel \<Rightarrow> timer \<Rightarrow> nat result \<times> ('k, 'g) host \<Rightarrow> unit result \<times> ('k, 'g) host" where
  "leave_worker K t y = (let S4 = destroy_timer K t True (snd y) in case fst y of
       Inl e \<Rightarrow> (Inl e, S4)
     | Inr _ \<Rightarrow> (Inr (), S4\<lparr>user := drop_disabled (drop_unreferenced (user S4))\<rparr>))"

lemma worker_enters:
  fixes S :: "('k, 'g) host"
  assumes "hosted S" "call_stack S = []" "timer_ready S" "quiet_kernel K"
    "\<bar>tv_sec\<bar> \<le> 2147483647" "\<bar>tv_usec\<bar> \<le> 1000000000000000000" "\<forall>k. brief K (kern S) k \<longrightarrow> \<bar>now_of K k\<bar> \<le> 2900000000000000000"
  shows "\<exists>e S1. entered K t (tv_sec * 1000000 + tv_usec) S e S1
    \<and> host_runWorker K exec t i (Some (tv_sec, tv_usec)) S = map_option (leave_worker K t) (group_run K exec S1)"
proof -
  let ?hs = "map (\<lambda>b. HWorker (br_backend b)) (enabled_backends (host_group S))"
  obtain S0 where 0: "dispatch_all K exec ?hs S = Some (Inr (), S0)" "hosted S0" "call_stack S0 = []"
      "host_group S0 = fold post ?hs (host_group S)" "same_timers S S0"
    using dispatch_all_host [OF assms(1,2), of K exec ?hs] by blast
  let ?T = "use_timer_service K S0"
  have r0: "timer_ready S0" using assms(3) 0(5) by (auto simp: timer_ready_def same_timers_def same_service_def)
  note T = timer_service_host [OF 0(2,3), of K] timer_service_reactor [OF r0, of K]
  have "extends K S ?T" using extends_trans [OF extends_timer_service extends_dispatch [OF 0(1) assms(2)]] .
  then have b: "brief K (kern S) (kern ?T)" by (simp add: extends_def)
  then have now: "\<bar>now_of K (kern ?T)\<bar> \<le> 2900000000000000000" using assms(7) by blast
  obtain e S2 where 2: "start_timer K t (Some (tv_sec, tv_usec)) (construct_timer t i ?T) = (Inr (), True, S2)"
      "e = now_of K (kern ?T) + (tv_sec * 1000000 + tv_usec)" "hosted_with (Some (e, t)) S2" "lone_timer e t (queues S2 0)"
      "in_range e" "same_service ?T S2" "call_stack S2 = call_stack ?T" "host_group S2 = host_group ?T"
    using start_waiting [OF assms(4-6) T(1) T(6) now, of t i] by blast
  let ?S1 = "if service_stopped S2 then service_reset S2 else S2"
  have g: "host_group ?S1 = (host_group S2)\<lparr>io_stopped := False\<rparr>"
    by (simp add: service_reset_def service_stopped_def host_group_def)
  have f: "timer_fd S0 = timer_fd S" using 0(5) by (simp add: same_timers_def same_service_def)
  have "entered K t (tv_sec * 1000000 + tv_usec) S e ?S1"
    unfolding entered_def g
    using 2(2-8) T 0(4) b f by (auto simp: service_reset_def same_service_def timer_ready_def post_all_def fold_map o_def)
  moreover have "host_runWorker K exec t i (Some (tv_sec, tv_usec)) S = map_option (leave_worker K t) (group_run K exec ?S1)"
    unfolding host_runWorker_def 0(1) by (auto simp: 2(1) Let_def leave_worker_def intro!: option.map_cong split: sum.split)
  ultimately show ?thesis by blast
qed

lemma entered_run:
  fixes S1 :: "('k, 'g) host"
  assumes "entered K t d S e S1"
  shows "waiting e t (S1\<lparr>call_stack := [\<lparr>private_queue = [], private_work = 0\<rparr>]\<rparr>)"
    "group_run K exec S1 = map_option (\<lambda>(r, s'). (r, s'\<lparr>call_stack := tl (call_stack s')\<rparr>))
      (service_loop (host_round K exec) 0 (S1\<lparr>call_stack := [\<lparr>private_queue = [], private_work = 0\<rparr>]\<rparr>))"
  using assms
  by (auto simp: entered_def waiting_def hosted_with_def group_run_def service_run_def with_context_def)

text \<open>
  The model of the group queues the timer's \<open>stop\<close> at the end when the run is over. In the service it may be
  queued already, then before the handlers posted since.
\<close>

definition stop_moved :: "'g gcore_scheme \<Rightarrow> 'g gcore_scheme \<Rightarrow> bool" where
  "stop_moved g h \<longleftrightarrow> h = g \<or> (\<exists>q1 q2. io_queue g = q1 @ q2 @ [HStop] \<and> h = g\<lparr>io_queue := q1 @ HStop # q2\<rparr>)"

definition same_outcome :: "unit result \<times> 'g gcore_scheme \<Rightarrow> unit result \<times> ('k, 'g) host \<Rightarrow> bool" where
  "same_outcome x y \<longleftrightarrow> fst x = fst y \<and> stop_moved (snd x) (host_group (snd y))"

lemma drop_queue:
  "io_queue (drop_disabled (drop_unreferenced s)) = io_queue s"
  "drop_disabled (drop_unreferenced (s\<lparr>io_queue := q\<rparr>)) = (drop_disabled (drop_unreferenced s))\<lparr>io_queue := q\<rparr>"
  by (simp_all add: drop_disabled_def drop_unreferenced_def)

lemma stop_moved_drop: "stop_moved g h \<Longrightarrow> stop_moved (drop_disabled (drop_unreferenced g)) (drop_disabled (drop_unreferenced h))"
  unfolding stop_moved_def drop_queue(1) by (elim disjE exE conjE) (blast, simp only: drop_queue(2), blast)

lemma leave_group:
  "host_group (snd (leave_worker K t y)) = (case fst y of Inl _ \<Rightarrow> host_group (destroy_timer K t True (snd y))
     | Inr _ \<Rightarrow> drop_disabled (drop_unreferenced (host_group (destroy_timer K t True (snd y)))))"
  by (simp add: leave_worker_def drop_host Let_def split: sum.split)

lemma leave_service:
  "fst (leave_worker K t y) = map_sum id (\<lambda>_. ()) (fst y)"
  "hosted (snd (leave_worker K t y)) = hosted (destroy_timer K t True (snd y))"
  "timer_ready (snd (leave_worker K t y)) = timer_ready (destroy_timer K t True (snd y))"
  "call_stack (snd (leave_worker K t y)) = call_stack (destroy_timer K t True (snd y))"
  by (cases "fst y"; simp add: leave_worker_def timer_ready_def Let_def)+

lemma worker_leaves:
  fixes S1 :: "('k, 'g) host"
  assumes "entered K t d S e S1" "polls K" "quiet_kernel K" "posts_only exec" "group_run K exec S1 = Some y"
  shows "hosted (snd (leave_worker K t y)) \<and> timer_ready (snd (leave_worker K t y)) \<and> call_stack (snd (leave_worker K t y)) = []
    \<and> (\<exists>n x. GroupCore_runWorker exec (Some n) (host_group S) = Some x \<and> same_outcome x (leave_worker K t y))"
proof -
  note run = entered_run [OF assms(1)]
  let ?S = "S1\<lparr>call_stack := [\<lparr>private_queue = [], private_work = 0\<rparr>]\<rparr>" and ?D = "destroy_timer K t True (snd y)"
  let ?s = "(post_all (\<lambda>b. HWorker (br_backend b)) (host_group S))\<lparr>io_stopped := False\<rparr>"
  obtain z where z: "service_loop (host_round K exec) 0 ?S = Some z" "y = (fst z, (snd z)\<lparr>call_stack := tl (call_stack (snd z))\<rparr>)"
    using assms(5) unfolding run(2) by (auto simp: case_prod_beta)
  have o: "timed_outcome exec e t ?S z" using waiting_loop [OF z(1) assms(2-4)] run(1) by blast
  have S: "host_group ?S = ?s" "has_task S1" "\<not> r_shutdown S1" "\<not> srv_shutdown S1" using assms(1) by (simp_all add: entered_def)
  have y: "call_stack (snd y) = []" "fst y = fst z" "host_group (snd y) = host_group (snd z)" "same_service S1 (snd y)"
    using o by (simp_all add: z(2) timed_outcome_def same_service_def)
  have tl: "tl (call_stack (snd z)) = []" using y(1) by (simp add: z(2))
  have "(waiting e t (snd z) \<and> timed_run exec ?s (map_sum id (\<lambda>_. ()) (fst z)) True (host_group (snd z)))
      \<or> (expired t (snd z) \<and> timed_run exec ?s (map_sum id (\<lambda>_. ()) (fst z)) False (host_group (snd z)))"
    using o unfolding timed_outcome_def S(1) by (elim conjE)
  then obtain b where b: "timed_run exec ?s (map_sum id (\<lambda>_. ()) (fst z)) b (host_group (snd z))" "if b then waiting e t (snd z) else expired t (snd z)"
    by (elim disjE conjE) (auto intro: that [of True] that [of False])
  obtain n tm g where m: "io_run exec (Some n) ?s = Some (map_sum id (\<lambda>_. ()) (fst z), tm, g)"
      "if b then tm \<noteq> None \<and> g = host_group (snd z) else if tm = None then g = host_group (snd z)
       else \<exists>q1 q2. io_queue (host_group (snd z)) = q1 @ HStop # q2 \<and> g = (host_group (snd z))\<lparr>io_queue := q1 @ q2\<rparr>"
    using timed_run_model [OF b(1) assms(4)] by (elim exE conjE) (rule that)
  let ?g = "if tm = None then g else post HStop g"
  have r: "GroupCore_runWorker exec (Some n) (host_group S) = Some (map_sum id (\<lambda>_. ()) (fst z),
      case fst z of Inl _ \<Rightarrow> ?g | Inr _ \<Rightarrow> drop_disabled (drop_unreferenced ?g))"
    unfolding GroupCore_runWorker_def Let_def m(1) by (cases "fst z") simp_all
  have D: "hosted ?D \<and> no_timer t (queues ?D 0) \<and> same_service S1 ?D \<and> call_stack ?D = [] \<and> stop_moved ?g (host_group ?D)"
  proof (cases b)
    case True
    then have w: "hosted_with (Some (e, t)) (snd y)" "lone_timer e t (queues (snd y) 0)" using b(2) by (simp_all add: z(2) waiting_def hosted_with_def tl)
    show ?thesis using destroy_waiting [OF w y(1), of K] y(3,4) m(2) True by (auto simp: same_service_def stop_moved_def)
  next
    case False
    then have w: "hosted (snd y)" "no_timer t (queues (snd y) 0)" using b(2) by (simp_all add: z(2) expired_def hosted_with_def tl)
    have "stop_moved ?g (host_group (snd y))"
    proof (cases "tm = None")
      case True
      then show ?thesis using m(2) False y(3) by (simp add: stop_moved_def)
    next
      case tm: False
      then obtain q1 q2 where "io_queue (host_group (snd z)) = q1 @ HStop # q2" "g = (host_group (snd z))\<lparr>io_queue := q1 @ q2\<rparr>"
        using m(2) False by auto
      then have "io_queue ?g = q1 @ q2 @ [HStop]" "host_group (snd y) = ?g\<lparr>io_queue := q1 @ HStop # q2\<rparr>"
        using tm y(3) by (simp_all add: post_def)
      then show ?thesis unfolding stop_moved_def by blast
    qed
    then show ?thesis unfolding destroy_expired [OF w(2)] using w y(1,4) by blast
  qed
  then have "timer_ready ?D" using S(2-4) by (simp add: timer_ready_def no_timer_def same_service_def)
  moreover have "same_outcome (map_sum id (\<lambda>_. ()) (fst z), case fst z of Inl _ \<Rightarrow> ?g | Inr _ \<Rightarrow> drop_disabled (drop_unreferenced ?g)) (leave_worker K t y)"
    unfolding same_outcome_def fst_conv snd_conv leave_group leave_service(1) y(2)
    using D stop_moved_drop by (auto split: sum.split)
  ultimately show ?thesis using D r by (auto simp: leave_service)
qed

lemma entered_worker_returns:
  fixes S1 :: "('k, 'g) host"
  assumes "entered K t d S e S1" "polls K" "quiet_kernel K" "posts_only exec" "passes K (timer_fd S) \<rho> e"
    "\<forall>n. GroupCore_runWorker exec (Some n) (host_group S) \<noteq> None"
  shows "group_run K exec S1 \<noteq> None"
proof -
  let ?S = "S1\<lparr>call_stack := [\<lparr>private_queue = [], private_work = 0\<rparr>]\<rparr>"
  have S: "timer_fd ?S = timer_fd S" "0 \<in> set (queue_set ?S)"
      "host_group ?S = (post_all (\<lambda>b. HWorker (br_backend b)) (host_group S))\<lparr>io_stopped := False\<rparr>"
    using assms(1) by (simp_all add: entered_def)
  have "\<forall>n. io_run exec (Some n) (host_group ?S) \<noteq> None"
    using assms(6) unfolding S(3) by (simp add: GroupCore_runWorker_def Let_def)
  from waiting_returns [OF assms(3,2,4,5) entered_run(1) [OF assms(1)] S(1,2) this]
  show ?thesis unfolding entered_run(2) [OF assms(1)] by fastforce
qed

text \<open>Without a limit there is no timer to wait for.\<close>

lemma untimed_worker:
  fixes S :: "('k, 'g) host"
  assumes "hosted S" "call_stack S = []" "polls K" "posts_only exec"
  shows "map_option (\<lambda>(r, S'). (r, host_group S')) (host_runWorker K exec t i None S) = GroupCore_runWorker exec None (host_group S)"
    and "host_runWorker K exec t i None S = Some y \<Longrightarrow> hosted (snd y) \<and> call_stack (snd y) = [] \<and> (timer_ready S \<longrightarrow> timer_ready (snd y))"
proof -
  let ?hs = "map (\<lambda>b. HWorker (br_backend b)) (enabled_backends (host_group S))"
  obtain S0 where 0: "dispatch_all K exec ?hs S = Some (Inr (), S0)" "hosted S0" "call_stack S0 = []"
      "host_group S0 = fold post ?hs (host_group S)" "same_timers S S0"
    using dispatch_all_host [OF assms(1,2), of K exec ?hs] by blast
  let ?T = "use_timer_service K S0"
  let ?S1 = "construct_timer t i ?T"
  let ?S2 = "if service_stopped ?S1 then service_reset ?S1 else ?S1"
  note T = timer_service_host [OF 0(2,3), of K]
  have 1: "hosted ?S1" "call_stack ?S1 = []" "host_group ?S1 = host_group ?T"
    using T by (simp_all add: construct_timer_def upd_queue_def upd_data_def hosted_with_def host_group_def)
  have 2: "hosted ?S2" "call_stack ?S2 = []" "host_group ?S2 = (post_all (\<lambda>b. HWorker (br_backend b)) (host_group S))\<lparr>io_stopped := False\<rparr>"
  proof -
    show "hosted ?S2" "call_stack ?S2 = []" using 1 by (simp_all add: service_reset_def)
    have "host_group ?S2 = (host_group ?S1)\<lparr>io_stopped := False\<rparr>"
      by (simp add: service_reset_def service_stopped_def host_group_def)
    then show "host_group ?S2 = (post_all (\<lambda>b. HWorker (br_backend b)) (host_group S))\<lparr>io_stopped := False\<rparr>"
      using 1(3) T(3) 0(4) by (simp add: post_all_def fold_map o_def)
  qed
  have w: "host_runWorker K exec t i None S = map_option (\<lambda>(r, S3). case r of
                 Inl e \<Rightarrow> (Inl e, S3)
               | Inr _ \<Rightarrow> (Inr (), S3\<lparr>user := drop_disabled (drop_unreferenced (user S3))\<rparr>)) (group_run K exec ?S2)"
    unfolding host_runWorker_def 0(1)
    by (auto simp: Let_def start_timer_def destroy_timer_def intro!: option.map_cong split: sum.split)
  have r: "queue_run exec (host_group ?S2) = map_option host_outcome (group_run K exec ?S2)"
    by (rule group_run_refines(1) [OF assms(3,4) 2(1), symmetric])
  show "map_option (\<lambda>(r, S'). (r, host_group S')) (host_runWorker K exec t i None S) = GroupCore_runWorker exec None (host_group S)"
    unfolding w runWorker_queue_run 2(3) [symmetric] r option.map_comp
  proof (rule option.map_cong [OF refl])
    fix z :: "nat result \<times> ('k, 'g) host"
    obtain r S3 where "z = (r, S3)" by (cases z)
    then show "((\<lambda>(r, S'). (r, host_group S')) \<circ> (\<lambda>(r, S3). case r of
                 Inl e \<Rightarrow> (Inl e, S3)
               | Inr _ \<Rightarrow> (Inr (), S3\<lparr>user := drop_disabled (drop_unreferenced (user S3))\<rparr>))) z =
        ((\<lambda>(r, s'). case r of Inl e \<Rightarrow> (Inl e, s') | Inr _ \<Rightarrow> (Inr (), drop_disabled (drop_unreferenced s'))) \<circ> host_outcome) z"
      by (cases r) (simp_all add: host_outcome_def drop_host)
  qed
  assume "host_runWorker K exec t i None S = Some y"
  then obtain r3 S3 where 3: "group_run K exec ?S2 = Some (r3, S3)" and y: "(case r3 of Inl e \<Rightarrow> (Inl e, S3)
      | Inr _ \<Rightarrow> (Inr (), S3\<lparr>user := drop_disabled (drop_unreferenced (user S3))\<rparr>)) = y"
    unfolding w map_option_eq_Some split_paired_Ex prod.case by (elim exE conjE) (rule that)
  have y: "snd y = S3 \<or> snd y = S3\<lparr>user := drop_disabled (drop_unreferenced (user S3))\<rparr>"
    using y by (cases r3) auto
  have S3: "hosted S3" "same_timers ?S2 S3" using group_run_refines(2) [OF assms(3,4) 2(1) 3] by simp_all
  have "timer_ready ?S2" if "timer_ready S"
  proof -
    have "timer_ready S0" using that 0(5) by (auto simp: timer_ready_def same_timers_def same_service_def)
    from timer_service_reactor(3) [OF this, of K]
    show ?thesis by (simp add: timer_ready_def construct_timer_def upd_queue_def upd_data_def service_reset_def)
  qed
  then have "timer_ready S \<Longrightarrow> timer_ready S3" using S3(2) by (auto simp: timer_ready_def same_timers_def same_service_def)
  moreover have "call_stack S3 = []" using S3(2) 2(2) by (simp add: same_timers_def)
  ultimately show "hosted (snd y) \<and> call_stack (snd y) = [] \<and> (timer_ready S \<longrightarrow> timer_ready (snd y))"
    using y S3(1) by (auto simp: timer_ready_def)
qed

text \<open>
  C3: On the real event loop the worker of a group, called from outside the service, does what the model of the group
  says. Without a time limit it returns if and only if the model does, with the same result and the same group, queue
  and stopped flag included. With a limit its timer waits in the reactor, and when it expires \<open>stop\<close> is queued
  behind the handlers: whatever the call returns is what the model returns for some number of handlers until the limit,
  except that the \<open>stop\<close> the model queues at the end may stand before handlers posted since. The call returns if the
  model does for every number and time passes. After it the service is ready for the next call. The handlers are those
  of any backends that leave the service's descriptors and timers alone.
\<close>

theorem worker_refines_group:
  fixes S :: "('k, 'g) host"
  assumes "hosted S" "call_stack S = []" "polls K" "posts_only exec"
  shows "map_option (\<lambda>(r, S'). (r, host_group S')) (host_runWorker K exec t i None S) = GroupCore_runWorker exec None (host_group S)
    \<and> (\<forall>y. host_runWorker K exec t i None S = Some y \<longrightarrow>
        hosted (snd y) \<and> call_stack (snd y) = [] \<and> (timer_ready S \<longrightarrow> timer_ready (snd y)))
    \<and> (\<forall>tv_sec tv_usec. \<bar>tv_sec\<bar> \<le> 2147483647 \<longrightarrow> \<bar>tv_usec\<bar> \<le> 1000000000000000000 \<longrightarrow> timer_ready S \<longrightarrow> quiet_kernel K \<longrightarrow>
        (\<forall>k. brief K (kern S) k \<longrightarrow> \<bar>now_of K k\<bar> \<le> 2900000000000000000) \<longrightarrow>
        (\<forall>y. host_runWorker K exec t i (Some (tv_sec, tv_usec)) S = Some y \<longrightarrow>
           hosted (snd y) \<and> timer_ready (snd y) \<and> call_stack (snd y) = []
           \<and> (\<exists>n x. GroupCore_runWorker exec (Some n) (host_group S) = Some x \<and> same_outcome x y))
        \<and> ((\<forall>n. GroupCore_runWorker exec (Some n) (host_group S) \<noteq> None) \<longrightarrow>
           (\<forall>k. brief K (kern S) k \<longrightarrow> (\<exists>\<rho>. passes K (timer_fd S) \<rho> (now_of K k + (tv_sec * 1000000 + tv_usec)))) \<longrightarrow>
           host_runWorker K exec t i (Some (tv_sec, tv_usec)) S \<noteq> None))"
proof (intro conjI allI impI)
  show "map_option (\<lambda>(r, S'). (r, host_group S')) (host_runWorker K exec t i None S) = GroupCore_runWorker exec None (host_group S)"
    by (rule untimed_worker(1) [OF assms])
  show "hosted (snd y)" "call_stack (snd y) = []" "timer_ready S \<Longrightarrow> timer_ready (snd y)" if "host_runWorker K exec t i None S = Some y" for y
    using untimed_worker(2) [OF assms that] by simp_all
  fix tv_sec tv_usec :: int
  assume lim: "\<bar>tv_sec\<bar> \<le> 2147483647" "\<bar>tv_usec\<bar> \<le> 1000000000000000000" and S: "timer_ready S" and K: "quiet_kernel K"
    and c: "\<forall>k. brief K (kern S) k \<longrightarrow> \<bar>now_of K k\<bar> \<le> 2900000000000000000"
  let ?d = "tv_sec * 1000000 + tv_usec"
  obtain e S1 where e: "entered K t ?d S e S1"
      "host_runWorker K exec t i (Some (tv_sec, tv_usec)) S = map_option (leave_worker K t) (group_run K exec S1)"
    using worker_enters [OF assms(1,2) S K lim c] by blast
  show "hosted (snd y)" "timer_ready (snd y)" "call_stack (snd y) = []"
    "\<exists>n x. GroupCore_runWorker exec (Some n) (host_group S) = Some x \<and> same_outcome x y"
    if "host_runWorker K exec t i (Some (tv_sec, tv_usec)) S = Some y" for y
    using that e(2) worker_leaves [OF e(1) assms(3) K assms(4)] by auto
  assume n: "\<forall>n. GroupCore_runWorker exec (Some n) (host_group S) \<noteq> None"
    and p: "\<forall>k. brief K (kern S) k \<longrightarrow> (\<exists>\<rho>. passes K (timer_fd S) \<rho> (now_of K k + ?d))"
  obtain \<rho> where "passes K (timer_fd S) \<rho> e" using e(1) p by (auto simp: entered_def)
  from entered_worker_returns [OF e(1) assms(3) K assms(4) this n]
  show "host_runWorker K exec t i (Some (tv_sec, tv_usec)) S \<noteq> None" using e(2) by simp
qed

text \<open>A group with one loopback on a new service, on a kernel whose clock ticks with every wait.\<close>

definition ticking_kernel :: "nat kernel" where
  "ticking_kernel = \<lparr>k_epoll_wait = \<lambda>m k. Some ([EvTimerFd], Suc k), k_epoll_ctl = \<lambda>c k. (0, k), k_timerfd_settime = \<lambda>f sec nsec k. k,
     k_clock = \<lambda>k. (min (int k) 3000000000000000000, k), k_perform = \<lambda>p k. (True, p, k)\<rparr>"

definition loopback_group :: lworld where
  "loopback_group = \<lparr>localnodes = [], backends = [BackendRow_enable (BackendRow 0 ''loopback'')], sendqueue = [], connectcount = 0,
     gname = ''chat'', io_queue = [], io_stopped = False, lbs = [0 \<mapsto> Loopback_initialize Loopback_new], node2message = []\<rparr>"

definition host0 :: "(nat, unit lworld_ext) host" where
  "host0 = epoll_reactor_new ticking_kernel 3 (\<lambda>_. queue0) (\<lambda>_. descriptor0) 2 0 loopback_group"

lemma ticking_now: "now_of ticking_kernel k = min (int k) 3000000000000000000"
  by (simp add: now_of_def ticking_kernel_def)

lemma ticking_brief: "brief ticking_kernel k k' \<Longrightarrow> k' = k"
  by (induction rule: brief.induct) (simp_all add: ticking_kernel_def)

lemma ticking_quiet: "polls ticking_kernel" "quiet_kernel ticking_kernel"
  by (simp_all add: polls_def quiet_kernel_def ticking_now in_range_def min_less_iff_disj) (simp_all add: ticking_kernel_def)

lemma ticking_passes:
  assumes "e \<le> 3000000000000000000"
  shows "passes ticking_kernel fd (\<lambda>k. nat (e - int k)) e"
  unfolding passes_def ticking_now
proof (intro conjI allI impI)
  fix m k
  show "\<exists>evs k'. k_epoll_wait ticking_kernel m k = Some (evs, k') \<and> (nat (e - int k') < nat (e - int k)
      \<or> (fd = - 1 \<or> EvTimerFd \<in> set evs) \<and> e \<le> min (int k') 3000000000000000000)"
    using assms by (auto simp: ticking_kernel_def)
  show "nat (e - int k') \<le> nat (e - int k)" if "brief ticking_kernel k k'" for k k'
    using ticking_brief [OF that] by simp
qed

lemma loopback_group_worker:
  "GroupCore_runWorker example_exec None loopback_group = Some (Inr (), loopback_group\<lparr>io_stopped := True\<rparr>)"
  "GroupCore_runWorker example_exec (Some n) loopback_group \<noteq> None"
proof -
  show "GroupCore_runWorker example_exec None loopback_group = Some (Inr (), loopback_group\<lparr>io_stopped := True\<rparr>)"
    by (simp add: GroupCore_runWorker_def loopback_group_def post_all_def enabled_backends_def BackendRow_enable_def BackendRow_def post_def
        io_run.simps with_loopback_def Loopback_Worker_def tick_def drop_disabled_def drop_unreferenced_def mi_erase_def)
  show "GroupCore_runWorker example_exec (Some n) loopback_group \<noteq> None"
    by (simp add: GroupCore_runWorker_def loopback_group_def post_all_def enabled_backends_def BackendRow_enable_def BackendRow_def post_def
        io_run.simps with_loopback_def Loopback_Worker_def tick_def Let_def)
qed

lemma host0_facts: "hosted host0" "call_stack host0 = []" "timer_ready host0" "host_group host0 = loopback_group" "kern host0 = 0"
proof -
  have f: "srv_queue host0 = []" "call_stack host0 = []" "\<not> has_task host0" "\<not> one_thread host0" "outstanding_work host0 = 0"
      "\<not> srv_stopped host0" "\<not> srv_shutdown host0" "\<not> r_shutdown host0" "queue_set host0 = []" "heap queue0 = []" "timers queue0 = None"
    by code_simp+
  have m: "queues host0 = (\<lambda>_. queue0)" "user host0 = loopback_group" "kern host0 = 0"
    by (simp_all add: host0_def epoll_reactor_new_def ctl_def ticking_kernel_def task_io_service_new_def task_io_service.defs Let_def)
  show "hosted host0" "call_stack host0 = []" "timer_ready host0" "kern host0 = 0" using f m by (simp_all add: hosted_with_def timer_ready_def)
  show "host_group host0 = loopback_group" using f by (simp add: host_group_def m loopback_group_def)
qed

theorem worker_refines_group_witness:
  "map_option (\<lambda>(r, S'). (r, host_group S')) (host_runWorker ticking_kernel example_exec 7 0 None host0)
      = Some (Inr (), loopback_group\<lparr>io_stopped := True\<rparr>)
   \<and> (\<exists>y n x. host_runWorker ticking_kernel example_exec 7 0 (Some (1, 500000)) host0 = Some y
      \<and> GroupCore_runWorker example_exec (Some n) loopback_group = Some x \<and> same_outcome x y \<and> hosted (snd y))"
proof -
  note w = worker_refines_group [OF host0_facts(1,2) ticking_quiet(1) loopback_posts_only, of 7 0, unfolded host0_facts(4)]
  have "\<exists>\<rho>. passes ticking_kernel (timer_fd host0) \<rho> (now_of ticking_kernel k + (1 * 1000000 + 500000))" if "brief ticking_kernel (kern host0) k" for k
    using ticking_passes [of "now_of ticking_kernel k + (1 * 1000000 + 500000)" "timer_fd host0"] ticking_brief [OF that] by (auto simp: ticking_now host0_facts)
  moreover have "\<bar>now_of ticking_kernel k\<bar> \<le> 2900000000000000000" if "brief ticking_kernel (kern host0) k" for k
    using ticking_brief [OF that] by (simp add: ticking_now host0_facts)
  ultimately have t: "(\<forall>y. host_runWorker ticking_kernel example_exec 7 0 (Some (1, 500000)) host0 = Some y \<longrightarrow> hosted (snd y)
        \<and> (\<exists>n x. GroupCore_runWorker example_exec (Some n) loopback_group = Some x \<and> same_outcome x y))
      \<and> host_runWorker ticking_kernel example_exec 7 0 (Some (1, 500000)) host0 \<noteq> None"
    using conjunct2 [OF conjunct2 [OF w], rule_format, of 1 500000] host0_facts(3) ticking_quiet(2) loopback_group_worker(2) by simp
  then obtain y where "host_runWorker ticking_kernel example_exec 7 0 (Some (1, 500000)) host0 = Some y" by blast
  then show ?thesis using conjunct1 [OF w] t loopback_group_worker(1) by auto
qed

end
