(* ===== verification/OpQueue.thy ===== *)
theory OpQueue imports Reactor begin

text \<open>
  The linked containers of the event loop, at the level of their pointers: the queue of operations
  (\<open>external/boost/asio/detail/op_queue.hpp\<close>) and the pool of descriptor states (\<open>object_pool.hpp\<close>). The
  other theories describe them as lists; here every operation of the code is shown to act on the list that
  its links represent, and what happens to the links when an operation is queued twice.
\<close>

section \<open>The queue of operations\<close>

text \<open>An operation is an address; \<open>next_\<close> is a member of it, so all queues share the links \<open>nx\<close>.\<close>

type_synonym links = "nat \<Rightarrow> nat option"

record op_list =
  oq_front :: "nat option"
  oq_back :: "nat option"

definition oq_new :: op_list where
  "oq_new = \<lparr>oq_front = None, oq_back = None\<rparr>"

definition oq_pop :: "links \<times> op_list \<Rightarrow> links \<times> op_list" where
  "oq_pop x = (let (nx, q) = x in case oq_front q of
     None \<Rightarrow> (nx, q)
   | Some tmp \<Rightarrow>
       (let front = nx tmp in
        (nx(tmp := None), \<lparr>oq_front = front, oq_back = (if front = None then None else oq_back q)\<rparr>)))"

definition oq_push :: "nat \<Rightarrow> links \<times> op_list \<Rightarrow> links \<times> op_list" where
  "oq_push h x = (let (nx, q) = x; nx1 = nx(h := None) in case oq_back q of
     Some b \<Rightarrow> (nx1(b := Some h), q\<lparr>oq_back := Some h\<rparr>)
   | None \<Rightarrow> (nx1, \<lparr>oq_front = Some h, oq_back = Some h\<rparr>))"

text \<open>Pushing a whole queue \<open>r\<close>, which is empty afterwards.\<close>

definition oq_splice :: "op_list \<Rightarrow> links \<times> op_list \<Rightarrow> op_list \<times> links \<times> op_list" where
  "oq_splice r x = (let (nx, q) = x in case oq_front r of
     None \<Rightarrow> (r, nx, q)
   | Some other_front \<Rightarrow>
       (oq_new, case oq_back q of
          Some b \<Rightarrow> (nx(b := Some other_front), q\<lparr>oq_back := oq_back r\<rparr>)
        | None \<Rightarrow> (nx, \<lparr>oq_front = Some other_front, oq_back = oq_back r\<rparr>)))"

definition oq_empty :: "op_list \<Rightarrow> bool" where
  "oq_empty q \<longleftrightarrow> oq_front q = None"

text \<open>The destructor; the result is the operations it destroys, in their order.\<close>

partial_function (option) oq_destroy :: "nat list \<Rightarrow> links \<times> op_list \<Rightarrow> nat list option" where
  "oq_destroy done x = (case oq_front (snd x) of None \<Rightarrow> Some done | Some op \<Rightarrow> oq_destroy (done @ [op]) (oq_pop x))"

text \<open>The list a queue represents.\<close>

fun chain :: "links \<Rightarrow> nat option \<Rightarrow> nat list \<Rightarrow> nat option \<Rightarrow> bool" where
  "chain nx p [] e \<longleftrightarrow> p = e"
| "chain nx p (a # as) e \<longleftrightarrow> p = Some a \<and> chain nx (nx a) as e"

definition holds :: "links \<times> op_list \<Rightarrow> nat list \<Rightarrow> bool" where
  "holds x ops \<longleftrightarrow> chain (fst x) (oq_front (snd x)) ops None \<and> distinct ops
     \<and> oq_back (snd x) = (if ops = [] then None else Some (last ops))"

lemma chain_append: "chain nx p (as @ bs) e \<longleftrightarrow> (\<exists>m. chain nx p as m \<and> chain nx m bs e)"
  by (induction as arbitrary: p) auto

lemma chain_frame: "(\<And>a. a \<in> set as \<Longrightarrow> nx' a = nx a) \<Longrightarrow> chain nx' p as e = chain nx p as e"
  by (induction as arbitrary: p) auto

lemma chain_upd [simp]: "h \<notin> set as \<Longrightarrow> chain (nx(h := v)) p as e = chain nx p as e"
  by (rule chain_frame) auto

lemma chain_snoc:
  assumes "chain nx p (as @ [b]) None" "distinct (as @ [b])"
  shows "chain (nx(b := e)) p (as @ [b]) e"
  using assms by (auto simp: chain_append)

lemma holds_empty [simp]: "holds (nx, oq_new) []"
  by (simp add: holds_def oq_new_def)

lemma holds_front: "holds x ops \<Longrightarrow> oq_front (snd x) = (if ops = [] then None else Some (hd ops))"
  by (cases ops) (auto simp: holds_def)

lemma holds_unique: "holds x ops \<Longrightarrow> holds x ops' \<Longrightarrow> ops = ops'"
proof -
  have "chain nx p as None \<Longrightarrow> chain nx p bs None \<Longrightarrow> as = bs" for nx p as bs
    by (induction as arbitrary: p bs) (case_tac bs; auto)+
  then show "holds x ops \<Longrightarrow> holds x ops' \<Longrightarrow> ops = ops'" by (auto simp: holds_def)
qed

lemma oq_push_holds:
  assumes "holds (nx, q) ops" "h \<notin> set ops"
  shows "holds (oq_push h (nx, q)) (ops @ [h])"
proof (cases ops rule: rev_cases)
  case Nil
  then show ?thesis using assms by (auto simp: holds_def oq_push_def)
next
  case (snoc as b)
  have b: "b \<noteq> h" "h \<notin> set as" "oq_back q = Some b" "chain nx (oq_front q) (as @ [b]) None" "distinct (as @ [b])"
    using assms snoc by (auto simp: holds_def)
  have "chain (nx(b := Some h)) (oq_front q) (as @ [b]) (Some h)" by (rule chain_snoc [OF b(4,5)])
  then have "chain (nx(h := None, b := Some h)) (oq_front q) (as @ [b]) (Some h)"
    using b(1,2) by (subst fun_upd_twist) auto
  then show ?thesis using b assms snoc by (auto simp: holds_def oq_push_def chain_append)
qed

lemma oq_pop_holds:
  assumes "holds (nx, q) ops"
  shows "holds (oq_pop (nx, q)) (tl ops)"
proof (cases ops)
  case Nil
  then show ?thesis using assms by (simp add: holds_def oq_pop_def)
next
  case (Cons a as)
  then have "oq_front q = Some a" "chain nx (nx a) as None" "a \<notin> set as" "distinct as" "oq_back q = Some (last (a # as))"
    using assms by (auto simp: holds_def)
  then show ?thesis using Cons by (cases as) (auto simp: holds_def oq_pop_def)
qed

lemma oq_splice_holds:
  assumes "holds (nx, q) ops" "holds (nx, r) ops'" "set ops \<inter> set ops' = {}"
  shows "holds (snd (oq_splice r (nx, q))) (ops @ ops')" "fst (oq_splice r (nx, q)) = oq_new"
proof -
  have "holds (snd (oq_splice r (nx, q))) (ops @ ops') \<and> fst (oq_splice r (nx, q)) = oq_new"
  proof (cases ops')
    case Nil
    then have "r = oq_new" using assms(2) by (cases r) (auto simp: holds_def oq_new_def)
    then show ?thesis using assms(1) Nil by (simp add: oq_splice_def oq_new_def)
  next
    case (Cons c cs)
    have r: "oq_front r = Some c" "oq_back r = Some (last ops')" "chain nx (Some c) ops' None" "distinct ops'"
      using assms(2) Cons by (auto simp: holds_def)
    show ?thesis
    proof (cases ops rule: rev_cases)
      case Nil
      then show ?thesis using assms(1) r Cons by (auto simp: holds_def oq_splice_def oq_new_def)
    next
      case (snoc as b)
      have b: "oq_back q = Some b" "chain nx (oq_front q) (as @ [b]) None" "distinct (as @ [b])" "b \<notin> set ops'"
        using assms(1,3) snoc by (auto simp: holds_def)
      have "chain (nx(b := Some c)) (oq_front q) (as @ [b]) (Some c)" by (rule chain_snoc [OF b(2,3)])
      moreover have "chain (nx(b := Some c)) (Some c) ops' None" using r(3) b(4) by simp
      ultimately have "chain (nx(b := Some c)) (oq_front q) ((as @ [b]) @ ops') None" unfolding chain_append by blast
      then show ?thesis using assms(3) snoc b r Cons by (auto simp: holds_def oq_splice_def oq_new_def)
    qed
  qed
  then show "holds (snd (oq_splice r (nx, q))) (ops @ ops')" "fst (oq_splice r (nx, q)) = oq_new" by auto
qed

lemma oq_destroy_holds: "holds x ops \<Longrightarrow> oq_destroy ds x = Some (ds @ ops)"
proof (induction ops arbitrary: ds x)
  case Nil
  then show ?case by (subst oq_destroy.simps) (simp add: holds_front)
next
  case (Cons a as)
  have "holds (oq_pop x) as" using oq_pop_holds [of "fst x" "snd x" "a # as"] Cons.prems by simp
  from Cons.IH [OF this] show ?case using Cons.prems by (subst oq_destroy.simps) (simp add: holds_front)
qed

text \<open>Other queues do not notice.\<close>

lemma oq_push_frame:
  assumes "holds (nx, q) ops" "holds (nx, r) ops'" "set ops \<inter> set ops' = {}" "h \<notin> set ops'"
  shows "holds (fst (oq_push h (nx, q)), r) ops'"
proof -
  have "oq_back q = Some b \<Longrightarrow> b \<notin> set ops'" for b using assms(1,3) last_in_set [of ops] by (auto simp: holds_def disjoint_iff split: if_splits)
  then show ?thesis using assms(2,4) by (auto simp: holds_def oq_push_def Let_def split: option.split)
qed

lemma oq_pop_frame:
  assumes "holds (nx, q) ops" "holds (nx, r) ops'" "set ops \<inter> set ops' = {}"
  shows "holds (fst (oq_pop (nx, q)), r) ops'"
proof -
  have "oq_front q = Some a \<Longrightarrow> a \<notin> set ops'" for a using holds_front [OF assms(1)] assms(3) hd_in_set [of ops] by (auto simp: disjoint_iff split: if_splits)
  then show ?thesis using assms(2) by (auto simp: holds_def oq_pop_def Let_def split: option.split)
qed

text \<open>Walking a queue whose chain leads to \<open>h\<close>, whatever comes after it.\<close>

lemma oq_destroy_prefix:
  "chain nx p us (Some h) \<Longrightarrow> distinct us \<Longrightarrow> h \<notin> set us \<Longrightarrow>
     \<exists>nx'. nx' h = nx h \<and> oq_destroy ds (nx, \<lparr>oq_front = p, oq_back = b\<rparr>) = oq_destroy (ds @ us) (nx', \<lparr>oq_front = Some h, oq_back = b\<rparr>)"
proof (induction us arbitrary: nx p ds)
  case Nil
  then show ?case by auto
next
  case (Cons a us)
  obtain c where "nx a = Some c" using Cons.prems by (cases us) auto
  then have "oq_destroy ds (nx, \<lparr>oq_front = p, oq_back = b\<rparr>) = oq_destroy (ds @ [a]) (nx(a := None), \<lparr>oq_front = nx a, oq_back = b\<rparr>)"
    using Cons.prems by (subst oq_destroy.simps) (simp add: oq_pop_def Let_def)
  note 1 = this
  have 2: "chain (nx(a := None)) (nx a) us (Some h)" "distinct us" "h \<notin> set us" "(nx(a := None)) h = nx h" using Cons.prems by auto
  obtain nx' where "nx' h = (nx(a := None)) h" "oq_destroy (ds @ [a]) (nx(a := None), \<lparr>oq_front = nx a, oq_back = b\<rparr>) =
      oq_destroy ((ds @ [a]) @ us) (nx', \<lparr>oq_front = Some h, oq_back = b\<rparr>)"
    using Cons.IH [OF 2(1-3)] by blast
  then show ?case using 1 2(4) by (intro exI [of _ nx']) simp
qed

section \<open>The pool of descriptor states\<close>

text \<open>
  Live objects form a doubly linked list, free ones a singly linked one through the same member; \<open>pl_fresh\<close> is
  the address the next object is created at.
\<close>

record object_pool =
  pl_live :: "nat option"
  pl_free :: "nat option"
  p_next :: links
  p_prev :: links
  pl_fresh :: nat

definition pool_new :: "links \<Rightarrow> links \<Rightarrow> object_pool" where
  "pool_new n p = \<lparr>pl_live = None, pl_free = None, p_next = n, p_prev = p, pl_fresh = 0\<rparr>"

definition pool_alloc :: "object_pool \<Rightarrow> nat \<times> object_pool" where
  "pool_alloc P =
     (let (o', P1) = (case pl_free P of
            Some o' \<Rightarrow> (o', P\<lparr>pl_free := p_next P o'\<rparr>)
          | None \<Rightarrow> (pl_fresh P, P\<lparr>pl_fresh := pl_fresh P + 1\<rparr>));
          P2 = P1\<lparr>p_next := (p_next P1)(o' := pl_live P1), p_prev := (p_prev P1)(o' := None)\<rparr>;
          P3 = (case pl_live P2 of Some l \<Rightarrow> P2\<lparr>p_prev := (p_prev P2)(l := Some o')\<rparr> | None \<Rightarrow> P2) in
      (o', P3\<lparr>pl_live := Some o'\<rparr>))"

definition pool_free :: "nat \<Rightarrow> object_pool \<Rightarrow> object_pool" where
  "pool_free o' P =
     (let P1 = (if pl_live P = Some o' then P\<lparr>pl_live := p_next P o'\<rparr> else P);
          P2 = (case p_prev P1 o' of Some p \<Rightarrow> P1\<lparr>p_next := (p_next P1)(p := p_next P1 o')\<rparr> | None \<Rightarrow> P1);
          P3 = (case p_next P2 o' of Some n \<Rightarrow> P2\<lparr>p_prev := (p_prev P2)(n := p_prev P2 o')\<rparr> | None \<Rightarrow> P2) in
      P3\<lparr>p_next := (p_next P3)(o' := pl_free P3), p_prev := (p_prev P3)(o' := None), pl_free := Some o'\<rparr>)"

fun chain2 :: "links \<Rightarrow> links \<Rightarrow> nat option \<Rightarrow> nat option \<Rightarrow> nat list \<Rightarrow> nat option \<Rightarrow> nat option \<Rightarrow> bool" where
  "chain2 n p b a [] b' a' \<longleftrightarrow> b = b' \<and> a = a'"
| "chain2 n p b a (x # xs) b' a' \<longleftrightarrow> a = Some x \<and> p x = b \<and> chain2 n p (Some x) (n x) xs b' a'"

definition pool_holds :: "object_pool \<Rightarrow> nat list \<Rightarrow> nat list \<Rightarrow> bool" where
  "pool_holds P xs ys \<longleftrightarrow> (\<exists>l. chain2 (p_next P) (p_prev P) None (pl_live P) xs l None) \<and> chain (p_next P) (pl_free P) ys None
     \<and> distinct (xs @ ys) \<and> (\<forall>x \<in> set (xs @ ys). x < pl_fresh P)"

lemma chain2_append: "chain2 n p b a (xs @ ys) b' a' \<longleftrightarrow> (\<exists>b1 a1. chain2 n p b a xs b1 a1 \<and> chain2 n p b1 a1 ys b' a')"
  by (induction xs arbitrary: b a) auto

lemma chain2_frame:
  "(\<And>x. x \<in> set xs \<Longrightarrow> n' x = n x \<and> p' x = p x) \<Longrightarrow> chain2 n' p' b a xs b' a' = chain2 n p b a xs b' a'"
  by (induction xs arbitrary: b a) auto

lemma pool_alloc_holds:
  assumes "pool_holds P xs ys" "pool_alloc P = (o', P')"
  shows "pool_holds P' (o' # xs) (tl ys)" "o' = (if ys = [] then pl_fresh P else hd ys)"
proof -
  obtain l where l: "chain2 (p_next P) (p_prev P) None (pl_live P) xs l None" "chain (p_next P) (pl_free P) ys None"
      "distinct (xs @ ys)" "\<forall>x \<in> set (xs @ ys). x < pl_fresh P"
    using assms(1) by (auto simp: pool_holds_def)
  have o: "o' = (if ys = [] then pl_fresh P else hd ys)"
    using assms(2) l(2) by (cases ys) (auto simp: pool_alloc_def Let_def split: option.splits)
  have n: "o' \<notin> set xs" "o' \<notin> set (tl ys)" using l(3,4) by (cases ys; auto simp: o)+
  have live: "pl_live P = (if xs = [] then None else Some (hd xs))" using l(1) by (cases xs) auto
  have P': "pl_live P' = Some o'" "p_next P' = (p_next P)(o' := pl_live P)"
      "p_prev P' = (case pl_live P of Some h \<Rightarrow> (p_prev P)(o' := None, h := Some o') | None \<Rightarrow> (p_prev P)(o' := None))"
      "pl_free P' = (if ys = [] then None else p_next P (hd ys))" "pl_fresh P' = (if ys = [] then pl_fresh P + 1 else pl_fresh P)"
    using assms(2) l(2) by (cases ys; auto simp: pool_alloc_def Let_def split: option.splits)+
  have "\<exists>l. chain2 (p_next P') (p_prev P') None (pl_live P') (o' # xs) l None"
  proof (cases xs)
    case Nil
    then show ?thesis using live by (simp add: P')
  next
    case (Cons h hs)
    have "h \<notin> set hs" "o' \<noteq> h" "o' \<notin> set hs" using l(3) n(1) Cons by auto
    then have "chain2 (p_next P') (p_prev P') (Some h) (p_next P h) hs l None"
      using l(1) Cons live by (subst chain2_frame [of _ _ "p_next P" _ "p_prev P"]) (auto simp: P')
    then show ?thesis using Cons live n(1) by (auto simp: P')
  qed
  moreover have "chain (p_next P') (pl_free P') (tl ys) None" using l(2) n(2) by (cases ys) (auto simp: P')
  moreover have "distinct ((o' # xs) @ tl ys)" using l(3) n by (cases ys) auto
  moreover have "\<forall>x \<in> set ((o' # xs) @ tl ys). x < pl_fresh P'" using l(4) by (cases ys) (auto simp: P' o less_SucI)
  ultimately show "pool_holds P' (o' # xs) (tl ys)" by (auto simp: pool_holds_def)
  show "o' = (if ys = [] then pl_fresh P else hd ys)" by (rule o)
qed


lemma pool_free_holds:
  assumes "pool_holds P xs ys" "o' \<in> set xs"
  shows "pool_holds (pool_free o' P) (remove1 o' xs) (o' # ys)"
proof -
  obtain l where l: "chain2 (p_next P) (p_prev P) None (pl_live P) xs l None" "chain (p_next P) (pl_free P) ys None"
      "distinct (xs @ ys)" "\<forall>x \<in> set (xs @ ys). x < pl_fresh P"
    using assms(1) by (auto simp: pool_holds_def)
  obtain us vs where x: "xs = us @ o' # vs" using assms(2) by (auto simp: in_set_conv_decomp)
  have d: "distinct (us @ vs)" "o' \<notin> set us" "o' \<notin> set vs" "o' \<notin> set ys" "set (us @ vs) \<inter> set ys = {}" using l(3) x by auto
  obtain b where u: "chain2 (p_next P) (p_prev P) None (pl_live P) us b (Some o')" "p_prev P o' = b"
      "chain2 (p_next P) (p_prev P) (Some o') (p_next P o') vs l None"
    using l(1) by (auto simp: x chain2_append)
  define n where "n = p_next P o'"
  have b: "b = (if us = [] then None else Some (last us))" "us \<noteq> [] \<Longrightarrow> pl_live P \<noteq> Some o'"
  proof -
    show "b = (if us = [] then None else Some (last us))" using u(1)
      by (cases us rule: rev_cases) (auto simp: chain2_append)
    show "us \<noteq> [] \<Longrightarrow> pl_live P \<noteq> Some o'" using u(1) d(2) by (cases us) auto
  qed
  have n: "n = (if vs = [] then None else Some (hd vs))" using u(3) by (cases vs) (auto simp: n_def)
  have self: "b \<noteq> Some o'" "n \<noteq> Some o'" using b(1) n d(2,3) by (auto split: if_splits)
  let ?P = "pool_free o' P"
  have F: "pl_live ?P = (if us = [] then n else pl_live P)"
      "p_next ?P = (if us = [] then p_next P else (p_next P)(last us := n))(o' := pl_free P)"
      "p_prev ?P = (if vs = [] then p_prev P else (p_prev P)(hd vs := b))(o' := None)"
      "pl_free ?P = Some o'" "pl_fresh ?P = pl_fresh P"
  proof -
    have live: "us = [] \<Longrightarrow> pl_live P = Some o'" using u(1) by simp
    show "pl_live ?P = (if us = [] then n else pl_live P)"
      "p_next ?P = (if us = [] then p_next P else (p_next P)(last us := n))(o' := pl_free P)"
      "p_prev ?P = (if vs = [] then p_prev P else (p_prev P)(hd vs := b))(o' := None)"
      "pl_free ?P = Some o'" "pl_fresh ?P = pl_fresh P"
      using u(2) b n self live n_def
      by (cases "us = []"; cases "vs = []"; auto simp: pool_free_def Let_def)+
  qed
  have us: "chain2 (p_next ?P) (p_prev ?P) None (pl_live ?P) us b n"
  proof (cases us rule: rev_cases)
    case Nil
    then show ?thesis using u(1) by (simp add: F)
  next
    case (snoc ws w)
    have "w \<notin> set ws" "hd vs \<notin> set ws \<or> vs = []" "hd vs \<noteq> w \<or> vs = []" "o' \<notin> set ws" "w \<noteq> o'"
      using d snoc by (cases vs; auto)+
    moreover from this have "chain2 (p_next ?P) (p_prev ?P) None (pl_live P) ws b1 a1 = chain2 (p_next P) (p_prev P) None (pl_live P) ws b1 a1" for b1 a1
      using snoc by (intro chain2_frame) (auto simp: F)
    ultimately show ?thesis using u(1) snoc by (auto simp: chain2_append F)
  qed
  have vs: "chain2 (p_next ?P) (p_prev ?P) b n vs (if vs = [] then b else l) None"
  proof (cases vs)
    case Nil
    then show ?thesis using n by simp
  next
    case (Cons v ws)
    have "us \<noteq> [] \<Longrightarrow> last us \<notin> set vs" using d(1) last_in_set [of us] by (auto simp: disjoint_iff)
    then have "v \<notin> set ws" "o' \<notin> set ws" "v \<noteq> o'" "us \<noteq> [] \<Longrightarrow> last us \<noteq> v \<and> last us \<notin> set ws" using d Cons by auto
    moreover from this have "chain2 (p_next ?P) (p_prev ?P) (Some v) (p_next P v) ws l None"
      using u(3) Cons by (subst chain2_frame [of _ _ "p_next P" _ "p_prev P"]) (auto simp: F)
    ultimately show ?thesis using u(3) Cons n by (auto simp: F n_def)
  qed
  have "\<exists>l. chain2 (p_next ?P) (p_prev ?P) None (pl_live ?P) (us @ vs) l None" unfolding chain2_append using us vs by blast
  moreover have "remove1 o' xs = us @ vs" using d(2) by (simp add: x remove1_append)
  moreover have "chain (p_next ?P) (pl_free ?P) (o' # ys) None"
  proof -
    have "us \<noteq> [] \<Longrightarrow> last us \<notin> set ys" using d(5) last_in_set [of us] by (auto simp: disjoint_iff)
    then show ?thesis using l(2) d(4) by (auto simp: F)
  qed
  moreover have "distinct ((us @ vs) @ o' # ys)" "\<forall>x \<in> set ((us @ vs) @ o' # ys). x < pl_fresh ?P"
    using l(3,4) x by (auto simp: F)
  ultimately show ?thesis by (simp add: pool_holds_def)
qed


section \<open>The properties\<close>

lemma double_push:
  assumes "holds (nx, q) (us @ h # vs)"
  shows "oq_destroy [] (oq_push h (nx, q)) = Some (us @ (if vs = [] then [h, h] else [h]))"
proof (cases vs rule: rev_cases)
  case Nil
  have q: "chain nx (oq_front q) us (Some h)" "distinct us" "h \<notin> set us" "oq_back q = Some h"
    using assms Nil by (auto simp: holds_def chain_append)
  let ?nx = "nx(h := Some h)"
  have p: "oq_push h (nx, q) = (?nx, \<lparr>oq_front = oq_front q, oq_back = Some h\<rparr>)"
    using q(4) by (cases q) (simp add: oq_push_def)
  have "chain ?nx (oq_front q) us (Some h)" using q(1,3) by simp
  then obtain nx' where nx': "nx' h = Some h" "oq_destroy [] (oq_push h (nx, q)) = oq_destroy us (nx', \<lparr>oq_front = Some h, oq_back = Some h\<rparr>)"
    using oq_destroy_prefix [of ?nx "oq_front q" us h "[]" "Some h"] q(2,3) by (auto simp: p)
  have "oq_destroy us (nx', \<lparr>oq_front = Some h, oq_back = Some h\<rparr>) = Some (us @ [h, h])"
    using nx'(1) by (simp add: oq_destroy.simps oq_pop_def Let_def)
  then show ?thesis using nx'(2) Nil by simp
next
  case (snoc ws w)
  have q: "chain nx (oq_front q) us (Some h)" "chain nx (nx h) (ws @ [w]) None" "distinct (us @ h # ws @ [w])" "oq_back q = Some w"
    using assms snoc by (auto simp: holds_def chain_append)
  have "oq_push h (nx, q) = (nx(h := None, w := Some h), \<lparr>oq_front = oq_front q, oq_back = Some h\<rparr>)"
    using q(4) by (cases q) (simp add: oq_push_def)
  moreover have "chain (nx(h := None, w := Some h)) (oq_front q) (us @ [h]) None" using q(1,3) by (auto simp: chain_append)
  ultimately have "holds (oq_push h (nx, q)) (us @ [h])" using q(3) by (simp add: holds_def)
  then show ?thesis using oq_destroy_holds [of "oq_push h (nx, q)" "us @ [h]" "[]"] snoc by simp
qed

text \<open>
  C19: The linked queue of operations refines a list: pushing appends, popping removes the first, pushing a
  queue appends it and empties it, the destructor destroys every operation once and in order and ends, and no
  operation disturbs another queue with other operations, although all queues share the links.
\<close>

theorem op_queue_refines:
  assumes "holds (nx, q) ops" "h \<notin> set ops" "holds (nx, r) ops'" "set (h # ops) \<inter> set ops' = {}"
  shows "holds (oq_push h (nx, q)) (ops @ [h]) \<and> holds (oq_pop (nx, q)) (tl ops)
    \<and> oq_front q = (if ops = [] then None else Some (hd ops)) \<and> oq_destroy [] (nx, q) = Some ops
    \<and> holds (snd (oq_splice r (nx, q))) (ops @ ops') \<and> fst (oq_splice r (nx, q)) = oq_new
    \<and> holds (fst (oq_push h (nx, q)), r) ops' \<and> holds (fst (oq_pop (nx, q)), r) ops'"
proof -
  have "set ops \<inter> set ops' = {}" "h \<notin> set ops'" using assms(4) by auto
  then show ?thesis
    using oq_push_holds [OF assms(1,2)] oq_pop_holds [OF assms(1)] holds_front [OF assms(1)] oq_destroy_holds [OF assms(1), of "[]"]
      oq_splice_holds [OF assms(1,3)] oq_push_frame [OF assms(1,3)] oq_pop_frame [OF assms(1,3)] by simp
qed

lemma push_three: "holds (oq_push 7 (oq_push 6 (oq_push 5 (\<lambda>_. None, oq_new)))) [5, 6, 7]"
  by (simp add: holds_def oq_push_def oq_new_def)

theorem op_queue_refines_witness:
  "holds (oq_push 8 (oq_push 7 (oq_push 6 (oq_push 5 (\<lambda>_. None, oq_new))))) [5, 6, 7, 8]
     \<and> holds (oq_pop (oq_push 7 (oq_push 6 (oq_push 5 (\<lambda>_. None, oq_new))))) [6, 7]"
proof -
  obtain nx q where x: "oq_push 7 (oq_push 6 (oq_push 5 (\<lambda>_. None, oq_new))) = (nx, q)" by (rule prod.exhaust)
  then have "holds (nx, q) [5, 6, 7]" using push_three by simp
  from op_queue_refines [OF this, of 8 oq_new "[]"] show ?thesis by (simp add: x)
qed

text \<open>
  C20: Queueing an operation that is queued already tears the queue: if others were queued behind it they are
  never reached again, and if it was the last it is handed out twice.
\<close>

theorem double_push_tears:
  assumes "holds x (us @ h # vs)"
  shows "oq_destroy [] (oq_push h x) = Some (us @ (if vs = [] then [h, h] else [h]))"
  using double_push [of "fst x" "snd x"] assms by simp

theorem double_push_tears_witness:
  "oq_destroy [] (oq_push 6 (oq_push 7 (oq_push 6 (oq_push 5 (\<lambda>_. None, oq_new))))) = Some [5, 6]
     \<and> oq_destroy [] (oq_push 7 (oq_push 7 (oq_push 6 (oq_push 5 (\<lambda>_. None, oq_new))))) = Some [5, 6, 7, 7]"
  using double_push_tears [of _ "[5]" 6 "[7]"] double_push_tears [of _ "[5, 6]" 7 "[]"] push_three by simp

text \<open>
  C21: The pool of descriptor states refines the two lists the reactor is described with: allocating takes
  the first free state, or a new one, to the front of the live list, and freeing a live one from
  anywhere in that list takes it to the front of the free list.
\<close>

theorem object_pool_refines:
  assumes "pool_holds P (live_list s) (free_list s)" "pl_fresh P = created s" "pool_alloc P = (o1, P1)"
    "allocate_descriptor_state s = (o2, s')" "d \<in> set (live_list s)"
  shows "o1 = o2 \<and> pool_holds P1 (live_list s') (free_list s') \<and> pl_fresh P1 = created s'
    \<and> pool_holds (pool_free d P) (live_list (free_descriptor_state d s)) (free_list (free_descriptor_state d s))"
proof -
  note a = pool_alloc_holds [OF assms(1,3)]
  have "pl_fresh P1 = (if free_list s = [] then pl_fresh P + 1 else pl_fresh P)"
    using assms(1,3) by (cases "free_list s") (auto simp: pool_holds_def pool_alloc_def Let_def split: option.splits)
  then show ?thesis
    using a assms(2,4) pool_free_holds [OF assms(1,5)]
    by (cases "free_list s") (auto simp: allocate_descriptor_state_def free_descriptor_state_def)
qed

definition pool2 :: object_pool where
  "pool2 = snd (pool_alloc (snd (pool_alloc (pool_new (\<lambda>_. None) (\<lambda>_. None)))))"

definition kernel_any :: "unit kernel" where
  "kernel_any = \<lparr>k_epoll_wait = \<lambda>_ k. Some ([], k), k_epoll_ctl = \<lambda>_ k. (0, k), k_timerfd_settime = \<lambda>_ _ _ k. k,
     k_clock = \<lambda>k. (0, k), k_perform = \<lambda>p k. (True, p, k)\<rparr>"

definition reactor2 :: "(unit, unit, unit) reactor" where
  "reactor2 = snd (allocate_descriptor_state (snd (allocate_descriptor_state
     (epoll_reactor_new kernel_any 3 (\<lambda>_. timer_queue_new (\<lambda>_. per_timer_data 0))
       (\<lambda>_. \<lparr>descriptor = - 1, registered_events = 0, op_queues = \<lambda>_. [], d_shutdown = True, task_result = 0\<rparr>) 2 () ()))))"

theorem object_pool_refines_witness:
  "pool_holds (pool_free 0 pool2) [1] [0] \<and> fst (pool_alloc pool2) = 2"
proof -
  have r: "live_list reactor2 = [1, 0]" "free_list reactor2 = []" "created reactor2 = 2" by code_simp+
  have p: "pool_holds pool2 (live_list reactor2) (free_list reactor2)" "pl_fresh pool2 = created reactor2"
    by (simp_all add: r pool2_def pool_new_def pool_alloc_def pool_holds_def Let_def)
  obtain o1 P1 o2 s' where a: "pool_alloc pool2 = (o1, P1)" "allocate_descriptor_state reactor2 = (o2, s')"
    by (cases "pool_alloc pool2"; cases "allocate_descriptor_state reactor2") auto
  have "o2 = 2" using a(2) by (simp add: allocate_descriptor_state_def r)
  then show ?thesis
    using object_pool_refines [OF p a, of 0] a(1) by (simp add: r free_descriptor_state_def)
qed

end
