(* ===== verification/Spec2Isabelle.thy ===== *)
theory Spec2Isabelle imports Group TcpPeers NetInterface WorkerTimeout OpQueue begin

text \<open>
  libgscale: processes of one or several hosts join named groups, connect nodes to them and exchange packets
  through exchangeable backends. This library of theories models the program as it is written and states
  what its parts do, including where they do not do what they mean to.

  \<^bold>\<open>The program and its parts.\<close> A program owns a \<open>Group\<close> (\<open>src/src/group.hpp\<close>), a shell around a \<open>GroupCore\<close>
  (\<open>src/src/groupcore.cpp\<close>). The core keeps three tables (local nodes, backends, packets to send), each a
  \<open>boost::multi_index_container\<close>, and an \<open>io_service\<close>. Attaching a backend and connecting a node change the
  tables and post or dispatch handlers; \<open>runWorker\<close> runs them, with a timer as its time limit, and then drops
  the rows nothing refers to. A backend (\<open>src/src/backend\<close>) is an object behind the interface \<open>IBackend\<close>: the
  loopback backend announces the nodes of a group to each other, the TCP backend discovers other hosts by
  multicast, keeps one session for each of them, and sends packets with a framing protocol. Under the program
  lies the repository's own copy of Boost; the libraries it rests on for its logic are modelled too: UUIDs and
  SHA-1 (identities), date_time (times and the ids made of them), the timer queue, the scheduler and the
  reactor of Asio (the worker).

  \<^bold>\<open>Theories and sources\<close>, in the order of their imports:
  \<^item> \<open>Prelude\<close>: machine integers, byte order, raw buffers, and the outcomes of an operation: a value, a thrown
    exception, undefined behaviour with its reason, the end of the program. \<open>seq\<close> chains such results.
  \<^item> \<open>Uuid\<close>, \<open>Sha1\<close>: \<open>boost/uuid\<close>; the record \<open>sha1\<close> is the class with its block buffer and counters, and its
    digest is proved to be the one of FIPS 180.
  \<^item> \<open>INode\<close>, \<open>Packet\<close>, \<open>Exceptions\<close>: \<open>inode.cpp\<close>, \<open>core.cpp\<close>, \<open>packet.cpp\<close>, \<open>exception.cpp\<close>; archives are lists
    of items, the string streams of exceptions live on a heap of addresses.
  \<^item> \<open>MultiIndex\<close>, \<open>GroupTables\<close>, \<open>GroupCore\<close>, \<open>GroupWorker\<close>, \<open>Group\<close>: the container's contract as a locale
    (\<open>keyed_table\<close>), the rows and their keys, and the core. The record \<open>gcore\<close> is the object: tables, queue of
    posted handlers, stopped flag, callbacks made so far. The handlers of backends are a parameter \<open>exec\<close>; what
    they must keep is the locale \<open>handler_runtime\<close>.
  \<^item> \<open>Loopback\<close>: \<open>backend/loopback.cpp\<close> and the example program, which interprets that locale.
  \<^item> \<open>TcpProtocol\<close>, \<open>TcpSession\<close>, \<open>TcpBackend\<close>, \<open>TcpPeers\<close>, \<open>Endpoint\<close>: \<open>backend/tcp/protocol.hpp\<close>,
    \<open>tcp/session.cpp\<close>, \<open>tcp.cpp\<close> and the addresses of Asio. A session answers a completion with a list of actions;
    the record \<open>tcp\<close> is the backend with its started operations; a history is a list of completions in any order.
  \<^item> \<open>NetInterface\<close>: \<open>util/netinterface.cpp\<close>, the Linux branch; the ioctl answers are a parameter.
  \<^item> \<open>IntAdapter\<close>, \<open>Gregorian\<close>, \<open>Calendar\<close>, \<open>PosixTime\<close>: \<open>boost/date_time\<close>: integers with special values at
    their machine widths, dates, times and durations of microseconds.
  \<^item> \<open>TimerQueue\<close>, \<open>TimerOrder\<close>: \<open>asio/detail/timer_queue.hpp\<close>, the array heap with back indices and the linked
    list of timers, and the timer of the worker.
  \<^item> \<open>Scheduler\<close>, \<open>ServiceLoop\<close>: \<open>task_io_service\<close>. The record \<open>task_io_service\<close> is the object with the stack of
    thread contexts; nested runs push a context. \<open>event_loop\<close> is the interface of what it calls.
  \<^item> \<open>Reactor\<close>, \<open>ReactorLoop\<close>, \<open>ReactorTimers\<close>: \<open>epoll_reactor\<close>, extending that record by timer queues and descriptor
    states; the kernel (epoll, timerfd, clock, the perform functions of operations) is a record of functions.
  \<^item> \<open>OpQueue\<close>: \<open>op_queue.hpp\<close> and \<open>object_pool.hpp\<close> at the level of their pointers; the theories above use lists
    in their place, which \<open>OpQueue\<close> justifies.
  \<^item> \<open>WorkerLoop\<close>, \<open>WorkerTimeout\<close>: \<open>GroupCore::runWorker\<close> executed on the scheduler and the reactor, without a time
    limit and with one, when its \<open>deadline_timer\<close> waits in the reactor.

  \<^bold>\<open>Loops.\<close> No definition uses fuel. A loop that the code may never leave is a partial function, whose value
  \<open>None\<close> means that the call does not return; statements about it say when the value is \<open>Some\<close>.

  \<^bold>\<open>What is shown.\<close> The group: connecting and attaching on every branch, the rows that survive a worker run, the
  invariant of its tables over every history (\<open>connect_registers\<close>, \<open>backend_lifecycle\<close>, \<open>runWorker_cleanup\<close>,
  \<open>loopback_worker_drops_all_nodes\<close>); the queue model of the worker is refined by the worker on the modelled
  event loop (\<open>worker_refines_group\<close>). The wire protocol: the first write of a packet, what completions do to it, the
  outcome of every received chunk. The sessions and peers of the TCP backend over every order of completions.
  The event loop: the account of outstanding work, the end of a run, the timer descriptor. The timer queue
  refines a multiset of expiry times, the calendar corresponds to day numbers one to one, the integers with
  special values refine the extended integers, the name-based UUIDs are those of the standards, the linked
  containers refine lists. Many of the properties state a behaviour the code's comments or its callers do not
  expect; these are listed as findings beside the manifest of the properties.

  \<^bold>\<open>Parameters and hypotheses.\<close> The kernel, the random engine, the clock, the archives of
  Boost.Serialization and the handlers of backends are arguments. Hypotheses about them are named:
  \<open>kernel_ok\<close> (a poll reports a descriptor at most once), \<open>clock_kernel\<close> (the monotonic clock does not go back and a
  timer descriptor fires when it was set to on that clock) and \<open>accurate\<close> (the wall clock stays within a deviation of
  the monotonic one, and the calls that read a clock or set the descriptor take at most a given time), \<open>polls\<close> (a poll
  returns), \<open>quiet_kernel\<close> (no descriptor is reported as none is registered, the clock is in range), \<open>passes\<close> (the clock
  reaches a time after finitely many waits), \<open>posts_only\<close> (a handler adds to the queue and does not inspect it). Each
  property with such a hypothesis has a witness at a concrete instance.

  \<^bold>\<open>Not modelled.\<close> Threads: the program has one, so locks are free and waits for other threads do not return.
  Text input and output of dates, times and addresses; the sockets of Asio, whose completions are
  events of the TCP backend; the creation of epoll and timer descriptors, which only calls the kernel; the
  Windows and BSD branches of \<open>netinterface.cpp\<close>. The shared memory backend is not part of the
  program (\<open>gscale.hpp\<close> does not include it and it does not compile). The other libraries of the vendored Boost are not
  used by the program.
\<close>

end
